(* ===== verification/Prelude.thy ===== *)
theory Prelude
  imports Main "HOL-Library.Word" "HOL-Library.Monad_Syntax"
begin

text \<open>
  What every component shares: the names of the machine types, the collections of facts the
  component proofs feed to the simplifier, and generic lemmas on words, options and on the
  linked lists that the C++ code builds with a \<open>next\<close> field.
\<close>

unbundle bit_operations_syntax

type_synonym u64 = "64 word"

named_theorems region_simps \<open>reading the interval tests as statements on sets of locations\<close>
named_theorems chain_simps \<open>walking a linked list\<close>
named_theorems inv_intros \<open>an operation keeps an invariant\<close>

section \<open>Words\<close>

text \<open>An address computation that stays inside the address space does not wrap.\<close>

lemma unat_add_no_wrap:
  fixes a b :: u64
  assumes "unat a + unat b < 2 ^ 64"
  shows "unat (a + b) = unat a + unat b"
  using assms by (simp add: unat_word_ariths(1))

lemma unat_sub_le:
  fixes a b :: u64
  assumes "b \<le> a"
  shows "unat (a - b) = unat a - unat b"
  using assms by (rule unat_sub)

lemma unat_pos_iff: "0 < unat (a :: u64) \<longleftrightarrow> a \<noteq> 0"
  by (simp add: unat_gt_0)

text \<open>The last byte of a non-empty region.\<close>

lemma unat_last_byte:
  fixes a b :: u64
  assumes "0 < b" and "unat a + unat b < 2 ^ 64"
  shows "unat (a + b - 1) = unat a + unat b - 1"
proof -
  have b1: "1 \<le> unat b"
    using assms(1) by (metis Suc_leI One_nat_def word_less_nat_alt unat_0)
  have ab: "unat (a + b) = unat a + unat b"
    using assms(2) by (rule unat_add_no_wrap)
  then have "(1 :: u64) \<le> a + b"
    using b1 by (simp add: word_le_nat_alt)
  then show ?thesis
    using ab by (simp add: unat_sub_le)
qed

section \<open>Linked lists\<close>

text \<open>
  A field \<open>next\<close> of heap cells, read through a partial map: \<open>chain nx p ps q\<close> says that
  following \<open>next\<close> from \<open>p\<close> visits exactly the cells \<open>ps\<close> and then reaches \<open>q\<close>. A pointer
  is an \<open>option\<close>, \<open>None\<close> being \<open>nullptr\<close>; a cell that is not allocated maps to \<open>None\<close>.
\<close>

primrec chain :: "('p \<Rightarrow> 'p option option) \<Rightarrow> 'p option \<Rightarrow> 'p list \<Rightarrow> 'p option \<Rightarrow> bool" where
  "chain nx p [] q \<longleftrightarrow> p = q"
| "chain nx p (x # xs) q \<longleftrightarrow> p = Some x \<and> (\<exists>r. nx x = Some r \<and> chain nx r xs q)"

lemma chain_append [chain_simps]:
  "chain nx p (xs @ ys) q \<longleftrightarrow> (\<exists>r. chain nx p xs r \<and> chain nx r ys q)"
  by (induction xs arbitrary: p) auto

lemma chain_upd [chain_simps]:
  "x \<notin> set ps \<Longrightarrow> chain (nx(x := v)) p ps q \<longleftrightarrow> chain nx p ps q"
  by (induction ps arbitrary: p) auto

lemma chain_cong:
  "(\<And>x. x \<in> set ps \<Longrightarrow> nx x = nx' x) \<Longrightarrow> chain nx p ps q \<longleftrightarrow> chain nx' p ps q"
  by (induction ps arbitrary: p) auto

lemma chain_null_unique:
  "chain nx p xs None \<Longrightarrow> chain nx p ys None \<Longrightarrow> xs = ys"
proof (induction xs arbitrary: p ys)
  case Nil
  then show ?case by (cases ys) auto
next
  case (Cons x xs)
  then show ?case by (cases ys) auto
qed

lemma chain_null_distinct: "chain nx p ps None \<Longrightarrow> distinct ps"
proof (induction ps arbitrary: p)
  case Nil
  then show ?case by simp
next
  case (Cons x ps)
  from Cons.prems obtain r where r: "nx x = Some r" "chain nx r ps None"
    by auto
  have "x \<notin> set ps"
  proof
    assume "x \<in> set ps"
    then obtain us vs where ps: "ps = us @ x # vs"
      by (auto dest: split_list)
    with r have "chain nx (Some x) (x # vs) None"
      by (auto simp: chain_simps)
    with r have "chain nx r vs None" by simp
    with r(2) have "ps = vs"
      by (rule chain_null_unique)
    with ps show False by simp
  qed
  with Cons.IH [OF r(2)] show ?case by simp
qed

lemma chain_hd: "chain nx p ps None \<Longrightarrow> p = (case ps of [] \<Rightarrow> None | x # _ \<Rightarrow> Some x)"
  by (cases ps) auto

section \<open>Lists\<close>

text \<open>The position order of a list without duplicates: \<open>x\<close> stands before \<open>y\<close>.\<close>

definition before :: "'a list \<Rightarrow> 'a \<Rightarrow> 'a \<Rightarrow> bool" where
  "before xs x y \<longleftrightarrow> (\<exists>us vs. xs = us @ x # vs \<and> y \<in> set vs)"

lemma before_in_set: "before xs x y \<Longrightarrow> x \<in> set xs \<and> y \<in> set xs"
  by (auto simp: before_def)

lemma before_Nil [simp]: "\<not> before [] x y"
  by (simp add: before_def)

lemma before_Cons: "before (a # xs) x y \<longleftrightarrow> (x = a \<and> y \<in> set xs) \<or> before xs x y"
proof
  assume "before (a # xs) x y"
  then obtain us vs where e: "a # xs = us @ x # vs" and y: "y \<in> set vs"
    by (auto simp: before_def)
  show "(x = a \<and> y \<in> set xs) \<or> before xs x y"
    using e y by (cases us) (auto simp: before_def)
next
  assume "(x = a \<and> y \<in> set xs) \<or> before xs x y"
  then show "before (a # xs) x y"
    unfolding before_def by (metis append_Cons append_Nil)
qed

lemma before_irrefl: "distinct xs \<Longrightarrow> \<not> before xs x x"
  by (auto simp: before_def)

lemma before_asym: "distinct xs \<Longrightarrow> before xs x y \<Longrightarrow> \<not> before xs y x"
  by (induction xs) (auto simp: before_Cons dest: before_in_set)

lemma before_trans: "distinct xs \<Longrightarrow> before xs x y \<Longrightarrow> before xs y z \<Longrightarrow> before xs x z"
  by (induction xs) (auto simp: before_Cons dest: before_in_set)

lemma before_total:
  "x \<in> set xs \<Longrightarrow> y \<in> set xs \<Longrightarrow> x \<noteq> y \<Longrightarrow> before xs x y \<or> before xs y x"
  by (induction xs) (auto simp: before_Cons)

lemma before_split: "distinct (us @ x # vs) \<Longrightarrow> before (us @ x # vs) x y \<longleftrightarrow> y \<in> set vs"
  by (induction us) (auto simp: before_Cons dest: before_in_set)

section \<open>Sums over threads\<close>

text \<open>One thread of many changes its state.\<close>

lemma sum_upd:
  fixes g :: "'b \<Rightarrow> 'c :: comm_monoid_add"
  assumes "finite A" and "t \<in> A"
  shows "(\<Sum>u\<in>A. g ((f(t := x)) u)) + g (f t) = (\<Sum>u\<in>A. g (f u)) + g x"
proof -
  have "(\<Sum>u\<in>A - {t}. g ((f(t := x)) u)) = (\<Sum>u\<in>A - {t}. g (f u))"
    by (rule sum.cong) auto
  then show ?thesis
    using assms by (simp add: sum.remove [of A t] ac_simps)
qed

end
