(* ===== verification/Pool.thy ===== *)
theory Pool
  imports Prelude
begin

text \<open>
  The memory pools of \<open>LinkedListPool.h\<close> and \<open>DummyLinkedListPool.h\<close>. The first keeps its
  free cells in a linked list whose head is a machine word: the address in the low 48 bits, a
  counter of the changes of the head in the high 16. The second hands every request to the
  system allocator. The system allocator is not modelled: the addresses it returns are an
  argument of the operations.
\<close>

section \<open>Tagged pointers\<close>

definition H_MASK :: u64 where "H_MASK = 0xFFFF000000000000"
definition L_MASK :: u64 where "L_MASK = 0x0000FFFFFFFFFFFF"
definition H_INCR :: u64 where "H_INCR = 0x0001000000000000"

definition clean_ptr :: "u64 \<Rightarrow> u64" where
  "clean_ptr p = p AND L_MASK"

definition next_ptr :: "u64 \<Rightarrow> u64 \<Rightarrow> u64" where
  "next_ptr new_node cur_head = new_node OR ((cur_head + H_INCR) AND H_MASK)"

text \<open>The counter in the high bits.\<close>

definition tag :: "u64 \<Rightarrow> 16 word" where
  "tag p = ucast (drop_bit 48 p)"

lemma masks_apart: "H_MASK AND L_MASK = 0"
  by (simp add: H_MASK_def L_MASK_def)

lemma L_MASK_mask: "L_MASK = mask 48"
  by (simp add: L_MASK_def mask_eq_exp_minus_1)

lemma clean_ptr_take: "clean_ptr p = take_bit 48 p"
  by (simp add: clean_ptr_def L_MASK_mask take_bit_eq_mask)

lemma clean_ptr_idem [simp]: "clean_ptr (clean_ptr p) = clean_ptr p"
  by (simp add: clean_ptr_take)

lemma clean_ptr_0 [simp]: "clean_ptr 0 = 0"
  by (simp add: clean_ptr_take)

lemma clean_next_ptr: "clean_ptr (next_ptr p c) = clean_ptr p"
proof -
  have "((c + H_INCR) AND H_MASK) AND L_MASK = 0"
    by (simp add: and.assoc masks_apart)
  then show ?thesis
    by (simp add: next_ptr_def clean_ptr_def bit.conj_disj_distrib2)
qed

lemma H_MASK_bits: "bit H_MASK n \<longleftrightarrow> 48 \<le> n \<and> n < 64"
proof -
  have *: "H_MASK = push_bit 48 (mask 16)"
    by (simp add: H_MASK_def mask_eq_exp_minus_1 push_bit_eq_mult)
  show ?thesis
    unfolding * by (auto simp: bit_simps)
qed

lemma tag_high: "tag (p AND H_MASK) = tag p"
  by (rule bit_word_eqI) (auto simp: tag_def bit_simps H_MASK_bits)

lemma tag_or_clean: "tag (clean_ptr p OR w) = tag w"
  by (rule bit_word_eqI) (auto simp: tag_def bit_simps clean_ptr_take)

lemma tag_incr: "tag (c + H_INCR) = tag c + 1"
proof -
  have u: "unat (tag w) = take_bit 16 (unat w div 2 ^ 48)" for w
    unfolding tag_def unsigned_ucast_eq unsigned_drop_bit_eq
    unfolding drop_bit_eq_div by (simp add: take_bit_nat_eq_self unsigned_less [of w, simplified])
  have "unat (c + H_INCR) = take_bit 64 (unat c + 2 ^ 48)"
    by (simp add: unat_word_ariths take_bit_eq_mod H_INCR_def)
  then have "unat (c + H_INCR) div 2 ^ 48 = take_bit 16 ((unat c + 2 ^ 48) div 2 ^ 48)"
    using drop_bit_take_bit [of 48 64 "unat c + 2 ^ 48"] by (simp add: drop_bit_eq_div)
  also have "(unat c + 2 ^ 48) div 2 ^ 48 = unat c div 2 ^ 48 + (1 :: nat)"
    by simp
  finally have "unat (tag (c + H_INCR)) = take_bit 16 (unat c div 2 ^ 48 + 1)"
    by (simp add: u)
  moreover have "unat (tag c + 1) = take_bit 16 (take_bit 16 (unat c div 2 ^ 48) + 1)"
    by (simp add: unat_word_ariths u take_bit_eq_mod)
  ultimately show ?thesis
    by (simp add: word_unat_eq_iff take_bit_eq_mod mod_Suc_eq)
qed

lemma tag_next_ptr:
  assumes "clean_ptr p = p"
  shows "tag (next_ptr p c) = tag c + 1"
  using tag_or_clean [of p "(c + H_INCR) AND H_MASK"] assms
  by (simp add: next_ptr_def tag_high tag_incr)

text \<open>A tagged pointer is its address and its counter.\<close>

lemma tagged_eqI:
  assumes "clean_ptr a = clean_ptr b" and "tag a = tag b"
  shows "a = b"
proof (rule bit_word_eqI)
  fix n assume n: "n < LENGTH(64)"
  show "bit a n = bit b n"
  proof (cases "n < 48")
    case True
    then show ?thesis
      using arg_cong [OF assms(1), of "\<lambda>w. bit w n"] by (simp add: clean_ptr_take bit_simps)
  next
    case False
    then show ?thesis
      using arg_cong [OF assms(2), of "\<lambda>w. bit w (n - 48)"] n by (auto simp: tag_def bit_simps)
  qed
qed

section \<open>The list of free cells\<close>

text \<open>
  The state of a \<open>LinkedListPool<T, ALLOC_ONCE, SCALABLE>\<close>: its fields, its template
  parameters, and the part of the memory it works on. \<open>nxt p\<close> is the field \<open>next\<close> of the
  object at \<open>p\<close>, \<open>None\<close> where the pool has no cell; \<open>built p\<close> says that a constructor has run
  at \<open>p\<close> and no destructor since. \<open>ctor\<close> is what the constructor of \<open>T\<close> leaves in \<open>next\<close>,
  given what was there.
\<close>

record pool =
  chunks :: "u64 list"
  chunk_size :: int
  min_tsize :: int
  pool_head :: u64
  alloc_once :: bool
  ctor :: "u64 option \<Rightarrow> u64"
  nxt :: "u64 \<Rightarrow> u64 option"
  built :: "u64 \<Rightarrow> bool"

text \<open>\<open>new (p) T()\<close> and \<open>p->~T()\<close>.\<close>

definition construct :: "u64 \<Rightarrow> pool \<Rightarrow> pool" where
  "construct p s = s\<lparr>nxt := (nxt s)(p \<mapsto> ctor s (nxt s p)), built := (built s)(p := True)\<rparr>"

definition destroy :: "u64 \<Rightarrow> pool \<Rightarrow> pool" where
  "destroy p s = s\<lparr>built := (built s)(p := False)\<rparr>"

definition construct_always :: "u64 \<Rightarrow> pool \<Rightarrow> pool" where
  "construct_always p s = (if alloc_once s then construct p s else s)"

text \<open>The loop of \<open>allocate\<close> that chains the cells of a new chunk.\<close>

partial_function (option) link_chunk :: "u64 \<Rightarrow> u64 \<Rightarrow> u64 \<Rightarrow> pool \<Rightarrow> pool option" where
  "link_chunk m endptr p s =
    (let baseptr = p + m;
         s1 = construct_always p s;
         s2 = s1\<lparr>nxt := (nxt s1)(p \<mapsto> baseptr)\<rparr>
     in if baseptr \<le> endptr then link_chunk m endptr baseptr s2 else Some s2)"

text \<open>
  The end of every \<open>freeLinkedList\<close>: the last cell is linked to the old head and the head
  moved to the first cell, its counter one higher.
\<close>

definition splice :: "u64 \<Rightarrow> u64 \<Rightarrow> pool \<Rightarrow> pool option" where
  "splice datain last_datain s =
    (case nxt s last_datain of
       None \<Rightarrow> None
     | Some _ \<Rightarrow> Some (s\<lparr>nxt := (nxt s)(last_datain \<mapsto> pool_head s),
                         pool_head := next_ptr datain (pool_head s)\<rparr>))"

text \<open>The destructor loop of \<open>freeLinkedList(datain, last_datain, no_dealloc)\<close>.\<close>

partial_function (option) destroy_list :: "u64 \<Rightarrow> pool \<Rightarrow> pool option" where
  "destroy_list p s =
    (if p = 0 then Some s
     else (let s1 = destroy p s in
           case nxt s1 p of None \<Rightarrow> None | Some n \<Rightarrow> destroy_list n s1))"

definition freeLinkedList :: "u64 \<Rightarrow> u64 \<Rightarrow> bool \<Rightarrow> pool \<Rightarrow> pool option" where
  "freeLinkedList datain last_datain no_dealloc s =
    (if \<not> alloc_once s \<and> \<not> no_dealloc
     then (case nxt s last_datain of
             None \<Rightarrow> None
           | Some _ \<Rightarrow>
               (case destroy_list datain (s\<lparr>nxt := (nxt s)(last_datain \<mapsto> 0)\<rparr>) of
                  None \<Rightarrow> None
                | Some s1 \<Rightarrow> splice datain last_datain s1))
     else splice datain last_datain s)"

text \<open>
  A new chunk. \<open>chunk_size * min_tsize\<close> is an \<open>int\<close> product; when it does not fit, or when
  the system has no memory (\<open>block\<close> is null), the code has no defined behaviour.
\<close>

definition allocate :: "u64 \<Rightarrow> pool \<Rightarrow> pool option" where
  "allocate block s =
    (let bytes = chunk_size s * min_tsize s;
         endptr = block + of_int (min_tsize s * (chunk_size s - 1))
     in if bytes \<le> 0 \<or> 2 ^ 31 \<le> bytes \<or> block = 0 then None
        else (case link_chunk (of_int (min_tsize s)) endptr block s of
                None \<Rightarrow> None
              | Some s1 \<Rightarrow> freeLinkedList block endptr True (s1\<lparr>chunks := chunks s1 @ [block]\<rparr>)))"

text \<open>
  \<open>intl_malloc\<close> with no other thread at work, so that the exchange succeeds. The first
  argument lists what the system allocator answers; the result has what is left of it.
\<close>

fun refill :: "u64 list \<Rightarrow> pool \<Rightarrow> (u64 list \<times> pool) option" where
  "refill bs s =
    (if clean_ptr (pool_head s) \<noteq> 0 then Some (bs, s)
     else (case bs of
             [] \<Rightarrow> None
           | b # bs' \<Rightarrow> (case allocate b s of None \<Rightarrow> None | Some s' \<Rightarrow> refill bs' s')))"

definition intl_malloc :: "u64 list \<Rightarrow> pool \<Rightarrow> (u64 \<times> u64 list \<times> pool) option" where
  "intl_malloc bs s =
    (case refill bs s of
       None \<Rightarrow> None
     | Some (bs', s') \<Rightarrow>
         (let ret = pool_head s' in
          case nxt s' (clean_ptr ret) of
            None \<Rightarrow> None
          | Some n \<Rightarrow> Some (clean_ptr ret, bs', s'\<lparr>pool_head := next_ptr (clean_ptr n) ret\<rparr>)))"

text \<open>\<open>malloc()\<close> builds the object only when the pool destroys it on return.\<close>

definition malloc :: "u64 list \<Rightarrow> pool \<Rightarrow> (u64 \<times> u64 list \<times> pool) option" where
  "malloc bs s =
    (case intl_malloc bs s of
       None \<Rightarrow> None
     | Some (ret, bs', s') \<Rightarrow>
         Some (ret, bs', if \<not> alloc_once s' then construct ret s' else s'))"

text \<open>\<open>malloc(args)\<close> always builds it.\<close>

definition malloc_with :: "u64 list \<Rightarrow> pool \<Rightarrow> (u64 \<times> u64 list \<times> pool) option" where
  "malloc_with bs s =
    (case intl_malloc bs s of
       None \<Rightarrow> None
     | Some (ret, bs', s') \<Rightarrow> Some (ret, bs', construct ret s'))"

definition free :: "u64 \<Rightarrow> pool \<Rightarrow> pool option" where
  "free datain s =
    (let s1 = if \<not> alloc_once s then destroy datain s else s
     in case nxt s1 datain of
          None \<Rightarrow> None
        | Some _ \<Rightarrow> Some (s1\<lparr>nxt := (nxt s1)(datain \<mapsto> pool_head s1),
                             pool_head := next_ptr datain (pool_head s1)\<rparr>))"

text \<open>
  \<open>freeLinkedList(datain, f)\<close>: the walk to the last cell, which calls \<open>f\<close> (a change of the
  client's own state \<open>e\<close>) and the destructor on each. \<open>freeLinkedList(datain)\<close> is the
  same walk without \<open>f\<close>.
\<close>

partial_function (option) walk_to_last ::
  "(u64 \<Rightarrow> 'e \<Rightarrow> 'e) \<Rightarrow> u64 \<Rightarrow> 'e \<Rightarrow> pool \<Rightarrow> (u64 \<times> 'e \<times> pool) option"
where
  "walk_to_last f p e s =
    (let e1 = f p e;
         s1 = if \<not> alloc_once s then destroy p s else s
     in case nxt s1 p of
          None \<Rightarrow> None
        | Some n \<Rightarrow> (if n = 0 then Some (p, e1, s1) else walk_to_last f n e1 s1))"

definition freeLinkedList_with ::
  "(u64 \<Rightarrow> 'e \<Rightarrow> 'e) \<Rightarrow> u64 \<Rightarrow> 'e \<Rightarrow> pool \<Rightarrow> ('e \<times> pool) option"
where
  "freeLinkedList_with f datain e s =
    (case walk_to_last f datain e s of
       None \<Rightarrow> None
     | Some (p, e1, s1) \<Rightarrow> map_option (Pair e1) (freeLinkedList datain p True s1))"

definition freeLinkedList_unknown_end :: "u64 \<Rightarrow> pool \<Rightarrow> pool option" where
  "freeLinkedList_unknown_end datain s =
    map_option snd (freeLinkedList_with (\<lambda>_ e. e) datain () s)"

text \<open>
  The constructor: a chunk has at least one cell and a cell room for a \<open>T\<close>; the size is
  narrowed to \<open>int\<close>. The destructor gives the chunks back, \<open>sys_free\<close> being the system's
  \<open>free\<close>.
\<close>

definition to_int32 :: "int \<Rightarrow> int" where
  "to_int32 x = signed_take_bit 31 x"

definition new_pool :: "bool \<Rightarrow> (u64 option \<Rightarrow> u64) \<Rightarrow> nat \<Rightarrow> int \<Rightarrow> nat \<Rightarrow> pool" where
  "new_pool once c sizeof_T chunkSize min_t_size =
    \<lparr>chunks = [], chunk_size = (if chunkSize < 1 then 1 else chunkSize),
     min_tsize = to_int32 (if min_t_size < sizeof_T then int sizeof_T else int min_t_size),
     pool_head = 0, alloc_once = once, ctor = c, nxt = (\<lambda>_. None), built = (\<lambda>_. False)\<rparr>"

definition LinkedListPool ::
  "bool \<Rightarrow> (u64 option \<Rightarrow> u64) \<Rightarrow> nat \<Rightarrow> int \<Rightarrow> nat \<Rightarrow> u64 \<Rightarrow> pool option"
where
  "LinkedListPool once c sizeof_T chunkSize min_t_size block =
    allocate block (new_pool once c sizeof_T chunkSize min_t_size)"

definition destroy_pool :: "(u64 \<Rightarrow> 'h \<Rightarrow> 'h) \<Rightarrow> pool \<Rightarrow> 'h \<Rightarrow> 'h" where
  "destroy_pool sys_free s h = fold sys_free (chunks s) h"

declare refill.simps [simp del]
declare link_chunk.simps [code] destroy_list.simps [code] walk_to_last.simps [code]

section \<open>What the list of free cells is\<close>

text \<open>Following the cleaned \<open>next\<close> fields from \<open>w\<close> visits exactly the cells \<open>xs\<close>.\<close>

fun stack :: "(u64 \<Rightarrow> u64 option) \<Rightarrow> u64 \<Rightarrow> u64 list \<Rightarrow> bool" where
  "stack nx w [] \<longleftrightarrow> clean_ptr w = 0"
| "stack nx w (x # xs) \<longleftrightarrow> clean_ptr w = x \<and> x \<noteq> 0 \<and>
     (case nx x of None \<Rightarrow> False | Some n \<Rightarrow> stack nx n xs)"

lemma stack_clean: "clean_ptr w = clean_ptr w' \<Longrightarrow> stack nx w xs = stack nx w' xs"
  by (cases xs) auto

lemma stack_next_ptr [simp]: "stack nx (next_ptr p c) xs = stack nx p xs"
  by (rule stack_clean) (rule clean_next_ptr)

lemma stack_clean_ptr [simp]: "stack nx (clean_ptr p) xs = stack nx p xs"
  by (rule stack_clean) simp

lemma stack_cong:
  assumes "\<And>x. x \<in> set xs \<Longrightarrow> nx' x = nx x"
  shows "stack nx' w xs = stack nx w xs"
  using assms by (induction xs arbitrary: w) (auto split: option.splits)

lemma stack_upd: "p \<notin> set xs \<Longrightarrow> stack (nx(p := v)) w xs = stack nx w xs"
  by (rule stack_cong) auto

lemma stack_members:
  assumes "stack nx w xs" and "x \<in> set xs"
  shows "x \<noteq> 0 \<and> clean_ptr x = x \<and> nx x \<noteq> None"
  using assms by (induction xs arbitrary: w) (auto split: option.splits)

lemma stack_unique:
  assumes "stack nx w xs" and "stack nx w ys"
  shows "xs = ys"
  using assms
proof (induction xs arbitrary: w ys)
  case Nil
  then show ?case by (cases ys) auto
next
  case (Cons x xs)
  then show ?case by (cases ys) (auto split: option.splits)
qed

definition same_setup :: "pool \<Rightarrow> pool \<Rightarrow> bool" where
  "same_setup s t \<longleftrightarrow> chunk_size s = chunk_size t \<and> min_tsize s = min_tsize t \<and>
     alloc_once s = alloc_once t \<and> ctor s = ctor t"

definition pool_ok :: "pool \<Rightarrow> u64 list \<Rightarrow> bool" where
  "pool_ok s xs \<longleftrightarrow> stack (nxt s) (pool_head s) xs \<and> distinct xs \<and>
     (\<forall>x\<in>set xs. built s x = alloc_once s) \<and> (\<forall>x. built s x \<longrightarrow> nxt s x \<noteq> None)"

lemma refill_nonempty: "clean_ptr (pool_head s) \<noteq> 0 \<Longrightarrow> refill bs s = Some (bs, s)"
  by (simp add: refill.simps)

lemma intl_malloc_closed:
  assumes "pool_ok s (x # xs)" and "nxt s x = Some n"
  shows "intl_malloc bs s =
    Some (x, bs, s\<lparr>pool_head := next_ptr (clean_ptr n) (pool_head s)\<rparr>)"
  using assms by (auto simp: intl_malloc_def refill_nonempty pool_ok_def Let_def)

text \<open>A request takes the first free cell; the object there is built.\<close>

lemma malloc_takes:
  assumes ok: "pool_ok s (x # xs)"
  obtains s' where "malloc bs s = Some (x, bs, s')" "pool_ok s' xs" "built s' x"
    "dom (nxt s') = dom (nxt s)" "same_setup s' s" "\<forall>y. y \<noteq> x \<longrightarrow> built s' y = built s y"
proof -
  obtain n where n: "nxt s x = Some n" and tl: "stack (nxt s) n xs" and x: "x \<notin> set xs"
    using ok by (auto simp: pool_ok_def split: option.splits)
  let ?s = "s\<lparr>pool_head := next_ptr (clean_ptr n) (pool_head s)\<rparr>"
  let ?s' = "if \<not> alloc_once ?s then construct x ?s else ?s"
  have m: "malloc bs s = Some (x, bs, ?s')"
    by (simp add: malloc_def intl_malloc_closed [OF ok n])
  have p: "pool_ok ?s' xs"
    using ok tl x n by (auto simp: pool_ok_def construct_def stack_upd)
  have b: "built ?s' x"
    using ok by (auto simp: pool_ok_def construct_def)
  have d: "dom (nxt ?s') = dom (nxt s)"
    using n by (auto simp: construct_def)
  show ?thesis
    by (rule that [OF m p b d]) (auto simp: construct_def same_setup_def)
qed

text \<open>A returned cell becomes the first free one; the object there is destroyed.\<close>

lemma free_gives:
  assumes ok: "pool_ok s xs" and x: "x \<notin> set xs" "clean_ptr x = x" "x \<noteq> 0" "x \<in> dom (nxt s)"
    and b: "built s x"
  obtains s' where "free x s = Some s'" "pool_ok s' (x # xs)"
    "dom (nxt s') = dom (nxt s)" "same_setup s' s" "\<forall>y. y \<noteq> x \<longrightarrow> built s' y = built s y"
proof -
  obtain n where n: "nxt s x = Some n"
    using x(4) by auto
  let ?s = "if \<not> alloc_once s then destroy x s else s"
  let ?s' = "?s\<lparr>nxt := (nxt ?s)(x \<mapsto> pool_head ?s), pool_head := next_ptr x (pool_head ?s)\<rparr>"
  have f: "free x s = Some ?s'"
    using n by (auto simp: free_def destroy_def)
  have p: "pool_ok ?s' (x # xs)"
    using ok x b n by (auto simp: pool_ok_def destroy_def stack_upd clean_next_ptr)
  show ?thesis
    by (rule that [OF f p]) (use n in \<open>auto simp: destroy_def same_setup_def\<close>)
qed

section \<open>A new chunk\<close>

definition cell :: "u64 \<Rightarrow> int \<Rightarrow> nat \<Rightarrow> u64" where
  "cell b m i = b + of_nat i * of_int m"

definition chunk_cells :: "int \<Rightarrow> int \<Rightarrow> u64 \<Rightarrow> u64 list" where
  "chunk_cells c m b = map (cell b m) [0..<nat c]"

text \<open>The system's answer is usable: not null, and in the part of the memory 48 bits address.\<close>

definition block_fits :: "int \<Rightarrow> int \<Rightarrow> u64 \<Rightarrow> bool" where
  "block_fits c m b \<longleftrightarrow> b \<noteq> 0 \<and> 0 < c \<and> 0 < m \<and> c * m < 2 ^ 31 \<and>
     unat b + nat c * nat m \<le> 2 ^ 48"

lemma unat_cell:
  assumes f: "block_fits c m b" and i: "int i \<le> c"
  shows "unat (cell b m i) = unat b + i * nat m"
proof -
  obtain k where m: "m = int k"
    using f zero_le_imp_eq_int [of m] by (auto simp: block_fits_def)
  have "i * k \<le> nat c * k"
    using i by (intro mult_right_mono) auto
  then have le: "unat b + i * k \<le> 2 ^ 48"
    using f unfolding block_fits_def m nat_int by linarith
  have "cell b m i = of_nat (unat b + i * k)"
    by (simp add: cell_def m)
  moreover have "unat (of_nat (unat b + i * k) :: u64) = unat b + i * k"
    unfolding unat_of_nat using le by (intro mod_less) simp
  ultimately show ?thesis
    by (simp add: m)
qed

lemma cell_less_iff:
  assumes f: "block_fits c m b" and "int i \<le> c" and "int j \<le> c"
  shows "cell b m i \<le> cell b m j \<longleftrightarrow> i \<le> j"
  using f assms by (auto simp: word_le_nat_alt unat_cell [OF f] block_fits_def)

lemma cell_inj:
  assumes f: "block_fits c m b" and "int i \<le> c" and "int j \<le> c"
  shows "cell b m i = cell b m j \<longleftrightarrow> i = j"
  using cell_less_iff [OF f assms(2,3)] cell_less_iff [OF f assms(3,2)] by auto

lemma cell_Suc: "cell b m i + of_int m = cell b m (Suc i)"
  by (simp add: cell_def algebra_simps)

lemma cell_clean:
  assumes f: "block_fits c m b" and i: "int i < c"
  shows "clean_ptr (cell b m i) = cell b m i \<and> cell b m i \<noteq> 0"
proof -
  have "Suc i * nat m \<le> nat c * nat m"
    using i by (intro mult_right_mono) auto
  moreover have "unat b + nat c * nat m \<le> 2 ^ 48" and "0 < nat m"
    using f by (simp_all add: block_fits_def)
  moreover have "unat (cell b m i) = unat b + i * nat m"
    using i by (intro unat_cell [OF f]) simp
  ultimately have "unat (cell b m i) < 2 ^ 48"
    unfolding mult_Suc by linarith
  then have "take_bit 48 (cell b m i) = cell b m i"
    by (intro word_unat_eq_iff [THEN iffD2])
      (simp add: unsigned_take_bit_eq take_bit_nat_eq_self)
  moreover have "0 < unat (cell b m i)"
    using f i by (auto simp: unat_cell [OF f] block_fits_def unat_gt_0)
  ultimately show ?thesis
    by (auto simp: clean_ptr_take)
qed

text \<open>What the chaining loop has written once it is done.\<close>

definition link_one :: "u64 \<Rightarrow> int \<Rightarrow> nat \<Rightarrow> pool \<Rightarrow> pool" where
  "link_one b m i s =
    (let s1 = construct_always (cell b m i) s
     in s1\<lparr>nxt := (nxt s1)(cell b m i \<mapsto> cell b m (Suc i))\<rparr>)"

lemma link_chunk_closed:
  assumes f: "block_fits c m b" and i: "int i < c"
  shows "link_chunk (of_int m) (cell b m (nat c - 1)) (cell b m i) s =
    Some (fold (link_one b m) [i..<nat c] s)"
  using i
proof (induction "nat c - i" arbitrary: i s)
  case 0
  then show ?case by simp
next
  case (Suc k)
  have up: "[i..<nat c] = i # [Suc i..<nat c]"
    using Suc.prems by (simp add: upt_conv_Cons)
  have b: "cell b m (Suc i) \<le> cell b m (nat c - 1) \<longleftrightarrow> Suc i \<le> nat c - 1"
    using Suc.prems by (intro cell_less_iff [OF f]) auto
  show ?case
  proof (cases "Suc i < nat c")
    case True
    then have "link_chunk (of_int m) (cell b m (nat c - 1)) (cell b m (Suc i)) (link_one b m i s) =
        Some (fold (link_one b m) [Suc i..<nat c] (link_one b m i s))"
      using Suc.hyps(2) by (intro Suc.hyps(1)) auto
    then show ?thesis
      using True b
      by (subst link_chunk.simps) (simp add: cell_Suc up link_one_def Let_def)
  next
    case False
    then have nb: "\<not> cell b m (Suc i) \<le> cell b m (nat c - 1)" and one: "[i..<nat c] = [i]"
      using b Suc.prems up by auto
    show ?thesis
      unfolding one using nb
      by (subst link_chunk.simps) (simp add: cell_Suc link_one_def Let_def)
  qed
qed

lemma link_one_simps:
  "nxt (link_one b m i s) =
     (if alloc_once s then (nxt s)(cell b m i \<mapsto> ctor s (nxt s (cell b m i))) else nxt s)
       (cell b m i \<mapsto> cell b m (Suc i))"
  "built (link_one b m i s) =
     (if alloc_once s then (built s)(cell b m i := True) else built s)"
  "pool_head (link_one b m i s) = pool_head s"
  "chunks (link_one b m i s) = chunks s"
  "chunk_size (link_one b m i s) = chunk_size s"
  "min_tsize (link_one b m i s) = min_tsize s"
  "alloc_once (link_one b m i s) = alloc_once s"
  "ctor (link_one b m i s) = ctor s"
  by (simp_all add: link_one_def construct_always_def construct_def Let_def)

lemma linked_frame:
  "same_setup (fold (link_one b m) is s) s \<and>
   pool_head (fold (link_one b m) is s) = pool_head s \<and> chunks (fold (link_one b m) is s) = chunks s"
  by (induction "is" arbitrary: s) (simp_all add: link_one_simps same_setup_def)

lemma linked_outside:
  assumes "x \<notin> cell b m ` set is"
  shows "nxt (fold (link_one b m) is s) x = nxt s x \<and> built (fold (link_one b m) is s) x = built s x"
  using assms by (induction "is" arbitrary: s) (simp_all add: link_one_simps)

lemma linked_inside:
  assumes f: "block_fits c m b" and j: "j \<in> set is" and le: "\<And>i. i \<in> set is \<Longrightarrow> int i < c"
    and d: "distinct is"
  shows "nxt (fold (link_one b m) is s) (cell b m j) = Some (cell b m (Suc j)) \<and>
    built (fold (link_one b m) is s) (cell b m j) = (built s (cell b m j) \<or> alloc_once s)"
  using j le d
proof (induction "is" arbitrary: s)
  case Nil
  then show ?case by simp
next
  case (Cons i "is")
  show ?case
  proof (cases "j = i")
    case True
    have ni: "cell b m i \<notin> cell b m ` set is"
    proof
      assume "cell b m i \<in> cell b m ` set is"
      then obtain k where k: "k \<in> set is" "cell b m i = cell b m k"
        by auto
      then have "i = k"
        using cell_inj [OF f, of i k] Cons.prems(2) by (simp add: order.strict_implies_order)
      then show False
        using k Cons.prems(3) by simp
    qed
    show ?thesis
      using linked_outside [OF ni] True
      by (simp add: link_one_simps)
  next
    case False
    then have "cell b m j \<noteq> cell b m i"
      using cell_inj [OF f, of j i] Cons.prems(1,2) by (simp add: order.strict_implies_order)
    then show ?thesis
      using Cons.IH [of "link_one b m i s"] Cons.prems False
      by (simp add: link_one_simps)
  qed
qed

lemma set_chunk_cells: "set (chunk_cells c m b) = cell b m ` {..<nat c}"
  by (auto simp: chunk_cells_def)

lemma stack_chunk:
  assumes f: "block_fits c m b" and i: "int i < c" and w: "clean_ptr w = cell b m i"
    and mid: "\<And>j. int j + 1 < c \<Longrightarrow> nx (cell b m j) = Some (cell b m (Suc j))"
    and last: "nx (cell b m (nat c - 1)) = Some h" and xs: "stack nx h xs"
  shows "stack nx w (map (cell b m) [i..<nat c] @ xs)"
  using i w
proof (induction "nat c - i" arbitrary: i w)
  case 0
  then show ?case by simp
next
  case (Suc k)
  have up: "[i..<nat c] = i # [Suc i..<nat c]"
    using Suc.prems by (simp add: upt_conv_Cons)
  have nz: "cell b m i \<noteq> 0"
    using cell_clean [OF f Suc.prems(1)] by blast
  show ?case
  proof (cases "int i + 1 < c")
    case True
    then have c: "clean_ptr (cell b m (Suc i)) = cell b m (Suc i)"
      using cell_clean [OF f, of "Suc i"] by simp
    have "stack nx (cell b m (Suc i)) (map (cell b m) [Suc i..<nat c] @ xs)"
      by (rule Suc.hyps(1)) (use Suc True c in auto)
    then show ?thesis
      using Suc.prems(2) nz mid [OF True] by (simp add: up)
  next
    case False
    then have "i = nat c - 1" and "[i..<nat c] = [i]"
      using Suc.prems(1) up by auto
    then show ?thesis
      using Suc.prems(2) nz last xs by simp
  qed
qed

text \<open>A new chunk puts all its cells in front of the free list.\<close>

lemma allocate_gives:
  assumes ok: "pool_ok s xs" and f: "block_fits (chunk_size s) (min_tsize s) b"
    and fresh: "set (chunk_cells (chunk_size s) (min_tsize s) b) \<inter> dom (nxt s) = {}"
  obtains s' where "allocate b s = Some s'"
    "pool_ok s' (chunk_cells (chunk_size s) (min_tsize s) b @ xs)"
    "dom (nxt s') = dom (nxt s) \<union> set (chunk_cells (chunk_size s) (min_tsize s) b)"
    "same_setup s' s" "chunks s' = chunks s @ [b]" "pool_head s' = next_ptr b (pool_head s)"
    "\<forall>y. y \<notin> set (chunk_cells (chunk_size s) (min_tsize s) b) \<longrightarrow> built s' y = built s y"
proof -
  define c m where "c = chunk_size s" and "m = min_tsize s"
  have f': "block_fits c m b" and c: "0 < c" and m: "0 < m" and cm: "c * m < 2 ^ 31" and b: "b \<noteq> 0"
    using f by (auto simp: block_fits_def c_def m_def)
  define l where "l = fold (link_one b m) [0..<nat c] s"
  define e where "e = cell b m (nat c - 1)"
  have e: "b + of_int (m * (c - 1)) = e"
  proof -
    have "of_nat (nat c - 1) = (of_int (c - 1) :: u64)"
    proof -
      obtain n where "c = int n" "0 < n"
        using c zero_less_imp_eq_int by blast
      then show ?thesis
        by (simp add: of_nat_diff)
    qed
    then show ?thesis
      by (simp add: e_def cell_def)
  qed
  have lk: "link_chunk (of_int m) e b s = Some l"
    using link_chunk_closed [OF f', of 0 s] c by (simp add: e_def l_def cell_def)
  note in_l = linked_inside [OF f', of _ "[0..<nat c]" s, folded l_def]
  have frame: "same_setup l s" "pool_head l = pool_head s" "chunks l = chunks s"
    using linked_frame [of b m "[0..<nat c]" s] by (auto simp: l_def)
  have out: "nxt l x = nxt s x \<and> built l x = built s x" if "x \<notin> set (chunk_cells c m b)" for x
    using that by (auto simp: l_def set_chunk_cells intro!: linked_outside)
  have ein: "e \<in> set (chunk_cells c m b)"
    using c by (auto simp: e_def set_chunk_cells)
  define s' where "s' = l\<lparr>chunks := chunks s @ [b], nxt := (nxt l)(e \<mapsto> pool_head s),
    pool_head := next_ptr b (pool_head s)\<rparr>"
  obtain n where n: "nxt l e = Some n"
    using in_l [of "nat c - 1"] c by (auto simp: e_def)
  have pos: "\<not> c * m \<le> 0" and lt: "\<not> 2 ^ 31 \<le> c * m"
    using c m cm by (simp_all add: not_le)
  have "allocate b s = Some s'"
    unfolding allocate_def Let_def c_def [symmetric] m_def [symmetric] e lk
    using pos lt b n frame by (simp add: freeLinkedList_def splice_def s'_def)
  moreover have "pool_ok s' (chunk_cells c m b @ xs)"
  proof -
    have old: "set xs \<inter> set (chunk_cells c m b) = {}"
      using fresh stack_members [of "nxt s" "pool_head s" xs] ok
      by (auto simp: c_def m_def pool_ok_def) 
    have "stack (nxt s') (pool_head s) xs = stack (nxt s) (pool_head s) xs"
      using old out ein by (intro stack_cong) (auto simp: s'_def)
    then have xs: "stack (nxt s') (pool_head s) xs"
      using ok by (simp add: pool_ok_def)
    have "stack (nxt s') (next_ptr b (pool_head s)) (map (cell b m) [0..<nat c] @ xs)"
    proof (rule stack_chunk [OF f' _ _ _ _ xs])
      show "clean_ptr (next_ptr b (pool_head s)) = cell b m 0"
        using cell_clean [OF f', of 0] c by (simp add: clean_next_ptr cell_def)
      show "nxt s' (cell b m (nat c - 1)) = Some (pool_head s)"
        by (simp add: s'_def e_def)
      fix j assume j: "int j + 1 < c"
      then have "cell b m j \<noteq> e"
        using cell_inj [OF f', of j "nat c - 1"] by (auto simp: e_def)
      then show "nxt s' (cell b m j) = Some (cell b m (Suc j))"
        using in_l [of j] j by (auto simp: s'_def)
    qed (use c in simp)
    moreover have "distinct (chunk_cells c m b)"
      by (auto simp: chunk_cells_def distinct_map intro!: inj_onI dest!: cell_inj [OF f', THEN iffD1, rotated 2])
    moreover have "built s' x = alloc_once s" if x: "x \<in> set (chunk_cells c m b)" for x
    proof -
      obtain j where j: "x = cell b m j" "j < nat c"
        using x by (auto simp: set_chunk_cells)
      have "\<not> built s x"
        using ok fresh x by (auto simp: pool_ok_def c_def m_def)
      then show ?thesis
        using in_l [of j] j by (auto simp: s'_def)
    qed
    moreover have "built s' x = alloc_once s" if x: "x \<in> set xs" for x
      using ok x out [of x] old by (auto simp: s'_def pool_ok_def)
    moreover have "nxt s' x \<noteq> None" if "built s' x" for x
    proof (cases "x \<in> set (chunk_cells c m b)")
      case True
      then show ?thesis
        using in_l by (auto simp: s'_def set_chunk_cells)
    next
      case False
      then show ?thesis
        using that out [OF False] ok by (auto simp: s'_def pool_ok_def)
    qed
    ultimately show ?thesis
      using ok old frame(1) 
      by (auto simp: pool_ok_def chunk_cells_def s'_def same_setup_def)
  qed
  moreover have "dom (nxt s') = dom (nxt s) \<union> set (chunk_cells c m b)"
  proof -
    have "x \<in> dom (nxt l)" if "x \<in> set (chunk_cells c m b)" for x
      using in_l that by (auto simp: set_chunk_cells)
    then show ?thesis
      using out ein by (force simp: s'_def)
  qed
  moreover have "same_setup s' s" "chunks s' = chunks s @ [b]"
    "pool_head s' = next_ptr b (pool_head s)"
    using frame by (auto simp: s'_def same_setup_def)
  moreover have "\<forall>y. y \<notin> set (chunk_cells c m b) \<longrightarrow> built s' y = built s y"
    using out by (auto simp: s'_def)
  ultimately show ?thesis
    using that by (simp add: c_def m_def)
qed

text \<open>A request to an empty pool takes the first cell of a new chunk.\<close>

lemma malloc_refills:
  assumes ok: "pool_ok s []" and f: "block_fits (chunk_size s) (min_tsize s) b"
    and fresh: "set (chunk_cells (chunk_size s) (min_tsize s) b) \<inter> dom (nxt s) = {}"
  obtains s' where "malloc (b # bs) s = Some (b, bs, s')"
    "pool_ok s' (tl (chunk_cells (chunk_size s) (min_tsize s) b))" "built s' b"
    "dom (nxt s') = dom (nxt s) \<union> set (chunk_cells (chunk_size s) (min_tsize s) b)"
    "same_setup s' s"
    "\<forall>y. y \<notin> set (chunk_cells (chunk_size s) (min_tsize s) b) \<longrightarrow> built s' y = built s y"
proof -
  let ?cs = "chunk_cells (chunk_size s) (min_tsize s) b"
  obtain s1 where a: "allocate b s = Some s1" and p: "pool_ok s1 (?cs @ [])"
    and d: "dom (nxt s1) = dom (nxt s) \<union> set ?cs" and ss: "same_setup s1 s"
    and b1: "\<forall>y. y \<notin> set ?cs \<longrightarrow> built s1 y = built s y"
    by (rule allocate_gives [OF ok f fresh])
  have cs: "?cs = b # tl ?cs"
    using f by (auto simp: chunk_cells_def block_fits_def upt_conv_Cons cell_def)
  have p1: "pool_ok s1 (b # tl ?cs)"
    using p cs by simp
  then have c1: "clean_ptr (pool_head s1) \<noteq> 0"
    by (simp add: pool_ok_def)
  have "clean_ptr (pool_head s) = 0"
    using ok by (simp add: pool_ok_def)
  then have "refill (b # bs) s = refill bs s1"
    by (subst refill.simps) (simp add: a)
  moreover have "refill bs s1 = Some (bs, s1)"
    using c1 by (rule refill_nonempty)
  ultimately have "intl_malloc (b # bs) s = intl_malloc bs s1"
    by (simp add: intl_malloc_def)
  then have m: "malloc (b # bs) s = malloc bs s1"
    by (simp add: malloc_def)
  obtain s' where "malloc bs s1 = Some (b, bs, s')" "pool_ok s' (tl ?cs)" "built s' b"
    "dom (nxt s') = dom (nxt s1)" "same_setup s' s1" "\<forall>y. y \<noteq> b \<longrightarrow> built s' y = built s1 y"
    by (rule malloc_takes [OF p1])
  moreover have "b \<in> set ?cs"
    using cs by (metis list.set_intros(1))
  ultimately show ?thesis
    using m d ss b1 by (intro that [of s']) (auto simp: same_setup_def)
qed

text \<open>
  Returning a list of cells: \<open>segment nx p ps\<close> is the list, linked by plain addresses, with a
  null \<open>next\<close> in its last cell.
\<close>

fun segment :: "(u64 \<Rightarrow> u64 option) \<Rightarrow> u64 \<Rightarrow> u64 list \<Rightarrow> bool" where
  "segment nx p [] \<longleftrightarrow> False"
| "segment nx p [x] \<longleftrightarrow> p = x \<and> x \<noteq> 0 \<and> clean_ptr x = x \<and> nx x = Some 0"
| "segment nx p (x # y # ys) \<longleftrightarrow> p = x \<and> x \<noteq> 0 \<and> clean_ptr x = x \<and> nx x = Some y \<and>
     segment nx y (y # ys)"

lemma segment_hd: "segment nx p ps \<Longrightarrow> ps \<noteq> [] \<and> hd ps = p"
  by (induction nx p ps rule: segment.induct) auto

lemma segment_members: "segment nx p ps \<Longrightarrow> x \<in> set ps \<Longrightarrow> x \<noteq> 0 \<and> clean_ptr x = x \<and> nx x \<noteq> None"
  by (induction nx p ps rule: segment.induct) auto

definition destroyed :: "u64 list \<Rightarrow> pool \<Rightarrow> pool" where
  "destroyed ps s = s\<lparr>built := (\<lambda>x. built s x \<and> (alloc_once s \<or> x \<notin> set ps))\<rparr>"

lemma walk_to_last_closed:
  assumes "segment (nxt s) p ps"
  shows "walk_to_last f p e s = Some (last ps, fold f ps e, destroyed ps s)"
  using assms
proof (induction "nxt s" p ps arbitrary: e s rule: segment.induct)
  case (1 p)
  then show ?case by simp
next
  case (2 p x)
  then show ?case
    by (subst walk_to_last.simps) (auto simp: destroyed_def destroy_def Let_def fun_eq_iff)
next
  case (3 p x y ys)
  let ?s = "if \<not> alloc_once s then destroy p s else s"
  have nx: "nxt ?s = nxt s" and y: "y \<noteq> 0"
    using 3(2) segment_members [of "nxt s" y "y # ys" y] by (auto simp: destroy_def)
  have "walk_to_last f y (f p e) ?s = Some (last (y # ys), fold f (y # ys) (f p e), destroyed (y # ys) ?s)"
    by (rule 3(1)) (use nx 3(2) in auto)
  moreover have "destroyed (y # ys) ?s = destroyed (x # y # ys) s"
    using 3(2) by (auto simp: destroyed_def destroy_def fun_eq_iff)
  ultimately show ?case
    using 3(2) y nx by (subst walk_to_last.simps) (simp add: Let_def)
qed

lemma stack_segment:
  assumes "segment nx p ps" and "distinct ps" and "set ps \<inter> set xs = {}" and "stack nx h xs"
    and "clean_ptr w = p"
  shows "stack (nx(last ps \<mapsto> h)) w (ps @ xs)"
  using assms
proof (induction nx p ps arbitrary: w rule: segment.induct)
  case (1 nx p)
  then show ?case by simp
next
  case (2 nx p x)
  then show ?case
    using stack_upd [of x xs nx "Some h" h] by (auto simp: fun_upd_def)
next
  case (3 nx p x y ys)
  have "stack (nx(last (y # ys) \<mapsto> h)) y ((y # ys) @ xs)"
    by (rule 3(1)) (use 3 segment_members [of nx y "y # ys" y] in auto)
  moreover have "x \<noteq> last (y # ys)"
    using 3(3) last_in_set [of "y # ys"] by (metis distinct.simps(2) list.distinct(1))
  then have "(nx(last (y # ys) \<mapsto> h)) x = Some y"
    using 3(2) by (auto simp: fun_upd_def)
  moreover have "last (x # y # ys) = last (y # ys)" and "x \<noteq> 0" and "clean_ptr w = x"
    using 3(2,6) by simp_all
  ultimately show ?case
    by (simp only: append_Cons stack.simps(2) option.case) simp
qed

lemma freeLinkedList_with_gives:
  assumes ok: "pool_ok s xs" and seg: "segment (nxt s) p ps" and d: "distinct ps"
    and new: "set ps \<inter> set xs = {}" and b: "\<And>x. x \<in> set ps \<Longrightarrow> built s x"
  obtains s' where "freeLinkedList_with f p e s = Some (fold f ps e, s')" "pool_ok s' (ps @ xs)"
    "dom (nxt s') = dom (nxt s)" "same_setup s' s" "\<forall>y. y \<notin> set ps \<longrightarrow> built s' y = built s y"
proof -
  let ?d = "destroyed ps s"
  let ?s = "?d\<lparr>nxt := (nxt ?d)(last ps \<mapsto> pool_head ?d), pool_head := next_ptr p (pool_head ?d)\<rparr>"
  have ne: "ps \<noteq> []" and pc: "clean_ptr p = p"
    using segment_hd [OF seg] segment_members [OF seg, of p] by (auto intro: hd_in_set)
  obtain n where n: "nxt s (last ps) = Some n"
    using segment_members [OF seg last_in_set [OF ne]] by auto
  have "freeLinkedList_with f p e s = Some (fold f ps e, ?s)"
    using n by (simp add: freeLinkedList_with_def walk_to_last_closed [OF seg] freeLinkedList_def
        splice_def destroyed_def)
  moreover have "pool_ok ?s (ps @ xs)"
  proof -
    have st: "stack (nxt s) (pool_head s) xs"
      using ok by (simp add: pool_ok_def)
    have "stack ((nxt s)(last ps \<mapsto> pool_head s)) (next_ptr p (pool_head s)) (ps @ xs)"
      by (rule stack_segment [OF seg d new st]) (simp add: clean_next_ptr pc)
    then show ?thesis
      using ok d new b n by (auto simp: pool_ok_def destroyed_def)
  qed
  moreover have "dom (nxt ?s) = dom (nxt s)" and "same_setup ?s s"
    and "\<forall>y. y \<notin> set ps \<longrightarrow> built ?s y = built s y"
    using n by (auto simp: destroyed_def same_setup_def)
  ultimately show ?thesis
    by (rule that)
qed

section \<open>DummyLinkedListPool: every object on the system heap\<close>

text \<open>
  The state is the part of the heap the pool handed out: \<open>h p\<close> is the field \<open>next\<close> of the
  object at \<open>p\<close>. \<open>ret\<close> is the system's answer; an answer inside a live object is none.
\<close>

definition malloc_api :: "u64 \<Rightarrow> (u64 \<Rightarrow> u64 option) \<Rightarrow> u64 option" where
  "malloc_api ret h = (if h ret = None then Some ret else None)"

definition dummy_malloc ::
  "(u64 option \<Rightarrow> u64) \<Rightarrow> u64 \<Rightarrow> (u64 \<Rightarrow> u64 option) \<Rightarrow> (u64 \<times> (u64 \<Rightarrow> u64 option)) option"
where
  "dummy_malloc c answer h =
    (case malloc_api answer h of
       None \<Rightarrow> None
     | Some ret \<Rightarrow> (if ret = 0 then None else Some (ret, h(ret \<mapsto> c None))))"

definition dummy_free :: "u64 \<Rightarrow> (u64 \<Rightarrow> u64 option) \<Rightarrow> (u64 \<Rightarrow> u64 option) option" where
  "dummy_free datain h = (case h datain of None \<Rightarrow> None | Some _ \<Rightarrow> Some (h(datain := None)))"

partial_function (option) dummy_free_loop ::
  "(u64 \<Rightarrow> 'e \<Rightarrow> 'e) \<Rightarrow> u64 \<Rightarrow> u64 \<Rightarrow> 'e \<Rightarrow> (u64 \<Rightarrow> u64 option) \<Rightarrow> ('e \<times> (u64 \<Rightarrow> u64 option)) option"
where
  "dummy_free_loop f p stop e h =
    (let e1 = f p e in
     case h p of
       None \<Rightarrow> None
     | Some n \<Rightarrow>
         (case dummy_free p h of
            None \<Rightarrow> None
          | Some h1 \<Rightarrow> (if n = stop then Some (e1, h1) else dummy_free_loop f n stop e1 h1)))"

declare dummy_free_loop.simps [code]

definition dummy_freeLinkedList ::
  "u64 \<Rightarrow> u64 \<Rightarrow> (u64 \<Rightarrow> u64 option) \<Rightarrow> (u64 \<Rightarrow> u64 option) option"
where
  "dummy_freeLinkedList datain last_datain h =
    (case h last_datain of
       None \<Rightarrow> None
     | Some stop \<Rightarrow> map_option snd (dummy_free_loop (\<lambda>_ e. e) datain stop () h))"

definition dummy_freeLinkedList_unknown_end ::
  "u64 \<Rightarrow> (u64 \<Rightarrow> u64 option) \<Rightarrow> (u64 \<Rightarrow> u64 option) option"
where
  "dummy_freeLinkedList_unknown_end datain h =
    map_option snd (dummy_free_loop (\<lambda>_ e. e) datain 0 () h)"

definition dummy_freeLinkedList_with ::
  "(u64 \<Rightarrow> 'e \<Rightarrow> 'e) \<Rightarrow> u64 \<Rightarrow> 'e \<Rightarrow> (u64 \<Rightarrow> u64 option) \<Rightarrow> ('e \<times> (u64 \<Rightarrow> u64 option)) option"
where
  "dummy_freeLinkedList_with f datain e h = dummy_free_loop f datain 0 e h"

definition removed :: "u64 list \<Rightarrow> (u64 \<Rightarrow> u64 option) \<Rightarrow> u64 \<Rightarrow> u64 option" where
  "removed ps h = (\<lambda>x. if x \<in> set ps then None else h x)"

lemma segment_cong:
  assumes "\<And>x. x \<in> set ps \<Longrightarrow> nx' x = nx x"
  shows "segment nx' p ps = segment nx p ps"
  using assms by (induction nx p ps rule: segment.induct) auto

lemma dummy_free_loop_closed:
  assumes "segment h p ps" and "distinct ps"
  shows "dummy_free_loop f p 0 e h = Some (fold f ps e, removed ps h)"
  using assms
proof (induction ps arbitrary: p e h)
  case Nil
  then show ?case by simp
next
  case (Cons x xs)
  show ?case
  proof (cases xs)
    case Nil
    then show ?thesis
      using Cons.prems
      by (subst dummy_free_loop.simps) (auto simp: dummy_free_def removed_def fun_eq_iff)
  next
    case y: (Cons y ys)
    let ?h = "h(x := None)"
    have "segment ?h y xs = segment h y xs"
      using Cons.prems(2) by (intro segment_cong) auto
    then have seg: "segment ?h y xs" and nz: "y \<noteq> 0" and hx: "h x = Some y" "p = x"
      using Cons.prems(1) y segment_members [of h y xs y] by auto
    have "dummy_free_loop f y 0 (f x e) ?h = Some (fold f xs (f x e), removed xs ?h)"
      using Cons.prems(2) by (intro Cons.IH seg) simp
    then show ?thesis
      using nz hx
      by (subst dummy_free_loop.simps) (auto simp: dummy_free_def removed_def fun_eq_iff)
  qed
qed

section \<open>The contract of a pool\<close>

text \<open>
  What the library relies on, whichever pool it is compiled with: an object handed out is not
  in use, and returning objects makes exactly them unused.
\<close>

locale object_pool =
  fixes ok :: "'s \<Rightarrow> bool"
    and in_use :: "'s \<Rightarrow> 'p set"
    and get :: "'s \<Rightarrow> ('p \<times> 's) option"
    and put :: "'p \<Rightarrow> 's \<Rightarrow> 's option"
    and list_at :: "'s \<Rightarrow> 'p \<Rightarrow> 'p list \<Rightarrow> bool"
    and put_list :: "('p \<Rightarrow> 'e \<Rightarrow> 'e) \<Rightarrow> 'p \<Rightarrow> 'e \<Rightarrow> 's \<Rightarrow> ('e \<times> 's) option"
  assumes get_law: "ok s \<Longrightarrow> get s = Some (p, s') \<Longrightarrow>
      ok s' \<and> p \<notin> in_use s \<and> in_use s' = insert p (in_use s)"
    and put_law: "ok s \<Longrightarrow> p \<in> in_use s \<Longrightarrow>
      \<exists>s'. put p s = Some s' \<and> ok s' \<and> in_use s' = in_use s - {p}"
    and put_list_law: "ok s \<Longrightarrow> list_at s p ps \<Longrightarrow> distinct ps \<Longrightarrow> set ps \<subseteq> in_use s \<Longrightarrow>
      \<exists>s'. put_list f p e s = Some (fold f ps e, s') \<and> ok s' \<and> in_use s' = in_use s - set ps"

text \<open>A client's requests: take an object, or return the \<open>i\<close>-th of those it holds.\<close>

datatype request = Get | Put nat

fun serve ::
  "('s \<Rightarrow> ('p \<times> 's) option) \<Rightarrow> ('p \<Rightarrow> 's \<Rightarrow> 's option) \<Rightarrow> request list \<Rightarrow> 'p list \<Rightarrow> 's \<Rightarrow>
     ('p list \<times> 's) option"
where
  "serve get put [] held s = Some (held, s)"
| "serve get put (Get # rs) held s =
    (case get s of None \<Rightarrow> None | Some (p, s') \<Rightarrow> serve get put rs (held @ [p]) s')"
| "serve get put (Put i # rs) held s =
    (if i < length held
     then (case put (held ! i) s of
             None \<Rightarrow> None
           | Some s' \<Rightarrow> serve get put rs (take i held @ drop (Suc i) held) s')
     else None)"

lemma set_without_nth:
  assumes "distinct xs" and "i < length xs"
  shows "set (take i xs @ drop (Suc i) xs) = set xs - {xs ! i} \<and> distinct (take i xs @ drop (Suc i) xs)"
proof -
  have "xs = take i xs @ xs ! i # drop (Suc i) xs"
    using assms(2) by (rule id_take_nth_drop)
  moreover have "distinct (take i xs @ xs ! i # drop (Suc i) xs)"
    using assms calculation by metis
  ultimately show ?thesis
    by (metis (no_types, lifting) Diff_insert_absorb Un_insert_right distinct.simps(2)
        distinct_append disjoint_insert(1) list.simps(15) set_append Un_iff)
qed

context object_pool
begin

lemma serve_held:
  assumes "ok s" and "distinct held" and "set held = in_use s"
    and "serve get put rs held s = Some (held', s')"
  shows "ok s' \<and> distinct held' \<and> set held' = in_use s'"
  using assms
proof (induction rs arbitrary: held s)
  case Nil
  then show ?case by simp
next
  case (Cons r rs)
  show ?case
  proof (cases r)
    case Get
    then obtain p s1 where g: "get s = Some (p, s1)"
      and r: "serve get put rs (held @ [p]) s1 = Some (held', s')"
      using Cons.prems(4) by (auto split: option.splits)
    have "ok s1 \<and> p \<notin> in_use s \<and> in_use s1 = insert p (in_use s)"
      using Cons.prems(1) g by (rule get_law)
    then show ?thesis
      using Cons.prems(2,3) by (intro Cons.IH [OF _ _ _ r]) auto
  next
    case (Put i)
    then obtain s1 where i: "i < length held" and f: "put (held ! i) s = Some s1"
      and r: "serve get put rs (take i held @ drop (Suc i) held) s1 = Some (held', s')"
      using Cons.prems(4) by (auto split: if_splits option.splits)
    have "held ! i \<in> in_use s"
      using Cons.prems(3) i nth_mem by blast
    then have "ok s1 \<and> in_use s1 = in_use s - {held ! i}"
      using put_law [OF Cons.prems(1)] f by fastforce
    then show ?thesis
      using set_without_nth [OF Cons.prems(2) i] Cons.prems(3) by (intro Cons.IH [OF _ _ _ r]) auto
  qed
qed

end

section \<open>LinkedListPool keeps the contract\<close>

text \<open>
  A pool together with the blocks the system will answer with. The blocks are usable when
  their cells are apart from each other and from the cells the pool has.
\<close>

definition supply_cells :: "u64 list \<Rightarrow> pool \<Rightarrow> u64 list" where
  "supply_cells bs s = concat (map (chunk_cells (chunk_size s) (min_tsize s)) bs)"

definition usable :: "u64 list \<Rightarrow> pool \<Rightarrow> bool" where
  "usable bs s \<longleftrightarrow> (\<forall>b\<in>set bs. block_fits (chunk_size s) (min_tsize s) b) \<and>
     distinct (supply_cells bs s) \<and> set (supply_cells bs s) \<inter> dom (nxt s) = {}"

definition full_ok :: "u64 list \<Rightarrow> pool \<Rightarrow> u64 list \<Rightarrow> bool" where
  "full_ok bs s xs \<longleftrightarrow> pool_ok s xs \<and> usable bs s \<and>
     (\<forall>x\<in>dom (nxt s). x \<noteq> 0 \<and> clean_ptr x = x \<and> (x \<notin> set xs \<longrightarrow> built s x))"

definition lp_ok :: "u64 list \<times> pool \<Rightarrow> bool" where
  "lp_ok st \<longleftrightarrow> (\<exists>xs. full_ok (fst st) (snd st) xs)"

definition lp_in_use :: "u64 list \<times> pool \<Rightarrow> u64 set" where
  "lp_in_use st = {x \<in> dom (nxt (snd st)).
     \<forall>xs. stack (nxt (snd st)) (pool_head (snd st)) xs \<longrightarrow> x \<notin> set xs}"

definition lp_malloc :: "u64 list \<times> pool \<Rightarrow> (u64 \<times> u64 list \<times> pool) option" where
  "lp_malloc st = malloc (fst st) (snd st)"

definition lp_free :: "u64 \<Rightarrow> u64 list \<times> pool \<Rightarrow> (u64 list \<times> pool) option" where
  "lp_free p st = map_option (Pair (fst st)) (free p (snd st))"

definition lp_list_at :: "u64 list \<times> pool \<Rightarrow> u64 \<Rightarrow> u64 list \<Rightarrow> bool" where
  "lp_list_at st p ps \<longleftrightarrow> segment (nxt (snd st)) p ps"

definition lp_free_list ::
  "(u64 \<Rightarrow> 'e \<Rightarrow> 'e) \<Rightarrow> u64 \<Rightarrow> 'e \<Rightarrow> u64 list \<times> pool \<Rightarrow> ('e \<times> u64 list \<times> pool) option"
where
  "lp_free_list f p e st =
    map_option (\<lambda>(e', s'). (e', fst st, s')) (freeLinkedList_with f p e (snd st))"

lemma lp_in_use_eq:
  assumes "pool_ok s xs"
  shows "lp_in_use (bs, s) = dom (nxt s) - set xs"
  using assms stack_unique by (auto simp: lp_in_use_def pool_ok_def)

lemma usable_setup:
  assumes "same_setup s' s" and "dom (nxt s') \<subseteq> dom (nxt s)" and "usable bs s"
  shows "usable bs s'"
  using assms by (auto simp: usable_def supply_cells_def same_setup_def)

lemma usable_Cons:
  assumes "usable (b # bs) s" and "same_setup s' s"
    and "dom (nxt s') = dom (nxt s) \<union> set (chunk_cells (chunk_size s) (min_tsize s) b)"
  shows "usable bs s'"
  using assms by (auto simp: usable_def supply_cells_def same_setup_def)

lemma chunk_cells_valid:
  assumes "block_fits c m b" and "x \<in> set (chunk_cells c m b)"
  shows "x \<noteq> 0 \<and> clean_ptr x = x"
  using assms cell_clean [OF assms(1)] by (auto simp: set_chunk_cells)

text \<open>One request, with a free cell at hand or with a new chunk.\<close>

lemma malloc_full:
  assumes ok: "full_ok bs s xs" and more: "xs \<noteq> [] \<or> bs \<noteq> []"
  obtains p bs' s' xs' where "malloc bs s = Some (p, bs', s')" "full_ok bs' s' xs'"
    "p \<notin> dom (nxt s) - set xs" "dom (nxt s') - set xs' = insert p (dom (nxt s) - set xs)"
    "built s' p"
proof (cases xs)
  case (Cons x ys)
  have p: "pool_ok s (x # ys)" and u: "usable bs s"
    using ok Cons by (auto simp: full_ok_def)
  obtain s' where m: "malloc bs s = Some (x, bs, s')" and p': "pool_ok s' ys" and b: "built s' x"
    and d: "dom (nxt s') = dom (nxt s)" and ss: "same_setup s' s"
    and bo: "\<forall>y. y \<noteq> x \<longrightarrow> built s' y = built s y"
    by (rule malloc_takes [OF p])
  have xd: "x \<in> dom (nxt s)" and xn: "x \<notin> set ys"
    using p stack_members [of "nxt s" "pool_head s" "x # ys" x] by (auto simp: pool_ok_def)
  have "usable bs s'"
    using usable_setup [OF ss _ u] d by simp
  then have "full_ok bs s' ys"
    using ok Cons p' d b bo by (auto simp: full_ok_def)
  then show ?thesis
    using m xd xn d b Cons by (intro that [of x bs s' ys]) auto
next
  case Nil
  then obtain b bs' where bs: "bs = b # bs'"
    using more by (cases bs) auto
  have p: "pool_ok s []" and u: "usable (b # bs') s"
    using ok Nil bs by (auto simp: full_ok_def)
  let ?cs = "chunk_cells (chunk_size s) (min_tsize s) b"
  have f: "block_fits (chunk_size s) (min_tsize s) b" and fresh: "set ?cs \<inter> dom (nxt s) = {}"
    and dis: "distinct ?cs"
    using u by (auto simp: usable_def supply_cells_def)
  obtain s' where m: "malloc (b # bs') s = Some (b, bs', s')" and p': "pool_ok s' (tl ?cs)"
    and b: "built s' b" and d: "dom (nxt s') = dom (nxt s) \<union> set ?cs" and ss: "same_setup s' s"
    and bo: "\<forall>y. y \<notin> set ?cs \<longrightarrow> built s' y = built s y"
    by (rule malloc_refills [OF p f fresh])
  have cs: "?cs = b # tl ?cs"
    using f by (auto simp: chunk_cells_def block_fits_def upt_conv_Cons cell_def)
  then have in_cs: "set ?cs = insert b (set (tl ?cs))" and b_tl: "b \<notin> set (tl ?cs)"
    using dis by (metis list.simps(15)) (use cs dis in \<open>metis distinct.simps(2)\<close>)
  have "x \<noteq> 0 \<and> clean_ptr x = x \<and> (x \<notin> set (tl ?cs) \<longrightarrow> built s' x)" if x: "x \<in> dom (nxt s')" for x
  proof (cases "x \<in> set ?cs")
    case True
    then show ?thesis
      using chunk_cells_valid [OF f] in_cs b by auto
  next
    case False
    then have "x \<in> dom (nxt s)" and "built s' x = built s x"
      using x d bo by auto
    then show ?thesis
      using ok Nil by (simp add: full_ok_def)
  qed
  then have "full_ok bs' s' (tl ?cs)"
    using p' usable_Cons [OF u ss d] by (simp add: full_ok_def)
  then show ?thesis
    using m d b fresh in_cs b_tl bs Nil by (intro that [of b bs' s' "tl ?cs"]) auto
qed

lemma free_full:
  assumes ok: "full_ok bs s xs" and x: "x \<in> dom (nxt s) - set xs"
  obtains s' where "free x s = Some s'" "full_ok bs s' (x # xs)" "dom (nxt s') = dom (nxt s)"
proof -
  have "pool_ok s xs" "x \<notin> set xs" "clean_ptr x = x" "x \<noteq> 0" "x \<in> dom (nxt s)" "built s x"
    using ok x by (auto simp: full_ok_def)
  then obtain s' where f: "free x s = Some s'" and p': "pool_ok s' (x # xs)"
    and d: "dom (nxt s') = dom (nxt s)" and ss: "same_setup s' s"
    and bo: "\<forall>y. y \<noteq> x \<longrightarrow> built s' y = built s y"
    by (rule free_gives)
  have "usable bs s'"
    using usable_setup [OF ss] d ok by (simp add: full_ok_def)
  then have "full_ok bs s' (x # xs)"
    using ok p' d bo by (auto simp: full_ok_def)
  then show ?thesis
    by (rule that [OF f _ d])
qed

lemma free_list_full:
  assumes ok: "full_ok bs s xs" and seg: "segment (nxt s) p ps" and d: "distinct ps"
    and used: "set ps \<subseteq> dom (nxt s) - set xs"
  obtains s' where "freeLinkedList_with f p e s = Some (fold f ps e, s')" "full_ok bs s' (ps @ xs)"
    "dom (nxt s') = dom (nxt s)"
proof -
  have p: "pool_ok s xs" and new: "set ps \<inter> set xs = {}" and b: "\<And>x. x \<in> set ps \<Longrightarrow> built s x"
    using ok used by (auto simp: full_ok_def)
  obtain s' where f: "freeLinkedList_with f p e s = Some (fold f ps e, s')"
    and p': "pool_ok s' (ps @ xs)" and d': "dom (nxt s') = dom (nxt s)" and ss: "same_setup s' s"
    and bo: "\<forall>y. y \<notin> set ps \<longrightarrow> built s' y = built s y"
    by (rule freeLinkedList_with_gives [OF p seg d new b])
  have "usable bs s'"
    using usable_setup [OF ss] d' ok by (simp add: full_ok_def)
  then have "full_ok bs s' (ps @ xs)"
    using ok p' d' bo by (auto simp: full_ok_def)
  then show ?thesis
    by (rule that [OF f _ d'])
qed

lemma full_in_use: "full_ok bs s xs \<Longrightarrow> lp_in_use (bs, s) = dom (nxt s) - set xs"
  by (rule lp_in_use_eq) (simp add: full_ok_def)

lemma malloc_none: "full_ok bs s xs \<Longrightarrow> malloc bs s = Some r \<Longrightarrow> xs \<noteq> [] \<or> bs \<noteq> []"
  by (auto simp: malloc_def intl_malloc_def refill.simps full_ok_def pool_ok_def)

interpretation lp: object_pool lp_ok lp_in_use lp_malloc lp_free lp_list_at lp_free_list
proof
  fix st p st' assume ok: "lp_ok st" and m: "lp_malloc st = Some (p, st')"
  obtain bs s where st: "st = (bs, s)" by (cases st)
  obtain xs where full: "full_ok bs s xs"
    using ok st by (auto simp: lp_ok_def)
  obtain q bs' s' xs' where "malloc bs s = Some (q, bs', s')" "full_ok bs' s' xs'"
    "q \<notin> dom (nxt s) - set xs" "dom (nxt s') - set xs' = insert q (dom (nxt s) - set xs)"
    using m st by (rule_tac malloc_full [OF full malloc_none [OF full]]) (auto simp: lp_malloc_def)
  then show "lp_ok st' \<and> p \<notin> lp_in_use st \<and> lp_in_use st' = insert p (lp_in_use st)"
    using m st full_in_use full by (auto simp: lp_malloc_def lp_ok_def)
next
  fix st p assume ok: "lp_ok st" and p: "p \<in> lp_in_use st"
  obtain bs s where st: "st = (bs, s)" by (cases st)
  obtain xs where full: "full_ok bs s xs"
    using ok st by (auto simp: lp_ok_def)
  have p': "p \<in> dom (nxt s) - set xs"
    using p st full_in_use [OF full] by simp
  obtain s' where "free p s = Some s'" "full_ok bs s' (p # xs)" "dom (nxt s') = dom (nxt s)"
    by (rule free_full [OF full p'])
  then show "\<exists>st'. lp_free p st = Some st' \<and> lp_ok st' \<and> lp_in_use st' = lp_in_use st - {p}"
    using st full full_in_use by (auto simp: lp_free_def lp_ok_def)
next
  fix st p ps and f :: "u64 \<Rightarrow> 'a \<Rightarrow> 'a" and e
  assume ok: "lp_ok st" and l: "lp_list_at st p ps" and d: "distinct ps" and u: "set ps \<subseteq> lp_in_use st"
  obtain bs s where st: "st = (bs, s)" by (cases st)
  obtain xs where full: "full_ok bs s xs"
    using ok st by (auto simp: lp_ok_def)
  have seg: "segment (nxt s) p ps" and u': "set ps \<subseteq> dom (nxt s) - set xs"
    using l u st full_in_use [OF full] by (auto simp: lp_list_at_def)
  obtain s' where "freeLinkedList_with f p e s = Some (fold f ps e, s')" "full_ok bs s' (ps @ xs)"
    "dom (nxt s') = dom (nxt s)"
    by (rule free_list_full [OF full seg d u'])
  then show "\<exists>st'. lp_free_list f p e st = Some (fold f ps e, st') \<and> lp_ok st' \<and>
      lp_in_use st' = lp_in_use st - set ps"
    using st full full_in_use by (auto simp: lp_free_list_def lp_ok_def)
qed

section \<open>DummyLinkedListPool keeps the contract\<close>

definition dp_ok :: "u64 list \<times> (u64 \<Rightarrow> u64 option) \<Rightarrow> bool" where
  "dp_ok st \<longleftrightarrow> snd st 0 = None"

definition dp_in_use :: "u64 list \<times> (u64 \<Rightarrow> u64 option) \<Rightarrow> u64 set" where
  "dp_in_use st = dom (snd st)"

definition dp_malloc ::
  "(u64 option \<Rightarrow> u64) \<Rightarrow> u64 list \<times> (u64 \<Rightarrow> u64 option) \<Rightarrow>
     (u64 \<times> u64 list \<times> (u64 \<Rightarrow> u64 option)) option"
where
  "dp_malloc c st =
    (case st of
       ([], h) \<Rightarrow> None
     | (a # as, h) \<Rightarrow> map_option (\<lambda>(p, h'). (p, as, h')) (dummy_malloc c a h))"

definition dp_free ::
  "u64 \<Rightarrow> u64 list \<times> (u64 \<Rightarrow> u64 option) \<Rightarrow> (u64 list \<times> (u64 \<Rightarrow> u64 option)) option"
where
  "dp_free p st = map_option (Pair (fst st)) (dummy_free p (snd st))"

definition dp_list_at :: "u64 list \<times> (u64 \<Rightarrow> u64 option) \<Rightarrow> u64 \<Rightarrow> u64 list \<Rightarrow> bool" where
  "dp_list_at st p ps \<longleftrightarrow> segment (snd st) p ps"

definition dp_free_list ::
  "(u64 \<Rightarrow> 'e \<Rightarrow> 'e) \<Rightarrow> u64 \<Rightarrow> 'e \<Rightarrow> u64 list \<times> (u64 \<Rightarrow> u64 option) \<Rightarrow>
     ('e \<times> u64 list \<times> (u64 \<Rightarrow> u64 option)) option"
where
  "dp_free_list f p e st =
    map_option (\<lambda>(e', h'). (e', fst st, h')) (dummy_freeLinkedList_with f p e (snd st))"

lemmas dp_defs = dp_ok_def dp_in_use_def dp_malloc_def dp_free_def dp_list_at_def dp_free_list_def

lemma dom_removed: "dom (removed ps h) = dom h - set ps"
  by (auto simp: removed_def split: if_splits)

interpretation dp: object_pool dp_ok dp_in_use "dp_malloc c" dp_free dp_list_at dp_free_list for c
proof
  fix st p st' assume "dp_ok st" and "dp_malloc c st = Some (p, st')"
  then show "dp_ok st' \<and> p \<notin> dp_in_use st \<and> dp_in_use st' = insert p (dp_in_use st)"
    by (auto simp: dp_defs dummy_malloc_def malloc_api_def
        split: prod.splits list.splits option.splits if_splits)
next
  fix st p assume "dp_ok st" and "p \<in> dp_in_use st"
  then show "\<exists>st'. dp_free p st = Some st' \<and> dp_ok st' \<and> dp_in_use st' = dp_in_use st - {p}"
    by (auto simp: dp_defs dummy_free_def)
next
  fix st p ps and f :: "u64 \<Rightarrow> 'a \<Rightarrow> 'a" and e
  assume "dp_ok st" and "dp_list_at st p ps" and "distinct ps" and "set ps \<subseteq> dp_in_use st"
  then show "\<exists>st'. dp_free_list f p e st = Some (fold f ps e, st') \<and> dp_ok st' \<and>
      dp_in_use st' = dp_in_use st - set ps"
    using dummy_free_loop_closed [of "snd st" p ps f e]
    by (auto simp: dp_defs dummy_freeLinkedList_with_def removed_def split: if_splits)
qed

section \<open>Many threads\<close>

text \<open>
  \<open>malloc\<close> and \<open>free\<close> as the threads run them, one memory access at a time. A thread in
  \<open>intl_malloc\<close> has loaded a head (\<open>Loaded\<close>), then read its \<open>next\<close> (\<open>Read\<close>), and then
  tries the exchange; a thread returning cells has linked the last one to a head it loaded
  (\<open>Linked\<close>) and tries the exchange. The number kept with a loaded head is the count of
  exchanges done so far, which the code does not have. \<open>out\<close> holds the cells the clients have,
  whose \<open>next\<close> they may change. An exchange may fail without a reason
  (\<open>compare_exchange_weak\<close>).
\<close>

datatype progress =
    Idle
  | Loaded u64 nat
  | Read u64 u64 nat
  | Linked "u64 list"

record conc =
  mem :: pool
  thread :: "nat \<Rightarrow> progress"
  exchanges :: nat
  out :: "u64 set"

datatype act = Silent | Took u64 | Gave "u64 list"

fun links :: "(u64 \<Rightarrow> u64 option) \<Rightarrow> u64 list \<Rightarrow> bool" where
  "links nx [] \<longleftrightarrow> False"
| "links nx [x] \<longleftrightarrow> nx x \<noteq> None"
| "links nx (x # y # ys) \<longleftrightarrow> nx x = Some y \<and> links nx (y # ys)"

abbreviation hd_ptr :: "conc \<Rightarrow> u64" where
  "hd_ptr c \<equiv> pool_head (mem c)"

definition set_next :: "u64 \<Rightarrow> u64 \<Rightarrow> pool \<Rightarrow> pool" where
  "set_next p v s = s\<lparr>nxt := (nxt s)(p \<mapsto> v)\<rparr>"

inductive pool_step :: "conc \<Rightarrow> act \<Rightarrow> conc \<Rightarrow> bool" where
  load: "thread c t = Idle \<Longrightarrow> clean_ptr (hd_ptr c) \<noteq> 0 \<Longrightarrow>
    pool_step c Silent (c\<lparr>thread := (thread c)(t := Loaded (hd_ptr c) (exchanges c))\<rparr>)"
| read: "thread c t = Loaded h k \<Longrightarrow> nxt (mem c) (clean_ptr h) = Some n \<Longrightarrow>
    pool_step c Silent (c\<lparr>thread := (thread c)(t := Read h n k)\<rparr>)"
| take: "thread c t = Read h n k \<Longrightarrow> hd_ptr c = h \<Longrightarrow>
    pool_step c (Took (clean_ptr h))
      (c\<lparr>mem := (mem c)\<lparr>pool_head := next_ptr (clean_ptr n) h\<rparr>,
        thread := (thread c)(t := Idle), exchanges := Suc (exchanges c),
        out := insert (clean_ptr h) (out c)\<rparr>)"
| retry_take: "thread c t = Read h n k \<Longrightarrow> clean_ptr (hd_ptr c) \<noteq> 0 \<Longrightarrow>
    pool_step c Silent (c\<lparr>thread := (thread c)(t := Loaded (hd_ptr c) (exchanges c))\<rparr>)"
| found_empty: "thread c t = Read h n k \<Longrightarrow> clean_ptr (hd_ptr c) = 0 \<Longrightarrow>
    pool_step c Silent (c\<lparr>thread := (thread c)(t := Idle)\<rparr>)"
| chunk: "distinct ps \<Longrightarrow> (\<forall>x\<in>set ps. nxt (mem c) x = None \<and> x \<noteq> 0 \<and> clean_ptr x = x) \<Longrightarrow>
    (\<forall>x\<in>set ps. nx' x \<noteq> None) \<Longrightarrow> (\<forall>x. x \<notin> set ps \<longrightarrow> nx' x = nxt (mem c) x) \<Longrightarrow>
    pool_step c Silent (c\<lparr>mem := (mem c)\<lparr>nxt := nx'\<rparr>, out := out c \<union> set ps\<rparr>)"
| client: "p \<in> out c \<Longrightarrow> pool_step c Silent (c\<lparr>mem := set_next p v (mem c)\<rparr>)"
| put: "thread c t = Idle \<Longrightarrow> links (nxt (mem c)) ps \<Longrightarrow> distinct ps \<Longrightarrow> set ps \<subseteq> out c \<Longrightarrow>
    pool_step c Silent
      (c\<lparr>mem := set_next (last ps) (hd_ptr c) (mem c), thread := (thread c)(t := Linked ps),
        out := out c - set ps\<rparr>)"
| retry_give: "thread c t = Linked ps \<Longrightarrow>
    pool_step c Silent (c\<lparr>mem := set_next (last ps) (hd_ptr c) (mem c)\<rparr>)"
| give: "thread c t = Linked ps \<Longrightarrow> nxt (mem c) (last ps) = Some (hd_ptr c) \<Longrightarrow>
    pool_step c (Gave ps)
      (c\<lparr>mem := (mem c)\<lparr>pool_head := next_ptr (hd ps) (hd_ptr c)\<rparr>,
        thread := (thread c)(t := Idle), exchanges := Suc (exchanges c)\<rparr>)"

text \<open>The pool the threads mean to share: one stack, changed at once.\<close>

fun stack_effect :: "u64 list \<Rightarrow> act \<Rightarrow> u64 list \<Rightarrow> bool" where
  "stack_effect xs Silent xs' \<longleftrightarrow> xs' = xs"
| "stack_effect xs (Took p) xs' \<longleftrightarrow> xs = p # xs'"
| "stack_effect xs (Gave ps) xs' \<longleftrightarrow> xs' = ps @ xs"

definition pending :: "conc \<Rightarrow> nat \<Rightarrow> u64 set" where
  "pending c t = (case thread c t of Linked ps \<Rightarrow> set ps | _ \<Rightarrow> {})"

definition progress_ok :: "pool \<Rightarrow> nat \<Rightarrow> progress \<Rightarrow> bool" where
  "progress_ok s cas pr = (case pr of
      Idle \<Rightarrow> True
    | Loaded h k \<Rightarrow> k \<le> cas \<and> tag h = of_nat k \<and> clean_ptr h \<noteq> 0 \<and> (k = cas \<longrightarrow> h = pool_head s)
    | Read h n k \<Rightarrow> k \<le> cas \<and> tag h = of_nat k \<and> clean_ptr h \<noteq> 0 \<and>
        (k = cas \<longrightarrow> h = pool_head s \<and> nxt s (clean_ptr h) = Some n)
    | Linked ps \<Rightarrow> links (nxt s) ps \<and> distinct ps)"

definition conc_ok :: "conc \<Rightarrow> u64 list \<Rightarrow> bool" where
  "conc_ok c xs \<longleftrightarrow>
     stack (nxt (mem c)) (hd_ptr c) xs \<and> distinct xs \<and> set xs \<inter> out c = {} \<and>
     tag (hd_ptr c) = of_nat (exchanges c) \<and>
     (\<forall>x\<in>out c \<union> (\<Union>t. pending c t). x \<noteq> 0 \<and> clean_ptr x = x \<and> nxt (mem c) x \<noteq> None) \<and>
     (\<forall>t. pending c t \<inter> (set xs \<union> out c) = {} \<and> progress_ok (mem c) (exchanges c) (thread c t)) \<and>
     (\<forall>t u. t \<noteq> u \<longrightarrow> pending c t \<inter> pending c u = {})"

text \<open>No thread sleeps between its load and its exchange through a whole turn of the counter.\<close>

definition no_wrap :: "conc \<Rightarrow> bool" where
  "no_wrap c \<longleftrightarrow> (\<forall>t h n k. thread c t = Read h n k \<longrightarrow> exchanges c < k + 2 ^ 16)"

section \<open>The exchanges are atomic\<close>

lemma links_upd: "p \<notin> set ps \<Longrightarrow> links (nx(p \<mapsto> v)) ps = links nx ps"
  by (induction nx ps rule: links.induct) auto

lemma links_upd_last:
  assumes "links nx ps" and "distinct ps"
  shows "links (nx(last ps \<mapsto> v)) ps"
  using assms by (induction nx ps rule: links.induct) (auto simp: fun_upd_def)

lemma links_cong:
  assumes "links nx ps" and "\<And>x. x \<in> set ps \<Longrightarrow> nx' x = nx x"
  shows "links nx' ps"
  using assms by (induction nx ps rule: links.induct) auto

lemma links_nonempty: "links nx ps \<Longrightarrow> ps \<noteq> []"
  by auto

lemma stack_links:
  assumes "links nx ps" and "nx (last ps) = Some h" and "stack nx h xs" and "clean_ptr w = hd ps"
    and "\<And>x. x \<in> set ps \<Longrightarrow> x \<noteq> 0 \<and> clean_ptr x = x"
  shows "stack nx w (ps @ xs)"
  using assms
proof (induction nx ps arbitrary: w rule: links.induct)
  case (1 nx)
  then show ?case by simp
next
  case (2 nx x)
  then show ?case by simp
next
  case (3 nx x y ys)
  have "stack nx y ((y # ys) @ xs)"
    by (rule 3(1)) (use 3 in auto)
  then show ?case
    using 3(2,5,6) by auto
qed

text \<open>The first cell of the stack is neither with a client nor being returned.\<close>

lemma conc_top:
  assumes "conc_ok c xs" and "clean_ptr (hd_ptr c) \<noteq> 0"
  shows "clean_ptr (hd_ptr c) \<notin> out c" and "clean_ptr (hd_ptr c) \<notin> pending c t"
proof -
  obtain x ys where "xs = x # ys" and "x = clean_ptr (hd_ptr c)"
    using assms by (cases xs) (auto simp: conc_ok_def)
  then have "clean_ptr (hd_ptr c) \<in> set xs"
    by simp
  then show "clean_ptr (hd_ptr c) \<notin> out c" and "clean_ptr (hd_ptr c) \<notin> pending c t"
    using assms(1) by (auto simp: conc_ok_def)
qed

lemma progress_frame:
  assumes "progress_ok s cas pr" and "pool_head s' = pool_head s"
    and "clean_ptr (pool_head s) \<noteq> 0 \<Longrightarrow> nxt s' (clean_ptr (pool_head s)) = nxt s (clean_ptr (pool_head s))"
    and "\<And>ps. pr = Linked ps \<Longrightarrow> links (nxt s') ps"
  shows "progress_ok s' cas pr"
  using assms by (auto simp: progress_ok_def split: progress.splits)

lemma progress_next_count:
  assumes "progress_ok s cas pr" and "nxt s' = nxt s"
  shows "progress_ok s' (Suc cas) pr"
  using assms by (auto simp: progress_ok_def split: progress.splits)

lemma progress_loaded:
  assumes "conc_ok c xs" and "clean_ptr (hd_ptr c) \<noteq> 0"
  shows "progress_ok (mem c) (exchanges c) (Loaded (hd_ptr c) (exchanges c))"
  using assms by (simp add: progress_ok_def conc_ok_def)

lemma pending_upd:
  "pending (c\<lparr>thread := (thread c)(t := pr)\<rparr>) u =
     (if u = t then (case pr of Linked ps \<Rightarrow> set ps | _ \<Rightarrow> {}) else pending c u)"
  by (simp add: pending_def)

text \<open>A thread that only changes where it stands in \<open>intl_malloc\<close>.\<close>

lemma conc_quiet:
  assumes ok: "conc_ok c xs" and old: "pending c t = {}" and new: "\<And>ps. pr \<noteq> Linked ps"
    and p: "progress_ok (mem c) (exchanges c) pr"
  shows "conc_ok (c\<lparr>thread := (thread c)(t := pr)\<rparr>) xs"
proof -
  have n: "(case pr of Linked ps \<Rightarrow> set ps | _ \<Rightarrow> {}) = {}"
    using new by (auto split: progress.splits)
  have "pending (c\<lparr>thread := (thread c)(t := pr)\<rparr>) = pending c"
    using old n by (auto simp: pending_upd fun_eq_iff)
  then show ?thesis
    using ok p by (simp add: conc_ok_def)
qed

lemma nth_of_nat_close:
  assumes "(of_nat k :: 16 word) = of_nat c" and "k \<le> c" and "c < k + 2 ^ 16"
  shows "k = c"
proof -
  have "k mod 2 ^ 16 = c mod 2 ^ 16"
    using assms(1) by (simp add: of_nat_eq_iff take_bit_eq_mod unsigned_of_nat word_unat_eq_iff)
  then have "(2 ^ 16 :: nat) dvd (c - k)"
    using assms(2) by (metis mod_eq_dvd_iff_nat)
  moreover have "c - k < 2 ^ 16"
    using assms(2,3) by linarith
  ultimately have "c - k = 0"
    by (metis nat_dvd_not_less neq0_conv)
  then show ?thesis
    using assms(2) by simp
qed

lemma conc_take:
  assumes ok: "conc_ok c xs" and th: "thread c t = Read h n k" and h: "hd_ptr c = h"
    and w: "exchanges c < k + 2 ^ 16"
  obtains xs' where "xs = clean_ptr h # xs'"
    "conc_ok (c\<lparr>mem := (mem c)\<lparr>pool_head := next_ptr (clean_ptr n) h\<rparr>,
        thread := (thread c)(t := Idle), exchanges := Suc (exchanges c),
        out := insert (clean_ptr h) (out c)\<rparr>) xs'"
proof -
  have pr: "progress_ok (mem c) (exchanges c) (Read h n k)"
    using ok th by (metis conc_ok_def)
  have "k = exchanges c"
    using pr w ok h by (intro nth_of_nat_close) (auto simp: progress_ok_def conc_ok_def)
  then have n: "nxt (mem c) (clean_ptr h) = Some n" and nz: "clean_ptr h \<noteq> 0"
    using pr by (auto simp: progress_ok_def)
  then obtain xs' where xs: "xs = clean_ptr h # xs'" and tl: "stack (nxt (mem c)) n xs'"
    using ok h by (cases xs) (auto simp: conc_ok_def)
  let ?c = "c\<lparr>mem := (mem c)\<lparr>pool_head := next_ptr (clean_ptr n) h\<rparr>,
        thread := (thread c)(t := Idle), exchanges := Suc (exchanges c),
        out := insert (clean_ptr h) (out c)\<rparr>"
  have pend: "pending ?c u = pending c u" for u
    using th by (auto simp: pending_def)
  have prog: "progress_ok (mem ?c) (exchanges ?c) (thread ?c u)" for u
    using ok progress_next_count [of "mem c" "exchanges c" "thread c u" "mem ?c"]
    by (auto simp: conc_ok_def progress_ok_def)
  have "tag (next_ptr (clean_ptr n) h) = of_nat (Suc (exchanges c))"
    using ok h by (simp add: tag_next_ptr conc_ok_def)
  then have "conc_ok ?c xs'"
    using ok tl xs n nz prog by (auto simp: conc_ok_def pend)
  with xs show ?thesis
    by (rule that)
qed

lemma conc_give:
  assumes ok: "conc_ok c xs" and th: "thread c t = Linked ps"
    and l: "nxt (mem c) (last ps) = Some (hd_ptr c)"
  shows "conc_ok (c\<lparr>mem := (mem c)\<lparr>pool_head := next_ptr (hd ps) (hd_ptr c)\<rparr>,
        thread := (thread c)(t := Idle), exchanges := Suc (exchanges c)\<rparr>) (ps @ xs)"
    (is "conc_ok ?c _")
proof -
  have pr: "progress_ok (mem c) (exchanges c) (Linked ps)"
    using ok th by (metis conc_ok_def)
  have lk: "links (nxt (mem c)) ps" and d: "distinct ps" and ne: "ps \<noteq> []"
    using pr links_nonempty by (auto simp: progress_ok_def)
  have pt: "pending c t = set ps"
    using th by (simp add: pending_def)
  have v: "x \<noteq> 0 \<and> clean_ptr x = x" if "x \<in> set ps" for x
  proof -
    have "x \<in> out c \<union> (\<Union>t. pending c t)"
      using that pt by blast
    then show ?thesis
      using ok unfolding conc_ok_def by blast
  qed
  have hd: "clean_ptr (hd ps) = hd ps"
    using v ne by simp
  have st: "stack (nxt (mem c)) (next_ptr (hd ps) (hd_ptr c)) (ps @ xs)"
    using ok v hd by (intro stack_links [OF lk l]) (auto simp: conc_ok_def clean_next_ptr)
  have tg: "tag (next_ptr (hd ps) (hd_ptr c)) = of_nat (Suc (exchanges c))"
    using ok hd by (simp add: tag_next_ptr conc_ok_def)
  have pend: "pending ?c u = (if u = t then {} else pending c u)" for u
    by (simp add: pending_def)
  have prog: "progress_ok (mem ?c) (exchanges ?c) (thread ?c u)" for u
    using ok progress_next_count [of "mem c" "exchanges c" "thread c u" "mem ?c"]
    by (auto simp: conc_ok_def progress_ok_def)
  have new: "set ps \<inter> set xs = {}" "set ps \<inter> out c = {}"
    using ok unfolding conc_ok_def pt [symmetric] by blast+
  have apart: "pending c u \<inter> set ps = {}" if "u \<noteq> t" for u
    using ok that unfolding conc_ok_def pt [symmetric] by blast
  have mem: "\<forall>x\<in>out c \<union> (\<Union>u. pending c u). x \<noteq> 0 \<and> clean_ptr x = x \<and> nxt (mem c) x \<noteq> None"
    using ok unfolding conc_ok_def by blast
  have rest: "pending c u \<inter> (set xs \<union> out c) = {}" "u \<noteq> r \<Longrightarrow> pending c u \<inter> pending c r = {}" for u r
    using ok unfolding conc_ok_def by blast+
  show ?thesis
    unfolding conc_ok_def
  proof (intro conjI allI impI)
    show "\<forall>x\<in>out ?c \<union> (\<Union>t. pending ?c t). x \<noteq> 0 \<and> clean_ptr x = x \<and> nxt (mem ?c) x \<noteq> None"
      using mem by (auto simp: pend split: if_splits)
    show "pending ?c u \<inter> (set (ps @ xs) \<union> out ?c) = {}" for u
      using rest(1) [of u] apart [of u] by (auto simp: pend)
    show "pending ?c u \<inter> pending ?c r = {}" if "u \<noteq> r" for u r
      using rest(2) [OF that] by (auto simp: pend)
    show "distinct (ps @ xs)" and "set (ps @ xs) \<inter> out ?c = {}"
      using ok d new by (auto simp: conc_ok_def)
    show "progress_ok (mem ?c) (exchanges ?c) (thread ?c u)" for u
      by (rule prog)
  qed (use st tg in simp_all)
qed

lemma conc_links:
  assumes ok: "conc_ok c xs" and th: "thread c t = Linked ps"
  shows "links (nxt (mem c)) ps \<and> distinct ps"
proof -
  have "progress_ok (mem c) (exchanges c) (thread c t)"
    using ok unfolding conc_ok_def by blast
  then show ?thesis
    by (simp add: progress_ok_def th)
qed

text \<open>Changing \<open>next\<close> of a cell that is not in the stack.\<close>

lemma conc_write:
  assumes ok: "conc_ok c xs" and x: "\<And>x. nx' x \<noteq> nxt (mem c) x \<Longrightarrow> x \<notin> set xs"
    and def: "\<And>x. nxt (mem c) x \<noteq> None \<Longrightarrow> nx' x \<noteq> None"
    and lk: "\<And>t ps. thread c t = Linked ps \<Longrightarrow> links nx' ps"
  shows "conc_ok (c\<lparr>mem := (mem c)\<lparr>nxt := nx'\<rparr>\<rparr>) xs"
proof -
  let ?c = "c\<lparr>mem := (mem c)\<lparr>nxt := nx'\<rparr>\<rparr>"
  have same: "nx' x = nxt (mem c) x" if "x \<in> set xs" for x
    using x that by blast
  have top: "nx' (clean_ptr (hd_ptr c)) = nxt (mem c) (clean_ptr (hd_ptr c))"
    if "clean_ptr (hd_ptr c) \<noteq> 0"
  proof -
    have "clean_ptr (hd_ptr c) \<in> set xs"
      using ok that by (cases xs) (auto simp: conc_ok_def)
    then show ?thesis
      by (rule same)
  qed
  have "progress_ok (mem ?c) (exchanges c) (thread c t)" for t
    using ok top lk [of t] progress_frame [of "mem c" "exchanges c" "thread c t" "mem ?c"]
    by (simp add: conc_ok_def)
  moreover have "stack nx' (hd_ptr c) xs"
    using ok same stack_cong [of xs nx' "nxt (mem c)"] by (simp add: conc_ok_def)
  moreover have "pending ?c = pending c"
    by (simp add: pending_def fun_eq_iff)
  ultimately show ?thesis
    using ok def unfolding conc_ok_def by simp
qed

lemma conc_client:
  assumes ok: "conc_ok c xs" and p: "p \<in> out c"
  shows "conc_ok (c\<lparr>mem := set_next p v (mem c)\<rparr>) xs"
  unfolding set_next_def
proof (rule conc_write [OF ok])
  fix t ps assume t: "thread c t = Linked ps"
  have "progress_ok (mem c) (exchanges c) (Linked ps)"
    using ok t by (metis conc_ok_def)
  moreover have "p \<notin> pending c t"
    using ok p by (auto simp: conc_ok_def)
  ultimately show "links ((nxt (mem c))(p \<mapsto> v)) ps"
    using t by (simp add: progress_ok_def links_upd pending_def)
qed (use ok p in \<open>auto simp: conc_ok_def split: if_splits\<close>)

lemma conc_chunk:
  assumes ok: "conc_ok c xs"
    and new: "\<forall>x\<in>set ps. nxt (mem c) x = None \<and> x \<noteq> 0 \<and> clean_ptr x = x"
    and nx: "\<forall>x\<in>set ps. nx' x \<noteq> None" "\<forall>x. x \<notin> set ps \<longrightarrow> nx' x = nxt (mem c) x"
  shows "conc_ok (c\<lparr>mem := (mem c)\<lparr>nxt := nx'\<rparr>, out := out c \<union> set ps\<rparr>) xs"
proof -
  have sx: "set xs \<inter> set ps = {}"
    using ok new stack_members [of "nxt (mem c)" "hd_ptr c" xs] by (force simp: conc_ok_def)
  have pp: "pending c t \<inter> set ps = {}" for t
  proof -
    have "\<forall>x\<in>pending c t. nxt (mem c) x \<noteq> None"
      using ok unfolding conc_ok_def by blast
    then show ?thesis
      using new by blast
  qed
  have "conc_ok (c\<lparr>mem := (mem c)\<lparr>nxt := nx'\<rparr>\<rparr>) xs"
  proof (rule conc_write [OF ok])
    fix t qs assume t: "thread c t = Linked qs"
    have "links (nxt (mem c)) qs"
      using ok t by (blast dest: conc_links)
    then show "links nx' qs"
      using pp [of t] t nx(2) by (elim links_cong) (auto simp: pending_def)
  next
    show "x \<notin> set xs" if "nx' x \<noteq> nxt (mem c) x" for x
      using nx(2) sx that by blast
    show "nx' x \<noteq> None" if "nxt (mem c) x \<noteq> None" for x
      using nx that by (cases "x \<in> set ps") simp_all
  qed
  moreover have "pending (c\<lparr>mem := (mem c)\<lparr>nxt := nx'\<rparr>\<rparr>) = pending c"
    and "pending (c\<lparr>mem := (mem c)\<lparr>nxt := nx'\<rparr>, out := out c \<union> set ps\<rparr>) = pending c"
    by (simp_all add: pending_def fun_eq_iff)
  moreover have "pending c t \<inter> (set xs \<union> (out c \<union> set ps)) = pending c t \<inter> (set xs \<union> out c)" for t
    using pp [of t] by blast
  ultimately show ?thesis
    using new nx sx by (auto simp: conc_ok_def)
qed

lemma conc_link:
  assumes ok: "conc_ok c xs" and idle: "thread c t = Idle" and lk: "links (nxt (mem c)) ps"
    and d: "distinct ps" and own: "set ps \<subseteq> out c"
  shows "conc_ok (c\<lparr>mem := set_next (last ps) (hd_ptr c) (mem c),
    thread := (thread c)(t := Linked ps), out := out c - set ps\<rparr>) xs" (is "conc_ok ?c xs")
proof -
  have ne: "ps \<noteq> []"
    using lk links_nonempty by blast
  then have l: "last ps \<in> out c"
    using own last_in_set by blast
  let ?m = "set_next (last ps) (hd_ptr c) (mem c)"
  have ok1: "conc_ok (c\<lparr>mem := ?m\<rparr>) xs"
    by (rule conc_client [OF ok l])
  have pend: "pending ?c u = (if u = t then set ps else pending c u)" for u
    by (simp add: pending_def)
  have pend1: "pending (c\<lparr>mem := ?m\<rparr>) u = pending c u" for u
    by (simp add: pending_def)
  have apart: "pending c u \<inter> set ps = {}" "set xs \<inter> set ps = {}" for u
    using ok own unfolding conc_ok_def by blast+
  have "progress_ok ?m (exchanges c) (Linked ps)"
    using links_upd_last [OF lk d] d by (simp add: progress_ok_def set_next_def)
  then have pr: "progress_ok ?m (exchanges c) (thread ?c u)" for u
    using ok1 by (simp add: conc_ok_def)
  have mem: "out ?c \<union> (\<Union>u. pending ?c u) \<subseteq> out c \<union> (\<Union>u. pending c u)"
    using own by (auto simp: pend)
  have base: "\<forall>x\<in>out c \<union> (\<Union>t. pending c t). x \<noteq> 0 \<and> clean_ptr x = x \<and> nxt ?m x \<noteq> None"
    using ok1 unfolding conc_ok_def pend1 by simp
  show ?thesis
    unfolding conc_ok_def
  proof (intro conjI allI impI)
    show "\<forall>x\<in>out ?c \<union> (\<Union>t. pending ?c t). x \<noteq> 0 \<and> clean_ptr x = x \<and> nxt (mem ?c) x \<noteq> None"
    proof
      fix x assume "x \<in> out ?c \<union> (\<Union>t. pending ?c t)"
      with mem have "x \<in> out c \<union> (\<Union>t. pending c t)"
        by (rule subsetD)
      then show "x \<noteq> 0 \<and> clean_ptr x = x \<and> nxt (mem ?c) x \<noteq> None"
        using base by simp
    qed
    fix u show "pending ?c u \<inter> (set xs \<union> out ?c) = {}"
      using ok apart own unfolding pend conc_ok_def by auto
    fix v assume "u \<noteq> v"
    then show "pending ?c u \<inter> pending ?c v = {}"
      using ok apart unfolding pend conc_ok_def by auto
  qed (use ok1 pr in \<open>auto simp: conc_ok_def\<close>)
qed

lemma conc_relink:
  assumes ok: "conc_ok c xs" and th: "thread c t = Linked ps"
  shows "conc_ok (c\<lparr>mem := set_next (last ps) (hd_ptr c) (mem c)\<rparr>) xs"
  unfolding set_next_def
proof (rule conc_write [OF ok])
  have lk: "links (nxt (mem c)) ps \<and> distinct ps"
    using ok th by (blast dest: conc_links)
  then have l: "last ps \<in> pending c t"
    using th links_nonempty by (auto simp: pending_def)
  then show "x \<notin> set xs" if "((nxt (mem c))(last ps \<mapsto> hd_ptr c)) x \<noteq> nxt (mem c) x" for x
    using ok that by (auto simp: conc_ok_def split: if_splits)
  fix u qs assume u: "thread c u = Linked qs"
  show "links ((nxt (mem c))(last ps \<mapsto> hd_ptr c)) qs"
  proof (cases "u = t")
    case True
    then show ?thesis
      using th u lk by (simp add: links_upd_last)
  next
    case False
    have "links (nxt (mem c)) qs"
      using ok u by (blast dest: conc_links)
    moreover have "pending c u \<inter> pending c t = {}"
      using ok False unfolding conc_ok_def by blast
    ultimately show ?thesis
      using l u by (subst links_upd) (auto simp: pending_def)
  qed
qed auto

lemma idle_pending:
  "thread c t = Idle \<Longrightarrow> pending c t = {}"
  "thread c t = Loaded h i \<Longrightarrow> pending c t = {}"
  "thread c t = Read h n i \<Longrightarrow> pending c t = {}"
  by (simp_all add: pending_def)

lemma pool_step_stack:
  assumes "pool_step c a c'" and ok: "conc_ok c xs" and w: "no_wrap c"
  shows "\<exists>xs'. conc_ok c' xs' \<and> stack_effect xs a xs'"
  using assms(1)
proof cases
  case (load t)
  then show ?thesis
    using ok progress_loaded [OF ok] by (auto intro!: conc_quiet simp: idle_pending)
next
  case (read t h k n)
  have "progress_ok (mem c) (exchanges c) (Loaded h k)"
    using ok read by (metis conc_ok_def)
  then have "progress_ok (mem c) (exchanges c) (Read h n k)"
    using read by (auto simp: progress_ok_def)
  then show ?thesis
    using ok read by (auto intro!: conc_quiet simp: idle_pending)
next
  case (take t h n k)
  have "exchanges c < k + 2 ^ 16"
    using w take by (auto simp: no_wrap_def)
  then show ?thesis
    using take conc_take [OF ok, of t h n k] by (metis stack_effect.simps(2))
next
  case (retry_take t h n k)
  then show ?thesis
    using ok progress_loaded [OF ok] by (auto intro!: conc_quiet simp: idle_pending)
next
  case (found_empty t h n k)
  then show ?thesis
    using ok by (auto intro!: conc_quiet simp: idle_pending progress_ok_def)
next
  case (chunk ps nx')
  then show ?thesis
    using conc_chunk [OF ok] by auto
next
  case (client p v)
  then show ?thesis
    using conc_client [OF ok] by auto
next
  case (put t ps)
  then show ?thesis
    using conc_link [OF ok] by auto
next
  case (retry_give t ps)
  then show ?thesis
    using conc_relink [OF ok] by auto
next
  case (give t ps)
  then show ?thesis
    using conc_give [OF ok] by auto
qed

section \<open>Runs\<close>

inductive pool_run :: "conc \<Rightarrow> act list \<Rightarrow> conc \<Rightarrow> bool" where
  stop: "pool_run c [] c"
| more: "no_wrap c \<Longrightarrow> pool_step c a c1 \<Longrightarrow> pool_run c1 as c2 \<Longrightarrow> pool_run c (a # as) c2"

text \<open>What the accesses do to one stack; \<open>None\<close> when a cell is taken that is not on top.\<close>

fun replay :: "act list \<Rightarrow> u64 list \<Rightarrow> u64 list option" where
  "replay [] xs = Some xs"
| "replay (Silent # as) xs = replay as xs"
| "replay (Took p # as) xs =
    (case xs of [] \<Rightarrow> None | x # xs' \<Rightarrow> (if x = p then replay as xs' else None))"
| "replay (Gave ps # as) xs = replay as (ps @ xs)"

lemma replay_Cons: "stack_effect xs a xs' \<Longrightarrow> replay (a # as) xs = replay as xs'"
  by (cases a) auto

lemma pool_run_replay:
  assumes "pool_run c as c'" and "conc_ok c xs"
  shows "\<exists>xs'. replay as xs = Some xs' \<and> conc_ok c' xs'"
  using assms
proof (induction arbitrary: xs rule: pool_run.induct)
  case (stop c)
  then show ?case by simp
next
  case (more c a c1 as c2)
  then obtain xs1 where "conc_ok c1 xs1" and "stack_effect xs a xs1"
    using pool_step_stack by blast
  then show ?case
    using more.IH replay_Cons by metis
qed

text \<open>The threads start on a pool none of them has touched.\<close>

definition shared :: "pool \<Rightarrow> conc" where
  "shared s = \<lparr>mem = s, thread = (\<lambda>_. Idle), exchanges = 1, out = {}\<rparr>"

lemma new_pool_ok:
  assumes "usable (b # bs) (new_pool once c sz n min_sz)"
  obtains s where "LinkedListPool once c sz n min_sz b = Some s"
    "full_ok bs s (chunk_cells (chunk_size (new_pool once c sz n min_sz))
       (min_tsize (new_pool once c sz n min_sz)) b)"
    "dom (nxt s) = set (chunk_cells (chunk_size (new_pool once c sz n min_sz))
       (min_tsize (new_pool once c sz n min_sz)) b)"
    "tag (pool_head s) = 1" "same_setup s (new_pool once c sz n min_sz)"
proof -
  let ?e = "new_pool once c sz n min_sz"
  let ?cs = "chunk_cells (chunk_size ?e) (min_tsize ?e) b"
  have p: "pool_ok ?e []" and nx: "nxt ?e = (\<lambda>_. None)" and h: "pool_head ?e = 0"
    by (simp_all add: pool_ok_def new_pool_def)
  have f: "block_fits (chunk_size ?e) (min_tsize ?e) b"
    using assms by (simp add: usable_def)
  have fresh: "set ?cs \<inter> dom (nxt ?e) = {}"
    by (simp add: nx)
  obtain s where a: "allocate b ?e = Some s" and ps: "pool_ok s (?cs @ [])"
    and d: "dom (nxt s) = dom (nxt ?e) \<union> set ?cs" and ss: "same_setup s ?e"
    and hd: "pool_head s = next_ptr b (pool_head ?e)"
    by (rule allocate_gives [OF p f fresh])
  have "full_ok bs s ?cs"
    using ps usable_Cons [OF assms ss d] d nx chunk_cells_valid [OF f] by (auto simp: full_ok_def)
  moreover have "tag (pool_head s) = 1"
  proof -
    have "clean_ptr b = b"
      using cell_clean [OF f, of 0] f by (simp add: cell_def block_fits_def)
    then show ?thesis
      by (simp add: hd tag_next_ptr h) (simp add: tag_def)
  qed
  ultimately show ?thesis
    using a d nx ss by (intro that [of s]) (auto simp: LinkedListPool_def)
qed

section \<open>The properties\<close>

text \<open>A pool of two cells of 16 bytes at address 4096, for a type of 16 bytes.\<close>

definition sample_pool :: pool where
  "sample_pool = new_pool True (\<lambda>_. 0) 16 2 16"

lemma sample_setup: "chunk_size sample_pool = 2" "min_tsize sample_pool = 16"
  "nxt sample_pool = (\<lambda>_. None)"
  by (simp_all add: sample_pool_def new_pool_def to_int32_def)

lemma sample_cells: "chunk_cells 2 16 4096 = [4096, 4112]" "chunk_cells 2 16 8192 = [8192, 8208]"
  by (simp_all add: chunk_cells_def cell_def upt_conv_Cons)

lemma sample_usable: "usable [4096, 8192] (new_pool True (\<lambda>_. 0) 16 2 16)"
  unfolding sample_pool_def [symmetric]
  by (simp add: usable_def sample_setup supply_cells_def sample_cells block_fits_def)

text \<open>
  Whatever requests the clients make of a new \<open>LinkedListPool\<close> (objects taken, objects
  returned in any order), the objects they hold at the end are pairwise different and are
  exactly the cells that are not in the pool: no cell is handed out twice and none is lost.
\<close>

theorem pool_hands_out_once:
  assumes "usable (b # bs) (new_pool once c sz n min_sz)"
    and "LinkedListPool once c sz n min_sz b = Some s"
    and "serve lp_malloc lp_free rs [] (bs, s) = Some (held, st)"
  shows "distinct held \<and> set held = lp_in_use st"
proof -
  obtain s1 xs where "LinkedListPool once c sz n min_sz b = Some s1" "full_ok bs s1 xs"
    and d: "dom (nxt s1) = set xs"
    using new_pool_ok [OF assms(1)] by metis
  then have "full_ok bs s xs" and "dom (nxt s) = set xs"
    using assms(2) by auto
  then have "lp_ok (bs, s)" and "lp_in_use (bs, s) = {}"
    using full_in_use by (auto simp: lp_ok_def)
  then show ?thesis
    using lp.serve_held [OF _ _ _ assms(3)] by simp
qed

lemma sample_serve:
  "(case LinkedListPool True (\<lambda>_. 0) 16 2 16 4096 of
      None \<Rightarrow> None
    | Some s \<Rightarrow> map_option fst (serve lp_malloc lp_free [Get, Get, Put 0, Get, Get] [] ([8192], s)))
   = Some [4112, 4096, 8192]"
  by code_simp

theorem pool_hands_out_once_witness:
  "\<exists>s held st. LinkedListPool True (\<lambda>_. 0) 16 2 16 4096 = Some s \<and>
     serve lp_malloc lp_free [Get, Get, Put 0, Get, Get] [] ([8192], s) = Some (held, st) \<and>
     held = [4112, 4096, 8192] \<and> distinct held \<and> set held = lp_in_use st"
proof -
  obtain s st where "LinkedListPool True (\<lambda>_. 0) 16 2 16 4096 = Some s"
    and "serve lp_malloc lp_free [Get, Get, Put 0, Get, Get] [] ([8192], s) = Some ([4112, 4096, 8192], st)"
    using sample_serve by (auto split: option.splits)
  then show ?thesis
    using pool_hands_out_once [OF sample_usable] by blast
qed

text \<open>
  Returning an object to a \<open>LinkedListPool\<close> and asking for one gives the same object back
  and leaves the free list as it was.
\<close>

theorem free_malloc_roundtrip:
  assumes "full_ok bs s xs" and "x \<in> lp_in_use (bs, s)"
  shows "\<exists>s1 s2. free x s = Some s1 \<and> malloc bs s1 = Some (x, bs, s2) \<and> pool_ok s2 xs"
proof -
  have "x \<in> dom (nxt s) - set xs"
    using assms full_in_use by blast
  then obtain s1 where s1: "free x s = Some s1" and "full_ok bs s1 (x # xs)"
    by (rule free_full [OF assms(1)])
  then have "pool_ok s1 (x # xs)"
    by (simp add: full_ok_def)
  then obtain s2 where "malloc bs s1 = Some (x, bs, s2)" and "pool_ok s2 xs"
    by (rule malloc_takes)
  then show ?thesis
    using s1 by blast
qed

theorem free_malloc_roundtrip_witness:
  "\<exists>s p s' s1 s2 xs. LinkedListPool True (\<lambda>_. 0) 16 2 16 4096 = Some s \<and>
     malloc [] s = Some (p, [], s') \<and> free p s' = Some s1 \<and> malloc [] s1 = Some (p, [], s2) \<and>
     pool_ok s2 xs"
proof -
  have "usable [4096] (new_pool True (\<lambda>_. 0) 16 2 16)"
    unfolding sample_pool_def [symmetric]
    by (simp add: usable_def sample_setup supply_cells_def sample_cells block_fits_def)
  then obtain s where s: "LinkedListPool True (\<lambda>_. 0) 16 2 16 4096 = Some s"
    and f: "full_ok [] s (chunk_cells (chunk_size (new_pool True (\<lambda>_. 0) 16 2 16))
      (min_tsize (new_pool True (\<lambda>_. 0) 16 2 16)) 4096)"
    by (rule new_pool_ok)
  then have f: "full_ok [] s [4096, 4112]"
    by (simp add: sample_pool_def [symmetric] sample_setup sample_cells)
  obtain p bs' s' xs' where m: "malloc [] s = Some (p, bs', s')" and ok: "full_ok bs' s' xs'"
    and u: "dom (nxt s') - set xs' = insert p (dom (nxt s) - set [4096, 4112])"
    by (rule malloc_full [OF f]) auto
  have "bs' = []"
    using m by (auto simp: malloc_def intl_malloc_def refill.simps Let_def split: option.splits if_splits)
  moreover have "p \<in> lp_in_use (bs', s')"
    using u full_in_use [OF ok] by blast
  ultimately show ?thesis
    using s m free_malloc_roundtrip [OF ok] by blast
qed

text \<open>
  C30: However the threads interleave their loads, reads and exchanges on a new
  \<open>LinkedListPool\<close>, and whatever the clients write into the cells they hold, every exchange
  that succeeds acts on one stack: an object taken is the top of it, objects returned go on
  top, and at the end the list in memory is that stack. It rests on the counter in the head:
  no thread may sleep between its load and its exchange while \<open>2 ^ 16\<close> others succeed.
\<close>

theorem threads_share_a_stack:
  assumes "usable [b] (new_pool once c sz n min_sz)"
    and "LinkedListPool once c sz n min_sz b = Some s"
    and "pool_run (shared s) as c'"
  shows "\<exists>xs. replay as (chunk_cells (chunk_size s) (min_tsize s) b) = Some xs \<and>
    stack (nxt (mem c')) (pool_head (mem c')) xs"
proof -
  let ?e = "new_pool once c sz n min_sz"
  obtain s1 where s1: "LinkedListPool once c sz n min_sz b = Some s1"
    and f: "full_ok [] s1 (chunk_cells (chunk_size ?e) (min_tsize ?e) b)"
    and tg: "tag (pool_head s1) = 1" and ss: "same_setup s1 ?e"
    by (rule new_pool_ok [OF assms(1)])
  have s: "s1 = s"
    using s1 assms(2) by simp
  have "conc_ok (shared s) (chunk_cells (chunk_size ?e) (min_tsize ?e) b)"
    using f tg by (auto simp: s shared_def conc_ok_def full_ok_def pool_ok_def pending_def progress_ok_def)
  then obtain xs where "replay as (chunk_cells (chunk_size ?e) (min_tsize ?e) b) = Some xs"
    and "conc_ok c' xs"
    using pool_run_replay [OF assms(3)] by blast
  then show ?thesis
    using ss by (auto simp: s conc_ok_def same_setup_def)
qed

lemma sample_threads:
  assumes "clean_ptr (pool_head s) = 4096" and "nxt s 4096 = Some n"
  shows "\<exists>c. pool_run (shared s) [Silent, Silent, Silent, Silent, Took 4096, Silent] c"
proof -
  let ?h = "pool_head s"
  let ?c0 = "shared s"
  let ?c1 = "?c0\<lparr>thread := (thread ?c0)(0 := Loaded ?h 1)\<rparr>"
  let ?c2 = "?c1\<lparr>thread := (thread ?c1)(1 := Loaded ?h 1)\<rparr>"
  let ?c3 = "?c2\<lparr>thread := (thread ?c2)(0 := Read ?h n 1)\<rparr>"
  let ?c4 = "?c3\<lparr>thread := (thread ?c3)(1 := Read ?h n 1)\<rparr>"
  let ?c5 = "?c4\<lparr>mem := (mem ?c4)\<lparr>pool_head := next_ptr (clean_ptr n) ?h\<rparr>,
    thread := (thread ?c4)(0 := Idle), exchanges := Suc (exchanges ?c4),
    out := insert (clean_ptr ?h) (out ?c4)\<rparr>"
  have wrap: "no_wrap ?c0" "no_wrap ?c1" "no_wrap ?c2" "no_wrap ?c3" "no_wrap ?c4" "no_wrap ?c5"
    by (auto simp: no_wrap_def shared_def)
  have "pool_step ?c0 Silent ?c1" "pool_step ?c1 Silent ?c2"
    using assms pool_step.load [of ?c0 0] pool_step.load [of ?c1 1] by (simp_all add: shared_def)
  moreover have "pool_step ?c2 Silent ?c3" "pool_step ?c3 Silent ?c4"
    using assms pool_step.read [of ?c2 0 ?h 1 n] pool_step.read [of ?c3 1 ?h 1 n]
    by (simp_all add: shared_def)
  moreover have "pool_step ?c4 (Took 4096) ?c5"
    using assms pool_step.take [of ?c4 0 ?h n 1] by (simp add: shared_def)
  moreover have "\<exists>c. pool_step ?c5 Silent c"
    using pool_step.retry_take [of ?c5 1 ?h n 1] pool_step.found_empty [of ?c5 1 ?h n 1]
    by (auto simp: shared_def)
  ultimately show ?thesis
    using wrap by (meson pool_run.intros)
qed

theorem threads_share_a_stack_witness:
  "\<exists>s c'. LinkedListPool True (\<lambda>_. 0) 16 2 16 4096 = Some s \<and>
     pool_run (shared s) [Silent, Silent, Silent, Silent, Took 4096, Silent] c' \<and>
     stack (nxt (mem c')) (pool_head (mem c')) [4112]"
proof -
  have u: "usable [4096] (new_pool True (\<lambda>_. 0) 16 2 16)"
    unfolding sample_pool_def [symmetric]
    by (simp add: usable_def sample_setup supply_cells_def sample_cells block_fits_def)
  then obtain s where s: "LinkedListPool True (\<lambda>_. 0) 16 2 16 4096 = Some s"
    and f: "full_ok [] s (chunk_cells (chunk_size (new_pool True (\<lambda>_. 0) 16 2 16))
      (min_tsize (new_pool True (\<lambda>_. 0) 16 2 16)) 4096)"
    and ss: "same_setup s (new_pool True (\<lambda>_. 0) 16 2 16)"
    by (rule new_pool_ok)
  have cs: "chunk_cells (chunk_size s) (min_tsize s) 4096 = [4096, 4112]"
    using ss by (simp add: sample_pool_def [symmetric] same_setup_def sample_setup sample_cells)
  have "stack (nxt s) (pool_head s) [4096, 4112]"
    using f by (simp add: sample_pool_def [symmetric] sample_setup sample_cells full_ok_def pool_ok_def)
  then obtain n where "clean_ptr (pool_head s) = 4096" and "nxt s 4096 = Some n"
    by (auto split: option.splits)
  then obtain c' where r: "pool_run (shared s) [Silent, Silent, Silent, Silent, Took 4096, Silent] c'"
    using sample_threads by blast
  from threads_share_a_stack [OF u s r] show ?thesis
    using s r by (auto simp: cs)
qed

end
