(* ===== verification/Lockfree.thy ===== *)
theory Lockfree
  imports Prelude
begin

text \<open>
  The bounded queue \<open>boost::lockfree::queue<T, fixed_sized<true>>\<close> that holds the ready tasks,
  from \<open>boost/lockfree/queue.hpp\<close> and \<open>boost/lockfree/detail/freelist.hpp\<close>: nodes in an array,
  addressed by 16-bit indices with a 16-bit tag, a free list of nodes and a linked list with a
  dummy node at its front. \<open>push\<close> and \<open>pop\<close> are given one memory access at a time, so that
  several threads can be interleaved; run alone they are the operations of a bounded queue.
\<close>

section \<open>Tagged indices\<close>

record tagged_index =
  index :: "16 word"
  itag :: "16 word"

definition get_next_tag :: "tagged_index \<Rightarrow> 16 word" where
  "get_next_tag t = ucast (((ucast (itag t) :: 32 word) + 1) AND 0xFFFF)"

lemma get_next_tag_eq: "get_next_tag t = itag t + 1"
proof -
  have "(0xFFFF :: 32 word) = mask 16"
    by (simp add: mask_eq_exp_minus_1)
  then have "get_next_tag t = ucast (take_bit 16 ((ucast (itag t) :: 32 word) + 1))"
    by (simp add: get_next_tag_def take_bit_eq_mask)
  then have "unat (get_next_tag t) = (unat (itag t) + 1) mod 2 ^ 16"
    by (simp add: unsigned_ucast_eq unsigned_take_bit_eq unat_word_ariths take_bit_eq_mod mod_simps
        mod_mod_cancel)
  then show ?thesis
    by (simp add: word_unat_eq_iff unat_word_ariths)
qed

section \<open>The free list\<close>

text \<open>
  A node of the queue; while it is free its \<open>next\<close> links the free list. A node that was never
  built has no data.
\<close>

record 'a qnode =
  qnext :: tagged_index
  qdata :: "'a option"

record 'a freelist =
  nodes :: "'a qnode list"
  pool_top :: tagged_index

definition null_handle :: "'a freelist \<Rightarrow> 16 word" where
  "null_handle fl = of_nat (length (nodes fl))"

definition get_handle :: "'a freelist \<Rightarrow> 16 word option \<Rightarrow> 16 word" where
  "get_handle fl p = (case p of None \<Rightarrow> null_handle fl | Some i \<Rightarrow> i)"

definition get_pointer :: "'a freelist \<Rightarrow> 16 word \<Rightarrow> 16 word option" where
  "get_pointer fl i = (if i = null_handle fl then None else Some i)"

text \<open>Access to the array: \<open>None\<close> outside it, which the code never checks.\<close>

definition node_at :: "'a freelist \<Rightarrow> 16 word \<Rightarrow> 'a qnode option" where
  "node_at fl i = (if unat i < length (nodes fl) then Some (nodes fl ! unat i) else None)"

definition put_node :: "16 word \<Rightarrow> 'a qnode \<Rightarrow> 'a freelist \<Rightarrow> 'a freelist" where
  "put_node i n fl = fl\<lparr>nodes := (nodes fl)[unat i := n]\<rparr>"

definition set_index :: "16 word \<Rightarrow> 'a qnode \<Rightarrow> 'a qnode" where
  "set_index i n = n\<lparr>qnext := (qnext n)\<lparr>index := i\<rparr>\<rparr>"

definition allocate_impl :: "'a freelist \<Rightarrow> (16 word \<times> 'a freelist) option" where
  "allocate_impl fl =
    (let old_pool = pool_top fl; i = index old_pool in
     if i = null_handle fl then Some (i, fl)
     else (case node_at fl i of
             None \<Rightarrow> None
           | Some old_node \<Rightarrow>
               Some (i, fl\<lparr>pool_top :=
                 \<lparr>index = index (qnext old_node), itag = get_next_tag old_pool\<rparr>\<rparr>)))"

definition deallocate_impl :: "16 word \<Rightarrow> 'a freelist \<Rightarrow> 'a freelist option" where
  "deallocate_impl i fl =
    (let old_pool = pool_top fl in
     case node_at fl i of
       None \<Rightarrow> None
     | Some n \<Rightarrow>
         Some ((put_node i (set_index (index old_pool) n) fl)
           \<lparr>pool_top := \<lparr>index = i, itag = itag old_pool\<rparr>\<rparr>))"

text \<open>\<open>construct\<close>, \<open>mk\<close> being the constructor run on the memory of the node.\<close>

definition construct_node ::
  "('a qnode \<Rightarrow> 'a qnode) \<Rightarrow> 'a freelist \<Rightarrow> (16 word option \<times> 'a freelist) option"
where
  "construct_node mk fl =
    (case allocate_impl fl of
       None \<Rightarrow> None
     | Some (i, fl') \<Rightarrow>
         if i = null_handle fl' then Some (None, fl')
         else (case node_at fl' i of
                 None \<Rightarrow> None
               | Some n \<Rightarrow> Some (Some i, put_node i (mk n) fl')))"

definition destruct_node :: "tagged_index \<Rightarrow> 'a freelist \<Rightarrow> 'a freelist option" where
  "destruct_node t fl = deallocate_impl (index t) fl"

text \<open>
  The constructor of the free list: \<open>raw\<close> is the memory it got for its nodes. Each node is
  returned to the list, which starts empty.
\<close>

fun initialize_nodes :: "nat list \<Rightarrow> 'a freelist \<Rightarrow> 'a freelist option" where
  "initialize_nodes [] fl = Some fl"
| "initialize_nodes (i # is) fl =
    (case node_at fl (of_nat i) of
       None \<Rightarrow> None
     | Some n \<Rightarrow>
         (case deallocate_impl (of_nat i) (put_node (of_nat i) (set_index (null_handle fl) n) fl) of
            None \<Rightarrow> None
          | Some fl' \<Rightarrow> initialize_nodes is fl'))"

datatype lf_error = Runtime_error | Bad_access

definition fixed_size_freelist :: "'a qnode list \<Rightarrow> lf_error + 'a freelist" where
  "fixed_size_freelist raw =
    (if 65535 < length raw then Inl Runtime_error
     else (case initialize_nodes [0..<length raw]
             \<lparr>nodes = raw, pool_top = \<lparr>index = of_nat (length raw), itag = 0\<rparr>\<rparr> of
             None \<Rightarrow> Inl Bad_access
           | Some fl \<Rightarrow> Inr fl))"

section \<open>The queue\<close>

record 'a queue =
  pool :: "'a freelist"
  q_head :: tagged_index
  q_tail :: tagged_index

text \<open>The constructors of a node; \<open>null\<close> is the null handle.\<close>

definition data_node :: "'a \<Rightarrow> 16 word \<Rightarrow> 'a qnode" where
  "data_node v null =
    (let old_next = \<lparr>index = null, itag = 0\<rparr>;
         new_next = \<lparr>index = null, itag = get_next_tag old_next\<rparr>
     in \<lparr>qnext = new_next, qdata = Some v\<rparr>)"

definition dummy_node :: "16 word \<Rightarrow> 'a qnode \<Rightarrow> 'a qnode" where
  "dummy_node null raw = raw\<lparr>qnext := \<lparr>index = null, itag = 0\<rparr>\<rparr>"

definition initialize_queue :: "'a freelist \<Rightarrow> 'a queue option" where
  "initialize_queue fl =
    (case construct_node (dummy_node (null_handle fl)) fl of
       None \<Rightarrow> None
     | Some (n, fl') \<Rightarrow>
         (let dummy = \<lparr>index = get_handle fl' n, itag = 0\<rparr>
          in Some \<lparr>pool = fl', q_head = dummy, q_tail = dummy\<rparr>))"

text \<open>\<open>queue(n)\<close>: one node more than the capacity; \<open>raw\<close> is the memory for the nodes.\<close>

definition new_queue :: "'a qnode list \<Rightarrow> lf_error + 'a queue" where
  "new_queue raw =
    (case fixed_size_freelist raw of
       Inl e \<Rightarrow> Inl e
     | Inr fl \<Rightarrow> (case initialize_queue fl of None \<Rightarrow> Inl Bad_access | Some q \<Rightarrow> Inr q))"

definition queue_empty :: "'a queue \<Rightarrow> bool" where
  "queue_empty q \<longleftrightarrow> index (q_head q) = index (q_tail q)"

text \<open>
  Where a thread stands in \<open>do_push<true>\<close> and in \<open>pop\<close>, with the local variables it has then:
  the handle of its node \<open>n\<close>, the values it loaded of \<open>tail_\<close>, \<open>head_\<close> and of a \<open>next\<close>.
\<close>

datatype 'a pc =
    PushEnter 'a
  | PushLoop "16 word"
  | PushTail "16 word" tagged_index
  | PushNext "16 word" tagged_index tagged_index
  | PushLink "16 word" tagged_index tagged_index
  | PushHelp "16 word" tagged_index tagged_index
  | PushSwing "16 word" tagged_index
  | Pushed bool
  | PopLoop
  | PopHead tagged_index
  | PopTail tagged_index tagged_index
  | PopNext tagged_index tagged_index tagged_index
  | PopHelp tagged_index tagged_index
  | PopData tagged_index tagged_index
  | PopTake tagged_index tagged_index 'a
  | PopFree tagged_index 'a
  | Popped "'a option"

definition store_next :: "16 word \<Rightarrow> tagged_index \<Rightarrow> 'a queue \<Rightarrow> 'a queue" where
  "store_next i t q =
    q\<lparr>pool := (case node_at (pool q) i of
                 None \<Rightarrow> pool q
               | Some n \<Rightarrow> put_node i (n\<lparr>qnext := t\<rparr>) (pool q))\<rparr>"

text \<open>One access to the shared memory.\<close>

fun push_step :: "'a queue \<Rightarrow> 'a pc \<Rightarrow> ('a queue \<times> 'a pc) option" where
  "push_step q (PushEnter v) =
    (case construct_node (\<lambda>_. data_node v (null_handle (pool q))) (pool q) of
       None \<Rightarrow> None
     | Some (None, fl) \<Rightarrow> Some (q\<lparr>pool := fl\<rparr>, Pushed False)
     | Some (Some n, fl) \<Rightarrow> Some (q\<lparr>pool := fl\<rparr>, PushLoop (get_handle fl (Some n))))"
| "push_step q (PushLoop n) = Some (q, PushTail n (q_tail q))"
| "push_step q (PushTail n tail) =
    (case node_at (pool q) (index tail) of
       None \<Rightarrow> None
     | Some tail_node \<Rightarrow> Some (q, PushNext n tail (qnext tail_node)))"
| "push_step q (PushNext n tail nxt) =
    Some (q, if tail = q_tail q
             then (if get_pointer (pool q) (index nxt) = None then PushLink n tail nxt
                   else PushHelp n tail nxt)
             else PushLoop n)"
| "push_step q (PushLink n tail nxt) =
    (case node_at (pool q) (index tail) of
       None \<Rightarrow> None
     | Some tail_node \<Rightarrow>
         (if qnext tail_node = nxt
          then Some (store_next (index tail) \<lparr>index = n, itag = get_next_tag nxt\<rparr> q, PushSwing n tail)
          else Some (q, PushLoop n)))"
| "push_step q (PushHelp n tail nxt) =
    Some (if q_tail q = tail
          then q\<lparr>q_tail := \<lparr>index = index nxt, itag = get_next_tag tail\<rparr>\<rparr> else q, PushLoop n)"
| "push_step q (PushSwing n tail) =
    Some (if q_tail q = tail
          then q\<lparr>q_tail := \<lparr>index = n, itag = get_next_tag tail\<rparr>\<rparr> else q, Pushed True)"
| "push_step q pc = Some (q, pc)"

fun pop_step :: "'a queue \<Rightarrow> 'a pc \<Rightarrow> ('a queue \<times> 'a pc) option" where
  "pop_step q PopLoop = Some (q, PopHead (q_head q))"
| "pop_step q (PopHead head) = Some (q, PopTail head (q_tail q))"
| "pop_step q (PopTail head tail) =
    (case node_at (pool q) (index head) of
       None \<Rightarrow> None
     | Some head_node \<Rightarrow> Some (q, PopNext head tail (qnext head_node)))"
| "pop_step q (PopNext head tail nxt) =
    Some (q, if head = q_head q
             then (if index head = index tail
                   then (if get_pointer (pool q) (index nxt) = None then Popped None
                         else PopHelp tail nxt)
                   else (if get_pointer (pool q) (index nxt) = None then PopLoop
                         else PopData head nxt))
             else PopLoop)"
| "pop_step q (PopHelp tail nxt) =
    Some (if q_tail q = tail
          then q\<lparr>q_tail := \<lparr>index = index nxt, itag = get_next_tag tail\<rparr>\<rparr> else q, PopLoop)"
| "pop_step q (PopData head nxt) =
    (case node_at (pool q) (index nxt) of
       None \<Rightarrow> None
     | Some n \<Rightarrow> (case qdata n of None \<Rightarrow> None | Some v \<Rightarrow> Some (q, PopTake head nxt v)))"
| "pop_step q (PopTake head nxt v) =
    Some (if q_head q = head
          then (q\<lparr>q_head := \<lparr>index = index nxt, itag = get_next_tag head\<rparr>\<rparr>, PopFree head v)
          else (q, PopLoop))"
| "pop_step q (PopFree head v) =
    (case destruct_node head (pool q) of
       None \<Rightarrow> None
     | Some fl \<Rightarrow> Some (q\<lparr>pool := fl\<rparr>, Popped (Some v)))"
| "pop_step q pc = Some (q, pc)"

text \<open>The operations, run to their return with no other thread at work.\<close>

partial_function (option) do_push :: "'a queue \<Rightarrow> 'a pc \<Rightarrow> (bool \<times> 'a queue) option" where
  "do_push q pc =
    (case pc of
       Pushed b \<Rightarrow> Some (b, q)
     | _ \<Rightarrow> (case push_step q pc of None \<Rightarrow> None | Some (q', pc') \<Rightarrow> do_push q' pc'))"

partial_function (option) do_pop :: "'a queue \<Rightarrow> 'a pc \<Rightarrow> ('a option \<times> 'a queue) option" where
  "do_pop q pc =
    (case pc of
       Popped r \<Rightarrow> Some (r, q)
     | _ \<Rightarrow> (case pop_step q pc of None \<Rightarrow> None | Some (q', pc') \<Rightarrow> do_pop q' pc'))"

definition bounded_push :: "'a \<Rightarrow> 'a queue \<Rightarrow> (bool \<times> 'a queue) option" where
  "bounded_push v q = do_push q (PushEnter v)"

definition pop :: "'a queue \<Rightarrow> ('a option \<times> 'a queue) option" where
  "pop q = do_pop q PopLoop"

declare do_push.simps [code] do_pop.simps [code]

text \<open>
  The unsynchronised \<open>pop\<close>, the consumers (\<open>f\<close> changes the client's state \<open>e\<close>) and the
  destructor.
\<close>

partial_function (option) unsynchronized_pop :: "'a queue \<Rightarrow> ('a option \<times> 'a queue) option" where
  "unsynchronized_pop q =
    (let head = q_head q; tail = q_tail q in
     case node_at (pool q) (index head) of
       None \<Rightarrow> None
     | Some head_node \<Rightarrow>
         (let nxt = qnext head_node in
          if index head = index tail
          then (if get_pointer (pool q) (index nxt) = None then Some (None, q)
                else unsynchronized_pop
                  (q\<lparr>q_tail := \<lparr>index = index nxt, itag = get_next_tag tail\<rparr>\<rparr>))
          else if get_pointer (pool q) (index nxt) = None then unsynchronized_pop q
          else (case node_at (pool q) (index nxt) of
                  None \<Rightarrow> None
                | Some n \<Rightarrow>
                    (case destruct_node head (pool q) of
                       None \<Rightarrow> None
                     | Some fl \<Rightarrow>
                         Some (qdata n, q\<lparr>pool := fl,
                           q_head := \<lparr>index = index nxt, itag = get_next_tag head\<rparr>\<rparr>)))))"

definition consume_one :: "('a \<Rightarrow> 'e \<Rightarrow> 'e) \<Rightarrow> 'e \<Rightarrow> 'a queue \<Rightarrow> (bool \<times> 'e \<times> 'a queue) option" where
  "consume_one f e q =
    (case pop q of
       None \<Rightarrow> None
     | Some (None, q') \<Rightarrow> Some (False, e, q')
     | Some (Some v, q') \<Rightarrow> Some (True, f v e, q'))"

partial_function (option) consume_all ::
  "('a \<Rightarrow> 'e \<Rightarrow> 'e) \<Rightarrow> nat \<Rightarrow> 'e \<Rightarrow> 'a queue \<Rightarrow> (nat \<times> 'e \<times> 'a queue) option"
where
  "consume_all f element_count e q =
    (case consume_one f e q of
       None \<Rightarrow> None
     | Some (b, e', q') \<Rightarrow>
         (if b then consume_all f (element_count + 1) e' q' else Some (element_count, e', q')))"

partial_function (option) empty_out :: "'a queue \<Rightarrow> 'a queue option" where
  "empty_out q =
    (case unsynchronized_pop q of
       None \<Rightarrow> None
     | Some (r, q') \<Rightarrow> (if r = None then Some q' else empty_out q'))"

definition destroy_queue :: "'a queue \<Rightarrow> 'a freelist option" where
  "destroy_queue q =
    (case empty_out q of
       None \<Rightarrow> None
     | Some q' \<Rightarrow> destruct_node (q_head q') (pool q'))"

declare unsynchronized_pop.simps [code] consume_all.simps [code] empty_out.simps [code]

section \<open>What the memory represents\<close>

text \<open>\<open>next\<close> of a node as a pointer, for the lists in the array.\<close>

definition next_node :: "'a freelist \<Rightarrow> 16 word \<Rightarrow> 16 word option option" where
  "next_node fl i = map_option (\<lambda>n. get_pointer fl (index (qnext n))) (node_at fl i)"

definition free_rep :: "'a freelist \<Rightarrow> 16 word list \<Rightarrow> bool" where
  "free_rep fl fs \<longleftrightarrow> length (nodes fl) \<le> 65535 \<and>
     chain (next_node fl) (get_pointer fl (index (pool_top fl))) fs None"

definition data_at :: "'a freelist \<Rightarrow> 16 word \<Rightarrow> 'a option" where
  "data_at fl i = Option.bind (node_at fl i) qdata"

text \<open>
  The queue with the dummy node \<open>d\<close>, the nodes \<open>ns\<close> that hold the elements \<open>xs\<close>, and the free
  nodes \<open>fs\<close>: together they are all the nodes.
\<close>

definition queue_rep :: "'a queue \<Rightarrow> 16 word \<Rightarrow> 16 word list \<Rightarrow> 16 word list \<Rightarrow> 'a list \<Rightarrow> bool" where
  "queue_rep q d ns fs xs \<longleftrightarrow>
     free_rep (pool q) fs \<and> index (q_head q) = d \<and> index (q_tail q) = last (d # ns) \<and>
     chain (next_node (pool q)) (Some d) (d # ns) None \<and>
     map (data_at (pool q)) ns = map Some xs \<and>
     distinct (d # ns @ fs) \<and> length (nodes (pool q)) = Suc (length ns + length fs)"

definition holds :: "'a queue \<Rightarrow> nat \<Rightarrow> 'a list \<Rightarrow> bool" where
  "holds q n xs \<longleftrightarrow> length (nodes (pool q)) = Suc n \<and> (\<exists>d ns fs. queue_rep q d ns fs xs)"

lemma node_at_put:
  "node_at (put_node i n fl) j =
    (if i = j \<and> unat i < length (nodes fl) then Some n else node_at fl j)"
  by (auto simp: node_at_def put_node_def nth_list_update word_unat_eq_iff)

lemma length_put [simp]: "length (nodes (put_node i n fl)) = length (nodes fl)"
  by (simp add: put_node_def)

lemma pool_top_put [simp]: "pool_top (put_node i n fl) = pool_top fl"
  by (simp add: put_node_def)

lemma null_handle_cong: "length (nodes fl) = length (nodes fl') \<Longrightarrow> null_handle fl = null_handle fl'"
  by (simp add: null_handle_def)

lemma get_pointer_cong: "length (nodes fl) = length (nodes fl') \<Longrightarrow> get_pointer fl i = get_pointer fl' i"
  by (simp add: get_pointer_def null_handle_def)

lemma node_at_pool_top [simp]: "node_at (fl\<lparr>pool_top := t\<rparr>) i = node_at fl i"
  by (simp add: node_at_def)

lemma get_pointer_pool_top [simp]: "get_pointer (fl\<lparr>pool_top := t\<rparr>) i = get_pointer fl i"
  by (simp add: get_pointer_def null_handle_def)

lemma get_pointer_put [simp]: "get_pointer (put_node i n fl) j = get_pointer fl j"
  by (rule get_pointer_cong) simp

lemma null_handle_put [simp]: "null_handle (put_node i n fl) = null_handle fl"
  by (rule null_handle_cong) simp

lemma null_handle_pool_top [simp]: "null_handle (fl\<lparr>pool_top := t\<rparr>) = null_handle fl"
  by (rule null_handle_cong) simp

lemma next_node_pool_top [simp]: "next_node (fl\<lparr>pool_top := t\<rparr>) = next_node fl"
  by (simp add: next_node_def fun_eq_iff)

lemma next_node_put:
  "next_node (put_node i n fl) =
    (if unat i < length (nodes fl) then (next_node fl)(i \<mapsto> get_pointer fl (index (qnext n)))
     else next_node fl)"
  by (auto simp: next_node_def node_at_put fun_eq_iff)

lemma data_at_put:
  "data_at (put_node i n fl) j =
    (if i = j \<and> unat i < length (nodes fl) then qdata n else data_at fl j)"
  by (auto simp: data_at_def node_at_put)

lemma data_at_pool_top [simp]: "data_at (fl\<lparr>pool_top := t\<rparr>) i = data_at fl i"
  by (simp add: data_at_def)

lemma node_at_bound: "node_at fl i = Some n \<Longrightarrow> unat i < length (nodes fl)"
  by (simp add: node_at_def split: if_splits)

lemma next_node_Some:
  assumes "next_node fl i = Some r"
  obtains n where "node_at fl i = Some n" "get_pointer fl (index (qnext n)) = r" "unat i < length (nodes fl)"
  using assms node_at_bound by (auto simp: next_node_def)

lemma valid_not_null:
  assumes "unat i < length (nodes fl)" and "length (nodes fl) \<le> 65535"
  shows "i \<noteq> null_handle fl"
proof
  assume "i = null_handle fl"
  then have "unat i = length (nodes fl)"
    using assms(2) by (simp add: null_handle_def unat_of_nat)
  then show False
    using assms(1) by simp
qed

lemma get_pointer_eq_Some: "get_pointer fl i = Some j \<longleftrightarrow> i = j \<and> i \<noteq> null_handle fl"
  by (auto simp: get_pointer_def)

section \<open>The free list is a stack\<close>

lemma allocate_empty: "free_rep fl [] \<Longrightarrow> allocate_impl fl = Some (null_handle fl, fl)"
  by (auto simp: free_rep_def allocate_impl_def Let_def get_pointer_def split: if_splits)

lemma allocate_first:
  assumes "free_rep fl (f # fs)"
  obtains t where "allocate_impl fl = Some (f, fl\<lparr>pool_top := t\<rparr>)" "free_rep (fl\<lparr>pool_top := t\<rparr>) fs"
    "f \<noteq> null_handle fl" "unat f < length (nodes fl)"
proof -
  from assms obtain r where p: "get_pointer fl (index (pool_top fl)) = Some f"
    and r: "next_node fl f = Some r" and c: "chain (next_node fl) r fs None"
    and l: "length (nodes fl) \<le> 65535"
    by (auto simp: free_rep_def)
  from r obtain n where n: "node_at fl f = Some n" and rn: "get_pointer fl (index (qnext n)) = r"
    and b: "unat f < length (nodes fl)"
    by (rule next_node_Some)
  let ?t = "\<lparr>index = index (qnext n), itag = get_next_tag (pool_top fl)\<rparr>"
  have f: "index (pool_top fl) = f" "f \<noteq> null_handle fl"
    using p by (auto simp: get_pointer_eq_Some)
  have "allocate_impl fl = Some (f, fl\<lparr>pool_top := ?t\<rparr>)"
    using f n by (simp add: allocate_impl_def Let_def)
  moreover have "free_rep (fl\<lparr>pool_top := ?t\<rparr>) fs"
    using l c rn by (simp add: free_rep_def)
  ultimately show ?thesis
    using f(2) b by (rule that)
qed

lemma deallocate_first:
  assumes rep: "free_rep fl fs" and f: "f \<notin> set fs" and b: "unat f < length (nodes fl)"
  obtains fl' where "deallocate_impl f fl = Some fl'" "free_rep fl' (f # fs)"
    "length (nodes fl') = length (nodes fl)"
    "\<And>i. i \<noteq> f \<Longrightarrow> node_at fl' i = node_at fl i"
proof -
  obtain n where n: "node_at fl f = Some n"
    using b by (simp add: node_at_def)
  let ?n = "set_index (index (pool_top fl)) n"
  let ?fl = "(put_node f ?n fl)\<lparr>pool_top := \<lparr>index = f, itag = itag (pool_top fl)\<rparr>\<rparr>"
  have l: "length (nodes fl) \<le> 65535" and c: "chain (next_node fl) (get_pointer fl (index (pool_top fl))) fs None"
    using rep by (auto simp: free_rep_def)
  have nn: "next_node ?fl = (next_node fl)(f \<mapsto> get_pointer fl (index (pool_top fl)))"
    using b by (simp add: next_node_put set_index_def)
  have "deallocate_impl f fl = Some ?fl"
    using n by (simp add: deallocate_impl_def Let_def)
  moreover have "free_rep ?fl (f # fs)"
    using l c f valid_not_null [OF b l] unfolding free_rep_def nn
    by (simp add: chain_simps get_pointer_def [of fl f])
  ultimately show ?thesis
    by (rule that) (auto simp: node_at_put)
qed

section \<open>push and pop run alone\<close>

lemma construct_first:
  assumes "free_rep fl (f # fs)"
  obtains t n where "construct_node mk fl = Some (Some f, put_node f (mk n) (fl\<lparr>pool_top := t\<rparr>))"
    "free_rep (fl\<lparr>pool_top := t\<rparr>) fs" "node_at fl f = Some n"
    "f \<noteq> null_handle fl" "unat f < length (nodes fl)"
proof -
  obtain t where a: "allocate_impl fl = Some (f, fl\<lparr>pool_top := t\<rparr>)"
    and r: "free_rep (fl\<lparr>pool_top := t\<rparr>) fs" and f: "f \<noteq> null_handle fl" "unat f < length (nodes fl)"
    by (rule allocate_first [OF assms])
  obtain n where n: "node_at fl f = Some n"
    using f(2) by (simp add: node_at_def)
  have "null_handle (fl\<lparr>pool_top := t\<rparr>) = null_handle fl"
    by (rule null_handle_cong) simp
  then have "construct_node mk fl = Some (Some f, put_node f (mk n) (fl\<lparr>pool_top := t\<rparr>))"
    using a f n by (simp add: construct_node_def)
  then show ?thesis
    using r n f by (rule that)
qed

lemma construct_none:
  assumes "free_rep fl []"
  shows "construct_node mk fl = Some (None, fl)"
  using allocate_empty [OF assms] by (simp add: construct_node_def)

lemma chain_last:
  assumes "chain nx p (us @ [l]) None"
  shows "nx l = Some None"
  using assms by (auto simp: chain_simps)

lemma chain_extend:
  assumes "chain nx p (us @ [l]) None" and "distinct (us @ [l])" and "f \<notin> set (us @ [l])"
  shows "chain (nx(f \<mapsto> None, l \<mapsto> Some f)) p (us @ [l, f]) None"
  using assms by (auto simp: chain_simps)

text \<open>The rest of \<open>push\<close>, once the node \<open>f\<close> is built, when the tail is the last node.\<close>

lemma push_links:
  assumes "index (q_tail q) = l" and "node_at (pool q) l = Some ln"
    and "get_pointer (pool q) (index (qnext ln)) = None"
  shows "\<exists>t u. do_push q (PushLoop f) =
    Some (True, q\<lparr>pool := put_node l (ln\<lparr>qnext := \<lparr>index = f, itag = t\<rparr>\<rparr>) (pool q),
      q_tail := \<lparr>index = f, itag = u\<rparr>\<rparr>)"
proof -
  have "do_push q (PushLoop f) = do_push q (PushTail f (q_tail q))"
    by (subst do_push.simps) simp
  also have "\<dots> = do_push q (PushNext f (q_tail q) (qnext ln))"
    using assms by (subst do_push.simps) simp
  also have "\<dots> = do_push q (PushLink f (q_tail q) (qnext ln))"
    using assms by (subst do_push.simps) simp
  also have "\<dots> = do_push (store_next l \<lparr>index = f, itag = get_next_tag (qnext ln)\<rparr> q)
      (PushSwing f (q_tail q))"
    using assms by (subst do_push.simps) simp
  also have "\<dots> = Some (True, q\<lparr>pool := put_node l
        (ln\<lparr>qnext := \<lparr>index = f, itag = get_next_tag (qnext ln)\<rparr>\<rparr>) (pool q),
      q_tail := \<lparr>index = f, itag = get_next_tag (q_tail q)\<rparr>\<rparr>)"
    using assms by (subst do_push.simps) (simp add: store_next_def, subst do_push.simps, simp)
  finally show ?thesis
    by blast
qed

lemma push_room:
  assumes rep: "queue_rep q d ns (f # fs) xs"
  shows "\<exists>q'. bounded_push v q = Some (True, q') \<and> queue_rep q' d (ns @ [f]) fs (xs @ [v]) \<and>
    length (nodes (pool q')) = length (nodes (pool q))"
proof -
  let ?fl = "pool q"
  have fr: "free_rep ?fl (f # fs)" and hd: "index (q_head q) = d"
    and tl: "index (q_tail q) = last (d # ns)" and ch: "chain (next_node ?fl) (Some d) (d # ns) None"
    and data: "map (data_at ?fl) ns = map Some xs" and dist: "distinct (d # ns @ f # fs)"
    and len: "length (nodes ?fl) = Suc (length ns + length (f # fs))"
    using rep by (auto simp: queue_rep_def)
  define us l where "us = butlast (d # ns)" and "l = last (d # ns)"
  have dn: "d # ns = us @ [l]"
    by (simp add: us_def l_def)
  obtain t n where con: "construct_node (\<lambda>_. data_node v (null_handle ?fl)) ?fl =
      Some (Some f, put_node f (data_node v (null_handle ?fl)) (?fl\<lparr>pool_top := t\<rparr>))"
    and fr': "free_rep (?fl\<lparr>pool_top := t\<rparr>) fs" and fb: "unat f < length (nodes ?fl)"
    by (rule construct_first [OF fr, of "\<lambda>_. data_node v (null_handle ?fl)"])
  let ?f1 = "put_node f (data_node v (null_handle ?fl)) (?fl\<lparr>pool_top := t\<rparr>)"
  let ?q1 = "q\<lparr>pool := ?f1\<rparr>"
  have fl_l: "f \<noteq> l" and l_in: "l \<in> set (d # ns)"
    using dist by (auto simp: l_def dest: last_in_set)
  have "next_node ?fl l = Some None"
    using ch unfolding dn by (rule chain_last)
  then obtain ln where ln: "node_at ?fl l = Some ln" "get_pointer ?fl (index (qnext ln)) = None"
    and lb: "unat l < length (nodes ?fl)"
    by (rule next_node_Some)
  have l1: "node_at ?f1 l = Some ln" "get_pointer ?f1 (index (qnext ln)) = None"
    using ln fl_l by (simp_all add: node_at_put)
  have tl1: "index (q_tail ?q1) = l"
    using tl by (simp only: l_def) simp
  have "\<exists>t1 u1. do_push ?q1 (PushLoop f) =
      Some (True, ?q1\<lparr>pool := put_node l (ln\<lparr>qnext := \<lparr>index = f, itag = t1\<rparr>\<rparr>) ?f1,
        q_tail := \<lparr>index = f, itag = u1\<rparr>\<rparr>)"
    using push_links [of ?q1 l ln f, OF tl1] l1 by simp
  then obtain t1 u1 where push: "do_push ?q1 (PushLoop f) =
      Some (True, ?q1\<lparr>pool := put_node l (ln\<lparr>qnext := \<lparr>index = f, itag = t1\<rparr>\<rparr>) ?f1,
        q_tail := \<lparr>index = f, itag = u1\<rparr>\<rparr>)"
    by blast
  let ?f2 = "put_node l (ln\<lparr>qnext := \<lparr>index = f, itag = t1\<rparr>\<rparr>) ?f1"
  let ?q2 = "?q1\<lparr>pool := ?f2, q_tail := \<lparr>index = f, itag = u1\<rparr>\<rparr>"
  have "bounded_push v q = do_push ?q1 (PushLoop f)"
    unfolding bounded_push_def by (subst do_push.simps) (simp add: con get_handle_def)
  then have run: "bounded_push v q = Some (True, ?q2)"
    using push by simp
  have fn: "f \<noteq> null_handle ?fl"
    using fr fb valid_not_null [OF fb] by (auto simp: free_rep_def)
  have np: "get_pointer ?fl (null_handle ?fl) = None" "get_pointer ?fl f = Some f"
    using fn by (simp_all add: get_pointer_def)
  have nx: "next_node ?f2 = (next_node ?fl)(f \<mapsto> None, l \<mapsto> Some f)"
    using fb lb np by (simp add: next_node_put data_node_def Let_def)
  have c2: "chain (next_node ?f2) (Some d) (d # ns @ [f]) None"
  proof -
    have "distinct (d # ns)" and "f \<notin> set (d # ns)"
      using dist by auto
    then have "chain ((next_node ?fl)(f \<mapsto> None, l \<mapsto> Some f)) (Some d) (us @ [l, f]) None"
      using ch unfolding dn by (intro chain_extend)
    moreover have "us @ [l, f] = d # ns @ [f]"
      using arg_cong [OF dn, of "\<lambda>z. z @ [f]"] by simp
    ultimately show ?thesis
      unfolding nx by simp
  qed
  have c3: "chain (next_node ?f2) (get_pointer ?f2 (index (pool_top ?f2))) fs None"
  proof -
    have "f \<notin> set fs" and "l \<notin> set fs"
      using dist l_in by auto
    then show ?thesis
      using fr' unfolding free_rep_def nx by (simp add: chain_upd)
  qed
  have dd: "map (data_at ?f2) (ns @ [f]) = map Some (xs @ [v])"
  proof -
    have "data_at ?f2 i = data_at ?fl i" if "i \<in> set ns" for i
      using that dist ln by (auto simp: data_at_put data_at_def node_at_put)
    then have "map (data_at ?f2) ns = map (data_at ?fl) ns"
      by (intro map_cong refl)
    moreover have "data_at ?f2 f = Some v"
      using fb fl_l by (simp add: data_at_put data_node_def Let_def)
    ultimately show ?thesis
      using data by simp
  qed
  have "queue_rep ?q2 d (ns @ [f]) fs (xs @ [v])"
    unfolding queue_rep_def
    using hd c2 c3 dd dist len fr by (auto simp: free_rep_def)
  then show ?thesis
    using run by auto
qed

lemma push_full:
  assumes rep: "queue_rep q d ns [] xs"
  shows "bounded_push v q = Some (False, q)"
proof -
  have "construct_node (\<lambda>_. data_node v (null_handle (pool q))) (pool q) = Some (None, pool q)"
    using rep construct_none by (auto simp: queue_rep_def)
  then show ?thesis
    unfolding bounded_push_def
    by (subst do_push.simps) (simp, subst do_push.simps, simp)
qed

lemma pop_nothing:
  assumes rep: "queue_rep q d [] fs xs"
  shows "pop q = Some (None, q)"
proof -
  have "next_node (pool q) d = Some None" and h: "index (q_head q) = d" "index (q_tail q) = d"
    using rep by (auto simp: queue_rep_def)
  then obtain n where n: "node_at (pool q) d = Some n" "get_pointer (pool q) (index (qnext n)) = None"
    by (auto elim: next_node_Some)
  have "pop q = do_pop q (PopHead (q_head q))"
    unfolding pop_def by (subst do_pop.simps) simp
  also have "\<dots> = do_pop q (PopTail (q_head q) (q_tail q))"
    by (subst do_pop.simps) simp
  also have "\<dots> = do_pop q (PopNext (q_head q) (q_tail q) (qnext n))"
    using n h by (subst do_pop.simps) simp
  also have "\<dots> = do_pop q (Popped None)"
    using n h by (subst do_pop.simps) simp
  also have "\<dots> = Some (None, q)"
    by (subst do_pop.simps) simp
  finally show ?thesis .
qed

lemma pop_something:
  assumes rep: "queue_rep q d (e # ns) fs (x # xs)"
  shows "\<exists>q'. pop q = Some (Some x, q') \<and> queue_rep q' e ns (d # fs) xs \<and>
    length (nodes (pool q')) = length (nodes (pool q))"
proof -
  let ?fl = "pool q"
  have fr: "free_rep ?fl fs" and hd: "index (q_head q) = d"
    and tl: "index (q_tail q) = last (e # ns)"
    and nd: "next_node ?fl d = Some (Some e)" and ch: "chain (next_node ?fl) (Some e) (e # ns) None"
    and xe: "data_at ?fl e = Some x" and data: "map (data_at ?fl) ns = map Some xs"
    and dist: "distinct (d # e # ns @ fs)"
    and len: "length (nodes ?fl) = Suc (Suc (length ns) + length fs)"
    using rep by (auto simp: queue_rep_def)
  obtain n where n: "node_at ?fl d = Some n" and ne: "get_pointer ?fl (index (qnext n)) = Some e"
    and db: "unat d < length (nodes ?fl)"
    using nd by (auto elim: next_node_Some)
  have ie: "index (qnext n) = e"
    using ne by (simp add: get_pointer_eq_Some)
  have dt: "d \<noteq> index (q_tail q)"
    using tl dist last_in_set [of "e # ns"] by auto
  obtain m where m: "node_at ?fl e = Some m" and mx: "qdata m = Some x"
    using xe by (auto simp: data_at_def bind_eq_Some_conv)
  have df: "d \<notin> set fs"
    using dist by auto
  obtain fl' where de: "deallocate_impl d ?fl = Some fl'" and fr': "free_rep fl' (d # fs)"
    and l': "length (nodes fl') = length (nodes ?fl)"
    and keep: "\<And>i. i \<noteq> d \<Longrightarrow> node_at fl' i = node_at ?fl i"
    by (rule deallocate_first [OF fr df db]) blast
  let ?h = "\<lparr>index = e, itag = get_next_tag (q_head q)\<rparr>"
  let ?q = "q\<lparr>q_head := ?h, pool := fl'\<rparr>"
  have "pop q = do_pop q (PopHead (q_head q))"
    unfolding pop_def by (subst do_pop.simps) simp
  also have "\<dots> = do_pop q (PopTail (q_head q) (q_tail q))"
    by (subst do_pop.simps) simp
  also have "\<dots> = do_pop q (PopNext (q_head q) (q_tail q) (qnext n))"
    using n hd by (subst do_pop.simps) simp
  also have "\<dots> = do_pop q (PopData (q_head q) (qnext n))"
    using ne hd dt by (subst do_pop.simps) simp
  also have "\<dots> = do_pop q (PopTake (q_head q) (qnext n) x)"
    using m mx ie by (subst do_pop.simps) simp
  also have "\<dots> = do_pop (q\<lparr>q_head := ?h\<rparr>) (PopFree (q_head q) x)"
    using ie by (subst do_pop.simps) simp
  also have "\<dots> = do_pop ?q (Popped (Some x))"
    using de hd by (subst do_pop.simps) (simp add: destruct_node_def)
  also have "\<dots> = Some (Some x, ?q)"
    by (subst do_pop.simps) simp
  finally have run: "pop q = Some (Some x, ?q)" .
  have nx: "next_node fl' i = next_node ?fl i" if "i \<noteq> d" for i
    using keep [OF that] get_pointer_cong [OF l'] by (simp add: next_node_def)
  have "chain (next_node fl') (Some e) (e # ns) None \<longleftrightarrow> chain (next_node ?fl) (Some e) (e # ns) None"
  proof (rule chain_cong)
    fix i assume "i \<in> set (e # ns)"
    then have "i \<noteq> d"
      using dist by auto
    then show "next_node fl' i = next_node ?fl i"
      by (rule nx)
  qed
  then have "chain (next_node fl') (Some e) (e # ns) None"
    using ch by blast
  moreover have "map (data_at fl') ns = map Some xs"
  proof -
    have "data_at fl' i = data_at ?fl i" if "i \<in> set ns" for i
    proof -
      have "i \<noteq> d"
        using that dist by auto
      then show ?thesis
        using keep by (simp add: data_at_def)
    qed
    then show ?thesis
      using data by (metis map_cong)
  qed
  ultimately have "queue_rep ?q e ns (d # fs) xs"
    using fr' tl dist len l' by (auto simp: queue_rep_def)
  then show ?thesis
    using run l' by auto
qed

section \<open>The contract of a bounded queue\<close>

lemma push_holds:
  assumes "holds q n xs"
  shows "\<exists>q'. bounded_push v q = Some (length xs < n, q') \<and>
    holds q' n (if length xs < n then xs @ [v] else xs)"
proof -
  obtain d ns fs where rep: "queue_rep q d ns fs xs" and len: "length (nodes (pool q)) = Suc n"
    using assms by (auto simp: holds_def)
  have ln: "length ns = length xs"
    using rep by (auto simp: queue_rep_def dest: map_eq_imp_length_eq)
  then have n: "n = length xs + length fs"
    using rep len by (simp add: queue_rep_def)
  show ?thesis
  proof (cases fs)
    case Nil
    then show ?thesis
      using push_full [of q d ns xs v] rep n assms by auto
  next
    case (Cons f fs')
    then show ?thesis
      using push_room [of q d ns f fs' xs v] rep n len by (auto simp: holds_def)
  qed
qed

lemma pop_holds:
  assumes "holds q n xs"
  shows "\<exists>q'. pop q = Some (case xs of [] \<Rightarrow> None | x # _ \<Rightarrow> Some x, q') \<and> holds q' n (tl xs)"
proof -
  obtain d ns fs where rep: "queue_rep q d ns fs xs" and len: "length (nodes (pool q)) = Suc n"
    using assms by (auto simp: holds_def)
  have ln: "length ns = length xs"
    using rep by (auto simp: queue_rep_def dest: map_eq_imp_length_eq)
  show ?thesis
  proof (cases xs)
    case Nil
    then show ?thesis
      using pop_nothing [of q d fs xs] rep ln assms by auto
  next
    case (Cons x xs')
    then obtain e ns' where ns: "ns = e # ns'"
      using ln by (cases ns) auto
    then show ?thesis
      using pop_something [of q d e ns' fs x xs'] rep Cons len by (auto simp: holds_def)
  qed
qed

lemma empty_holds:
  assumes "holds q n xs"
  shows "queue_empty q \<longleftrightarrow> xs = []"
proof -
  obtain d ns fs where rep: "queue_rep q d ns fs xs"
    using assms by (auto simp: holds_def)
  have "length ns = length xs" and h: "index (q_head q) = d" "index (q_tail q) = last (d # ns)"
    and d: "distinct (d # ns)"
    using rep by (auto simp: queue_rep_def dest: map_eq_imp_length_eq)
  then show ?thesis
    using last_in_set [of ns] by (cases ns) (auto simp: queue_empty_def)
qed

section \<open>The constructor\<close>

lemma unat_small_index: "n < 65536 \<Longrightarrow> unat (of_nat n :: 16 word) = n"
  by (simp add: unat_of_nat)

lemma initialize_nodes_rep:
  assumes "free_rep fl fs" and "distinct is" and "\<forall>i\<in>set is. i < length (nodes fl)"
    and "\<forall>i\<in>set is. of_nat i \<notin> set fs"
  shows "\<exists>fl'. initialize_nodes is fl = Some fl' \<and>
    free_rep fl' (rev (map of_nat is) @ fs) \<and> length (nodes fl') = length (nodes fl)"
  using assms
proof (induction "is" arbitrary: fl fs)
  case Nil
  then show ?case by simp
next
  case (Cons i "is")
  have l: "length (nodes fl) \<le> 65535" and c: "chain (next_node fl) (get_pointer fl (index (pool_top fl))) fs None"
    using Cons.prems(1) by (auto simp: free_rep_def)
  have small: "\<forall>j\<in>set (i # is). j < 65536"
    using l Cons.prems(3) by auto
  then have ui: "unat (of_nat i :: 16 word) = i"
    by (intro unat_small_index) simp
  then have b: "unat (of_nat i :: 16 word) < length (nodes fl)"
    using Cons.prems(3) by simp
  then obtain n where n: "node_at fl (of_nat i) = Some n"
    by (simp add: node_at_def)
  let ?f0 = "put_node (of_nat i) (set_index (null_handle fl) n) fl"
  have "chain (next_node ?f0) (get_pointer ?f0 (index (pool_top ?f0))) fs None"
    using c b Cons.prems(4) by (simp add: next_node_put chain_upd)
  then have rep0: "free_rep ?f0 fs"
    using l by (simp add: free_rep_def)
  have "of_nat i \<notin> set fs" and "unat (of_nat i :: 16 word) < length (nodes ?f0)"
    using Cons.prems(4) b by simp_all
  then obtain f1 where d: "deallocate_impl (of_nat i) ?f0 = Some f1" and r1: "free_rep f1 (of_nat i # fs)"
    and l1: "length (nodes f1) = length (nodes ?f0)"
    by (rule deallocate_first [OF rep0]) blast
  have inj: "of_nat j \<noteq> (of_nat i :: 16 word)" if "j \<in> set is" for j
    using that Cons.prems(2) small ui unat_small_index [of j] by (metis distinct.simps(2) list.set_intros(2))
  have "\<exists>fl'. initialize_nodes is f1 = Some fl' \<and>
      free_rep fl' (rev (map of_nat is) @ of_nat i # fs) \<and> length (nodes fl') = length (nodes f1)"
    by (rule Cons.IH [OF r1]) (use Cons.prems l1 inj in auto)
  then show ?case
    using n d l1 by auto
qed

lemma new_queue_holds:
  assumes "length raw = Suc n" and "n < 65535"
  shows "\<exists>q. new_queue raw = Inr q \<and> holds q n []"
proof -
  let ?fl = "\<lparr>nodes = raw, pool_top = \<lparr>index = of_nat (length raw), itag = 0\<rparr>\<rparr>"
  have "free_rep ?fl []"
    using assms by (simp add: free_rep_def get_pointer_def null_handle_def)
  then obtain fl where i: "initialize_nodes [0..<length raw] ?fl = Some fl"
    and r: "free_rep fl (rev (map of_nat [0..<length raw]))" and l: "length (nodes fl) = Suc n"
    using initialize_nodes_rep [of ?fl "[]" "[0..<length raw]"] assms(1) by auto
  have fs: "rev (map of_nat [0..<length raw]) = of_nat n # rev (map of_nat [0..<n] :: 16 word list)"
    by (simp add: assms(1))
  obtain t m where c: "construct_node (dummy_node (null_handle fl)) fl =
      Some (Some (of_nat n), put_node (of_nat n) (dummy_node (null_handle fl) m) (fl\<lparr>pool_top := t\<rparr>))"
    and r': "free_rep (fl\<lparr>pool_top := t\<rparr>) (rev (map of_nat [0..<n]))"
    and b: "unat (of_nat n :: 16 word) < length (nodes fl)"
    by (rule construct_first [OF r [unfolded fs], of "dummy_node (null_handle fl)"])
  let ?f1 = "put_node (of_nat n) (dummy_node (null_handle fl) m) (fl\<lparr>pool_top := t\<rparr>)"
  let ?q = "\<lparr>pool = ?f1, q_head = \<lparr>index = of_nat n, itag = 0\<rparr>, q_tail = \<lparr>index = of_nat n, itag = 0\<rparr>\<rparr>"
  have q: "new_queue raw = Inr ?q"
    using assms i c by (simp add: new_queue_def fixed_size_freelist_def initialize_queue_def get_handle_def Let_def)
  have inj: "inj_on (of_nat :: nat \<Rightarrow> 16 word) {0..<Suc n}"
    by (rule inj_on_inverseI [where g = unat], rule unat_small_index) (use assms(2) in simp)
  have dist: "distinct (of_nat n # rev (map of_nat [0..<n]) :: 16 word list)"
  proof -
    have "distinct (rev (map of_nat [0..<Suc n] :: 16 word list))"
      using inj by (simp add: distinct_map del: upt_Suc)
    then show ?thesis
      by simp
  qed
  have nn: "next_node ?f1 = (next_node fl)(of_nat n \<mapsto> None)"
    using b by (simp add: next_node_put dummy_node_def get_pointer_def)
  have "free_rep ?f1 (rev (map of_nat [0..<n]))"
    using r' dist unfolding free_rep_def nn by (simp add: chain_upd)
  then have "queue_rep ?q (of_nat n) [] (rev (map of_nat [0..<n])) []"
    using dist l unfolding queue_rep_def nn by (simp add: nn)
  then show ?thesis
    using q l by (auto simp: holds_def)
qed

section \<open>A bounded queue, whatever its memory\<close>

datatype 'a request = Push 'a | Pop | Is_empty
datatype 'a answer = Was_pushed bool | Was_popped "'a option" | Was_empty bool

fun answers ::
  "('a \<Rightarrow> 's \<Rightarrow> (bool \<times> 's) option) \<Rightarrow> ('s \<Rightarrow> ('a option \<times> 's) option) \<Rightarrow> ('s \<Rightarrow> bool) \<Rightarrow>
     'a request list \<Rightarrow> 's \<Rightarrow> ('a answer list \<times> 's) option"
where
  "answers pushf popf emptyf [] s = Some ([], s)"
| "answers pushf popf emptyf (Push v # rs) s =
    (case pushf v s of
       None \<Rightarrow> None
     | Some (b, s') \<Rightarrow> map_option (apfst (Cons (Was_pushed b))) (answers pushf popf emptyf rs s'))"
| "answers pushf popf emptyf (Pop # rs) s =
    (case popf s of
       None \<Rightarrow> None
     | Some (r, s') \<Rightarrow> map_option (apfst (Cons (Was_popped r))) (answers pushf popf emptyf rs s'))"
| "answers pushf popf emptyf (Is_empty # rs) s =
    map_option (apfst (Cons (Was_empty (emptyf s)))) (answers pushf popf emptyf rs s)"

text \<open>The same requests to a list with room for \<open>n\<close> elements.\<close>

fun list_answers :: "nat \<Rightarrow> 'a request list \<Rightarrow> 'a list \<Rightarrow> 'a answer list \<times> 'a list" where
  "list_answers n [] xs = ([], xs)"
| "list_answers n (Push v # rs) xs =
    apfst (Cons (Was_pushed (length xs < n)))
      (list_answers n rs (if length xs < n then xs @ [v] else xs))"
| "list_answers n (Pop # rs) xs =
    apfst (Cons (Was_popped (case xs of [] \<Rightarrow> None | x # _ \<Rightarrow> Some x))) (list_answers n rs (tl xs))"
| "list_answers n (Is_empty # rs) xs = apfst (Cons (Was_empty (xs = []))) (list_answers n rs xs)"

locale bounded_queue =
  fixes rep :: "'s \<Rightarrow> nat \<Rightarrow> 'a list \<Rightarrow> bool"
    and push :: "'a \<Rightarrow> 's \<Rightarrow> (bool \<times> 's) option"
    and pop_front :: "'s \<Rightarrow> ('a option \<times> 's) option"
    and empty :: "'s \<Rightarrow> bool"
  assumes push_law: "rep s n xs \<Longrightarrow>
      \<exists>s'. push v s = Some (length xs < n, s') \<and> rep s' n (if length xs < n then xs @ [v] else xs)"
    and pop_law: "rep s n xs \<Longrightarrow>
      \<exists>s'. pop_front s = Some (case xs of [] \<Rightarrow> None | x # _ \<Rightarrow> Some x, s') \<and> rep s' n (tl xs)"
    and empty_law: "rep s n xs \<Longrightarrow> empty s \<longleftrightarrow> xs = []"
begin

lemma answers_are_list_answers:
  assumes "rep s n xs"
  shows "\<exists>s'. answers push pop_front empty rs s = Some (fst (list_answers n rs xs), s') \<and>
    rep s' n (snd (list_answers n rs xs))"
  using assms
proof (induction rs arbitrary: s xs)
  case Nil
  then show ?case by simp
next
  case (Cons r rs)
  show ?case
  proof (cases r)
    case (Push v)
    obtain s1 where p: "push v s = Some (length xs < n, s1)"
      and r1: "rep s1 n (if length xs < n then xs @ [v] else xs)"
      using push_law [OF Cons.prems] by blast
    show ?thesis
      using Cons.IH [OF r1] p Push by auto
  next
    case Pop
    obtain s1 where p: "pop_front s = Some (case xs of [] \<Rightarrow> None | x # _ \<Rightarrow> Some x, s1)"
      and r1: "rep s1 n (tl xs)"
      using pop_law [OF Cons.prems] by blast
    show ?thesis
      using Cons.IH [OF r1] p Pop by auto
  next
    case Is_empty
    then show ?thesis
      using Cons.IH [OF Cons.prems] empty_law [OF Cons.prems] by auto
  qed
qed

end

interpretation lf: bounded_queue holds bounded_push pop queue_empty
  using push_holds pop_holds empty_holds by unfold_locales

text \<open>
  C31: The queue built for \<open>n\<close> elements (\<open>n < 65535\<close>), used one operation at a time, answers
  every row of pushes, pops and emptiness tests exactly as a list that takes at most \<open>n\<close>
  elements: pushes fail when \<open>n\<close> elements are inside and only then, elements leave in the
  order they came, and no index leaves the array.
\<close>

theorem queue_is_bounded_fifo:
  assumes "length raw = Suc n" and "n < 65535"
  shows "\<exists>q q'. new_queue raw = Inr q \<and>
    answers bounded_push pop queue_empty rs q = Some (fst (list_answers n rs []), q') \<and>
    holds q' n (snd (list_answers n rs []))"
proof -
  obtain q where q: "new_queue raw = Inr q" and h: "holds q n []"
    using new_queue_holds [OF assms] by blast
  show ?thesis
    using q lf.answers_are_list_answers [OF h] by blast
qed

definition raw_node :: "nat qnode" where
  "raw_node = \<lparr>qnext = \<lparr>index = 7, itag = 9\<rparr>, qdata = None\<rparr>"

theorem queue_is_bounded_fifo_witness:
  "\<exists>q q'. new_queue (replicate 3 raw_node) = Inr q \<and>
     answers bounded_push pop queue_empty
       [Push 4, Push 5, Push 6, Pop, Push 7, Pop, Is_empty, Pop, Pop] q =
       Some ([Was_pushed True, Was_pushed True, Was_pushed False, Was_popped (Some 4), Was_pushed True,
         Was_popped (Some 5), Was_empty False, Was_popped (Some 7), Was_popped None], q')"
proof -
  have "length (replicate 3 raw_node) = Suc 2" and "(2 :: nat) < 65535"
    by simp_all
  from queue_is_bounded_fifo [OF this,
      of "[Push 4, Push 5, Push 6, Pop, Push 7, Pop, Is_empty, Pop, Pop]"]
  show ?thesis
    by auto
qed

section \<open>Taking everything\<close>

lemma consume_all_closed:
  assumes "holds q n xs"
  shows "\<exists>q'. consume_all f k e q = Some (k + length xs, fold f xs e, q') \<and> holds q' n []"
  using assms
proof (induction xs arbitrary: k e q)
  case Nil
  then obtain q' where "pop q = Some (None, q')" and "holds q' n []"
    using pop_holds [of q n "[]"] by auto
  then show ?case
    by (subst consume_all.simps) (simp add: consume_one_def)
next
  case (Cons x xs)
  then obtain q' where "pop q = Some (Some x, q')" and "holds q' n xs"
    using pop_holds [of q n "x # xs"] by auto
  then show ?case
    using Cons.IH [of q' "k + 1" "f x e"] by (subst consume_all.simps) (auto simp: consume_one_def)
qed

lemma unsynchronized_nothing:
  assumes rep: "queue_rep q d [] fs xs"
  shows "unsynchronized_pop q = Some (None, q)"
proof -
  have "next_node (pool q) d = Some None" and h: "index (q_head q) = d" "index (q_tail q) = d"
    using rep by (auto simp: queue_rep_def)
  then obtain n where "node_at (pool q) d = Some n" "get_pointer (pool q) (index (qnext n)) = None"
    by (auto elim: next_node_Some)
  then show ?thesis
    using h by (subst unsynchronized_pop.simps) (simp add: Let_def)
qed

text \<open>Without other threads the unsynchronised \<open>pop\<close> does what \<open>pop\<close> does.\<close>

lemma unsynchronized_something:
  assumes rep: "queue_rep q d (e # ns) fs (x # xs)"
  shows "unsynchronized_pop q = pop q"
proof -
  let ?fl = "pool q"
  have fr: "free_rep ?fl fs" and hd: "index (q_head q) = d"
    and tl: "index (q_tail q) = last (e # ns)"
    and nd: "next_node ?fl d = Some (Some e)" and xe: "data_at ?fl e = Some x"
    and dist: "distinct (d # e # ns @ fs)"
    using rep by (auto simp: queue_rep_def)
  obtain n where n: "node_at ?fl d = Some n" and ne: "get_pointer ?fl (index (qnext n)) = Some e"
    and db: "unat d < length (nodes ?fl)"
    using nd by (auto elim: next_node_Some)
  have ie: "index (qnext n) = e"
    using ne by (simp add: get_pointer_eq_Some)
  have dt: "d \<noteq> index (q_tail q)"
    using tl dist last_in_set [of "e # ns"] by auto
  obtain m where m: "node_at ?fl e = Some m" and mx: "qdata m = Some x"
    using xe by (auto simp: data_at_def bind_eq_Some_conv)
  have df: "d \<notin> set fs"
    using dist by auto
  obtain fl' where de: "deallocate_impl d ?fl = Some fl'"
    by (rule deallocate_first [OF fr df db]) blast
  let ?q = "q\<lparr>q_head := \<lparr>index = e, itag = get_next_tag (q_head q)\<rparr>, pool := fl'\<rparr>"
  have "pop q = do_pop q (PopHead (q_head q))"
    unfolding pop_def by (subst do_pop.simps) simp
  also have "\<dots> = do_pop q (PopTail (q_head q) (q_tail q))"
    by (subst do_pop.simps) simp
  also have "\<dots> = do_pop q (PopNext (q_head q) (q_tail q) (qnext n))"
    using n hd by (subst do_pop.simps) simp
  also have "\<dots> = do_pop q (PopData (q_head q) (qnext n))"
    using ne hd dt by (subst do_pop.simps) simp
  also have "\<dots> = do_pop q (PopTake (q_head q) (qnext n) x)"
    using m mx ie by (subst do_pop.simps) simp
  also have "\<dots> = do_pop (q\<lparr>q_head := \<lparr>index = e, itag = get_next_tag (q_head q)\<rparr>\<rparr>)
      (PopFree (q_head q) x)"
    using ie by (subst do_pop.simps) simp
  also have "\<dots> = do_pop ?q (Popped (Some x))"
    using de hd by (subst do_pop.simps) (simp add: destruct_node_def)
  also have "\<dots> = Some (Some x, ?q)"
    by (subst do_pop.simps) simp
  finally have "pop q = Some (Some x, ?q)" .
  moreover have "unsynchronized_pop q = Some (Some x, ?q)"
    using n ne ie dt hd m mx de
    by (subst unsynchronized_pop.simps) (simp add: Let_def destruct_node_def)
  ultimately show ?thesis
    by simp
qed

lemma unsynchronized_pop_eq:
  assumes "holds q n xs"
  shows "unsynchronized_pop q = pop q"
proof -
  obtain d ns fs where rep: "queue_rep q d ns fs xs"
    using assms by (auto simp: holds_def)
  then have len: "length ns = length xs"
    by (auto simp: queue_rep_def dest: map_eq_imp_length_eq)
  show ?thesis
  proof (cases ns)
    case Nil
    then have "queue_rep q d [] fs xs"
      using rep by simp
    then show ?thesis
      by (simp add: unsynchronized_nothing pop_nothing)
  next
    case (Cons e ns')
    then obtain x xs' where "xs = x # xs'"
      using len by (cases xs) auto
    then show ?thesis
      using rep Cons by (auto intro: unsynchronized_something)
  qed
qed

lemma empty_out_closed:
  assumes "holds q n xs"
  shows "\<exists>q'. empty_out q = Some q' \<and> holds q' n []"
  using assms
proof (induction xs arbitrary: q)
  case Nil
  then obtain q' where "pop q = Some (None, q')" and "holds q' n []"
    using pop_holds [of q n "[]"] by auto
  then show ?case
    using unsynchronized_pop_eq [OF Nil] by (subst empty_out.simps) simp
next
  case (Cons x xs)
  then obtain q' where "pop q = Some (Some x, q')" and "holds q' n xs"
    using pop_holds [of q n "x # xs"] by auto
  then show ?case
    using Cons.IH [of q'] unsynchronized_pop_eq [OF Cons.prems] by (subst empty_out.simps) auto
qed

text \<open>
  \<open>consume_all\<close> calls its function on every element, oldest first, and counts them; the
  destructor, whatever is still inside, ends with every node back in the free list.
\<close>

theorem queue_drains:
  assumes "holds q n xs"
  shows "(\<exists>q'. consume_all f 0 e q = Some (length xs, fold f xs e, q') \<and> holds q' n []) \<and>
    (\<exists>fl fs. destroy_queue q = Some fl \<and> free_rep fl fs \<and> distinct fs \<and>
      length fs = Suc n \<and> length (nodes fl) = Suc n)"
proof
  show "\<exists>q'. consume_all f 0 e q = Some (length xs, fold f xs e, q') \<and> holds q' n []"
    using consume_all_closed [OF assms, of f 0 e] by simp
  obtain q' where e: "empty_out q = Some q'" and h: "holds q' n []"
    using empty_out_closed [OF assms] by blast
  then obtain d fs where rep: "queue_rep q' d [] fs []" and l: "length (nodes (pool q')) = Suc n"
    by (auto simp: holds_def queue_rep_def)
  then have fr: "free_rep (pool q') fs" and d: "d \<notin> set fs" "distinct fs" and hd: "index (q_head q') = d"
    and nd: "next_node (pool q') d = Some None" and fl: "length fs = n"
    by (auto simp: queue_rep_def)
  have b: "unat d < length (nodes (pool q'))"
    using nd by (rule next_node_Some)
  obtain fl where "deallocate_impl d (pool q') = Some fl" and "free_rep fl (d # fs)"
    and "length (nodes fl) = length (nodes (pool q'))"
    by (rule deallocate_first [OF fr d(1) b]) blast
  then show "\<exists>fl fs. destroy_queue q = Some fl \<and> free_rep fl fs \<and> distinct fs \<and>
      length fs = Suc n \<and> length (nodes fl) = Suc n"
    using e hd d fl l by (intro exI [of _ fl] exI [of _ "d # fs"]) (simp add: destroy_queue_def destruct_node_def)
qed

theorem queue_drains_witness:
  "\<exists>q q1 q2 q3. new_queue (replicate 3 raw_node) = Inr q \<and> bounded_push 4 q = Some (True, q1) \<and>
     bounded_push 5 q1 = Some (True, q2) \<and> consume_all (#) 0 [] q2 = Some (2, [5, 4], q3)"
proof -
  obtain q where q: "new_queue (replicate 3 raw_node) = Inr q" and h: "holds q 2 []"
    using new_queue_holds [of "replicate 3 raw_node" 2] by auto
  obtain q1 where q1: "bounded_push 4 q = Some (True, q1)" and h1: "holds q1 2 [4]"
    using push_holds [OF h, of 4] by auto
  obtain q2 where q2: "bounded_push 5 q1 = Some (True, q2)" and h2: "holds q2 2 [4, 5]"
    using push_holds [OF h1, of 5] by auto
  show ?thesis
    using q q1 q2 queue_drains [OF h2, of "(#)" "[]"] by auto
qed

end
