(* ===== verification/TaggedPtr.thy ===== *)
theory TaggedPtr
  imports Pool
begin

text \<open>
  The other handles and free list of \<open>boost::lockfree\<close>, for queues whose nodes come from the
  heap: \<open>tagged_ptr\<close> (\<open>tagged_ptr_ptrcompression.hpp\<close>), a pointer with a tag in its high 16
  bits, and \<open>freelist_stack\<close> (\<open>freelist.hpp\<close>), a stack of free nodes.
\<close>

section \<open>Pointers with a tag\<close>

definition ptr_mask :: u64 where "ptr_mask = 0xffffffffffff"

definition extract_ptr :: "u64 \<Rightarrow> u64" where
  "extract_ptr i = i AND ptr_mask"

text \<open>\<open>tag[3]\<close> of the union with four 16-bit tags: on these machines the most significant.\<close>

definition extract_tag :: "u64 \<Rightarrow> 16 word" where
  "extract_tag i = ucast (drop_bit 48 i)"

definition pack_ptr :: "u64 \<Rightarrow> 16 word \<Rightarrow> u64" where
  "pack_ptr p t = (p AND NOT (push_bit 48 0xFFFF)) OR push_bit 48 (ucast t)"

definition get_next_tag :: "u64 \<Rightarrow> 16 word" where
  "get_next_tag i = ucast (((ucast (extract_tag i) :: 32 word) + 1) AND 0xFFFF)"

definition set_ptr :: "u64 \<Rightarrow> u64 \<Rightarrow> u64" where
  "set_ptr p i = pack_ptr p (extract_tag i)"

definition set_tag :: "16 word \<Rightarrow> u64 \<Rightarrow> u64" where
  "set_tag t i = pack_ptr (extract_ptr i) t"

definition not_null :: "u64 \<Rightarrow> bool" where
  "not_null i \<longleftrightarrow> extract_ptr i \<noteq> 0"

lemma extract_ptr_clean: "extract_ptr i = clean_ptr i"
  by (simp add: extract_ptr_def clean_ptr_def ptr_mask_def L_MASK_def)

lemma extract_tag_tag: "extract_tag i = tag i"
  by (simp add: extract_tag_def tag_def)

lemma high_bits: "bit (push_bit 48 0xFFFF :: u64) n \<longleftrightarrow> 48 \<le> n \<and> n < 64"
proof -
  have "(0xFFFF :: u64) = mask 16"
    by (simp add: mask_eq_exp_minus_1)
  then show ?thesis
    by (simp only: bit_push_bit_iff bit_mask_iff) (auto simp: bit_simps)
qed

lemma pack_bits: "bit (pack_ptr p t) n \<longleftrightarrow>
    (if n < 48 then bit p n else n < 64 \<and> bit t (n - 48))"
  unfolding pack_ptr_def bit_or_iff bit_and_iff bit_not_iff high_bits
  by (auto simp: bit_simps)

lemma clean_pack: "clean_ptr (pack_ptr p t) = clean_ptr p"
  by (rule bit_word_eqI) (auto simp: clean_ptr_take bit_take_bit_iff pack_bits)

lemma tag_pack: "tag (pack_ptr p t) = t"
  by (rule bit_word_eqI) (auto simp: tag_def bit_ucast_iff bit_drop_bit_eq pack_bits)

lemma next_tag_eq: "get_next_tag i = extract_tag i + 1"
proof -
  have "(0xFFFF :: 32 word) = mask 16"
    by (simp add: mask_eq_exp_minus_1)
  then have "get_next_tag i = ucast (take_bit 16 ((ucast (extract_tag i) :: 32 word) + 1))"
    by (simp add: get_next_tag_def take_bit_eq_mask)
  then have "unat (get_next_tag i) = (unat (extract_tag i) + 1) mod 2 ^ 16"
    by (simp add: unsigned_ucast_eq unsigned_take_bit_eq unat_word_ariths take_bit_eq_mod mod_simps
        mod_mod_cancel)
  then show ?thesis
    by (simp add: word_unat_eq_iff unat_word_ariths)
qed

section \<open>freelist_stack\<close>

text \<open>
  \<open>top\<close> is \<open>pool_\<close>; \<open>nx p\<close> is the \<open>next\<close> in the memory of the node at \<open>p\<close>. \<open>answer\<close> is what the
  allocator returns when it is asked; it does not return null (it throws).
\<close>

record node_stack =
  top :: u64
  nx :: "u64 \<Rightarrow> u64 option"

definition stack_allocate :: "bool \<Rightarrow> u64 \<Rightarrow> node_stack \<Rightarrow> (u64 \<times> node_stack) option" where
  "stack_allocate bounded answer s =
    (let old_pool = top s in
     if extract_ptr old_pool = 0
     then Some (if \<not> bounded then answer else 0, s)
     else (case nx s (extract_ptr old_pool) of
             None \<Rightarrow> None
           | Some n \<Rightarrow>
               Some (extract_ptr old_pool,
                     s\<lparr>top := pack_ptr (extract_ptr n) (get_next_tag old_pool)\<rparr>)))"

text \<open>The memory of a node that the allocator has just returned has any contents \<open>raw\<close>.\<close>

definition stack_deallocate :: "u64 \<Rightarrow> u64 \<Rightarrow> node_stack \<Rightarrow> node_stack" where
  "stack_deallocate raw n s =
    (let old_pool = top s;
         old_next = (case nx s n of None \<Rightarrow> raw | Some v \<Rightarrow> v)
     in s\<lparr>top := pack_ptr n (extract_tag old_pool),
         nx := (nx s)(n \<mapsto> set_ptr (extract_ptr old_pool) old_next)\<rparr>)"

definition stack_construct :: "bool \<Rightarrow> u64 \<Rightarrow> (u64 \<Rightarrow> node_stack \<Rightarrow> node_stack) \<Rightarrow> node_stack \<Rightarrow>
    (u64 \<times> node_stack) option" where
  "stack_construct bounded answer mk s =
    (case stack_allocate bounded answer s of
       None \<Rightarrow> None
     | Some (node, s') \<Rightarrow> Some (node, if node \<noteq> 0 then mk node s' else s'))"

definition stack_destruct :: "(u64 \<Rightarrow> node_stack \<Rightarrow> node_stack) \<Rightarrow> u64 \<Rightarrow> node_stack \<Rightarrow> node_stack" where
  "stack_destruct dtor tagged_ptr s =
    (let n = extract_ptr tagged_ptr in stack_deallocate 0 n (dtor n s))"

text \<open>The constructor and \<open>reserve\<close>: one node for each answer of the allocator.\<close>

definition stack_reserve :: "(u64 \<times> u64) list \<Rightarrow> node_stack \<Rightarrow> node_stack" where
  "stack_reserve answers s = fold (\<lambda>(node, raw) s. stack_deallocate raw node s) answers s"

definition freelist_stack :: "(u64 \<times> u64) list \<Rightarrow> node_stack" where
  "freelist_stack answers = stack_reserve answers \<lparr>top = pack_ptr 0 0, nx = (\<lambda>_. None)\<rparr>"

text \<open>The destructor; the result lists the nodes given back.\<close>

partial_function (option) stack_destroy :: "(u64 \<Rightarrow> u64 option) \<Rightarrow> u64 \<Rightarrow> u64 list option" where
  "stack_destroy m current =
    (if not_null current
     then (case m (extract_ptr current) of
             None \<Rightarrow> None
           | Some n \<Rightarrow>
               Option.bind (stack_destroy m n) (\<lambda>ps. Some (extract_ptr current # ps)))
     else Some [])"

declare stack_destroy.simps [code]

text \<open>The nodes of the free list, first the top.\<close>

definition lists :: "node_stack \<Rightarrow> u64 list \<Rightarrow> bool" where
  "lists s xs \<longleftrightarrow> stack (nx s) (top s) xs \<and> distinct xs"

lemma stack_pack [simp]: "stack m (pack_ptr p t) xs = stack m p xs"
  by (rule stack_clean) (rule clean_pack)

lemma allocate_lists:
  assumes "lists s (x # xs)"
  shows "\<exists>s'. stack_allocate b a s = Some (x, s') \<and> lists s' xs \<and> nx s' = nx s \<and>
    tag (top s') = tag (top s) + 1"
  using assms
  by (auto simp: lists_def stack_allocate_def extract_ptr_clean Let_def next_tag_eq
      extract_tag_tag tag_pack split: option.splits)

lemma allocate_no_list:
  assumes "lists s []"
  shows "stack_allocate b a s = Some (if b then 0 else a, s)"
  using assms by (auto simp: lists_def stack_allocate_def extract_ptr_clean Let_def)

lemma deallocate_lists:
  assumes "lists s xs" and "x \<notin> set xs" and "x \<noteq> 0" and "clean_ptr x = x"
  shows "lists (stack_deallocate raw x s) (x # xs)"
  using assms
  by (auto simp: lists_def stack_deallocate_def Let_def set_ptr_def extract_ptr_clean clean_pack
      stack_upd split: option.splits)

lemma reserve_lists:
  assumes "lists s xs" and "distinct (map fst as)" and "set (map fst as) \<inter> set xs = {}"
    and "\<forall>p\<in>set (map fst as). p \<noteq> 0 \<and> clean_ptr p = p"
  shows "lists (stack_reserve as s) (rev (map fst as) @ xs)"
  using assms
proof (induction as arbitrary: s xs)
  case Nil
  then show ?case by (simp add: stack_reserve_def)
next
  case (Cons a as)
  have "lists (stack_deallocate (snd a) (fst a) s) (fst a # xs)"
    using Cons.prems by (intro deallocate_lists) auto
  then have "lists (stack_reserve as (stack_deallocate (snd a) (fst a) s))
      (rev (map fst as) @ fst a # xs)"
    using Cons.prems by (intro Cons.IH) auto
  then show ?case
    by (simp add: stack_reserve_def case_prod_unfold)
qed

lemma destroy_lists: "stack m w xs \<Longrightarrow> stack_destroy m w = Some xs"
proof (induction xs arbitrary: w)
  case Nil
  then show ?case
    by (subst stack_destroy.simps) (simp add: not_null_def extract_ptr_clean)
next
  case (Cons x xs)
  then show ?case
    by (subst stack_destroy.simps) (auto simp: not_null_def extract_ptr_clean split: option.splits)
qed

text \<open>
  C32: Packing a pointer and a tag loses neither, and packing what is read from a tagged pointer
  gives it back: \<open>tagged_ptr\<close> is a pair of a 48-bit address and a 16-bit tag.
\<close>

theorem tagged_ptr_roundtrip:
  "pack_ptr (extract_ptr i) (extract_tag i) = i \<and>
   extract_ptr (pack_ptr p t) = p AND ptr_mask \<and> extract_tag (pack_ptr p t) = t \<and>
   extract_tag (set_ptr q (pack_ptr p t)) = t \<and>
   extract_ptr (set_tag u (pack_ptr p t)) = p AND ptr_mask"
proof -
  have "pack_ptr (extract_ptr i) (extract_tag i) = i"
    by (rule tagged_eqI)
      (simp_all add: clean_pack tag_pack extract_ptr_clean extract_tag_tag)
  moreover have "p AND ptr_mask = clean_ptr p"
    using extract_ptr_clean by (simp add: extract_ptr_def)
  ultimately show ?thesis
    by (simp add: extract_ptr_clean extract_tag_tag clean_pack tag_pack set_ptr_def set_tag_def)
qed

text \<open>
  A \<open>freelist_stack\<close> built on \<open>n\<close> nodes of the allocator hands them out once each, the last
  first, counting the changes of its top in the tag; then a bounded request gets null. Its
  destructor gives back exactly the nodes inside.
\<close>

theorem freelist_stack_hands_out:
  assumes "distinct (map fst as)" and "\<forall>p\<in>set (map fst as). p \<noteq> 0 \<and> clean_ptr p = p"
  shows "stack_destroy (nx (freelist_stack as)) (top (freelist_stack as)) = Some (rev (map fst as)) \<and>
    (case rev (map fst as) of
       [] \<Rightarrow> stack_allocate True a (freelist_stack as) = Some (0, freelist_stack as)
     | x # xs \<Rightarrow> (\<exists>s. stack_allocate b a (freelist_stack as) = Some (x, s) \<and>
         stack_destroy (nx s) (top s) = Some xs \<and>
         stack_destroy (nx (stack_deallocate r x s)) (top (stack_deallocate r x s)) = Some (x # xs)))"
proof -
  have l: "lists (freelist_stack as) (rev (map fst as))"
    using reserve_lists [of "\<lparr>top = pack_ptr 0 0, nx = (\<lambda>_. None)\<rparr>" "[]" as] assms
    by (simp add: freelist_stack_def lists_def clean_pack)
  then have d: "stack_destroy (nx (freelist_stack as)) (top (freelist_stack as)) = Some (rev (map fst as))"
    by (auto simp: lists_def intro: destroy_lists)
  show ?thesis
  proof (cases "rev (map fst as)")
    case Nil
    then show ?thesis
      using l d allocate_no_list by auto
  next
    case (Cons x xs)
    obtain s where s: "stack_allocate b a (freelist_stack as) = Some (x, s)" "lists s xs"
      using allocate_lists [OF l [unfolded Cons]] by blast
    have "x \<in> set (map fst as)"
      using Cons by (metis list.set_intros(1) set_rev)
    moreover have "x \<notin> set xs"
      using l Cons by (simp add: lists_def)
    ultimately have "lists (stack_deallocate r x s) (x # xs)"
      using assms(2) by (intro deallocate_lists [OF s(2)]) auto
    then show ?thesis
      using s d Cons by (auto simp: lists_def intro!: destroy_lists)
  qed
qed

theorem freelist_stack_hands_out_witness:
  "\<exists>s. stack_allocate True 0 (freelist_stack [(4096, 5), (8192, 6)]) = Some (8192, s) \<and>
     stack_destroy (nx s) (top s) = Some [4096]"
  using freelist_stack_hands_out [of "[(4096, 5), (8192, 6)]" 0 True 0]
  by (auto simp: clean_ptr_def L_MASK_def)

end
