(* ===== verification/TaskPool.thy ===== *)
theory TaskPool
  imports Prelude "HOL-Library.Multiset" "HOL-Library.Signed_Division"
begin

text \<open>
  The task pool of \<open>TaskPool.h\<close>: two queues of tasks with room for \<open>queue_size\<close> each, the
  high-priority one served first. The queues are lists here, by the contract proved for
  \<open>boost::lockfree::queue\<close> in theory \<open>Lockfree\<close>. The operations come twice: as one thread
  runs them when it is alone, and as a step relation of the threads of the pool and the main
  thread, down to the single queue operations and counter updates.
\<close>

section \<open>The operations of one thread\<close>

text \<open>
  \<open>env\<close> is everything the functions of the tasks work on, \<open>allocated\<close> the number of tasks
  taken from the memory pool and not returned.
\<close>

record ('t, 'e) task_pool =
  hp_queue :: "'t list"
  task_queue :: "'t list"
  queue_size :: nat
  allocated :: int
  env :: 'e

definition empty :: "('t, 'e) task_pool \<Rightarrow> bool" where
  "empty s \<longleftrightarrow> hp_queue s = [] \<and> task_queue s = []"

text \<open>\<open>run(p)\<close>: the function of the task, \<open>f\<close>, and the return of the task to its pool.\<close>

definition run :: "('t \<Rightarrow> ('t, 'e) task_pool \<Rightarrow> ('t, 'e) task_pool) \<Rightarrow> 't \<Rightarrow>
    ('t, 'e) task_pool \<Rightarrow> ('t, 'e) task_pool" where
  "run f p s = (let s1 = f p s in s1\<lparr>allocated := allocated s1 - 1\<rparr>)"

definition hp_try_run :: "('t \<Rightarrow> ('t, 'e) task_pool \<Rightarrow> ('t, 'e) task_pool) \<Rightarrow>
    ('t, 'e) task_pool \<Rightarrow> bool \<times> ('t, 'e) task_pool" where
  "hp_try_run f s =
    (case hp_queue s of
       [] \<Rightarrow> (False, s)
     | p # ps \<Rightarrow> (True, run f p (s\<lparr>hp_queue := ps\<rparr>)))"

definition try_run :: "('t \<Rightarrow> ('t, 'e) task_pool \<Rightarrow> ('t, 'e) task_pool) \<Rightarrow>
    ('t, 'e) task_pool \<Rightarrow> bool \<times> ('t, 'e) task_pool" where
  "try_run f s =
    (case hp_queue s of
       p # ps \<Rightarrow> (True, run f p (s\<lparr>hp_queue := ps\<rparr>))
     | [] \<Rightarrow>
         (case task_queue s of
            p # ps \<Rightarrow> (True, run f p (s\<lparr>task_queue := ps\<rparr>))
          | [] \<Rightarrow> (False, s)))"

definition build_task :: "('t, 'e) task_pool \<Rightarrow> ('t, 'e) task_pool" where
  "build_task s = s\<lparr>allocated := allocated s + 1\<rparr>"

definition try_enqueue_task :: "'t \<Rightarrow> ('t, 'e) task_pool \<Rightarrow> bool \<times> ('t, 'e) task_pool" where
  "try_enqueue_task p s =
    (if length (task_queue s) < queue_size s
     then (True, s\<lparr>task_queue := task_queue s @ [p]\<rparr>) else (False, s))"

definition try_enqueue :: "'t \<Rightarrow> ('t, 'e) task_pool \<Rightarrow> bool \<times> ('t, 'e) task_pool" where
  "try_enqueue p s =
    (let (ret, s1) = try_enqueue_task p (build_task s)
     in (ret, if \<not> ret then s1\<lparr>allocated := allocated s1 - 1\<rparr> else s1))"

text \<open>The loops that run tasks until there is room.\<close>

partial_function (option) enqueue_task :: "('t \<Rightarrow> ('t, 'e) task_pool \<Rightarrow> ('t, 'e) task_pool) \<Rightarrow>
    't \<Rightarrow> ('t, 'e) task_pool \<Rightarrow> ('t, 'e) task_pool option" where
  "enqueue_task f p s =
    (let (ret, s1) = try_enqueue_task p s
     in if ret then Some s1 else enqueue_task f p (snd (try_run f s1)))"

partial_function (option) hp_enqueue_task :: "('t \<Rightarrow> ('t, 'e) task_pool \<Rightarrow> ('t, 'e) task_pool) \<Rightarrow>
    't \<Rightarrow> ('t, 'e) task_pool \<Rightarrow> ('t, 'e) task_pool option" where
  "hp_enqueue_task f p s =
    (if length (hp_queue s) < queue_size s
     then Some (s\<lparr>hp_queue := hp_queue s @ [p]\<rparr>)
     else hp_enqueue_task f p (snd (hp_try_run f s)))"

definition enqueue :: "('t \<Rightarrow> ('t, 'e) task_pool \<Rightarrow> ('t, 'e) task_pool) \<Rightarrow>
    't \<Rightarrow> ('t, 'e) task_pool \<Rightarrow> ('t, 'e) task_pool option" where
  "enqueue f p s = enqueue_task f p (build_task s)"

definition hp_enqueue :: "('t \<Rightarrow> ('t, 'e) task_pool \<Rightarrow> ('t, 'e) task_pool) \<Rightarrow>
    't \<Rightarrow> ('t, 'e) task_pool \<Rightarrow> ('t, 'e) task_pool option" where
  "hp_enqueue f p s = hp_enqueue_task f p (build_task s)"

partial_function (option) empty_queue :: "('t \<Rightarrow> ('t, 'e) task_pool \<Rightarrow> ('t, 'e) task_pool) \<Rightarrow>
    ('t, 'e) task_pool \<Rightarrow> ('t, 'e) task_pool option" where
  "empty_queue f s = (let (ret, s1) = try_run f s in if ret then empty_queue f s1 else Some s1)"

text \<open>
  The parallel loops over \<open>begin, begin + step, \<dots>\<close> below \<open>end\<close>: every index becomes a task.
  In the soft loop \<open>my_f\<close> also counts down \<open>n_tasks\<close>, and the caller works until it is 0.
\<close>

partial_function (option) enqueue_range :: "(int \<Rightarrow> (int, 'e) task_pool \<Rightarrow> (int, 'e) task_pool) \<Rightarrow>
    bool \<Rightarrow> int \<Rightarrow> int \<Rightarrow> int \<Rightarrow> (int, 'e) task_pool \<Rightarrow> (int, 'e) task_pool option" where
  "enqueue_range f is_hp i j step s =
    (if i < j
     then Option.bind (if is_hp then hp_enqueue f i s else enqueue f i s)
            (enqueue_range f is_hp (i + step) j step)
     else Some s)"

definition n_tasks :: "int \<Rightarrow> int \<Rightarrow> int \<Rightarrow> int" where
  "n_tasks i j step = ((j - i) + (step - 1)) sdiv step"

definition my_f :: "(int \<Rightarrow> 'e \<Rightarrow> 'e) \<Rightarrow> int \<Rightarrow> (int, 'e \<times> int) task_pool \<Rightarrow> (int, 'e \<times> int) task_pool" where
  "my_f f x s = s\<lparr>env := (f x (fst (env s)), snd (env s) - 1)\<rparr>"

partial_function (option) run_until_zero :: "(int \<Rightarrow> (int, 'e \<times> int) task_pool \<Rightarrow> (int, 'e \<times> int) task_pool) \<Rightarrow>
    bool \<Rightarrow> (int, 'e \<times> int) task_pool \<Rightarrow> (int, 'e \<times> int) task_pool option" where
  "run_until_zero f is_hp s =
    (if snd (env s) \<noteq> 0
     then run_until_zero f is_hp (snd (if is_hp then hp_try_run f s else try_run f s))
     else Some s)"

definition common_soft_parallel_for ::
  "int \<Rightarrow> int \<Rightarrow> int \<Rightarrow> (int \<Rightarrow> 'e \<Rightarrow> 'e) \<Rightarrow> bool \<Rightarrow> (int, 'e \<times> int) task_pool \<Rightarrow>
     (int, 'e \<times> int) task_pool option"
where
  "common_soft_parallel_for i j step f is_hp s =
    Option.bind (enqueue_range (my_f f) is_hp i j step
        (s\<lparr>env := (fst (env s), n_tasks i j step)\<rparr>))
      (run_until_zero (my_f f) is_hp)"

definition soft_parallel_for ::
  "int \<Rightarrow> int \<Rightarrow> int \<Rightarrow> (int \<Rightarrow> 'e \<Rightarrow> 'e) \<Rightarrow> (int, 'e \<times> int) task_pool \<Rightarrow> (int, 'e \<times> int) task_pool option"
where
  "soft_parallel_for i j step f s = common_soft_parallel_for i j step f False s"

definition hp_soft_parallel_for ::
  "int \<Rightarrow> int \<Rightarrow> int \<Rightarrow> (int \<Rightarrow> 'e \<Rightarrow> 'e) \<Rightarrow> (int, 'e \<times> int) task_pool \<Rightarrow> (int, 'e \<times> int) task_pool option"
where
  "hp_soft_parallel_for i j step f s = common_soft_parallel_for i j step f True s"

text \<open>
  The loop with a final \<open>wait\<close>, for a pool of no threads: the caller runs what is left.
\<close>

definition common_parallel_for ::
  "int \<Rightarrow> int \<Rightarrow> int \<Rightarrow> (int \<Rightarrow> (int, 'e) task_pool \<Rightarrow> (int, 'e) task_pool) \<Rightarrow> bool \<Rightarrow>
     (int, 'e) task_pool \<Rightarrow> (int, 'e) task_pool option"
where
  "common_parallel_for i j step f is_hp s =
    Option.bind (enqueue_range f is_hp i j step s) (empty_queue f)"

text \<open>The indices the loops visit.\<close>

function indices :: "int \<Rightarrow> int \<Rightarrow> int \<Rightarrow> int list" where
  "indices i j step = (if i < j \<and> 0 < step then i # indices (i + step) j step else [])"
  by pat_completeness auto
termination by (relation "measure (\<lambda>(i, j, step). nat (j - i))") auto

declare indices.simps [simp del]
declare enqueue_task.simps [code] hp_enqueue_task.simps [code] empty_queue.simps [code]
  enqueue_range.simps [code] run_until_zero.simps [code]

section \<open>The soft parallel loops\<close>

text \<open>A soft loop that has run the tasks \<open>ds\<close> and has the tasks \<open>qs\<close> in its queue.\<close>

definition stage :: "bool \<Rightarrow> (int, 'e \<times> int) task_pool \<Rightarrow> (int \<Rightarrow> 'e \<Rightarrow> 'e) \<Rightarrow> int \<Rightarrow> int list \<Rightarrow>
    int list \<Rightarrow> (int, 'e \<times> int) task_pool" where
  "stage is_hp s f n ds qs =
    s\<lparr>hp_queue := (if is_hp then qs else []), task_queue := (if is_hp then [] else qs),
      env := (fold f ds (fst (env s)), n - int (length ds)),
      allocated := allocated s + int (length qs)\<rparr>"

lemma stage_run:
  "(if is_hp then hp_try_run (my_f f) (stage is_hp s f n ds (q # qs))
    else try_run (my_f f) (stage is_hp s f n ds (q # qs))) =
   (True, stage is_hp s f n (ds @ [q]) qs)"
  by (simp add: stage_def hp_try_run_def try_run_def run_def my_f_def Let_def)

lemma stage_run_both:
  "hp_try_run (my_f f) (stage True s f n ds (q # qs)) = (True, stage True s f n (ds @ [q]) qs)"
  "try_run (my_f f) (stage False s f n ds (q # qs)) = (True, stage False s f n (ds @ [q]) qs)"
  using stage_run [of True f s n ds q qs] stage_run [of False f s n ds q qs] by simp_all

lemma stage_room:
  assumes "length qs < queue_size s"
  shows "(if is_hp then hp_enqueue (my_f f) i (stage is_hp s f n ds qs)
    else enqueue (my_f f) i (stage is_hp s f n ds qs)) = Some (stage is_hp s f n ds (qs @ [i]))"
proof -
  have "hp_enqueue (my_f f) i (stage True s f n ds qs) = Some (stage True s f n ds (qs @ [i]))"
    using assms unfolding hp_enqueue_def
    by (subst hp_enqueue_task.simps) (simp add: build_task_def stage_def)
  moreover have "enqueue (my_f f) i (stage False s f n ds qs) = Some (stage False s f n ds (qs @ [i]))"
    using assms unfolding enqueue_def
    by (subst enqueue_task.simps) (simp add: try_enqueue_task_def build_task_def stage_def)
  ultimately show ?thesis
    by (cases is_hp) simp_all
qed

lemma stage_full:
  assumes "length (q # qs) = queue_size s"
  shows "(if is_hp then hp_enqueue (my_f f) i (stage is_hp s f n ds (q # qs))
    else enqueue (my_f f) i (stage is_hp s f n ds (q # qs))) =
    Some (stage is_hp s f n (ds @ [q]) (qs @ [i]))"
proof (cases is_hp)
  case True
  let ?s = "build_task (stage True s f n ds (q # qs))"
  have "hp_enqueue_task (my_f f) i ?s = hp_enqueue_task (my_f f) i (snd (hp_try_run (my_f f) ?s))"
    using assms by (subst hp_enqueue_task.simps) (simp add: build_task_def stage_def)
  also have "snd (hp_try_run (my_f f) ?s) = build_task (stage True s f n (ds @ [q]) qs)"
    by (simp add: build_task_def stage_def hp_try_run_def run_def my_f_def Let_def)
  also have "hp_enqueue_task (my_f f) i (build_task (stage True s f n (ds @ [q]) qs)) =
      Some (stage True s f n (ds @ [q]) (qs @ [i]))"
    using assms by (subst hp_enqueue_task.simps) (simp add: build_task_def stage_def)
  finally show ?thesis
    using True by (simp add: hp_enqueue_def)
next
  case False
  let ?s = "build_task (stage False s f n ds (q # qs))"
  have "enqueue_task (my_f f) i ?s = enqueue_task (my_f f) i (snd (try_run (my_f f) ?s))"
    using assms by (subst enqueue_task.simps) (simp add: try_enqueue_task_def build_task_def stage_def)
  also have "snd (try_run (my_f f) ?s) = build_task (stage False s f n (ds @ [q]) qs)"
    by (simp add: build_task_def stage_def try_run_def run_def my_f_def Let_def)
  also have "enqueue_task (my_f f) i (build_task (stage False s f n (ds @ [q]) qs)) =
      Some (stage False s f n (ds @ [q]) (qs @ [i]))"
    using assms by (subst enqueue_task.simps) (simp add: try_enqueue_task_def build_task_def stage_def)
  finally show ?thesis
    using False by (simp add: enqueue_def)
qed

lemma stage_enqueue:
  assumes "length qs \<le> queue_size s" and "0 < queue_size s"
  obtains ds' qs' where "(if is_hp then hp_enqueue (my_f f) i (stage is_hp s f n ds qs)
      else enqueue (my_f f) i (stage is_hp s f n ds qs)) = Some (stage is_hp s f n ds' qs')"
    "ds' @ qs' = ds @ qs @ [i]" "length qs' \<le> queue_size s"
proof (cases "length qs < queue_size s")
  case True
  then show ?thesis
    using that [OF stage_room [OF True]] by simp
next
  case False
  then obtain q qs1 where qs: "qs = q # qs1" and "length (q # qs1) = queue_size s"
    using assms by (cases qs) auto
  then show ?thesis
    using that [of "ds @ [q]" "qs1 @ [i]"] stage_full [of q qs1 s is_hp f i n ds] by (simp only: qs) simp
qed

lemma stage_range:
  assumes "0 < step" and "0 < queue_size s" and "length qs \<le> queue_size s"
  shows "\<exists>ds' qs'. enqueue_range (my_f f) is_hp i j step (stage is_hp s f n ds qs) =
      Some (stage is_hp s f n ds' qs') \<and> ds' @ qs' = ds @ qs @ indices i j step"
  using assms(1,3)
proof (induction i j step arbitrary: ds qs rule: indices.induct)
  case (1 i j st)
  show ?case
  proof (cases "i < j")
    case True
    obtain ds1 qs1 where e: "(if is_hp then hp_enqueue (my_f f) i (stage is_hp s f n ds qs)
        else enqueue (my_f f) i (stage is_hp s f n ds qs)) = Some (stage is_hp s f n ds1 qs1)"
      and l: "ds1 @ qs1 = ds @ qs @ [i]" and r: "length qs1 \<le> queue_size s"
      by (rule stage_enqueue [OF 1(3) assms(2)])
    have "i < j \<and> 0 < st"
      using True 1(2) by simp
    then obtain ds' qs' where "enqueue_range (my_f f) is_hp (i + st) j st (stage is_hp s f n ds1 qs1) =
        Some (stage is_hp s f n ds' qs')" and "ds' @ qs' = ds1 @ qs1 @ indices (i + st) j st"
      using 1(1) [OF _ 1(2) r, of ds1] by blast
    moreover have "indices i j st = i # indices (i + st) j st"
      using True 1(2) by (subst indices.simps) simp
    moreover have "ds1 @ qs1 @ indices (i + st) j st = ds @ qs @ i # indices (i + st) j st"
      using arg_cong [OF l, of "\<lambda>z. z @ indices (i + st) j st"] by simp
    ultimately show ?thesis
      using e True by (subst enqueue_range.simps) auto
  next
    case False
    then have "indices i j st = []"
      by (subst indices.simps) simp
    then show ?thesis
      using False by (subst enqueue_range.simps) auto
  qed
qed

lemma stage_until_zero:
  assumes "n = int (length ds + length qs)"
  shows "run_until_zero (my_f f) is_hp (stage is_hp s f n ds qs) = Some (stage is_hp s f n (ds @ qs) [])"
  using assms
proof (induction qs arbitrary: ds)
  case Nil
  then show ?case
    by (subst run_until_zero.simps) (simp add: stage_def)
next
  case (Cons q qs)
  have "snd (env (stage is_hp s f n ds (q # qs))) \<noteq> 0"
    using Cons.prems by (simp add: stage_def)
  then have "run_until_zero (my_f f) is_hp (stage is_hp s f n ds (q # qs)) =
      run_until_zero (my_f f) is_hp (stage is_hp s f n (ds @ [q]) qs)"
    by (subst run_until_zero.simps) (cases is_hp; simp add: stage_run_both)
  then show ?case
    using Cons.IH [of "ds @ [q]"] Cons.prems by simp
qed

lemma stage_empty_queue:
  "empty_queue (my_f f) (stage is_hp s f n ds qs) = Some (stage is_hp s f n (ds @ qs) [])"
proof (induction qs arbitrary: ds)
  case Nil
  then show ?case
    by (subst empty_queue.simps) (simp add: stage_def try_run_def)
next
  case (Cons q qs)
  have "try_run (my_f f) (stage is_hp s f n ds (q # qs)) = (True, stage is_hp s f n (ds @ [q]) qs)"
    by (simp add: stage_def try_run_def run_def my_f_def Let_def)
  then show ?case
    using Cons.IH [of "ds @ [q]"] by (subst empty_queue.simps) (simp add: Let_def)
qed

text \<open>The parallel loop of a pool without threads is the sequential loop, too.\<close>

lemma common_parallel_for_closed:
  assumes "0 < step" and "0 < queue_size s" and "hp_queue s = []" and "task_queue s = []"
  shows "common_parallel_for i j step (my_f f) is_hp s =
    Some (stage is_hp s f (snd (env s)) (indices i j step) [])"
proof -
  have start: "s = stage is_hp s f (snd (env s)) [] []"
    using assms(3,4) by (simp add: stage_def)
  obtain ds qs where "enqueue_range (my_f f) is_hp i j step (stage is_hp s f (snd (env s)) [] []) =
      Some (stage is_hp s f (snd (env s)) ds qs)" and "ds @ qs = indices i j step"
    using stage_range [OF assms(1,2), of "[]" f is_hp i j "snd (env s)" "[]"] by auto
  then show ?thesis
    using stage_empty_queue [of f is_hp s "snd (env s)" ds qs] start
    by (simp add: common_parallel_for_def)
qed

lemma indices_small: "\<not> i < j \<Longrightarrow> indices i j step = []"
  by (subst indices.simps) simp

lemma sdiv_nonneg: "0 \<le> a \<Longrightarrow> 0 < b \<Longrightarrow> a sdiv b = a div (b :: int)"
  by (simp add: signed_divide_int_def sgn_if)

lemma sdiv_neg: "a < 0 \<Longrightarrow> 0 < b \<Longrightarrow> a sdiv b = - ((- a) div (b :: int))"
  by (simp add: signed_divide_int_def sgn_if)

lemma length_indices: "0 < step \<Longrightarrow> i \<le> j + (step - 1) \<Longrightarrow>
    int (length (indices i j step)) = ((j - i) + (step - 1)) div step"
proof (induction i j step rule: indices.induct)
  case (1 i j st)
  show ?case
  proof (cases "i < j")
    case True
    have "int (length (indices (i + st) j st)) = ((j - (i + st)) + (st - 1)) div st"
      using 1 True by auto
    also have "\<dots> = ((j - i) + (st - 1)) div st - 1"
    proof -
      have "(j - i) + (st - 1) = ((j - (i + st)) + (st - 1)) + st"
        by simp
      then show ?thesis
        using 1(2) by (metis add_diff_cancel_right' div_add_self2 less_irrefl)
    qed
    finally show ?thesis
      using True 1(2) by (subst indices.simps) simp
  next
    case False
    then have "((j - i) + (st - 1)) div st = 0"
      using 1(2,3) by (intro div_pos_pos_trivial) auto
    then show ?thesis
      using False by (simp add: indices_small)
  qed
qed

lemma n_tasks_indices:
  assumes "0 < step" and "i < j + 2 * step - 1"
  shows "n_tasks i j step = int (length (indices i j step))"
proof (cases "i \<le> j + (step - 1)")
  case True
  then show ?thesis
    using assms(1) length_indices [OF assms(1) True] by (simp add: n_tasks_def sdiv_nonneg)
next
  case False
  then have "- ((j - i) + (step - 1)) div step = 0"
    using assms by (intro div_pos_pos_trivial) auto
  then show ?thesis
    using False assms(1) by (simp add: n_tasks_def sdiv_neg indices_small)
qed

lemma n_tasks_negative:
  assumes "0 < step" and "j + 2 * step - 1 \<le> i"
  shows "n_tasks i j step \<noteq> 0"
proof -
  have "1 \<le> - ((j - i) + (step - 1)) div step"
    using assms by (simp add: zdiv_mono1 pos_imp_zdiv_pos_iff int_one_le_iff_zero_less)
  then show ?thesis
    using assms by (simp add: n_tasks_def sdiv_neg)
qed

text \<open>A caller with nothing to run never sees the count change.\<close>

lemma idle_forever:
  assumes "run_until_zero f is_hp s = Some r"
  shows "\<not> (hp_queue s = [] \<and> task_queue s = [] \<and> snd (env s) \<noteq> 0)"
proof (rule run_until_zero.raw_induct [where P = "\<lambda>f h s r.
    \<not> (hp_queue s = [] \<and> task_queue s = [] \<and> snd (env s) \<noteq> 0)", OF _ assms])
  fix R and f and h and s :: "(int, 'b \<times> int) task_pool" and y
  assume IH: "\<And>f h s y. R f h s = Some y \<Longrightarrow>
      \<not> (hp_queue s = [] \<and> task_queue s = [] \<and> snd (env s) \<noteq> 0)"
    and e: "(if snd (env s) \<noteq> 0
      then R f h (snd (if h then hp_try_run f s else try_run f s)) else Some s) = Some y"
  show "\<not> (hp_queue s = [] \<and> task_queue s = [] \<and> snd (env s) \<noteq> 0)"
  proof
    assume idle: "hp_queue s = [] \<and> task_queue s = [] \<and> snd (env s) \<noteq> 0"
    then have "snd (if h then hp_try_run f s else try_run f s) = s"
      by (simp add: hp_try_run_def try_run_def)
    then have "R f h s = Some y"
      using e idle by simp
    then show False
      using IH idle by blast
  qed
qed

text \<open>
  A soft parallel loop of the main thread on idle queues runs its function once for every
  index, in the order of the indices, whatever the size of the queues, and returns with the
  queues empty and every task returned to its memory pool.
\<close>

theorem soft_loop_is_sequential:
  assumes "0 < step" and "i < j + 2 * step - 1" and "0 < queue_size s"
    and "hp_queue s = []" and "task_queue s = []"
  shows "common_soft_parallel_for i j step f is_hp s =
    Some (s\<lparr>env := (fold f (indices i j step) (fst (env s)), 0)\<rparr>)"
proof -
  let ?n = "n_tasks i j step"
  have start: "s\<lparr>env := (fst (env s), ?n)\<rparr> = stage is_hp s f ?n [] []"
    using assms(4,5) by (simp add: stage_def)
  obtain ds qs where e: "enqueue_range (my_f f) is_hp i j step (stage is_hp s f ?n [] []) =
      Some (stage is_hp s f ?n ds qs)" and l: "ds @ qs = indices i j step"
    using stage_range [OF assms(1,3), of "[]" f is_hp i j ?n "[]"] by auto
  have "?n = int (length ds + length qs)"
    using n_tasks_indices [OF assms(1,2)] l by (metis length_append)
  then have "run_until_zero (my_f f) is_hp (stage is_hp s f ?n ds qs) =
      Some (stage is_hp s f ?n (indices i j step) [])"
    using stage_until_zero l by metis
  moreover have "stage is_hp s f ?n (indices i j step) [] =
      s\<lparr>env := (fold f (indices i j step) (fst (env s)), 0)\<rparr>"
    using assms(4,5) n_tasks_indices [OF assms(1,2)] by (simp add: stage_def)
  ultimately show ?thesis
    unfolding common_soft_parallel_for_def start by (simp add: e)
qed

definition two_slots :: "(int, int list \<times> int) task_pool" where
  "two_slots = \<lparr>hp_queue = [], task_queue = [], queue_size = 2, allocated = 0, env = ([], 0)\<rparr>"

theorem soft_loop_is_sequential_witness:
  "common_soft_parallel_for 1 12 3 (#) False two_slots = Some (two_slots\<lparr>env := ([10, 7, 4, 1], 0)\<rparr>)"
proof -
  have "indices 1 12 3 = [1, 4, 7, 10]"
    by (simp add: indices.simps)
  then show ?thesis
    using soft_loop_is_sequential [of 3 1 12 two_slots "(#)" False] by (simp add: two_slots_def)
qed

text \<open>
  A soft parallel loop over an empty range whose start lies \<open>2 * step - 1\<close> or more after
  its end does not return: the number of tasks it waits for comes out negative.
\<close>

theorem soft_loop_can_hang:
  assumes "0 < step" and "j + 2 * step - 1 \<le> i" and "hp_queue s = []" and "task_queue s = []"
  shows "common_soft_parallel_for i j step f is_hp s = None"
proof -
  let ?s = "s\<lparr>env := (fst (env s), n_tasks i j step)\<rparr>"
  have "enqueue_range (my_f f) is_hp i j step ?s = Some ?s"
    using assms(1,2) by (subst enqueue_range.simps) simp
  moreover have "run_until_zero (my_f f) is_hp ?s = None"
    using idle_forever [of "my_f f" is_hp ?s] n_tasks_negative [OF assms(1,2)] assms(3,4)
    by (cases "run_until_zero (my_f f) is_hp ?s") auto
  ultimately show ?thesis
    by (simp add: common_soft_parallel_for_def)
qed

theorem soft_loop_can_hang_witness:
  "common_soft_parallel_for 5 4 1 (#) False two_slots = None"
  using soft_loop_can_hang [of 1 4 5 two_slots "(#)" False] by (simp add: two_slots_def)

section \<open>The threads of the pool\<close>

text \<open>
  Where a thread stands. \<open>Work m ts\<close>: about to look for a task, or running the task \<open>hd ts\<close>,
  which was started while \<open>tl ts\<close> were running (\<open>enqueue\<close> runs tasks when a queue is full).
  \<open>Miss m ts\<close>: \<open>try_run\<close> found the first queue empty and looks at the second. The mode says
  whose loop it is: that of \<open>main\<close>, of the client's code, or of \<open>wait\<close>. The rest are the
  points of \<open>main\<close> around its counter updates, and the test and the end of \<open>wait\<close>.
\<close>

datatype mode = Pool_loop | In_client | In_wait

datatype 't place =
    Work mode "'t list"
  | Miss mode "'t list"
  | Leaving
  | Idling
  | Waking
  | Woken
  | Ending
  | Ended
  | Checking
  | Waited

text \<open>
  The shared state. Thread \<open>nthreads\<close> is the main thread, the ones below it are the pool's.
  \<open>enqueued\<close> and \<open>finished\<close> collect the tasks for the statements; the code has no such fields.
\<close>

record 't pool_state =
  hpq :: "'t list"
  normq :: "'t list"
  room :: nat
  finish :: bool
  busy_threads :: int
  nthreads :: nat
  place :: "nat \<Rightarrow> 't place"
  enqueued :: "'t multiset"
  finished :: "'t multiset"

abbreviation moves :: "nat \<Rightarrow> 't place \<Rightarrow> 't pool_state \<Rightarrow> 't pool_state" where
  "moves t p s \<equiv> s\<lparr>place := (place s)(t := p)\<rparr>"

text \<open>The constructor's queue size, for \<open>n\<close> threads.\<close>

definition queue_positions :: "nat \<Rightarrow> nat \<Rightarrow> nat" where
  "queue_positions n avg_max_tasks_per_thread = n * avg_max_tasks_per_thread + (if n = 0 then 1 else 0)"

text \<open>
  \<open>launch_threads\<close>: the thread pool lets its threads, which have all left \<open>main\<close>, run it again.
\<close>

definition launch_threads :: "'t pool_state \<Rightarrow> 't pool_state" where
  "launch_threads s =
    (if finish s
     then s\<lparr>busy_threads := int (nthreads s), finish := False,
            place := (\<lambda>t. if t < nthreads s then Woken else place s t)\<rparr>
     else s)"

text \<open>After both queues were found empty.\<close>

fun after_miss :: "mode \<Rightarrow> 't list \<Rightarrow> 't place" where
  "after_miss Pool_loop [] = Leaving"
| "after_miss In_wait [] = Checking"
| "after_miss m ts = Work m ts"

inductive tp_step :: "'t pool_state \<Rightarrow> 't pool_state \<Rightarrow> bool" where
  push: "t \<le> nthreads s \<Longrightarrow> place s t = Work m ts \<Longrightarrow> m = In_client \<or> ts \<noteq> [] \<Longrightarrow> length (normq s) < room s \<Longrightarrow>
    tp_step s (s\<lparr>normq := normq s @ [x], enqueued := add_mset x (enqueued s)\<rparr>)"
| hp_push: "t \<le> nthreads s \<Longrightarrow> place s t = Work m ts \<Longrightarrow> m = In_client \<or> ts \<noteq> [] \<Longrightarrow> length (hpq s) < room s \<Longrightarrow>
    tp_step s (s\<lparr>hpq := hpq s @ [x], enqueued := add_mset x (enqueued s)\<rparr>)"
| hp_pop: "t \<le> nthreads s \<Longrightarrow> place s t = Work m ts \<Longrightarrow> hpq s = x # xs \<Longrightarrow>
    tp_step s (moves t (Work m (x # ts)) (s\<lparr>hpq := xs\<rparr>))"
| hp_miss: "t \<le> nthreads s \<Longrightarrow> place s t = Work m ts \<Longrightarrow> hpq s = [] \<Longrightarrow> tp_step s (moves t (Miss m ts) s)"
| pop: "t \<le> nthreads s \<Longrightarrow> place s t = Miss m ts \<Longrightarrow> normq s = x # xs \<Longrightarrow>
    tp_step s (moves t (Work m (x # ts)) (s\<lparr>normq := xs\<rparr>))"
| miss: "t \<le> nthreads s \<Longrightarrow> place s t = Miss m ts \<Longrightarrow> normq s = [] \<Longrightarrow> tp_step s (moves t (after_miss m ts) s)"
| return: "t \<le> nthreads s \<Longrightarrow> place s t = Work m (x # ts) \<Longrightarrow>
    tp_step s (moves t (Work m ts) (s\<lparr>finished := add_mset x (finished s)\<rparr>))"
| leave: "t \<le> nthreads s \<Longrightarrow> place s t = Leaving \<Longrightarrow>
    tp_step s (moves t Idling (s\<lparr>busy_threads := busy_threads s - 1\<rparr>))"
| wake: "t \<le> nthreads s \<Longrightarrow> place s t = Idling \<Longrightarrow> finish s \<or> hpq s \<noteq> [] \<or> normq s \<noteq> [] \<Longrightarrow> tp_step s (moves t Waking s)"
| woken: "t \<le> nthreads s \<Longrightarrow> place s t = Waking \<Longrightarrow>
    tp_step s (moves t Woken (s\<lparr>busy_threads := busy_threads s + 1\<rparr>))"
| again: "t \<le> nthreads s \<Longrightarrow> place s t = Woken \<Longrightarrow>
    tp_step s (moves t (if finish s then Ending else Work Pool_loop []) s)"
| ending: "t \<le> nthreads s \<Longrightarrow> place s t = Ending \<Longrightarrow>
    tp_step s (moves t Ended (s\<lparr>busy_threads := busy_threads s - 1\<rparr>))"
| wait: "place s (nthreads s) = Work In_client [] \<Longrightarrow>
    tp_step s (moves (nthreads s) (Work In_wait []) s)"
| check: "place s (nthreads s) = Checking \<Longrightarrow>
    tp_step s (if busy_threads s \<noteq> 0 then moves (nthreads s) (Work In_wait []) s
               else moves (nthreads s) Waited (s\<lparr>finish := True\<rparr>))"
| relaunch: "place s (nthreads s) = Waited \<Longrightarrow> (\<forall>t<nthreads s. place s t = Ended) \<Longrightarrow>
    tp_step s (moves (nthreads s) (Work In_client []) (launch_threads s))"

text \<open>A pool whose threads have just been launched.\<close>

definition launched :: "nat \<Rightarrow> nat \<Rightarrow> 't pool_state" where
  "launched n r = \<lparr>hpq = [], normq = [], room = r, finish = False, busy_threads = int n,
    nthreads = n, place = (\<lambda>t. if t < n then Woken else Work In_client []),
    enqueued = {#}, finished = {#}\<rparr>"

inductive tp_reachable :: "nat \<Rightarrow> nat \<Rightarrow> 't pool_state \<Rightarrow> bool" for n r where
  start: "tp_reachable n r (launched n r)"
| step: "tp_reachable n r s \<Longrightarrow> tp_step s s' \<Longrightarrow> tp_reachable n r s'"

section \<open>What the threads keep\<close>

fun tasks_at :: "'t place \<Rightarrow> 't multiset" where
  "tasks_at (Work m ts) = mset ts"
| "tasks_at (Miss m ts) = mset ts"
| "tasks_at _ = {#}"

text \<open>The places between \<open>fetch_add\<close> and \<open>fetch_sub\<close>.\<close>

fun counted :: "'t place \<Rightarrow> int" where
  "counted (Work m ts) = 1"
| "counted (Miss m ts) = 1"
| "counted Leaving = 1"
| "counted Woken = 1"
| "counted Ending = 1"
| "counted _ = 0"

text \<open>A thread that will look at the first queue, and one that will look at the second.\<close>

fun hp_looker :: "bool \<Rightarrow> 't place \<Rightarrow> bool" where
  "hp_looker fin (Work m ts) \<longleftrightarrow> True"
| "hp_looker fin Woken \<longleftrightarrow> \<not> fin"
| "hp_looker fin _ \<longleftrightarrow> False"

fun looker :: "bool \<Rightarrow> 't place \<Rightarrow> bool" where
  "looker fin (Work m ts) \<longleftrightarrow> True"
| "looker fin (Miss m ts) \<longleftrightarrow> True"
| "looker fin Woken \<longleftrightarrow> \<not> fin"
| "looker fin _ \<longleftrightarrow> False"

definition pool_place :: "'t place \<Rightarrow> bool" where
  "pool_place p \<longleftrightarrow> (case p of Work m ts \<Rightarrow> m = Pool_loop | Miss m ts \<Rightarrow> m = Pool_loop
    | Checking \<Rightarrow> False | Waited \<Rightarrow> False | _ \<Rightarrow> True)"

definition main_place :: "'t place \<Rightarrow> bool" where
  "main_place p \<longleftrightarrow> (case p of Work m ts \<Rightarrow> m \<noteq> Pool_loop | Miss m ts \<Rightarrow> m \<noteq> Pool_loop
    | Checking \<Rightarrow> True | Waited \<Rightarrow> True | _ \<Rightarrow> False)"

definition all_tasks :: "'t pool_state \<Rightarrow> 't multiset" where
  "all_tasks s = mset (hpq s) + mset (normq s) + (\<Sum>t\<le>nthreads s. tasks_at (place s t)) + finished s"

definition tp_inv :: "'t pool_state \<Rightarrow> bool" where
  "tp_inv s \<longleftrightarrow>
     (\<forall>t<nthreads s. pool_place (place s t)) \<and> main_place (place s (nthreads s)) \<and>
     busy_threads s = (\<Sum>t<nthreads s. counted (place s t)) \<and>
     (hpq s \<noteq> [] \<longrightarrow> (\<exists>t\<le>nthreads s. hp_looker (finish s) (place s t))) \<and>
     (normq s \<noteq> [] \<longrightarrow> (\<exists>t\<le>nthreads s. looker (finish s) (place s t))) \<and>
     enqueued s = all_tasks s \<and>
     (finish s \<longrightarrow> place s (nthreads s) = Waited \<and> hpq s = [] \<and> normq s = [] \<and>
        (\<forall>t\<le>nthreads s. \<not> looker True (place s t)))"

text \<open>One thread goes from the place \<open>p\<close> to \<open>p'\<close>.\<close>

lemma inv_move:
  assumes inv: "tp_inv s" and t: "t \<le> nthreads s" and p: "place s t = p"
    and same: "nthreads s' = nthreads s" "finish s' = finish s" "place s' = (place s)(t := p')"
    and pl: "t < nthreads s \<Longrightarrow> pool_place p'" and mn: "t = nthreads s \<Longrightarrow> main_place p'"
    and busy: "busy_threads s' = busy_threads s + (if t < nthreads s then counted p' - counted p else 0)"
    and hp: "hpq s' \<noteq> [] \<Longrightarrow> (hpq s \<noteq> [] \<and> \<not> hp_looker (finish s) p) \<or> hp_looker (finish s) p'"
    and nq: "normq s' \<noteq> [] \<Longrightarrow> (normq s \<noteq> [] \<and> \<not> looker (finish s) p) \<or> looker (finish s) p'"
    and tasks: "enqueued s' + (tasks_at p + (mset (hpq s) + mset (normq s) + finished s)) =
      enqueued s + (tasks_at p' + (mset (hpq s') + mset (normq s') + finished s'))"
    and fin: "finish s \<Longrightarrow> \<not> looker True p' \<and> (t = nthreads s \<longrightarrow> p' = Waited) \<and>
      hpq s' = [] \<and> normq s' = []"
  shows "tp_inv s'"
proof -
  let ?n = "nthreads s"
  have "busy_threads s' = (\<Sum>u<?n. counted (place s' u))"
  proof (cases "t < ?n")
    case True
    then have "(\<Sum>u<?n. counted (place s' u)) + counted p = (\<Sum>u<?n. counted (place s u)) + counted p'"
      using sum_upd [of "{..<?n}" t counted "place s" p'] p same(3) by simp
    then show ?thesis
      using busy True inv by (simp add: tp_inv_def)
  next
    case False
    then have "(\<Sum>u<?n. counted (place s' u)) = (\<Sum>u<?n. counted (place s u))"
      by (intro sum.cong) (auto simp: same(3))
    then show ?thesis
      using busy False inv by (simp add: tp_inv_def)
  qed
  moreover have "enqueued s' = all_tasks s'"
  proof -
    have sm: "(\<Sum>u\<le>?n. tasks_at (place s' u)) + tasks_at p = (\<Sum>u\<le>?n. tasks_at (place s u)) + tasks_at p'"
      using sum_upd [of "{..?n}" t tasks_at "place s" p'] p same(3) t by simp
    have e: "enqueued s = mset (hpq s) + mset (normq s) + (\<Sum>u\<le>?n. tasks_at (place s u)) + finished s"
      using inv by (simp add: tp_inv_def all_tasks_def)
    have "enqueued s' + (tasks_at p + (mset (hpq s) + mset (normq s) + finished s)) =
        all_tasks s' + (tasks_at p + (mset (hpq s) + mset (normq s) + finished s))"
      unfolding tasks e all_tasks_def same(1) using sm by (simp add: ac_simps add.left_commute)
    then show ?thesis
      by (metis add_right_cancel)
  qed
  moreover have "hpq s' \<noteq> [] \<longrightarrow> (\<exists>u\<le>?n. hp_looker (finish s) (place s' u))"
  proof
    assume h: "hpq s' \<noteq> []"
    show "\<exists>u\<le>?n. hp_looker (finish s) (place s' u)"
    proof (cases "hp_looker (finish s) p'")
      case True
      then show ?thesis
        using t by (auto simp: same(3))
    next
      case False
      then have "hpq s \<noteq> []" and np: "\<not> hp_looker (finish s) p"
        using hp [OF h] by auto
      then obtain u where u: "u \<le> ?n" "hp_looker (finish s) (place s u)"
        using inv by (auto simp: tp_inv_def)
      then have "u \<noteq> t"
        using np p by auto
      then show ?thesis
        using u by (auto simp: same(3))
    qed
  qed
  moreover have "normq s' \<noteq> [] \<longrightarrow> (\<exists>u\<le>?n. looker (finish s) (place s' u))"
  proof
    assume h: "normq s' \<noteq> []"
    show "\<exists>u\<le>?n. looker (finish s) (place s' u)"
    proof (cases "looker (finish s) p'")
      case True
      then show ?thesis
        using t by (auto simp: same(3))
    next
      case False
      then have "normq s \<noteq> []" and np: "\<not> looker (finish s) p"
        using nq [OF h] by auto
      then obtain u where u: "u \<le> ?n" "looker (finish s) (place s u)"
        using inv by (auto simp: tp_inv_def)
      then have "u \<noteq> t"
        using np p by auto
      then show ?thesis
        using u by (auto simp: same(3))
    qed
  qed
  moreover have "(\<forall>u<?n. pool_place (place s' u)) \<and> main_place (place s' ?n)"
    using inv pl mn by (auto simp: tp_inv_def same(3))
  moreover have "finish s \<longrightarrow> place s' ?n = Waited \<and> hpq s' = [] \<and> normq s' = [] \<and>
      (\<forall>u\<le>?n. \<not> looker True (place s' u))"
    using inv fin by (auto simp: tp_inv_def same(3))
  ultimately show ?thesis
    unfolding tp_inv_def same(1,2) by blast
qed

lemma inv_mode:
  assumes "tp_inv s" and "t \<le> nthreads s" and "place s t = Work m ts \<or> place s t = Miss m ts"
  shows "t < nthreads s \<Longrightarrow> m = Pool_loop" and "t = nthreads s \<Longrightarrow> m \<noteq> Pool_loop"
    and "\<not> finish s"
proof -
  have a: "\<forall>t<nthreads s. pool_place (place s t)" "main_place (place s (nthreads s))"
    using assms(1) by (simp_all add: tp_inv_def)
  then show "t < nthreads s \<Longrightarrow> m = Pool_loop" and "t = nthreads s \<Longrightarrow> m \<noteq> Pool_loop"
    using assms(3) by (auto simp: pool_place_def main_place_def dest!: spec [of _ t])
  have "finish s \<Longrightarrow> \<not> looker True (place s t)"
    using assms(1,2) by (simp add: tp_inv_def)
  then show "\<not> finish s"
    using assms(3) by auto
qed

lemma after_miss_facts:
  "tasks_at (after_miss m ts) = mset ts"
  "pool_place (after_miss Pool_loop ts)"
  "m \<noteq> Pool_loop \<Longrightarrow> main_place (after_miss m ts)"
  "counted (after_miss Pool_loop ts) = 1"
  by (cases m; cases ts; simp add: pool_place_def main_place_def)+

lemma sum_counted_zero:
  assumes "(\<Sum>t<n. counted (p t)) = 0" and "t < (n :: nat)"
  shows "counted (p t) = 0"
proof -
  have "\<forall>t\<in>{..<n}. 0 \<le> counted (p t)"
  proof
    fix t show "0 \<le> counted (p t)" by (cases "p t") auto
  qed
  then show ?thesis
    using assms sum_nonneg_eq_0_iff [of "{..<n}" "\<lambda>t. counted (p t)"] by simp
qed

lemma check_inv:
  assumes inv: "tp_inv s" and c: "place s (nthreads s) = Checking" and b: "busy_threads s = 0"
  shows "hpq s = [] \<and> normq s = [] \<and> (\<forall>t\<le>nthreads s. \<not> looker True (place s t) \<and> tasks_at (place s t) = {#})"
proof -
  have z: "counted (place s t) = 0" if "t < nthreads s" for t
    using inv b that by (intro sum_counted_zero [of "place s" "nthreads s"]) (auto simp: tp_inv_def)
  have none: "\<not> looker fin (place s t) \<and> \<not> hp_looker fin (place s t) \<and> tasks_at (place s t) = {#}"
    if "t \<le> nthreads s" for t fin
  proof (cases "t = nthreads s")
    case False
    then have "counted (place s t) = 0"
      using z that by simp
    then show ?thesis
      by (cases "place s t") auto
  qed (simp add: c)
  then show ?thesis
    using inv by (auto simp: tp_inv_def)
qed

lemma launch_sums:
  assumes "p n = Work In_client []"
  shows "(\<Sum>t\<le>n. tasks_at (if t < n then Woken else p t)) = {#}"
    and "(\<Sum>t<n. counted (if t < n then Woken else p t)) = int n"
proof -
  have "tasks_at (if t < n then Woken else p t) = {#}" if "t \<in> {..n}" for t
    using that assms by (cases "t = n") auto
  then show "(\<Sum>t\<le>n. tasks_at (if t < n then Woken else p t)) = {#}"
    by (intro sum.neutral) blast
qed (auto intro: trans [OF sum.cong])

lemma tp_step_inv:
  assumes "tp_step s s'" and inv: "tp_inv s"
  shows "tp_inv s'"
  using assms(1)
proof cases
  case (push t m ts x)
  then show ?thesis
    using inv_mode [OF inv, of t m ts]
    by (intro inv_move [OF inv, of t "Work m ts" _ "Work m ts"])
      (auto simp: pool_place_def main_place_def)
next
  case (hp_push t m ts x)
  then show ?thesis
    using inv_mode [OF inv, of t m ts]
    by (intro inv_move [OF inv, of t "Work m ts" _ "Work m ts"])
      (auto simp: pool_place_def main_place_def)
next
  case (hp_pop t m ts x xs)
  then show ?thesis
    using inv_mode [OF inv, of t m ts]
    by (intro inv_move [OF inv, of t "Work m ts" _ "Work m (x # ts)"])
      (auto simp: pool_place_def main_place_def)
next
  case (hp_miss t m ts)
  then show ?thesis
    using inv_mode [OF inv, of t m ts]
    by (intro inv_move [OF inv, of t "Work m ts" _ "Miss m ts"])
      (auto simp: pool_place_def main_place_def)
next
  case (pop t m ts x xs)
  then show ?thesis
    using inv_mode [OF inv, of t m ts]
    by (intro inv_move [OF inv, of t "Miss m ts" _ "Work m (x # ts)"])
      (auto simp: pool_place_def main_place_def)
next
  case (miss t m ts)
  then show ?thesis
    using inv_mode [OF inv, of t m ts]
    by (intro inv_move [OF inv, of t "Miss m ts" _ "after_miss m ts"])
      (auto simp: after_miss_facts)
next
  case (return t m x ts)
  then show ?thesis
    using inv_mode [OF inv, of t m "x # ts"]
    by (intro inv_move [OF inv, of t "Work m (x # ts)" _ "Work m ts"])
      (auto simp: pool_place_def main_place_def)
next
  case (leave t)
  have "t < nthreads s"
    using leave inv by (cases "t = nthreads s") (auto simp: tp_inv_def main_place_def)
  then show ?thesis
    using leave inv
    by (intro inv_move [OF inv, of t Leaving _ Idling]) (auto simp: pool_place_def tp_inv_def)
next
  case (wake t)
  have "t < nthreads s"
    using wake inv by (cases "t = nthreads s") (auto simp: tp_inv_def main_place_def)
  then show ?thesis
    using wake inv
    by (intro inv_move [OF inv, of t Idling _ Waking]) (auto simp: pool_place_def tp_inv_def)
next
  case (woken t)
  have "t < nthreads s"
    using woken inv by (cases "t = nthreads s") (auto simp: tp_inv_def main_place_def)
  then show ?thesis
    using woken inv
    by (intro inv_move [OF inv, of t Waking _ Woken]) (auto simp: pool_place_def tp_inv_def)
next
  case (again t)
  have "t < nthreads s"
    using again inv by (cases "t = nthreads s") (auto simp: tp_inv_def main_place_def)
  then show ?thesis
    using again inv
    by (intro inv_move [OF inv, of t Woken _ "if finish s then Ending else Work Pool_loop []"])
      (auto simp: pool_place_def tp_inv_def)
next
  case (ending t)
  have "t < nthreads s"
    using ending inv by (cases "t = nthreads s") (auto simp: tp_inv_def main_place_def)
  then show ?thesis
    using ending inv
    by (intro inv_move [OF inv, of t Ending _ Ended]) (auto simp: pool_place_def tp_inv_def)
next
  case wait
  then show ?thesis
    using inv_mode [OF inv, of "nthreads s" In_client "[]"]
    by (intro inv_move [OF inv, of "nthreads s" "Work In_client []" _ "Work In_wait []"])
      (auto simp: main_place_def)
next
  case check
  have nf: "\<not> finish s"
    using inv check by (auto simp: tp_inv_def)
  show ?thesis
  proof (cases "busy_threads s = 0")
    case False
    then show ?thesis
      using check nf inv
      by (intro inv_move [OF inv, of "nthreads s" Checking _ "Work In_wait []"])
        (auto simp: main_place_def)
  next
    case True
    note none = check_inv [OF inv check(2) True]
    let ?s = "s\<lparr>place := (place s)(nthreads s := Waited)\<rparr>"
    have i: "tp_inv ?s"
      using check nf inv by (intro inv_move [OF inv, of "nthreads s" Checking _ Waited])
        (auto simp: main_place_def)
    have "s' = ?s\<lparr>finish := True\<rparr>"
      using check(1) True by simp
    then show ?thesis
      using i none by (auto simp: tp_inv_def all_tasks_def)
  qed
next
  case relaunch
  let ?n = "nthreads s"
  have empty: "tasks_at (place s t) = {#}" if "t \<le> ?n" for t
    using relaunch that by (cases "t = ?n") auto
  have q: "hpq s = [] \<and> normq s = []"
  proof (rule ccontr)
    assume "\<not> (hpq s = [] \<and> normq s = [])"
    then obtain t where "t \<le> ?n" and "hp_looker (finish s) (place s t) \<or> looker (finish s) (place s t)"
      using inv by (auto simp: tp_inv_def)
    then show False
      using relaunch by (cases "t = ?n") auto
  qed
  have sums: "(\<Sum>t\<le>?n. tasks_at (place s t)) = {#}"
    using empty by (intro sum.neutral) auto
  show ?thesis
  proof (cases "finish s")
    case True
    then have p: "place s' = (\<lambda>t. if t < ?n then Woken else ((place s)(?n := Work In_client [])) t)"
      and rest: "nthreads s' = ?n" "hpq s' = []" "normq s' = []" "finish s' = False"
        "busy_threads s' = int ?n" "enqueued s' = enqueued s" "finished s' = finished s"
      using relaunch q by (auto simp: launch_threads_def fun_eq_iff)
    show ?thesis
      unfolding tp_inv_def all_tasks_def p rest
      using inv q sums launch_sums [of "(place s)(?n := Work In_client [])" ?n]
      by (simp add: tp_inv_def all_tasks_def pool_place_def main_place_def)
  next
    case False
    then have "s' = moves ?n (Work In_client []) s"
      using relaunch by (simp add: launch_threads_def)
    then show ?thesis
      using relaunch False q
      by (intro inv_move [OF inv, of ?n Waited _ "Work In_client []"]) (auto simp: main_place_def)
  qed
qed

lemma launched_inv: "tp_inv (launched n r)"
  using launch_sums [of "\<lambda>_. Work In_client []" n]
  by (simp add: tp_inv_def launched_def all_tasks_def pool_place_def main_place_def)

lemma tp_reachable_inv: "tp_reachable n r s \<Longrightarrow> tp_inv s"
  by (induction rule: tp_reachable.induct) (auto intro: launched_inv tp_step_inv)

section \<open>What wait promises\<close>

lemma waited_finish:
  assumes "tp_reachable n r s" and "place s (nthreads s) = Waited"
  shows "finish s"
  using assms
proof (induction rule: tp_reachable.induct)
  case start
  then show ?case by (simp add: launched_def)
next
  case (step s s')
  from step(2,3,4) show ?case
    by (cases rule: tp_step.cases)
      (auto simp: launch_threads_def split: if_splits elim: after_miss.elims)
qed

text \<open>
  C33: When \<open>wait\<close> stops looping, every task that was ever enqueued has run to its end, exactly
  once: both queues are empty and no thread is running a task. The counter of busy threads is
  enough for this although the queues are tested and the counter is read at different times,
  while tasks enqueue more tasks and idle threads wake up.
\<close>

theorem wait_is_complete:
  assumes "tp_reachable n r s" and "place s (nthreads s) = Waited"
  shows "finished s = enqueued s \<and> hpq s = [] \<and> normq s = [] \<and>
    (\<forall>t\<le>nthreads s. tasks_at (place s t) = {#})"
proof -
  have inv: "tp_inv s" and f: "finish s"
    using assms tp_reachable_inv waited_finish by blast+
  have t: "tasks_at (place s t) = {#}" if "t \<le> nthreads s" for t
  proof -
    have "\<not> looker True (place s t)"
      using inv f that by (simp add: tp_inv_def)
    then show ?thesis
      by (cases "place s t") auto
  qed
  have q: "hpq s = [] \<and> normq s = []"
    using inv f by (simp add: tp_inv_def)
  have "(\<Sum>t\<le>nthreads s. tasks_at (place s t)) = {#}"
    using t by (intro sum.neutral) auto
  then show ?thesis
    using inv q t by (simp add: tp_inv_def all_tasks_def)
qed

text \<open>One pool thread that finds nothing to do, and a main thread that runs its own task.\<close>

definition snapshot :: "'t list \<Rightarrow> int \<Rightarrow> 't place \<Rightarrow> 't place \<Rightarrow> bool \<Rightarrow> 't multiset \<Rightarrow> 't multiset \<Rightarrow> 't pool_state"
where
  "snapshot q b p0 p1 fin e d = \<lparr>hpq = [], normq = q, room = 1, finish = fin, busy_threads = b,
    nthreads = 1, place = (\<lambda>t. if t = 0 then p0 else if t = 1 then p1 else Work In_client []),
    enqueued = e, finished = d\<rparr>"

lemma snapshot_simps:
  "place (snapshot q b p0 p1 fin e d) 0 = p0" "place (snapshot q b p0 p1 fin e d) 1 = p1"
  "nthreads (snapshot q b p0 p1 fin e d) = 1" "normq (snapshot q b p0 p1 fin e d) = q"
  "hpq (snapshot q b p0 p1 fin e d) = []" "room (snapshot q b p0 p1 fin e d) = 1"
  "busy_threads (snapshot q b p0 p1 fin e d) = b" "finish (snapshot q b p0 p1 fin e d) = fin"
  "moves 0 p (snapshot q b p0 p1 fin e d) = snapshot q b p p1 fin e d"
  "moves 1 p (snapshot q b p0 p1 fin e d) = snapshot q b p0 p fin e d"
  by (auto simp: snapshot_def)

lemma snapshot_updates:
  "(snapshot q b p0 p1 fin e d)\<lparr>busy_threads := b'\<rparr> = snapshot q b' p0 p1 fin e d"
  "(snapshot q b p0 p1 fin e d)\<lparr>normq := q'\<rparr> = snapshot q' b p0 p1 fin e d"
  "(snapshot q b p0 p1 fin e d)\<lparr>finish := fin'\<rparr> = snapshot q b p0 p1 fin' e d"
  "(snapshot q b p0 p1 fin e d)\<lparr>finished := d'\<rparr> = snapshot q b p0 p1 fin e d'"
  "(snapshot q b p0 p1 fin e d)\<lparr>enqueued := e'\<rparr> = snapshot q b p0 p1 fin e' d"
  "enqueued (snapshot q b p0 p1 fin e d) = e" "finished (snapshot q b p0 p1 fin e d) = d"
  by (simp_all add: snapshot_def)

lemma reach_next:
  assumes "tp_reachable n r s" and "tp_step s s1" and "s1 = s'"
  shows "tp_reachable n r s'"
  using assms tp_reachable.step by blast

lemma sample_waited: "tp_reachable 1 1 (snapshot [] 0 Idling Waited True {#x#} {#x#})"
proof -
  note ss = snapshot_simps snapshot_simps [unfolded One_nat_def] snapshot_updates
  have "launched 1 1 = snapshot [] 1 Woken (Work In_client []) False {#} {#}"
    by (auto simp: launched_def snapshot_def)
  then have "tp_reachable 1 1 (snapshot [] 1 Woken (Work In_client []) False {#} {#})"
    by (metis tp_reachable.start)
  then have "tp_reachable 1 1 (snapshot [] 1 (Work Pool_loop []) (Work In_client []) False {#} {#})"
    by (rule reach_next [OF _ tp_step.again [of 0]]) (simp_all add: ss)
  then have "tp_reachable 1 1 (snapshot [] 1 (Miss Pool_loop []) (Work In_client []) False {#} {#})"
    by (rule reach_next [OF _ tp_step.hp_miss [of 0 _ Pool_loop "[]"]]) (simp_all add: ss)
  then have "tp_reachable 1 1 (snapshot [] 1 Leaving (Work In_client []) False {#} {#})"
    by (rule reach_next [OF _ tp_step.miss [of 0 _ Pool_loop "[]"]]) (simp_all add: ss)
  then have "tp_reachable 1 1 (snapshot [] 0 Idling (Work In_client []) False {#} {#})"
    by (rule reach_next [OF _ tp_step.leave [of 0]]) (simp_all add: ss)
  then have "tp_reachable 1 1 (snapshot [x] 0 Idling (Work In_client []) False {#x#} {#})"
    by (rule reach_next [OF _ tp_step.push [of 1 _ In_client "[]" x]]) (simp_all add: ss)
  then have "tp_reachable 1 1 (snapshot [x] 0 Idling (Work In_wait []) False {#x#} {#})"
    by (rule reach_next [OF _ tp_step.wait]) (simp_all add: ss)
  then have "tp_reachable 1 1 (snapshot [x] 0 Idling (Miss In_wait []) False {#x#} {#})"
    by (rule reach_next [OF _ tp_step.hp_miss [of 1 _ In_wait "[]"]]) (simp_all add: ss)
  then have "tp_reachable 1 1 (snapshot [] 0 Idling (Work In_wait [x]) False {#x#} {#})"
    by (rule reach_next [OF _ tp_step.pop [of 1 _ In_wait "[]" x "[]"]]) (simp_all add: ss)
  then have "tp_reachable 1 1 (snapshot [] 0 Idling (Work In_wait []) False {#x#} {#x#})"
    by (rule reach_next [OF _ tp_step.return [of 1 _ In_wait x "[]"]]) (simp_all add: ss)
  then have "tp_reachable 1 1 (snapshot [] 0 Idling (Miss In_wait []) False {#x#} {#x#})"
    by (rule reach_next [OF _ tp_step.hp_miss [of 1 _ In_wait "[]"]]) (simp_all add: ss)
  then have "tp_reachable 1 1 (snapshot [] 0 Idling Checking False {#x#} {#x#})"
    by (rule reach_next [OF _ tp_step.miss [of 1 _ In_wait "[]"]]) (simp_all add: ss)
  then show ?thesis
    by (rule reach_next [OF _ tp_step.check]) (simp_all add: ss)
qed

theorem wait_is_complete_witness:
  "finished (snapshot [] 0 Idling Waited True {#5 :: nat#} {#5#}) = {#5#}"
  using wait_is_complete [OF sample_waited [of "5 :: nat"]]
  by (simp add: snapshot_simps snapshot_updates)

end
