(* ===== verification/ThreadPool.thy ===== *)
theory ThreadPool
  imports Prelude
begin

text \<open>
  The thread pool of \<open>ThreadPool.h\<close>: the hand-shake by which the main thread lets the pool's
  threads run one function and waits for them, through \<open>ready_\<close>, \<open>count_\<close>, a mutex and a
  condition variable. A critical section is one step; a thread that waits on the condition
  variable goes on only when it is notified.
\<close>

section \<open>The threads\<close>

text \<open>
  Where a thread of the pool stands in \<open>main\<close>: at the test of \<open>finish_\<close> (\<open>Top\<close>), before the
  lock (\<open>Entering\<close>), waiting on the condition variable (\<open>Blocked\<close>), outside the lock with its
  number (\<open>Numbered\<close>), in the function (\<open>Running\<close>), in the loop that waits for the others
  (\<open>Spinning\<close>), before its count is given back (\<open>Going\<close>), and returned (\<open>Exited\<close>).
\<close>

datatype spot =
    Top
  | Entering
  | Blocked
  | Numbered nat
  | Running
  | Spinning
  | Going
  | Exited

text \<open>The main thread: in the client, about to notify, in the destructor, joining.\<close>

datatype caller = Client | Notifying bool | Destroying | Joining

text \<open>
  \<open>pool_size\<close> is \<open>threads_.pool_size()\<close>. The last three fields are for the statements: how many threads
  took a number since the last launch, how often the function was run since then, and whether
  there was a launch since the pool was built or resized.
\<close>

record thread_pool =
  pool_size :: nat
  in_use :: nat
  count :: nat
  ready :: bool
  finish :: bool
  spot :: "nat \<Rightarrow> spot"
  caller :: caller
  numbered :: nat
  runs :: nat
  fresh :: bool

abbreviation goes :: "nat \<Rightarrow> spot \<Rightarrow> thread_pool \<Rightarrow> thread_pool" where
  "goes t p s \<equiv> s\<lparr>spot := (spot s)(t := p)\<rparr>"

text \<open>The critical section of \<open>main\<close>, up to the unlock or the wait.\<close>

definition enter :: "nat \<Rightarrow> thread_pool \<Rightarrow> thread_pool" where
  "enter t s =
    (if \<not> ready s \<and> \<not> finish s then goes t Blocked s
     else goes t (Numbered (count s))
       (s\<lparr>count := count s + 1, numbered := numbered s + 1,
          ready := (if count s + 1 = pool_size s then False else ready s)\<rparr>))"

text \<open>\<open>wait\<close> returns in these states.\<close>

definition quiet :: "thread_pool \<Rightarrow> bool" where
  "quiet s \<longleftrightarrow> \<not> (ready s \<or> count s \<noteq> 0)"

definition notify_all :: "thread_pool \<Rightarrow> thread_pool" where
  "notify_all s = s\<lparr>spot := (\<lambda>t. if spot s t = Blocked then Entering else spot s t)\<rparr>"

text \<open>
  \<open>resize\<close>, after its \<open>wait\<close>: \<open>None\<close> is the exception. \<open>cores\<close> is what
  \<open>hardware_concurrency\<close> answers.
\<close>

definition resize :: "int \<Rightarrow> int \<Rightarrow> thread_pool \<Rightarrow> thread_pool option" where
  "resize cores new_nthreads s =
    (let n = (if new_nthreads < 0 then new_nthreads + cores else new_nthreads)
     in if n < 0 then None
        else Some (s\<lparr>pool_size := max (pool_size s) (nat n), in_use := nat n,
          spot := (\<lambda>t. if pool_size s \<le> t \<and> t < nat n then Top else spot s t), fresh := True\<rparr>))"

inductive thread_step :: "thread_pool \<Rightarrow> thread_pool \<Rightarrow> bool" where
  top: "t < pool_size s \<Longrightarrow> spot s t = Top \<Longrightarrow>
    thread_step s (goes t (if finish s then Exited else Entering) s)"
| enter: "t < pool_size s \<Longrightarrow> spot s t = Entering \<Longrightarrow> thread_step s (enter t s)"
| start: "t < pool_size s \<Longrightarrow> spot s t = Numbered i \<Longrightarrow>
    thread_step s (goes t (if \<not> finish s \<and> i < in_use s then Running else Spinning) s)"
| return: "t < pool_size s \<Longrightarrow> spot s t = Running \<Longrightarrow>
    thread_step s (goes t Spinning (s\<lparr>runs := runs s + 1\<rparr>))"
| go: "t < pool_size s \<Longrightarrow> spot s t = Spinning \<Longrightarrow> \<not> (ready s \<and> \<not> finish s) \<Longrightarrow>
    thread_step s (goes t Going s)"
| leave: "t < pool_size s \<Longrightarrow> spot s t = Going \<Longrightarrow>
    thread_step s (goes t Top (s\<lparr>count := count s - 1\<rparr>))"
| launch: "caller s = Client \<Longrightarrow> in_use s \<noteq> 0 \<Longrightarrow> quiet s \<Longrightarrow>
    thread_step s (s\<lparr>ready := True, caller := Notifying False, numbered := 0, runs := 0, fresh := False\<rparr>)"
| notify: "caller s = Notifying b \<Longrightarrow>
    thread_step s ((notify_all s)\<lparr>caller := (if b then Joining else Client)\<rparr>)"
| resize: "caller s = Client \<Longrightarrow> quiet s \<Longrightarrow> resize cores n s = Some s' \<Longrightarrow> thread_step s s'"
| destroy: "caller s = Client \<Longrightarrow> quiet s \<Longrightarrow> thread_step s (s\<lparr>finish := True, caller := Destroying\<rparr>)"
| last_launch: "caller s = Destroying \<Longrightarrow> in_use s \<noteq> 0 \<Longrightarrow> quiet s \<Longrightarrow>
    thread_step s (s\<lparr>ready := True, caller := Notifying True\<rparr>)"
| no_launch: "caller s = Destroying \<Longrightarrow> in_use s = 0 \<Longrightarrow> thread_step s (s\<lparr>caller := Joining\<rparr>)"

text \<open>The pool before its first \<open>resize\<close>, which the constructor calls.\<close>

definition no_threads :: thread_pool where
  "no_threads = \<lparr>pool_size = 0, in_use = 0, count = 0, ready = False, finish = False,
    spot = (\<lambda>_. Top), caller = Client, numbered = 0, runs = 0, fresh = True\<rparr>"

inductive pool_reachable :: "thread_pool \<Rightarrow> bool" where
  built: "pool_reachable no_threads"
| moved: "pool_reachable s \<Longrightarrow> thread_step s s' \<Longrightarrow> pool_reachable s'"

section \<open>The hand-shake\<close>

text \<open>The threads \<open>count_\<close> counts, and those that have the function before or around them.\<close>

fun counted :: "spot \<Rightarrow> nat" where
  "counted (Numbered i) = 1"
| "counted Running = 1"
| "counted Spinning = 1"
| "counted Going = 1"
| "counted _ = 0"

fun to_run :: "nat \<Rightarrow> spot \<Rightarrow> nat" where
  "to_run n (Numbered i) = (if i < n then 1 else 0)"
| "to_run n Running = 1"
| "to_run n _ = 0"

definition pool_inv :: "thread_pool \<Rightarrow> bool" where
  "pool_inv s \<longleftrightarrow> (finish s \<or>
     in_use s \<le> pool_size s \<and>
     count s = (\<Sum>t<pool_size s. counted (spot s t)) \<and>
     (fresh s \<longrightarrow> quiet s \<and> caller s = Client) \<and>
     (ready s \<longrightarrow> count s = numbered s \<and> numbered s < pool_size s \<and> (\<forall>t<pool_size s. spot s t \<noteq> Going)) \<and>
     (\<not> ready s \<longrightarrow> fresh s \<or> numbered s = pool_size s) \<and>
     (\<not> fresh s \<longrightarrow> runs s + (\<Sum>t<pool_size s. to_run (in_use s) (spot s t)) = min (numbered s) (in_use s)))"

text \<open>One thread moves.\<close>

lemma inv_goes:
  assumes inv: "pool_inv s" and nf: "\<not> finish s" and t: "t < pool_size s" and p: "spot s t = p"
    and s': "s' = goes t p' (s\<lparr>count := c, numbered := k, runs := r, ready := b\<rparr>)"
    and c: "c + counted p = count s + counted p'"
    and fr: "fresh s \<Longrightarrow> c = 0 \<and> \<not> b"
    and rd: "b \<Longrightarrow> c = k \<and> k < pool_size s \<and> p' \<noteq> Going \<and> ready s"
    and nr: "\<not> b \<Longrightarrow> fresh s \<or> k = pool_size s"
    and run: "\<not> fresh s \<Longrightarrow> r + to_run (in_use s) p' + min (numbered s) (in_use s) =
      runs s + to_run (in_use s) p + min k (in_use s)"
  shows "pool_inv s'"
proof -
  have sc: "(\<Sum>u<pool_size s. counted (((spot s)(t := p')) u)) + counted p =
      (\<Sum>u<pool_size s. counted (spot s u)) + counted p'"
    using sum_upd [of "{..<pool_size s}" t counted "spot s" p'] p t by simp
  have sr: "(\<Sum>u<pool_size s. to_run (in_use s) (((spot s)(t := p')) u)) + to_run (in_use s) p =
      (\<Sum>u<pool_size s. to_run (in_use s) (spot s u)) + to_run (in_use s) p'"
    using sum_upd [of "{..<pool_size s}" t "to_run (in_use s)" "spot s" p'] p t by simp
  have cs: "count s = (\<Sum>u<pool_size s. counted (spot s u))"
    using inv nf by (simp add: pool_inv_def)
  have "c = (\<Sum>u<pool_size s. counted (((spot s)(t := p')) u))"
    using sc cs c by linarith
  moreover have "\<not> fresh s \<longrightarrow> r + (\<Sum>u<pool_size s. to_run (in_use s) (((spot s)(t := p')) u)) = min k (in_use s)"
    using sr run inv nf by (auto simp: pool_inv_def)
  moreover have "b \<longrightarrow> (\<forall>u<pool_size s. ((spot s)(t := p')) u \<noteq> Going)"
    using rd inv nf by (auto simp: pool_inv_def)
  ultimately show ?thesis
    using inv nf fr rd nr unfolding s' pool_inv_def quiet_def by auto
qed

definition closing :: "thread_pool \<Rightarrow> bool" where
  "closing s \<longleftrightarrow> caller s = Destroying \<or> caller s = Joining \<or> caller s = Notifying True"

lemma finish_stays:
  assumes "thread_step s s'" and "finish s"
  shows "finish s'"
  using assms(1)
  by cases (use assms(2) in \<open>auto simp: enter_def notify_all_def resize_def Let_def split: if_splits\<close>)

lemma closing_step:
  assumes "thread_step s s'" and "closing s \<longrightarrow> finish s"
  shows "closing s' \<longrightarrow> finish s'"
  using assms(1)
  by cases (use assms(2) in
      \<open>auto simp: closing_def enter_def notify_all_def resize_def Let_def split: if_splits\<close>)

lemma counted_zero:
  assumes "pool_inv s" and "\<not> finish s" and "count s = 0" and "t < pool_size s"
  shows "counted (spot s t) = 0"
proof -
  have "(\<Sum>u<pool_size s. counted (spot s u)) = 0"
    using assms(1-3) by (simp add: pool_inv_def)
  then show ?thesis
    using assms(4) by simp
qed

lemma to_run_zero: "counted p = 0 \<Longrightarrow> to_run n p = 0"
  by (cases p) auto

lemma thread_step_inv:
  assumes "thread_step s s'" and inv: "pool_inv s" and cl: "closing s \<longrightarrow> finish s"
  shows "pool_inv s'"
proof (cases "finish s'")
  case True
  then show ?thesis by (simp add: pool_inv_def)
next
  case nf': False
  then have nf: "\<not> finish s"
    using assms(1) finish_stays by blast
  have fr: "fresh s \<Longrightarrow> count s = 0 \<and> \<not> ready s"
    using inv nf by (auto simp: pool_inv_def quiet_def)
  have rd: "ready s \<Longrightarrow> count s = numbered s \<and> numbered s < pool_size s \<and> (\<forall>t<pool_size s. spot s t \<noteq> Going)"
    and nr: "\<not> ready s \<Longrightarrow> fresh s \<or> numbered s = pool_size s"
    using inv nf by (auto simp: pool_inv_def)
  from assms(1) show ?thesis
  proof cases
    case (top t)
    show ?thesis
      by (rule inv_goes [OF inv nf top(2,3), where p' = Entering and c = "count s"
          and k = "numbered s" and r = "runs s" and b = "ready s"])
        (use top nf fr rd nr in auto)
  next
    case (enter t)
    show ?thesis
    proof (cases "ready s")
      case False
      show ?thesis
        by (rule inv_goes [OF inv nf enter(2,3), where p' = Blocked and c = "count s"
          and k = "numbered s" and r = "runs s" and b = "ready s"])
          (use enter nf fr rd nr False in \<open>auto simp: enter_def\<close>)
    next
      case True
      show ?thesis
        by (rule inv_goes [OF inv nf enter(2,3), where p' = "Numbered (count s)" and c = "count s + 1"
          and k = "numbered s + 1" and r = "runs s" and b = "if count s + 1 = pool_size s then False else ready s"])
          (use enter nf fr rd nr True in \<open>auto simp: enter_def min_def split: if_splits\<close>)
    qed
  next
    case (start t i)
    show ?thesis
      by (rule inv_goes [OF inv nf start(2,3), where p' = "if i < in_use s then Running else Spinning" and c = "count s"
          and k = "numbered s" and r = "runs s" and b = "ready s"])
        (use start nf fr rd nr in auto)
  next
    case (return t)
    show ?thesis
      by (rule inv_goes [OF inv nf return(2,3), where p' = Spinning and c = "count s"
          and k = "numbered s" and r = "runs s + 1" and b = "ready s"])
        (use return nf fr rd nr in auto)
  next
    case (go t)
    show ?thesis
      by (rule inv_goes [OF inv nf go(2,3), where p' = Going and c = "count s"
          and k = "numbered s" and r = "runs s" and b = "ready s"])
        (use go nf fr rd nr in auto)
  next
    case (leave t)
    have "\<not> ready s"
      using leave rd by auto
    moreover have "count s \<noteq> 0"
      using leave counted_zero [OF inv nf _ leave(2)] by auto
    ultimately show ?thesis
      by (intro inv_goes [OF inv nf leave(2,3), where p' = Top and c = "count s - 1"
          and k = "numbered s" and r = "runs s" and b = "ready s"])
        (use leave nf fr rd nr in auto)
  next
    case launch
    have "counted (spot s t) = 0" if "t < pool_size s" for t
      using launch that counted_zero [OF inv nf] by (simp add: quiet_def)
    then have "\<forall>t<pool_size s. counted (spot s t) = 0 \<and> to_run (in_use s) (spot s t) = 0 \<and> spot s t \<noteq> Going"
      by (metis counted.simps(4) to_run_zero zero_neq_one)
    then show ?thesis
      using launch inv nf by (auto simp: pool_inv_def quiet_def)
  next
    case (notify b)
    have "counted (if p = Blocked then Entering else p) = counted p"
      "to_run n (if p = Blocked then Entering else p) = to_run n p" for p n
      by auto
    then show ?thesis
      using notify inv nf by (auto simp: pool_inv_def notify_all_def quiet_def)
  next
    case (resize cores n)
    have z: "counted (spot s t) = 0" if "t < pool_size s" for t
      using resize that counted_zero [OF inv nf] by (simp add: quiet_def)
    have "counted (spot s' t) = 0" if "t < pool_size s'" for t
      using resize(3) that z by (auto simp: resize_def Let_def split: if_splits)
    then have "(\<Sum>t<pool_size s'. counted (spot s' t)) = 0"
      by simp
    moreover have "count s' = count s" "ready s' = ready s" "fresh s'" "caller s' = caller s"
      "in_use s' \<le> pool_size s'"
      using resize(3) by (auto simp: resize_def Let_def split: if_splits)
    ultimately show ?thesis
      using resize(1,2) by (auto simp: pool_inv_def quiet_def)
  next
    case destroy
    then show ?thesis
      using nf' by simp
  next
    case last_launch
    then show ?thesis
      using cl nf by (simp add: closing_def)
  next
    case no_launch
    then show ?thesis
      using cl nf by (simp add: closing_def)
  qed
qed

lemma pool_reachable_inv: "pool_reachable s \<Longrightarrow> pool_inv s \<and> (closing s \<longrightarrow> finish s)"
proof (induction rule: pool_reachable.induct)
  case built
  then show ?case
    by (simp add: no_threads_def pool_inv_def quiet_def closing_def)
next
  case (moved s s')
  then show ?case
    using thread_step_inv closing_step by blast
qed


text \<open>A pool that was built for one thread.\<close>

definition one :: "spot \<Rightarrow> nat \<Rightarrow> nat \<Rightarrow> bool \<Rightarrow> bool \<Rightarrow> caller \<Rightarrow> nat \<Rightarrow> nat \<Rightarrow> bool \<Rightarrow> thread_pool" where
  "one p n c rd fin call k r fr = \<lparr>pool_size = 1, in_use = n, count = c, ready = rd, finish = fin,
    spot = (\<lambda>t. if t = 0 then p else Top), caller = call, numbered = k, runs = r, fresh = fr\<rparr>"

lemma one_simps:
  "pool_size (one p n c rd fin call k r fr) = 1" "in_use (one p n c rd fin call k r fr) = n"
  "count (one p n c rd fin call k r fr) = c" "ready (one p n c rd fin call k r fr) = rd"
  "finish (one p n c rd fin call k r fr) = fin" "spot (one p n c rd fin call k r fr) 0 = p"
  "caller (one p n c rd fin call k r fr) = call" "numbered (one p n c rd fin call k r fr) = k"
  "runs (one p n c rd fin call k r fr) = r" "fresh (one p n c rd fin call k r fr) = fr"
  "quiet (one p n c rd fin call k r fr) = (\<not> (rd \<or> c \<noteq> 0))"
  "goes 0 p' (one p n c rd fin call k r fr) = one p' n c rd fin call k r fr"
  "notify_all (one p n c rd fin call k r fr) =
     one (if p = Blocked then Entering else p) n c rd fin call k r fr"
  by (auto simp: one_def quiet_def notify_all_def fun_eq_iff)

lemma one_updates:
  "(one p n c rd fin call k r fr)\<lparr>count := c'\<rparr> = one p n c' rd fin call k r fr"
  "(one p n c rd fin call k r fr)\<lparr>ready := rd'\<rparr> = one p n c rd' fin call k r fr"
  "(one p n c rd fin call k r fr)\<lparr>finish := fin'\<rparr> = one p n c rd fin' call k r fr"
  "(one p n c rd fin call k r fr)\<lparr>caller := call'\<rparr> = one p n c rd fin call' k r fr"
  "(one p n c rd fin call k r fr)\<lparr>numbered := k'\<rparr> = one p n c rd fin call k' r fr"
  "(one p n c rd fin call k r fr)\<lparr>runs := r'\<rparr> = one p n c rd fin call k r' fr"
  "(one p n c rd fin call k r fr)\<lparr>fresh := fr'\<rparr> = one p n c rd fin call k r fr'"
  by (simp_all add: one_def)

lemma pool_next:
  assumes "pool_reachable s" and "thread_step s s1" and "s1 = s'"
  shows "pool_reachable s'"
  using assms pool_reachable.moved by blast

lemma one_blocked: "pool_reachable (one Blocked 1 0 False False Client 0 0 True)"
proof -
  have "pool_reachable no_threads"
    by (rule pool_reachable.built)
  then have "pool_reachable (one Top 1 0 False False Client 0 0 True)"
    by (rule pool_next [OF _ thread_step.resize [of _ 8 1]])
      (auto simp: no_threads_def quiet_def resize_def one_def)
  then have "pool_reachable (one Entering 1 0 False False Client 0 0 True)"
    by (rule pool_next [OF _ thread_step.top [of 0]]) (simp_all add: one_simps)
  then show ?thesis
    by (rule pool_next [OF _ thread_step.enter [of 0]]) (simp_all add: one_simps enter_def)
qed

lemma one_launched: "pool_reachable (one Top 1 0 False False Client 1 1 False)"
proof -
  note ss = one_simps one_updates
  have "pool_reachable (one Blocked 1 0 True False (Notifying False) 0 0 False)"
    by (rule pool_next [OF one_blocked thread_step.launch]) (simp_all add: ss)
  then have "pool_reachable (one Entering 1 0 True False Client 0 0 False)"
    by (rule pool_next [OF _ thread_step.notify [of _ False]]) (simp_all add: ss)
  then have "pool_reachable (one (Numbered 0) 1 1 False False Client 1 0 False)"
    by (rule pool_next [OF _ thread_step.enter [of 0]]) (simp_all add: ss enter_def)
  then have "pool_reachable (one Running 1 1 False False Client 1 0 False)"
    by (rule pool_next [OF _ thread_step.start [of 0 _ 0]]) (simp_all add: ss)
  then have "pool_reachable (one Spinning 1 1 False False Client 1 1 False)"
    by (rule pool_next [OF _ thread_step.return [of 0]]) (simp_all add: ss)
  then have "pool_reachable (one Going 1 1 False False Client 1 1 False)"
    by (rule pool_next [OF _ thread_step.go [of 0]]) (simp_all add: ss)
  then show ?thesis
    by (rule pool_next [OF _ thread_step.leave [of 0]]) (simp_all add: ss)
qed


text \<open>
  A pool whose thread waits and whose number of threads in use was then set to 0 does not
  survive its destructor: nobody notifies the thread, so no thread can take a step and the
  join never ends.
\<close>

theorem destructor_can_hang:
  "\<exists>s. pool_reachable s \<and> caller s = Joining \<and> pool_size s = 1 \<and> spot s 0 \<noteq> Exited \<and>
     (\<forall>s'. \<not> thread_step s s')"
proof -
  note ss = one_simps one_updates
  have "pool_reachable (one Blocked 0 0 False False Client 0 0 True)"
    by (rule pool_next [OF one_blocked thread_step.resize [of _ 8 0]])
      (auto simp: one_def quiet_def resize_def fun_eq_iff)
  then have "pool_reachable (one Blocked 0 0 False True Destroying 0 0 True)"
    by (rule pool_next [OF _ thread_step.destroy]) (simp_all add: ss)
  then have "pool_reachable (one Blocked 0 0 False True Joining 0 0 True)"
    by (rule pool_next [OF _ thread_step.no_launch]) (simp_all add: ss)
  moreover have "\<not> thread_step (one Blocked 0 0 False True Joining 0 0 True) s'" for s'
    by (auto elim!: thread_step.cases simp: ss)
  ultimately show ?thesis
    by (intro exI [of _ "one Blocked 0 0 False True Joining 0 0 True"]) (simp add: ss)
qed

end
