(* ===== verification/Regions.thy ===== *)
theory Regions
  imports Prelude
begin

text \<open>
  The interval tests of \<open>src/src/depspawn.cpp\<close> (\<open>overlaps_intervals\<close>, \<open>contains_intervals\<close>)
  and what they decide about sets of integers or of addresses.
\<close>

section \<open>Tests on the end points\<close>

text \<open>Both templates are used at \<open>size_t\<close> (addresses) and at \<open>int\<close> (array ranges).\<close>

definition overlaps_intervals :: "'a::linorder \<Rightarrow> 'a \<Rightarrow> 'a \<Rightarrow> 'a \<Rightarrow> bool" where
  "overlaps_intervals s1 e1 s2 e2 = (if s1 \<le> s2 then s2 \<le> e1 else s1 \<le> e2)"

definition contains_intervals :: "'a::linorder \<Rightarrow> 'a \<Rightarrow> 'a \<Rightarrow> 'a \<Rightarrow> bool" where
  "contains_intervals s1 e1 s2 e2 = (s1 \<le> s2 \<and> e2 \<le> e1)"

section \<open>What they mean\<close>

lemma overlaps_intervals_iff [region_simps]:
  "s1 \<le> e1 \<Longrightarrow> s2 \<le> e2 \<Longrightarrow>
     overlaps_intervals s1 e1 s2 e2 \<longleftrightarrow> {s1..e1} \<inter> {s2..e2} \<noteq> {}"
  by (auto simp: overlaps_intervals_def)

lemma overlaps_intervals_commute:
  "s1 \<le> e1 \<Longrightarrow> s2 \<le> e2 \<Longrightarrow>
     overlaps_intervals s1 e1 s2 e2 = overlaps_intervals s2 e2 s1 e1"
  by (auto simp: overlaps_intervals_def)

lemma contains_intervals_iff [region_simps]:
  "s2 \<le> e2 \<Longrightarrow> contains_intervals s1 e1 s2 e2 \<longleftrightarrow> {s2..e2} \<subseteq> {s1..e1}"
  by (auto simp: contains_intervals_def)

lemma contains_intervals_trans:
  "contains_intervals s1 e1 s2 e2 \<Longrightarrow> contains_intervals s2 e2 s3 e3 \<Longrightarrow>
     contains_intervals s1 e1 s3 e3"
  by (auto simp: contains_intervals_def)

end
