(* ===== verification/ArgInfo.thy ===== *)
theory ArgInfo
  imports Regions "HOL-Library.Multiset"
begin

text \<open>
  The arguments of a task: \<open>struct arg_info\<close> of \<open>src/include/depspawn/depspawn.h\<close>, its tests
  (\<open>overlaps\<close>, \<open>contains\<close>, \<open>overlap_array\<close>, \<open>is_contained_array\<close>) and the construction of the
  ordered argument list (\<open>insert_in_arglist\<close>, \<open>solve_overlap\<close>) of \<open>src/src/depspawn.cpp\<close>.
  A linked list of \<open>arg_info\<close> is a list; a \<open>size_t\<close> is a 64-bit word; an array index is an
  \<open>int\<close>, which the code only compares. The locations an argument covers are its
  \<open>footprint\<close>; an ordered list is right when it covers the same locations, with the same
  access rights, as the arguments it was built from.
\<close>

section \<open>Data\<close>

record arg_info =
  addr :: u64
  asize :: u64
  array_range :: "(int \<times> int) list"
  wr :: bool
  rank :: nat

definition is_array :: "arg_info \<Rightarrow> bool" where
  "is_array a = (rank a \<noteq> 0)"

section \<open>Tests between two arguments\<close>

definition overlaps :: "arg_info \<Rightarrow> arg_info \<Rightarrow> bool" where
  "overlaps a b =
     overlaps_intervals (addr a) (addr a + asize a - 1) (addr b) (addr b + asize b - 1)"

definition contains :: "arg_info \<Rightarrow> arg_info \<Rightarrow> bool" where
  "contains a b =
     contains_intervals (addr a) (addr a + asize a) (addr b) (addr b + asize b)"

text \<open>
  The loop \<open>for(i = 0; i < lim; i++)\<close> over the dimensions; it is left at the first dimension
  whose test fails. Reading \<open>array_range\<close> past its end is \<open>None\<close>.
\<close>

fun all_dims ::
  "(int \<Rightarrow> int \<Rightarrow> int \<Rightarrow> int \<Rightarrow> bool) \<Rightarrow> nat \<Rightarrow> (int \<times> int) list \<Rightarrow> (int \<times> int) list \<Rightarrow> bool option"
where
  "all_dims test 0 rs ss = Some True"
| "all_dims test (Suc n) ((a, b) # rs) ((c, d) # ss) =
     (if test a b c d then all_dims test n rs ss else Some False)"
| "all_dims test (Suc n) rs ss = None"

text \<open>
  \<open>overlap_array\<close> and \<open>is_contained_array\<close> walk the list \<open>other\<close> while it stays on the same
  array. \<open>None\<close> is the failure of \<open>assert(lim == other->rank)\<close>.
\<close>

fun overlap_array :: "arg_info \<Rightarrow> arg_info list \<Rightarrow> bool option" where
  "overlap_array w [] = Some False"
| "overlap_array w (p # ps) =
     do {
       hit \<leftarrow> (if wr w \<or> wr p
               then (if rank w = rank p
                     then all_dims overlaps_intervals (rank w) (array_range w) (array_range p)
                     else None)
               else Some False);
       if hit then Some True
       else (case ps of
               [] \<Rightarrow> Some False
             | q # _ \<Rightarrow> if addr w = addr q then overlap_array w ps else Some False)
     }"

fun is_contained_array :: "arg_info \<Rightarrow> arg_info list \<Rightarrow> bool option" where
  "is_contained_array w [] = Some False"
| "is_contained_array w (p # ps) =
     do {
       hit \<leftarrow> (if rank w = rank p
               then all_dims (\<lambda>a b c d. contains_intervals c d a b)
                      (rank w) (array_range w) (array_range p)
               else None);
       if hit then Some True
       else (case ps of
               [] \<Rightarrow> Some False
             | q # _ \<Rightarrow> if addr w = addr q then is_contained_array w ps else Some False)
     }"

section \<open>Building the ordered argument list\<close>

text \<open>
  \<open>solve_overlap\<close> combines the argument \<open>n\<close> (\<open>this\<close>) with \<open>other\<close>, which starts at the same
  address. Either \<open>n\<close> is freed and \<open>other\<close> updated (\<open>Merged\<close>), or \<open>other\<close> keeps the common
  prefix and the remainder \<open>n\<close> has to be inserted again in the list that starts at \<open>other\<close>
  (\<open>Split other n\<close>).
\<close>

datatype overlap_result = Merged arg_info | Split arg_info arg_info

definition solve_overlap :: "arg_info \<Rightarrow> arg_info \<Rightarrow> overlap_result" where
  "solve_overlap n other =
     (let orwr = (wr n \<or> wr other) in
      if asize n = asize other then Merged (other\<lparr>wr := orwr\<rparr>)
      else if asize n < asize other then
        (if orwr = wr other then Merged other
         else Split (other\<lparr>asize := asize n, wr := orwr\<rparr>)
                (n\<lparr>addr := addr n + asize n, asize := asize other - asize n, wr := wr other\<rparr>))
      else
        (if orwr = wr n then Merged (other\<lparr>wr := orwr, asize := asize n\<rparr>)
         else Split other (n\<lparr>addr := addr n + asize other, asize := asize n - asize other\<rparr>)))"

text \<open>
  The loop of \<open>insert_in_arglist\<close> from \<open>prev\<close> on, \<open>ps\<close> being the list after \<open>prev\<close>. The
  recursive insertion of a remainder goes through a local copy of the pointer \<open>other\<close>, so a
  remainder that would precede \<open>other\<close> never gets into the caller's list. A zero-sized
  region splits for ever, hence the \<open>option\<close>.
\<close>

partial_function (option) insert_after ::
  "arg_info \<Rightarrow> arg_info \<Rightarrow> arg_info list \<Rightarrow> arg_info list option"
where
  [code]: "insert_after n prev ps =
     (if (case ps of [] \<Rightarrow> True | p # _ \<Rightarrow> addr n < addr p) then
        (if \<not> is_array n \<and> addr n = addr prev then
           (case solve_overlap n prev of
              Merged other \<Rightarrow> Some (other # ps)
            | Split other n' \<Rightarrow>
                (if addr n' < addr other then Some (other # ps) else insert_after n' other ps))
         else Some (prev # n # ps))
      else do { r \<leftarrow> insert_after n (hd ps) (tl ps); Some (prev # r) })"

definition insert_in_arglist :: "arg_info \<Rightarrow> arg_info list \<Rightarrow> arg_info list option" where
  "insert_in_arglist n args =
     (case args of
        [] \<Rightarrow> Some [n]
      | a # as \<Rightarrow> if addr n < addr a then Some (n # args) else insert_after n a as)"

section \<open>The locations an argument covers\<close>

datatype location = Byte nat | Cell u64 "int list"

definition footprint :: "arg_info \<Rightarrow> location set" where
  "footprint a =
     (if is_array a
      then Cell (addr a) ` {ix. list_all2 (\<lambda>(l, h) i. l \<le> i \<and> i \<le> h) (array_range a) ix}
      else Byte ` {unat (addr a) ..< unat (addr a) + unat (asize a)})"

definition accesses :: "arg_info list \<Rightarrow> location set" where
  "accesses as = (\<Union>a \<in> set as. footprint a)"

definition writes :: "arg_info list \<Rightarrow> location set" where
  "writes as = (\<Union>a \<in> set as. if wr a then footprint a else {})"

text \<open>
  A region is non-empty and ends before the last address; an array range is non-empty in each
  of its dimensions.
\<close>

definition wf_arg :: "arg_info \<Rightarrow> bool" where
  "wf_arg a =
     (if is_array a
      then length (array_range a) = rank a \<and> list_all (\<lambda>(l, h). l \<le> h) (array_range a)
      else 0 < asize a \<and> unat (addr a) + unat (asize a) < 2 ^ 64)"

text \<open>
  The order of the list: by address, and only views of one array may share an address. No
  scalar argument covers the base address of an array argument: memory regions and arrays
  are tracked apart.
\<close>

definition arg_before :: "arg_info \<Rightarrow> arg_info \<Rightarrow> bool" where
  "arg_before a b \<longleftrightarrow>
     addr a < addr b \<or> (addr a = addr b \<and> is_array a \<and> is_array b)"

definition kinds_apart :: "arg_info set \<Rightarrow> bool" where
  "kinds_apart A \<longleftrightarrow> (\<forall>b \<in> A. is_array b \<longrightarrow> (\<forall>a \<in> A. Byte (unat (addr b)) \<notin> footprint a))"

definition wf_arglist :: "arg_info list \<Rightarrow> bool" where
  "wf_arglist as \<longleftrightarrow>
     list_all wf_arg as \<and> sorted_wrt arg_before as \<and> kinds_apart (set as)"


section \<open>The tests decide questions about footprints\<close>

lemma Byte_image_Int: "Byte ` A \<inter> Byte ` B = {} \<longleftrightarrow> A \<inter> B = {}"
  by auto

lemma Byte_image_subset: "Byte ` A \<subseteq> Byte ` B \<longleftrightarrow> A \<subseteq> B"
  by auto

lemma footprint_scalar [simp]:
  "\<not> is_array a \<Longrightarrow>
     footprint a = Byte ` {unat (addr a) ..< unat (addr a) + unat (asize a)}"
  by (simp add: footprint_def)

lemma Byte_in_scalar:
  "\<not> is_array a \<Longrightarrow>
     Byte k \<in> footprint a \<longleftrightarrow> unat (addr a) \<le> k \<and> k < unat (addr a) + unat (asize a)"
  by auto

lemma Byte_not_in_array [simp]: "is_array a \<Longrightarrow> Byte k \<notin> footprint a"
  by (auto simp: footprint_def)

lemma wf_scalarD:
  assumes "wf_arg a" and "\<not> is_array a"
  shows "0 < asize a" and "0 < unat (asize a)" and "unat (addr a) + unat (asize a) < 2 ^ 64"
  using assms by (auto simp: wf_arg_def unat_gt_0)

lemma base_in_footprint:
  "wf_arg a \<Longrightarrow> \<not> is_array a \<Longrightarrow> Byte (unat (addr a)) \<in> footprint a"
  using wf_scalarD(2) by (simp add: Byte_in_scalar)

lemma overlaps_scalar [region_simps]:
  assumes "wf_arg a" "wf_arg b" "\<not> is_array a" "\<not> is_array b"
  shows "overlaps a b \<longleftrightarrow> footprint a \<inter> footprint b \<noteq> {}"
proof -
  note A = wf_scalarD [OF assms(1) assms(3)]
  note B = wf_scalarD [OF assms(2) assms(4)]
  note la = unat_last_byte [OF A(1) A(3)] and lb = unat_last_byte [OF B(1) B(3)]
  have "overlaps a b \<longleftrightarrow>
      (if unat (addr a) \<le> unat (addr b)
       then unat (addr b) < unat (addr a) + unat (asize a)
       else unat (addr a) < unat (addr b) + unat (asize b))"
    using A(2) B(2) by (auto simp: overlaps_def overlaps_intervals_def word_le_nat_alt la lb)
  also have "\<dots> \<longleftrightarrow> {unat (addr a) ..< unat (addr a) + unat (asize a)} \<inter>
                     {unat (addr b) ..< unat (addr b) + unat (asize b)} \<noteq> {}"
    using A(2) B(2) by (auto simp: disjoint_iff)
  finally show ?thesis
    using assms(3,4) by (simp add: Byte_image_Int)
qed

lemma contains_scalar [region_simps]:
  assumes "wf_arg a" "wf_arg b" "\<not> is_array a" "\<not> is_array b"
  shows "contains a b \<longleftrightarrow> footprint b \<subseteq> footprint a"
proof -
  note A = wf_scalarD [OF assms(1) assms(3)]
  note B = wf_scalarD [OF assms(2) assms(4)]
  have "contains a b \<longleftrightarrow>
      unat (addr a) \<le> unat (addr b) \<and>
      unat (addr b) + unat (asize b) \<le> unat (addr a) + unat (asize a)"
    using A(3) B(3)
    by (simp add: contains_def contains_intervals_def word_le_nat_alt unat_add_no_wrap)
  also have "\<dots> \<longleftrightarrow> {unat (addr b) ..< unat (addr b) + unat (asize b)} \<subseteq>
                     {unat (addr a) ..< unat (addr a) + unat (asize a)}"
    using B(2) by auto
  finally show ?thesis
    using assms(3,4) by (simp add: Byte_image_subset)
qed

text \<open>Array regions: the loop over the dimensions compares the boxes of indices.\<close>

abbreviation in_box :: "(int \<times> int) list \<Rightarrow> int list \<Rightarrow> bool" where
  "in_box \<equiv> list_all2 (\<lambda>(l, h) i. l \<le> i \<and> i \<le> h)"

lemma all_dims_total:
  "length rs = n \<Longrightarrow> length ss = n \<Longrightarrow>
     all_dims test n rs ss =
       Some (list_all2 (\<lambda>(a, b) (c, d). test a b c d) rs ss)"
  by (induction test n rs ss rule: all_dims.induct) auto

lemma in_box_nonempty:
  "list_all (\<lambda>(l, h). l \<le> h) rs \<Longrightarrow> in_box rs (map fst rs)"
  by (induction rs) auto

lemma list_all2_overlap_iff:
  assumes "length rs = length ss"
    and "list_all (\<lambda>(l, h). l \<le> h) rs" and "list_all (\<lambda>(l, h). l \<le> h) ss"
  shows "list_all2 (\<lambda>(a, b) (c, d). overlaps_intervals a b c d) rs ss \<longleftrightarrow>
         (\<exists>ix. in_box rs ix \<and> in_box ss ix)"
  using assms
proof (induction rs ss rule: list_induct2)
  case Nil
  then show ?case by simp
next
  case (Cons r rs s ss)
  obtain a b c d where rs: "r = (a, b)" "s = (c, d)"
    by (metis surj_pair)
  have "(\<exists>ix. in_box (r # rs) ix \<and> in_box (s # ss) ix) \<longleftrightarrow>
        (\<exists>i. a \<le> i \<and> i \<le> b \<and> c \<le> i \<and> i \<le> d) \<and> (\<exists>ix. in_box rs ix \<and> in_box ss ix)"
  proof
    assume "\<exists>ix. in_box (r # rs) ix \<and> in_box (s # ss) ix"
    then show "(\<exists>i. a \<le> i \<and> i \<le> b \<and> c \<le> i \<and> i \<le> d) \<and> (\<exists>ix. in_box rs ix \<and> in_box ss ix)"
      by (auto simp: rs list_all2_Cons1)
  next
    assume "(\<exists>i. a \<le> i \<and> i \<le> b \<and> c \<le> i \<and> i \<le> d) \<and> (\<exists>ix. in_box rs ix \<and> in_box ss ix)"
    then obtain i ix where "a \<le> i" "i \<le> b" "c \<le> i" "i \<le> d" "in_box rs ix" "in_box ss ix"
      by blast
    then have "in_box (r # rs) (i # ix) \<and> in_box (s # ss) (i # ix)"
      by (simp add: rs)
    then show "\<exists>ix. in_box (r # rs) ix \<and> in_box (s # ss) ix" ..
  qed
  moreover have "overlaps_intervals a b c d \<longleftrightarrow> (\<exists>i. a \<le> i \<and> i \<le> b \<and> c \<le> i \<and> i \<le> d)"
    using Cons.prems by (auto simp: overlaps_intervals_def rs)
  ultimately show ?case
    using Cons.IH Cons.prems by (simp add: rs)
qed

lemma list_all2_contains_iff:
  assumes "length rs = length ss"
    and "list_all (\<lambda>(l, h). l \<le> h) rs"
  shows "list_all2 (\<lambda>(a, b) (c, d). contains_intervals c d a b) rs ss \<longleftrightarrow>
         (\<forall>ix. in_box rs ix \<longrightarrow> in_box ss ix)"
  using assms
proof (induction rs ss rule: list_induct2)
  case Nil
  then show ?case by simp
next
  case (Cons r rs s ss)
  obtain a b c d where rs: "r = (a, b)" "s = (c, d)"
    by (metis surj_pair)
  have ab: "a \<le> b" and ne: "in_box rs (map fst rs)"
    using Cons.prems by (auto simp: rs intro: in_box_nonempty)
  have "(\<forall>ix. in_box (r # rs) ix \<longrightarrow> in_box (s # ss) ix) \<longleftrightarrow>
        (\<forall>i. a \<le> i \<and> i \<le> b \<longrightarrow> c \<le> i \<and> i \<le> d) \<and> (\<forall>ix. in_box rs ix \<longrightarrow> in_box ss ix)"
  proof
    assume all: "\<forall>ix. in_box (r # rs) ix \<longrightarrow> in_box (s # ss) ix"
    have 1: "c \<le> i \<and> i \<le> d \<and> in_box ss ix" if "a \<le> i" "i \<le> b" "in_box rs ix" for i ix
      using all [rule_format, of "i # ix"] that by (simp add: rs)
    show "(\<forall>i. a \<le> i \<and> i \<le> b \<longrightarrow> c \<le> i \<and> i \<le> d) \<and> (\<forall>ix. in_box rs ix \<longrightarrow> in_box ss ix)"
      using 1 [OF _ _ ne] 1 [of a] ab by blast
  next
    assume "(\<forall>i. a \<le> i \<and> i \<le> b \<longrightarrow> c \<le> i \<and> i \<le> d) \<and> (\<forall>ix. in_box rs ix \<longrightarrow> in_box ss ix)"
    then show "\<forall>ix. in_box (r # rs) ix \<longrightarrow> in_box (s # ss) ix"
      by (auto simp: rs list_all2_Cons1)
  qed
  moreover have "contains_intervals c d a b \<longleftrightarrow> (\<forall>i. a \<le> i \<and> i \<le> b \<longrightarrow> c \<le> i \<and> i \<le> d)"
    using ab by (auto simp: contains_intervals_def)
  ultimately show ?case
    using Cons.IH Cons.prems by (simp add: rs)
qed


lemma footprint_array [simp]:
  "is_array a \<Longrightarrow> footprint a = Cell (addr a) ` {ix. in_box (array_range a) ix}"
  by (simp add: footprint_def)

lemma wf_arrayD:
  assumes "wf_arg a" and "is_array a"
  shows "length (array_range a) = rank a" and "list_all (\<lambda>(l, h). l \<le> h) (array_range a)"
  using assms by (auto simp: wf_arg_def)

lemma footprint_nonempty: "wf_arg a \<Longrightarrow> footprint a \<noteq> {}"
proof (cases "is_array a")
  case True
  then show "wf_arg a \<Longrightarrow> footprint a \<noteq> {}"
    using in_box_nonempty [OF wf_arrayD(2), of a] by auto
next
  case False
  then show "wf_arg a \<Longrightarrow> footprint a \<noteq> {}"
    using base_in_footprint [of a] by auto
qed

lemma footprint_meet_array:
  assumes "footprint a \<inter> footprint b \<noteq> {}" and "is_array a"
  shows "is_array b \<and> addr b = addr a"
  using assms by (cases "is_array b") auto

lemma overlap_dims [region_simps]:
  assumes "wf_arg w" "wf_arg p" "is_array w" "rank w = rank p" "addr w = addr p"
  shows "all_dims overlaps_intervals (rank w) (array_range w) (array_range p) =
         Some (footprint w \<inter> footprint p \<noteq> {})"
proof -
  have p: "is_array p" using assms(3,4) by (simp add: is_array_def)
  note W = wf_arrayD [OF assms(1,3)] and P = wf_arrayD [OF assms(2) p]
  have "all_dims overlaps_intervals (rank w) (array_range w) (array_range p) =
      Some (\<exists>ix. in_box (array_range w) ix \<and> in_box (array_range p) ix)"
    using W P assms(4) by (simp add: all_dims_total list_all2_overlap_iff)
  also have "(\<exists>ix. in_box (array_range w) ix \<and> in_box (array_range p) ix) =
      (footprint w \<inter> footprint p \<noteq> {})"
    using assms(3,5) p by auto
  finally show ?thesis .
qed

lemma contains_dims [region_simps]:
  assumes "wf_arg w" "wf_arg p" "is_array w" "rank w = rank p" "addr w = addr p"
  shows "all_dims (\<lambda>a b c d. contains_intervals c d a b) (rank w) (array_range w) (array_range p) =
         Some (footprint w \<subseteq> footprint p)"
proof -
  have p: "is_array p" using assms(3,4) by (simp add: is_array_def)
  note W = wf_arrayD [OF assms(1,3)] and P = wf_arrayD [OF assms(2) p]
  have "all_dims (\<lambda>a b c d. contains_intervals c d a b) (rank w) (array_range w) (array_range p) =
      Some (\<forall>ix. in_box (array_range w) ix \<longrightarrow> in_box (array_range p) ix)"
    using W P assms(4) by (simp add: all_dims_total list_all2_contains_iff)
  also have "(\<forall>ix. in_box (array_range w) ix \<longrightarrow> in_box (array_range p) ix) =
      (footprint w \<subseteq> footprint p)"
    using assms(3,5) p by auto
  finally show ?thesis .
qed

text \<open>All views of one array have its number of dimensions: what the assertions check.\<close>

definition same_ranks :: "arg_info \<Rightarrow> arg_info list \<Rightarrow> bool" where
  "same_ranks w ps \<longleftrightarrow> (\<forall>q \<in> set ps. addr q = addr w \<longrightarrow> rank q = rank w)"

lemma same_ranks_Cons [simp]:
  "same_ranks w (p # ps) \<longleftrightarrow> (addr p = addr w \<longrightarrow> rank p = rank w) \<and> same_ranks w ps"
  by (auto simp: same_ranks_def)

lemma arg_before_le: "arg_before a b \<Longrightarrow> addr a \<le> addr b"
  by (auto simp: arg_before_def)

lemma no_meet_later:
  assumes "is_array w" and "sorted_wrt arg_before (q # qs)" and "addr w \<noteq> addr q"
    and "addr w \<le> addr q" and "r \<in> set (q # qs)"
  shows "footprint w \<inter> footprint r = {}"
proof -
  have "addr q \<le> addr r"
    using assms(2,5) by (auto dest: arg_before_le)
  with assms(3,4) have "addr r \<noteq> addr w" by auto
  with assms(1) show ?thesis
    using footprint_meet_array [of w r] by blast
qed

lemma overlap_array_iff:
  assumes "is_array w" "wf_arg w" "list_all wf_arg (p # ps)"
    and "sorted_wrt arg_before (p # ps)" "same_ranks w (p # ps)" "addr p = addr w"
  shows "overlap_array w (p # ps) =
         Some (\<exists>q \<in> set (p # ps). (wr w \<or> wr q) \<and> footprint w \<inter> footprint q \<noteq> {})"
  using assms(3-6)
proof (induction ps arbitrary: p)
  case Nil
  then show ?case
    using assms(1,2) by (auto simp: overlap_dims)
next
  case (Cons q qs)
  have hit: "all_dims overlaps_intervals (rank w) (array_range w) (array_range p) =
      Some (footprint w \<inter> footprint p \<noteq> {})" "rank w = rank p"
    using Cons.prems assms(1,2) by (auto simp: overlap_dims)
  show ?case
  proof (cases "addr w = addr q")
    case True
    then have "overlap_array w (q # qs) =
        Some (\<exists>r \<in> set (q # qs). (wr w \<or> wr r) \<and> footprint w \<inter> footprint r \<noteq> {})"
      using Cons.prems by (intro Cons.IH) auto
    with True hit show ?thesis
      by (auto simp: overlap_array.simps(2) [of w p] simp del: overlap_array.simps footprint_array footprint_scalar)
  next
    case False
    have "addr w \<le> addr q" using Cons.prems by (auto dest: arg_before_le)
    then have "\<And>r. r \<in> set (q # qs) \<Longrightarrow> footprint w \<inter> footprint r = {}"
      using no_meet_later [OF assms(1) _ False] Cons.prems by auto
    with False hit show ?thesis
      by (auto simp: overlap_array.simps(2) [of w p] simp del: overlap_array.simps footprint_array footprint_scalar)
  qed
qed

lemma is_contained_array_iff:
  assumes "is_array w" "wf_arg w" "list_all wf_arg (p # ps)"
    and "sorted_wrt arg_before (p # ps)" "same_ranks w (p # ps)" "addr p = addr w"
  shows "is_contained_array w (p # ps) =
         Some (\<exists>q \<in> set (p # ps). footprint w \<subseteq> footprint q)"
  using assms(3-6)
proof (induction ps arbitrary: p)
  case Nil
  then show ?case
    using assms(1,2) by (auto simp: contains_dims)
next
  case (Cons q qs)
  have hit: "all_dims (\<lambda>a b c d. contains_intervals c d a b)
      (rank w) (array_range w) (array_range p) = Some (footprint w \<subseteq> footprint p)" "rank w = rank p"
    using Cons.prems assms(1,2) by (auto simp: contains_dims)
  show ?case
  proof (cases "addr w = addr q")
    case True
    then have "is_contained_array w (q # qs) = Some (\<exists>r \<in> set (q # qs). footprint w \<subseteq> footprint r)"
      using Cons.prems by (intro Cons.IH) auto
    with True hit show ?thesis
      by (auto simp: is_contained_array.simps(2) [of w p] simp del: is_contained_array.simps footprint_array footprint_scalar)
  next
    case False
    have "addr w \<le> addr q" using Cons.prems by (auto dest: arg_before_le)
    then have "\<And>r. r \<in> set (q # qs) \<Longrightarrow> footprint w \<inter> footprint r = {}"
      using no_meet_later [OF assms(1) _ False] Cons.prems by auto
    then have "\<And>r. r \<in> set (q # qs) \<Longrightarrow> \<not> footprint w \<subseteq> footprint r"
      using footprint_nonempty [OF assms(2)] by blast
    with False hit show ?thesis
      by (auto simp: is_contained_array.simps(2) [of w p] simp del: is_contained_array.simps footprint_array footprint_scalar)
  qed
qed


section \<open>The ordered list covers what was inserted\<close>

abbreviation write_print :: "arg_info \<Rightarrow> location set" where
  "write_print a \<equiv> (if wr a then footprint a else {})"

lemma accesses_simps [simp]:
  "accesses [] = {}" "accesses (a # as) = footprint a \<union> accesses as"
  by (auto simp: accesses_def)

lemma writes_simps [simp]:
  "writes [] = {}" "writes (a # as) = write_print a \<union> writes as"
  by (auto simp: writes_def)

lemma writes_subset_accesses: "writes as \<subseteq> accesses as"
  by (induction as) auto

definition array_args :: "arg_info list \<Rightarrow> arg_info set" where
  "array_args as = {a \<in> set as. is_array a}"

lemma array_args_simps [simp]:
  "array_args [] = {}"
  "array_args (a # as) = (if is_array a then insert a (array_args as) else array_args as)"
  by (auto simp: array_args_def)

lemma kinds_apart_iff:
  "kinds_apart (set as) \<longleftrightarrow> (\<forall>b \<in> array_args as. Byte (unat (addr b)) \<notin> accesses as)"
  by (auto simp: kinds_apart_def array_args_def accesses_def)

lemma arg_before_trans: "arg_before a b \<Longrightarrow> arg_before b c \<Longrightarrow> arg_before a c"
  by (auto simp: arg_before_def)

text \<open>What an insertion has to achieve: \<open>as'\<close> is \<open>as\<close> with \<open>n\<close> added.\<close>

definition inserted :: "arg_info \<Rightarrow> arg_info list \<Rightarrow> arg_info list \<Rightarrow> bool" where
  "inserted n as as' \<longleftrightarrow>
     list_all wf_arg as' \<and> sorted_wrt arg_before as' \<and> length as' \<le> Suc (length as) \<and>
     accesses as' = accesses as \<union> footprint n \<and>
     writes as' = writes as \<union> write_print n \<and>
     array_args as' = array_args (n # as)"

lemma inserted_wf:
  assumes "inserted n as as'" and "kinds_apart (set (n # as))"
  shows "wf_arglist as'"
proof -
  have "accesses as' = accesses (n # as)" "array_args as' = array_args (n # as)"
    using assms(1) by (auto simp: inserted_def)
  then have "kinds_apart (set as')"
    using assms(2) by (simp only: kinds_apart_iff)
  then show ?thesis
    using assms(1) by (simp add: wf_arglist_def inserted_def)
qed

text \<open>Two non-array arguments at one address: the three cases of the sizes.\<close>

lemma Byte_split:
  assumes "j \<le> k"
  shows "Byte ` {i ..< i + k} = Byte ` {i ..< i + j} \<union> Byte ` {i + j ..< i + k}"
  using assms by (auto simp: image_iff)

lemma region_prefix:
  assumes "a < (b :: u64)" "unat base + unat b < 2 ^ 64"
  shows "unat (base + a) = unat base + unat a" "unat (b - a) = unat b - unat a"
    "unat (base + a) + unat (b - a) = unat base + unat b" "0 < b - a"
proof -
  have lt: "unat a < unat b" using assms(1) by (simp add: word_less_nat_alt)
  then show 1: "unat (base + a) = unat base + unat a"
    using assms(2) by (intro unat_add_no_wrap) simp
  show 2: "unat (b - a) = unat b - unat a"
    using assms(1) by (intro unat_sub_le) simp
  show "unat (base + a) + unat (b - a) = unat base + unat b"
    using lt 1 2 by linarith
  show "0 < b - a"
    using lt 2 by (simp add: word_less_nat_alt)
qed

lemma split_region:
  assumes "wf_arg a" "\<not> is_array a" "0 < k" "k < asize a"
    and "hd' = a\<lparr>asize := k, wr := x\<rparr>"
    and "\<not> is_array tl'" "addr tl' = addr a + k" "asize tl' = asize a - k"
  shows "wf_arg hd'" "\<not> is_array hd'" "wf_arg tl'" "addr hd' < addr tl'"
    "footprint a = footprint hd' \<union> footprint tl'"
proof -
  note A = wf_scalarD [OF assms(1,2)]
  note R = region_prefix [OF assms(4) A(3)]
  have lt: "unat k < unat (asize a)" using assms(4) by (simp add: word_less_nat_alt)
  have k: "0 < unat k" using assms(3) by (simp add: unat_gt_0)
  show h: "\<not> is_array hd'" using assms(2,5) by (simp add: is_array_def)
  show "wf_arg hd'"
    using h assms(3,5) A(3) lt by (simp add: wf_arg_def)
  show "wf_arg tl'"
    using assms(6-8) R A(3) by (simp add: wf_arg_def)
  show "addr hd' < addr tl'"
    using assms(5,7) R(1) k by (simp add: word_less_nat_alt)
  have "footprint hd' = Byte ` {unat (addr a) ..< unat (addr a) + unat k}"
    using h assms(5) by simp
  moreover have "footprint tl' = Byte ` {unat (addr a) + unat k ..< unat (addr a) + unat (asize a)}"
    using assms(6-8) R by simp
  ultimately show "footprint a = footprint hd' \<union> footprint tl'"
    using lt assms(2) by (simp add: Byte_split [of "unat k" "unat (asize a)" "unat (addr a)"])
qed

lemma footprint_prefix:
  assumes "\<not> is_array a" "\<not> is_array b" "addr a = addr b" "asize a \<le> asize b"
  shows "footprint a \<subseteq> footprint b"
  using assms by (auto simp: word_le_nat_alt)

lemma solve_overlap_Merged:
  assumes "wf_arg n" "wf_arg other" "\<not> is_array n" "\<not> is_array other" "addr n = addr other"
    and "solve_overlap n other = Merged m"
  shows "wf_arg m \<and> \<not> is_array m \<and> addr m = addr other \<and>
         footprint m = footprint other \<union> footprint n \<and>
         write_print m = write_print other \<union> write_print n"
proof -
  have m: "wf_arg m \<and> \<not> is_array m \<and> addr m = addr other"
    using assms by (auto simp: solve_overlap_def Let_def wf_arg_def is_array_def
        split: if_splits)
  note no = footprint_prefix [OF assms(3,4,5)] footprint_prefix [OF assms(4,3) assms(5) [symmetric]]
  consider "asize n = asize other" "m = other\<lparr>wr := wr n \<or> wr other\<rparr>"
    | "asize n < asize other" "m = other" "wr n \<longrightarrow> wr other"
    | "asize other < asize n" "m = other\<lparr>wr := wr n, asize := asize n\<rparr>" "wr other \<longrightarrow> wr n"
    using assms(6) by (fastforce simp: solve_overlap_def Let_def split: if_splits)
  then have "footprint m = footprint other \<union> footprint n \<and>
             write_print m = write_print other \<union> write_print n"
  proof cases
    case 1
    then have "footprint m = footprint other" "footprint n = footprint other" "wr m = (wr n \<or> wr other)"
      using m assms(3-5) by simp_all
    then show ?thesis by simp
  next
    case 2
    moreover have "footprint n \<subseteq> footprint other"
      using 2(1) no(1) by simp
    ultimately show ?thesis by auto
  next
    case 3
    then have "footprint m = footprint n" "wr m = wr n"
      using m assms(3-5) by simp_all
    moreover have "footprint other \<subseteq> footprint n"
      using 3(1) no(2) by simp
    ultimately show ?thesis
      using 3(3) by auto
  qed
  with m show ?thesis by blast
qed

lemma solve_overlap_Split:
  assumes "wf_arg n" "wf_arg other" "\<not> is_array n" "\<not> is_array other" "addr n = addr other"
    and "solve_overlap n other = Split m n'"
  shows "wf_arg m \<and> \<not> is_array m \<and> addr m = addr other \<and> wf_arg n' \<and> \<not> is_array n' \<and>
         addr m < addr n' \<and>
         footprint m \<union> footprint n' = footprint other \<union> footprint n \<and>
         write_print m \<union> write_print n' = write_print other \<union> write_print n"
proof (cases "asize n < asize other")
  case True
  then have w: "wr n" "\<not> wr other"
    and m: "m = other\<lparr>asize := asize n, wr := True\<rparr>"
    and n': "n' = n\<lparr>addr := addr n + asize n, asize := asize other - asize n, wr := False\<rparr>"
    using assms(6) by (auto simp: solve_overlap_def Let_def split: if_splits)
  note S = split_region [OF assms(2,4) wf_scalarD(1) [OF assms(1,3)] True m]
  have sc: "\<not> is_array n'" "addr n' = addr other + asize n" "asize n' = asize other - asize n"
    using n' assms(3,5) by (auto simp: is_array_def)
  note S = S [OF sc]
  have "footprint m = footprint n"
    using m S(2) assms(3,5) by simp
  then show ?thesis
    using S sc w m n' by auto
next
  case False
  then have lt: "asize other < asize n" and w: "\<not> wr n" "wr other"
    and m: "m = other"
    and n': "n' = n\<lparr>addr := addr n + asize other, asize := asize n - asize other\<rparr>"
    using assms(6) by (auto simp: solve_overlap_def Let_def split: if_splits)
  have sc: "\<not> is_array n'" "addr n' = addr n + asize other" "asize n' = asize n - asize other"
    using n' assms(3) by (auto simp: is_array_def)
  note S = split_region [where x = True, OF assms(1,3) wf_scalarD(1) [OF assms(2,4)] lt refl sc]
  have "footprint (n\<lparr>asize := asize other, wr := True\<rparr>) = footprint other"
    using S(2) assms(4,5) by simp
  then show ?thesis
    using S sc w m n' assms(2,4,5) by auto
qed


section \<open>Insertion in the ordered list\<close>

declare footprint_array [simp del] footprint_scalar [simp del]

text \<open>The parts of a list and of a combination of its head, put together again.\<close>

lemma inserted_Cons:
  assumes ins: "inserted n as (h # t)" and h: "addr h = addr a" "is_array h = is_array a"
    and as: "as = a # as'" and wf: "list_all wf_arg (prev # as)" "sorted_wrt arg_before (prev # as)"
  shows "inserted n (prev # as) (prev # h # t)"
proof -
  have "arg_before prev h"
    using wf(2) h by (auto simp: as arg_before_def)
  moreover have "\<forall>x \<in> set t. arg_before h x"
    using ins by (auto simp: inserted_def)
  ultimately have "\<forall>x \<in> set (h # t). arg_before prev x"
    by (auto intro: arg_before_trans)
  then show ?thesis
    using ins wf by (auto simp: inserted_def)
qed

lemma inserted_between:
  assumes "list_all wf_arg (prev # ps)" "sorted_wrt arg_before (prev # ps)" "wf_arg n"
    and "arg_before prev n" "case ps of [] \<Rightarrow> True | p # _ \<Rightarrow> addr n < addr p"
  shows "inserted n (prev # ps) (prev # n # ps)"
proof -
  have "\<forall>x \<in> set ps. arg_before n x"
  proof (cases ps)
    case (Cons p qs)
    then have "arg_before n p" "\<forall>x \<in> set qs. arg_before p x"
      using assms(2,5) by (auto simp: arg_before_def)
    then show ?thesis
      using Cons arg_before_trans by auto
  qed simp
  then show ?thesis
    using assms(1-4) by (auto simp: inserted_def)
qed

lemma inserted_merged:
  assumes "list_all wf_arg (prev # ps)" "sorted_wrt arg_before (prev # ps)"
    and "wf_arg n" "\<not> is_array n" "\<not> is_array prev" "addr n = addr prev"
    and "solve_overlap n prev = Merged m"
  shows "inserted n (prev # ps) (m # ps)"
proof -
  note M = solve_overlap_Merged [OF assms(3) _ assms(4-7)]
  have "wf_arg prev" using assms(1) by simp
  note M = M [OF this]
  have "\<forall>x \<in> set ps. arg_before m x"
    using assms(2,5) M by (auto simp: arg_before_def)
  then show ?thesis
    using assms(1,2,4,5) M by (auto simp: inserted_def split: if_splits)
qed

lemma inserted_split:
  assumes "list_all wf_arg (prev # ps)" "sorted_wrt arg_before (prev # ps)"
    and "wf_arg n" "\<not> is_array n" "\<not> is_array prev" "addr n = addr prev"
    and "solve_overlap n prev = Split m n'"
    and "inserted n' (m # ps) r"
  shows "inserted n (prev # ps) r"
proof -
  note M = solve_overlap_Split [OF assms(3) _ assms(4-7)]
  have "wf_arg prev" using assms(1) by simp
  note M = M [OF this]
  have "accesses (m # ps) \<union> footprint n' = accesses (prev # ps) \<union> footprint n"
    using M by auto
  moreover have "writes (m # ps) \<union> write_print n' = writes (prev # ps) \<union> write_print n"
    using M by auto
  moreover have "array_args (n' # m # ps) = array_args (n # prev # ps)"
    using M assms(4,5) by simp
  ultimately show ?thesis
    using assms(8) by (simp add: inserted_def)
qed

lemma kinds_apart_Cons2:
  "kinds_apart (set (n # a # as)) \<Longrightarrow> kinds_apart (set (n # as))"
  by (auto simp: kinds_apart_def)

lemma kinds_apart_subset: "kinds_apart A \<Longrightarrow> B \<subseteq> A \<Longrightarrow> kinds_apart B"
  by (auto simp: kinds_apart_def)

lemma same_addr_same_kind:
  assumes "kinds_apart A" "a \<in> A" "b \<in> A" "addr a = addr b" "wf_arg a" "wf_arg b"
  shows "is_array a = is_array b"
  using assms base_in_footprint unfolding kinds_apart_def by metis

lemma kinds_apart_split:
  assumes "kinds_apart (set (n # prev # ps))"
    and "wf_arg n" "wf_arg prev" "\<not> is_array n" "\<not> is_array prev" "addr n = addr prev"
    and "solve_overlap n prev = Split m n'"
  shows "kinds_apart (set (n' # m # ps))"
proof -
  note M = solve_overlap_Split [OF assms(2-7)]
  have "accesses (n' # m # ps) = accesses (n # prev # ps)"
    using M by auto
  moreover have "array_args (n' # m # ps) = array_args (n # prev # ps)"
    using M assms(4,5) by simp
  ultimately show ?thesis
    using assms(1) by (simp only: kinds_apart_iff)
qed

text \<open>
  The loop returns, and what it returns is \<open>as\<close> with \<open>n\<close> added; its first node still starts
  where \<open>prev\<close> started.
\<close>

definition inserts_after :: "arg_info \<Rightarrow> arg_info \<Rightarrow> arg_info list \<Rightarrow> bool" where
  "inserts_after n prev ps \<longleftrightarrow>
     (\<exists>h t. insert_after n prev ps = Some (h # t) \<and> inserted n (prev # ps) (h # t) \<and>
            addr h = addr prev \<and> is_array h = is_array prev)"

lemma insert_after_skip:
  assumes "\<not> addr n < addr p" "inserts_after n p qs"
    and "list_all wf_arg (prev # p # qs)" "sorted_wrt arg_before (prev # p # qs)"
  shows "inserts_after n prev (p # qs)"
proof -
  obtain h t where r: "insert_after n p qs = Some (h # t)" "inserted n (p # qs) (h # t)"
      "addr h = addr p" "is_array h = is_array p"
    using assms(2) by (auto simp: inserts_after_def)
  have "insert_after n prev (p # qs) = Some (prev # h # t)"
    using assms(1) r(1) by (simp add: insert_after.simps [of n prev])
  moreover have "inserted n (prev # p # qs) (prev # h # t)"
    using r assms(3,4) by (intro inserted_Cons) auto
  ultimately show ?thesis
    by (auto simp: inserts_after_def)
qed

lemma insert_after_stop:
  assumes "case ps of [] \<Rightarrow> True | p # _ \<Rightarrow> addr n < addr p"
    and "list_all wf_arg (prev # ps)" "sorted_wrt arg_before (prev # ps)" "wf_arg n"
    and "arg_before prev n"
  shows "inserts_after n prev ps"
proof -
  have "insert_after n prev ps = Some (prev # n # ps)"
    using assms(1,5) by (auto simp: insert_after.simps [of n prev] arg_before_def split: list.splits)
  moreover have "inserted n (prev # ps) (prev # n # ps)"
    using assms by (intro inserted_between)
  ultimately show ?thesis
    by (auto simp: inserts_after_def)
qed

lemma insert_after_correct:
  assumes "list_all wf_arg (n # prev # ps)" "sorted_wrt arg_before (prev # ps)"
    and "kinds_apart (set (n # prev # ps))" "addr prev \<le> addr n"
  shows "inserts_after n prev ps"
  using assms
proof (induction "(length ps, if addr n = addr prev then 1 else 0 :: nat)"
    arbitrary: n prev ps rule: wf_induct_rule [OF wf_lex_prod [OF wf_less wf_less]])
  case 1
  note IH = "1.hyps" and wf = "1.prems"
  let ?stop = "case ps of [] \<Rightarrow> True | p # _ \<Rightarrow> addr n < addr p"
  have "arg_before prev n \<or> (addr n = addr prev \<and> \<not> is_array n)"
    using wf(4) same_addr_same_kind [OF wf(3), of n prev] wf(1)
    by (auto simp: arg_before_def word_le_less_eq)
  then consider (skip) "\<not> ?stop" | (between) ?stop "arg_before prev n"
    | (solve) ?stop "addr n = addr prev" "\<not> is_array n"
    by blast
  then show ?case
  proof cases
    case skip
    then obtain p qs where ps: "ps = p # qs" "\<not> addr n < addr p"
      by (cases ps) auto
    have "inserts_after n p qs"
      using wf ps by (intro IH) (auto intro: kinds_apart_subset)
    then show ?thesis
      using insert_after_skip wf ps by simp
  next
    case between
    then show ?thesis
      using insert_after_stop wf by simp
  next
    case solve
    have sc: "\<not> is_array prev" "wf_arg n" "wf_arg prev" "list_all wf_arg (prev # ps)"
      using same_addr_same_kind [OF wf(3), of n prev] solve wf(1) by auto
    show ?thesis
    proof (cases "solve_overlap n prev")
      case (Merged m)
      then have "insert_after n prev ps = Some (m # ps)"
        using solve by (simp add: insert_after.simps [of n prev])
      then show ?thesis
        using inserted_merged [OF sc(4) wf(2) sc(2) solve(3) sc(1) solve(2) Merged]
          solve_overlap_Merged [OF sc(2,3) solve(3) sc(1) solve(2) Merged] sc(1)
        by (auto simp: inserts_after_def)
    next
      case (Split m n')
      note M = solve_overlap_Split [OF sc(2,3) solve(3) sc(1) solve(2) Split]
      have "inserts_after n' m ps"
        using M wf sc kinds_apart_split [OF wf(3) sc(2,3) solve(3) sc(1) solve(2) Split]
        by (intro IH) (auto simp: arg_before_def solve(2))
      then obtain h t where r: "insert_after n' m ps = Some (h # t)" "inserted n' (m # ps) (h # t)"
          "addr h = addr m" "is_array h = is_array m"
        by (auto simp: inserts_after_def)
      have "insert_after n prev ps = Some (h # t)"
        using solve Split M r(1) by (auto simp: insert_after.simps [of n prev])
      then show ?thesis
        using inserted_split [OF sc(4) wf(2) sc(2) solve(3) sc(1) solve(2) Split r(2)] M r(3,4) sc(1)
        by (auto simp: inserts_after_def)
    qed
  qed
qed

lemma insert_in_arglist_inserted:
  assumes "wf_arglist as" "wf_arg n" "kinds_apart (set (n # as))"
  shows "\<exists>as'. insert_in_arglist n as = Some as' \<and> inserted n as as' \<and> as' \<noteq> []"
proof (cases as)
  case Nil
  then show ?thesis
    using assms(2) by (auto simp: insert_in_arglist_def inserted_def)
next
  case (Cons a bs)
  show ?thesis
  proof (cases "addr n < addr a")
    case True
    then have "\<forall>x \<in> set as. arg_before n x"
      using assms(1) Cons by (auto simp: wf_arglist_def arg_before_def)
    then show ?thesis
      using True Cons assms(1,2)
      by (auto simp: insert_in_arglist_def inserted_def wf_arglist_def)
  next
    case False
    then have "inserts_after n a bs"
      using assms Cons by (intro insert_after_correct) (auto simp: wf_arglist_def)
    then show ?thesis
      using False Cons by (auto simp: insert_in_arglist_def inserts_after_def)
  qed
qed


text \<open>Without another region at the address of \<open>n\<close> nothing is combined: \<open>n\<close> is one more node.\<close>

lemma insert_after_fresh:
  "is_array n \<or> (\<forall>a \<in> set (prev # ps). addr a \<noteq> addr n) \<Longrightarrow>
     \<exists>as'. insert_after n prev ps = Some as' \<and> mset as' = add_mset n (mset (prev # ps))"
proof (induction ps arbitrary: prev)
  case Nil
  then show ?case
    by (auto simp: insert_after.simps [of n prev])
next
  case (Cons p ps)
  show ?case
  proof (cases "addr n < addr p")
    case True
    then show ?thesis
      using Cons.prems by (auto simp: insert_after.simps [of n prev])
  next
    case False
    have "is_array n \<or> (\<forall>a \<in> set (p # ps). addr a \<noteq> addr n)"
      using Cons.prems by auto
    then obtain r where "insert_after n p ps = Some r" "mset r = add_mset n (mset (p # ps))"
      using Cons.IH by blast
    with False show ?thesis
      by (simp add: insert_after.simps [of n prev])
  qed
qed

lemma insert_in_arglist_fresh:
  assumes "is_array n \<or> (\<forall>a \<in> set as. addr a \<noteq> addr n)"
  shows "\<exists>as'. insert_in_arglist n as = Some as' \<and> mset as' = add_mset n (mset as)"
  using assms insert_after_fresh [of n "hd as" "tl as"]
  by (cases as) (auto simp: insert_in_arglist_def)

section \<open>Arguments for examples\<close>

definition region :: "u64 \<Rightarrow> u64 \<Rightarrow> bool \<Rightarrow> arg_info" where
  "region a n w = \<lparr>addr = a, asize = n, array_range = [], wr = w, rank = 0\<rparr>"

definition view :: "u64 \<Rightarrow> (int \<times> int) list \<Rightarrow> bool \<Rightarrow> arg_info" where
  "view a r w = \<lparr>addr = a, asize = 8, array_range = r, wr = w, rank = length r\<rparr>"

lemma region_sel [simp]:
  "is_array (region a n w) = False" "addr (region a n w) = a" "asize (region a n w) = n"
  "wr (region a n w) = w" "rank (region a n w) = 0" "array_range (region a n w) = []"
  by (simp_all add: region_def is_array_def)

lemma view_sel [simp]:
  "is_array (view a r w) \<longleftrightarrow> r \<noteq> []" "addr (view a r w) = a" "asize (view a r w) = 8"
  "wr (view a r w) = w" "rank (view a r w) = length r" "array_range (view a r w) = r"
  by (simp_all add: view_def is_array_def)

lemmas sample_defs = wf_arglist_def wf_arg_def kinds_apart_def arg_before_def footprint_scalar

section \<open>Properties\<close>

text \<open>
  C19: Inserting an argument in the ordered list of a task always succeeds; the list stays ordered
  and well formed, and it covers exactly the locations, and exactly the writable locations, that
  the old list and the new argument cover, also when regions that start at one address are
  merged or split.
\<close>

theorem insert_in_arglist_covers:
  assumes "wf_arglist as" "wf_arg n" "kinds_apart (set (n # as))"
  shows "\<exists>as'. insert_in_arglist n as = Some as' \<and> wf_arglist as' \<and>
           accesses as' = accesses as \<union> footprint n \<and>
           writes as' = writes as \<union> (if wr n then footprint n else {})"
proof -
  obtain as' where "insert_in_arglist n as = Some as'" "inserted n as as'"
    using insert_in_arglist_inserted [OF assms] by blast
  then show ?thesis
    using inserted_wf [OF _ assms(3)] by (auto simp: inserted_def)
qed

lemma insert_in_arglist_covers_witness:
  "\<exists>as'. insert_in_arglist (region 1000 8 True) [region 1000 4 False, region 1016 4 True] = Some as' \<and>
     wf_arglist as' \<and>
     accesses as' = accesses [region 1000 4 False, region 1016 4 True] \<union> footprint (region 1000 8 True) \<and>
     writes as' = writes [region 1000 4 False, region 1016 4 True] \<union>
       (if wr (region 1000 8 True) then footprint (region 1000 8 True) else {})"
  by (rule insert_in_arglist_covers) (auto simp: sample_defs)

text \<open>
  When no region of the list starts at the address of the new argument, or the argument is an
  array, nothing is merged: the result holds the old arguments and the new one, each once.
\<close>

theorem insert_in_arglist_keeps:
  assumes "is_array n \<or> (\<forall>a \<in> set as. addr a \<noteq> addr n)"
  shows "\<exists>as'. insert_in_arglist n as = Some as' \<and> mset as' = add_mset n (mset as)"
  using assms by (rule insert_in_arglist_fresh)

lemma insert_in_arglist_keeps_witness:
  "\<exists>as'. insert_in_arglist (view 1000 [(0, 3)] True) [view 1000 [(4, 9)] True] = Some as' \<and>
     mset as' = add_mset (view 1000 [(0, 3)] True) (mset [view 1000 [(4, 9)] True])"
  by (rule insert_in_arglist_keeps) simp

text \<open>
  The test between the memory regions of two arguments says whether the regions share a byte,
  and the containment test whether all the bytes of the second belong to the first; neither is
  disturbed by the wrap-around of 64-bit addresses, as the regions end before the last address.
\<close>

theorem region_tests:
  assumes "wf_arg a" "wf_arg b" "\<not> is_array a" "\<not> is_array b"
  shows "(overlaps a b \<longleftrightarrow> footprint a \<inter> footprint b \<noteq> {}) \<and>
         (contains a b \<longleftrightarrow> footprint b \<subseteq> footprint a)"
  using overlaps_scalar [OF assms] contains_scalar [OF assms] by blast

lemma region_tests_witness:
  "(overlaps (region 1000 8 True) (region 1004 2 False) \<longleftrightarrow>
      footprint (region 1000 8 True) \<inter> footprint (region 1004 2 False) \<noteq> {}) \<and>
   (contains (region 1000 8 True) (region 1004 2 False) \<longleftrightarrow>
      footprint (region 1004 2 False) \<subseteq> footprint (region 1000 8 True))"
  by (rule region_tests) (simp_all add: wf_arg_def)

text \<open>
  Against an ordered list that starts with a view of the same array, \<open>overlap_array\<close> never
  fails and says whether some view of the list shares an element with the array argument and one
  of the two may be written; \<open>is_contained_array\<close> says whether some view has all its elements.
\<close>

theorem array_tests:
  assumes "is_array w" "wf_arg w" "list_all wf_arg (p # ps)" "sorted_wrt arg_before (p # ps)"
    and "addr p = addr w" "same_ranks w (p # ps)"
  shows "overlap_array w (p # ps) =
           Some (\<exists>q \<in> set (p # ps). (wr w \<or> wr q) \<and> footprint w \<inter> footprint q \<noteq> {}) \<and>
         is_contained_array w (p # ps) = Some (\<exists>q \<in> set (p # ps). footprint w \<subseteq> footprint q)"
  using overlap_array_iff [OF assms(1-4,6,5)] is_contained_array_iff [OF assms(1-4,6,5)] by blast

lemma array_tests_witness:
  "overlap_array (view 1000 [(2, 5)] True) [view 1000 [(0, 2)] False, view 1000 [(4, 9)] False] =
     Some (\<exists>q \<in> set [view 1000 [(0, 2)] False, view 1000 [(4, 9)] False].
        (wr (view 1000 [(2, 5)] True) \<or> wr q) \<and> footprint (view 1000 [(2, 5)] True) \<inter> footprint q \<noteq> {}) \<and>
   is_contained_array (view 1000 [(2, 5)] True) [view 1000 [(0, 2)] False, view 1000 [(4, 9)] False] =
     Some (\<exists>q \<in> set [view 1000 [(0, 2)] False, view 1000 [(4, 9)] False].
        footprint (view 1000 [(2, 5)] True) \<subseteq> footprint q)"
  by (rule array_tests) (simp_all add: wf_arg_def arg_before_def same_ranks_def)

end
