(* ===== verification/DepScan.thy ===== *)
theory DepScan
  imports ArgInfo "HOL-Library.Sublist"
begin

text \<open>
  The comparison of the arguments of a new task with those of an older one, the inner loop of
  \<open>Workitem::insert_in_worklist\<close> (\<open>src/src/workitem.cpp\<close>), and \<open>is_contained\<close>
  (\<open>src/src/depspawn.cpp\<close>). The array \<open>argv\<close> on the stack holds pointers to the arguments of
  the new task; a slot that was never written is \<open>Uninit\<close>, and testing it is an error.
\<close>

section \<open>The vector of pending arguments\<close>

datatype slot = Uninit | Null | Slot arg_info

fun store_args :: "arg_info list \<Rightarrow> nat \<Rightarrow> slot list \<Rightarrow> slot list" where
  "store_args [] i argv = argv"
| "store_args (a # as) i argv = store_args as (Suc i) (argv[i := Slot a])"

text \<open>\<open>arg_info* argv[nargs+1]\<close>, filled from the list \<open>args\<close> and closed with a null pointer.\<close>

definition build_argv :: "nat \<Rightarrow> arg_info list \<Rightarrow> slot list" where
  "build_argv nargs args = (store_args args 0 (replicate (Suc nargs) Uninit))[nargs := Null]"

text \<open>\<open>for (int i = arg_w_i; i <= nargs; i++) argv[i] = argv[i+1];\<close>\<close>

function shift_argv :: "nat \<Rightarrow> nat \<Rightarrow> slot list \<Rightarrow> slot list" where
  "shift_argv i nargs argv =
     (if i \<le> nargs then shift_argv (Suc i) nargs (argv[i := argv ! (i + 1)]) else argv)"
  by pat_completeness auto
termination
  by (relation "measure (\<lambda>(i, nargs, argv). Suc nargs - i)") auto

declare shift_argv.simps [simp del]

section \<open>One older task against the pending arguments\<close>

definition conflict :: "arg_info list \<Rightarrow> arg_info \<Rightarrow> bool option" where
  "conflict arg_p w =
     (case arg_p of
        [] \<Rightarrow> None
      | p # _ \<Rightarrow>
          if is_array w
          then (if addr p = addr w then overlap_array w arg_p else Some False)
          else Some ((wr p \<or> wr w) \<and> overlaps p w))"

datatype scan_result = NoConflict | Conflict "arg_info list" nat | BadRead

text \<open>
  \<open>while(arg_p && arg_w)\<close>: \<open>arg_p\<close> is a suffix of the older task's list, the slots are \<open>argv\<close>
  from index \<open>i\<close> on. The loop is left at the first conflict.
\<close>

fun scan :: "arg_info list \<Rightarrow> slot list \<Rightarrow> nat \<Rightarrow> scan_result" where
  "scan [] argv i = NoConflict"
| "scan (p # ps) [] i = BadRead"
| "scan (p # ps) (Uninit # argv) i = BadRead"
| "scan (p # ps) (Null # argv) i = NoConflict"
| "scan (p # ps) (Slot w # argv) i =
     (case conflict (p # ps) w of
        None \<Rightarrow> BadRead
      | Some True \<Rightarrow> Conflict (p # ps) i
      | Some False \<Rightarrow>
          if addr p < addr w then scan ps (Slot w # argv) i else scan (p # ps) argv (Suc i))"

text \<open>Whether the argument \<open>w\<close> need not be compared with the tasks that are older still.\<close>

definition superseded :: "arg_info list \<Rightarrow> arg_info \<Rightarrow> bool option" where
  "superseded arg_p w =
     (case arg_p of
        [] \<Rightarrow> None
      | p # _ \<Rightarrow>
          if wr p then (if is_array w then is_contained_array w arg_p else Some (contains p w))
          else Some False)"

text \<open>
  The comparison with one older task whose arguments are \<open>pargs\<close>: whether there is a
  dependency, and \<open>nargs\<close> and \<open>argv\<close> afterwards.
\<close>

definition compare_args ::
  "arg_info list \<Rightarrow> nat \<Rightarrow> slot list \<Rightarrow> (bool \<times> nat \<times> slot list) option"
where
  "compare_args pargs nargs argv =
     (case scan pargs argv 0 of
        NoConflict \<Rightarrow> Some (False, nargs, argv)
      | BadRead \<Rightarrow> None
      | Conflict arg_p i \<Rightarrow>
          (case argv ! i of
             Slot w \<Rightarrow>
               do {
                 d \<leftarrow> superseded arg_p w;
                 Some (if d then (True, nargs - 1, shift_argv i (nargs - 1) argv)
                       else (True, nargs, argv))
               }
           | _ \<Rightarrow> None))"

section \<open>Whether all the arguments of a task are within those of an ancestor\<close>

text \<open>The loop of \<open>is_contained(w, ancestor)\<close>; \<open>None\<close> is a failed assertion.\<close>

fun is_contained_loop :: "arg_info list \<Rightarrow> arg_info list \<Rightarrow> bool option" where
  "is_contained_loop [] arg_p = Some True"
| "is_contained_loop (w # ws) [] = Some False"
| "is_contained_loop (w # ws) (p # ps) =
     (if addr w < addr p then Some False
      else if is_array w then
        (if addr p = addr w then
           do { c \<leftarrow> is_contained_array w (p # ps);
                if c then is_contained_loop ws (p # ps) else Some False }
         else is_contained_loop (w # ws) ps)
      else if addr w + asize w \<le> addr p + asize p then is_contained_loop ws (p # ps)
      else is_contained_loop (w # ws) ps)"

section \<open>Conflicts, as sets of locations\<close>

definition meets :: "arg_info \<Rightarrow> arg_info \<Rightarrow> bool" where
  "meets a b \<longleftrightarrow> footprint a \<inter> footprint b \<noteq> {}"

text \<open>The rule the documentation states: one of the two may write what both access.\<close>

definition conflicts :: "arg_info list \<Rightarrow> arg_info list \<Rightarrow> bool" where
  "conflicts as bs \<longleftrightarrow> (\<exists>a \<in> set as. \<exists>b \<in> set bs. (wr a \<or> wr b) \<and> meets a b)"

lemma conflicts_iff:
  "conflicts as bs \<longleftrightarrow>
     writes as \<inter> accesses bs \<noteq> {} \<or> accesses as \<inter> writes bs \<noteq> {}"
  by (fastforce simp: conflicts_def meets_def writes_def accesses_def split: if_splits)

lemma conflicts_Nil [simp]: "\<not> conflicts as []" "\<not> conflicts [] bs"
  by (auto simp: conflicts_def)

lemma conflicts_commute: "conflicts as bs \<longleftrightarrow> conflicts bs as"
  by (auto simp: conflicts_def meets_def Int_commute)

lemma conflicts_mono: "set bs \<subseteq> set bs' \<Longrightarrow> conflicts as bs \<Longrightarrow> conflicts as bs'"
  by (auto simp: conflicts_def)

text \<open>
  Two lists can be compared when memory regions and arrays do not mix (a scalar argument never
  touches the base address of an array, nor the bytes taken for its descriptor) and views of
  one array agree on its rank.
\<close>

definition comparable :: "arg_info list \<Rightarrow> arg_info list \<Rightarrow> bool" where
  "comparable as bs \<longleftrightarrow>
     kinds_apart (set as \<union> set bs) \<and>
     (\<forall>a \<in> set as. \<forall>b \<in> set bs.
        (is_array a \<and> \<not> is_array b \<longrightarrow> \<not> overlaps a b) \<and>
        (is_array a \<and> is_array b \<and> addr a = addr b \<longrightarrow> rank a = rank b))"

text \<open>
  Regions that two tasks only read in common must not also be written, in part, by one of
  them: the merge leaves such a region behind at the common read.
\<close>

definition shared_reads_ok :: "arg_info list \<Rightarrow> arg_info list \<Rightarrow> bool" where
  "shared_reads_ok as bs \<longleftrightarrow>
     (\<forall>a \<in> set as. \<forall>b \<in> set bs. \<not> wr a \<and> \<not> wr b \<and> meets a b \<and> \<not> is_array a \<longrightarrow>
        (\<forall>b' \<in> set bs. wr b' \<longrightarrow> \<not> meets a b') \<and> (\<forall>a' \<in> set as. wr a' \<longrightarrow> \<not> meets a' b))"


section \<open>What one comparison finds\<close>

lemma meets_commute: "meets a b \<longleftrightarrow> meets b a"
  by (auto simp: meets_def)

lemma comparableD:
  assumes "comparable as bs" "a \<in> set as" "b \<in> set bs"
  shows "is_array a \<Longrightarrow> \<not> is_array b \<Longrightarrow> \<not> overlaps a b"
    and "is_array a \<Longrightarrow> is_array b \<Longrightarrow> addr a = addr b \<Longrightarrow> rank a = rank b"
    and "is_array b \<Longrightarrow> Byte (unat (addr b)) \<notin> footprint a"
    and "is_array a \<Longrightarrow> Byte (unat (addr a)) \<notin> footprint b"
  using assms by (auto simp: comparable_def kinds_apart_def)

lemma comparable_subset:
  "comparable as bs \<Longrightarrow> set as' \<subseteq> set as \<Longrightarrow> set bs' \<subseteq> set bs \<Longrightarrow> comparable as' bs'"
  unfolding comparable_def by (blast intro: kinds_apart_subset)

lemma shared_reads_subset:
  "shared_reads_ok as bs \<Longrightarrow> set as' \<subseteq> set as \<Longrightarrow> set bs' \<subseteq> set bs \<Longrightarrow> shared_reads_ok as' bs'"
  unfolding shared_reads_ok_def by blast

lemma meets_array_iff:
  "meets a b \<Longrightarrow> is_array a \<longleftrightarrow> is_array b"
  "meets a b \<Longrightarrow> is_array a \<Longrightarrow> addr a = addr b"
  using footprint_meet_array [of a b] footprint_meet_array [of b a]
  by (auto simp: meets_def Int_commute)

text \<open>A region that reaches a later one covers every address in between.\<close>

lemma meets_covers:
  assumes "\<not> is_array a" "meets a b" "addr a \<le> k" "k \<le> addr b"
  shows "Byte (unat k) \<in> footprint a"
proof -
  have b: "\<not> is_array b" using assms(1,2) meets_array_iff(1) by blast
  from assms(2) obtain j where "Byte j \<in> footprint a" "Byte j \<in> footprint b"
    using assms(1) by (auto simp: meets_def footprint_scalar)
  then show ?thesis
    using assms b by (auto simp: Byte_in_scalar word_le_nat_alt)
qed

lemma conflict_scalar:
  assumes "\<not> is_array w" "wf_arg w" "wf_arg p" "comparable (p # ps) [w]"
  shows "conflict (p # ps) w = Some ((wr p \<or> wr w) \<and> meets p w)"
proof (cases "is_array p")
  case True
  then have "\<not> overlaps p w" "\<not> meets p w"
    using comparableD(1) [OF assms(4), of p w] assms(1) meets_array_iff(1) by auto
  then show ?thesis
    using assms(1) by (simp add: conflict_def)
next
  case False
  then show ?thesis
    using assms by (simp add: conflict_def overlaps_scalar meets_def)
qed

lemma comparable_same_ranks:
  assumes "comparable ps [w]" "is_array w" "list_all wf_arg ps"
  shows "same_ranks w ps"
  unfolding same_ranks_def
proof (intro ballI impI)
  fix q assume q: "q \<in> set ps" "addr q = addr w"
  have "wf_arg q" using assms(3) q(1) by (auto simp: list_all_iff)
  then have "is_array q"
    using comparableD(3) [OF assms(1) q(1), of w] assms(2) q(2) base_in_footprint [of q] by auto
  then show "rank q = rank w"
    using comparableD(2) [OF assms(1) q(1), of w] assms(2) q(2) by auto
qed

lemma conflict_array:
  assumes "is_array w" "wf_arg w" "list_all wf_arg (p # ps)" "sorted_wrt arg_before (p # ps)"
    and "comparable (p # ps) [w]" "addr p = addr w"
  shows "conflict (p # ps) w = Some (\<exists>q \<in> set (p # ps). (wr q \<or> wr w) \<and> meets q w)"
proof -
  have "conflict (p # ps) w = overlap_array w (p # ps)"
    using assms(1,6) by (simp add: conflict_def)
  also have "\<dots> = Some (\<exists>q \<in> set (p # ps). (wr w \<or> wr q) \<and> footprint w \<inter> footprint q \<noteq> {})"
    using assms by (intro overlap_array_iff comparable_same_ranks) auto
  also have "(\<exists>q \<in> set (p # ps). (wr w \<or> wr q) \<and> footprint w \<inter> footprint q \<noteq> {}) \<longleftrightarrow>
      (\<exists>q \<in> set (p # ps). (wr q \<or> wr w) \<and> meets q w)"
    unfolding meets_def by (metis Int_commute)
  finally show ?thesis .
qed

text \<open>One test never fails, and its answer is right for the head of the older list.\<close>

lemma conflict_total:
  assumes "wf_arg w" "list_all wf_arg (p # ps)" "sorted_wrt arg_before (p # ps)"
    and "comparable (p # ps) [w]"
  obtains c where "conflict (p # ps) w = Some c"
    and "c \<Longrightarrow> \<exists>q \<in> set (p # ps). (wr q \<or> wr w) \<and> meets q w"
    and "\<not> c \<Longrightarrow> \<not> ((wr p \<or> wr w) \<and> meets p w)"
    and "\<not> c \<Longrightarrow> is_array w \<Longrightarrow> addr p = addr w \<Longrightarrow>
          \<forall>q \<in> set (p # ps). \<not> ((wr q \<or> wr w) \<and> meets q w)"
proof (cases "is_array w")
  case True
  show ?thesis
  proof (cases "addr p = addr w")
    case eq: True
    show ?thesis
      using conflict_array [OF True assms(1-4) eq] by (intro that) auto
  next
    case False
    then have "conflict (p # ps) w = Some False" "\<not> meets p w"
      using True meets_array_iff [of p w] by (auto simp: conflict_def)
    with False show ?thesis
      by (intro that [of False]) auto
  qed
next
  case False
  show ?thesis
    using conflict_scalar [OF False assms(1) _ assms(4)] assms(2) False
    by (intro that [of "(wr p \<or> wr w) \<and> meets p w"]) auto
qed

lemma advance_older:
  assumes "list_all wf_arg (w # ws)" "sorted_wrt arg_before (w # ws)" "wf_arg p"
    and "comparable (p # ps) (w # ws)" "shared_reads_ok (p # ps) (w # ws)"
    and "addr p < addr w" "\<not> ((wr p \<or> wr w) \<and> meets p w)" "w' \<in> set (w # ws)"
  shows "\<not> ((wr p \<or> wr w') \<and> meets p w')"
proof
  assume c: "(wr p \<or> wr w') \<and> meets p w'"
  have le: "addr w \<le> addr w'"
    using assms(2,8) by (auto dest: arg_before_le)
  have p: "\<not> is_array p"
    using c le assms(6) meets_array_iff(2) [of p w'] by auto
  then have in_p: "Byte (unat (addr w)) \<in> footprint p"
    using c le assms(6) by (intro meets_covers) auto
  then have "\<not> is_array w"
    using comparableD(3) [OF assms(4), of p w] by auto
  then have "meets p w"
    using in_p base_in_footprint [of w] assms(1) by (auto simp: meets_def)
  then show False
    using c assms(5,7,8) p by (auto simp: shared_reads_ok_def)
qed

lemma advance_newer:
  assumes "list_all wf_arg (p # ps)" "sorted_wrt arg_before (p # ps)" "wf_arg w"
    and "comparable (p # ps) (w # ws)" "shared_reads_ok (p # ps) (w # ws)"
    and "addr w \<le> addr p" "\<not> ((wr p \<or> wr w) \<and> meets p w)" "p' \<in> set (p # ps)"
    and "is_array w \<Longrightarrow> addr p = addr w \<Longrightarrow>
          \<forall>q \<in> set (p # ps). \<not> ((wr q \<or> wr w) \<and> meets q w)"
  shows "\<not> ((wr p' \<or> wr w) \<and> meets p' w)"
proof
  assume c: "(wr p' \<or> wr w) \<and> meets p' w"
  have le: "addr p \<le> addr p'"
    using assms(2,8) by (auto dest: arg_before_le)
  have w: "\<not> is_array w"
    using c le assms(6,8,9) meets_array_iff [of p' w] by auto
  then have in_w: "Byte (unat (addr p)) \<in> footprint w"
    using c le assms(6) by (intro meets_covers [of w p']) (auto simp: meets_commute)
  then have np: "\<not> is_array p"
    using comparableD(4) [OF assms(4), of p w] by auto
  then have "meets p w"
    using in_w base_in_footprint [of p] assms(1) by (auto simp: meets_def)
  then show False
    using c assms(5,7,8) np by (auto simp: shared_reads_ok_def)
qed

lemma comparable_head:
  "comparable (p # ps) (w # ws) \<Longrightarrow> comparable (p # ps) [w]"
  by (rule comparable_subset) auto

text \<open>
  The merge of two ordered lists: it never reads a bad slot, a conflict it reports is one, and
  when it reports none there is none.
\<close>

definition scan_right :: "arg_info list \<Rightarrow> arg_info list \<Rightarrow> nat \<Rightarrow> scan_result \<Rightarrow> bool" where
  "scan_right ps ws i r \<longleftrightarrow>
     (case r of
        BadRead \<Rightarrow> False
      | NoConflict \<Rightarrow> \<not> conflicts ps ws
      | Conflict qs j \<Rightarrow>
          qs \<noteq> [] \<and> suffix qs ps \<and> i \<le> j \<and> j < i + length ws \<and>
          (\<exists>q \<in> set qs. (wr q \<or> wr (ws ! (j - i))) \<and> meets q (ws ! (j - i))) \<and>
          conflict qs (ws ! (j - i)) = Some True)"

lemma scan_right_older:
  assumes "scan_right ps (w # ws) i r"
    and "\<And>w'. w' \<in> set (w # ws) \<Longrightarrow> \<not> ((wr p \<or> wr w') \<and> meets p w')"
  shows "scan_right (p # ps) (w # ws) i r"
  using assms by (auto simp: scan_right_def conflicts_def suffix_Cons split: scan_result.splits)

lemma scan_right_newer:
  assumes "scan_right ps ws (Suc i) r"
    and "\<And>q. q \<in> set ps \<Longrightarrow> \<not> ((wr q \<or> wr w) \<and> meets q w)"
  shows "scan_right ps (w # ws) i r"
  using assms
  by (auto simp: scan_right_def conflicts_def nth_Cons' diff_Suc split: scan_result.splits nat.splits)

lemma scan_correct:
  assumes "list_all wf_arg ps" "sorted_wrt arg_before ps" "list_all wf_arg ws"
    and "sorted_wrt arg_before ws" "comparable ps ws" "shared_reads_ok ps ws"
  shows "scan_right ps ws i (scan ps (map Slot ws @ Null # junk) i)"
  using assms
proof (induction "length ps + length ws" arbitrary: ps ws i rule: less_induct)
  case less
  note wf = less.prems
  show ?case
  proof (cases ps)
    case Nil
    then show ?thesis by (simp add: scan_right_def)
  next
    case P: (Cons p ps')
    show ?thesis
    proof (cases ws)
      case Nil
      then show ?thesis
        using P by (simp add: scan_right_def)
    next
      case W: (Cons w ws')
      have wfs: "wf_arg w" "list_all wf_arg (p # ps')" "sorted_wrt arg_before (p # ps')"
        "comparable (p # ps') [w]"
        using wf P W by (auto intro: comparable_head)
      obtain c where c: "conflict (p # ps') w = Some c"
        "c \<Longrightarrow> \<exists>q \<in> set (p # ps'). (wr q \<or> wr w) \<and> meets q w"
        "\<not> c \<Longrightarrow> \<not> ((wr p \<or> wr w) \<and> meets p w)"
        "\<not> c \<Longrightarrow> is_array w \<Longrightarrow> addr p = addr w \<Longrightarrow>
          \<forall>q \<in> set (p # ps'). \<not> ((wr q \<or> wr w) \<and> meets q w)"
        using conflict_total [OF wfs] by blast
      have sub: "comparable ps' ws" "shared_reads_ok ps' ws" "comparable ps ws'" "shared_reads_ok ps ws'"
        using wf(5,6) P W by (auto intro: comparable_subset shared_reads_subset)
      consider c | "\<not> c" "addr p < addr w" | "\<not> c" "\<not> addr p < addr w" by blast
      then show ?thesis
      proof cases
        case 1
        then show ?thesis
          using c(1,2) P W by (auto simp: scan_right_def)
      next
        case 2
        have "scan_right ps' ws i (scan ps' (map Slot ws @ Null # junk) i)"
          using wf sub P by (intro less.hyps) auto
        then show ?thesis
          using 2(2) wf wfs P W c(3) [OF 2(1)] scan_right_older [OF _ advance_older [of w ws' p ps']]
          by (simp add: c(1) 2)
      next
        case 3
        have "scan_right ps ws' (Suc i) (scan ps (map Slot ws' @ Null # junk) (Suc i))"
          using wf sub W by (intro less.hyps) auto
        then have "scan_right ps (w # ws') i (scan ps (map Slot ws' @ Null # junk) (Suc i))"
        proof (rule scan_right_newer)
          fix q assume q: "q \<in> set ps"
          have "comparable (p # ps') (w # ws')" "shared_reads_ok (p # ps') (w # ws')" "addr w \<le> addr p"
            "q \<in> set (p # ps')"
            using wf(5,6) P W 3(2) q by auto
          from advance_newer [OF wfs(2,3,1) this(1-3) c(3) [OF 3(1)] this(4) c(4) [OF 3(1)]]
          show "\<not> ((wr q \<or> wr w) \<and> meets q w)" .
        qed
        then show ?thesis
          using 3 P W c(1) by simp
      qed
    qed
  qed
qed


section \<open>The vector of pending arguments, as a list\<close>

definition argv_holds :: "nat \<Rightarrow> slot list \<Rightarrow> arg_info list \<Rightarrow> bool" where
  "argv_holds nargs argv ws \<longleftrightarrow>
     length ws = nargs \<and> (\<exists>junk. argv = map Slot ws @ Null # junk)"

lemma store_args_eq:
  "i + length as \<le> length argv \<Longrightarrow>
     store_args as i argv = take i argv @ map Slot as @ drop (i + length as) argv"
proof (induction as i argv rule: store_args.induct)
  case (1 i argv)
  then show ?case by simp
next
  case (2 a as i argv)
  then show ?case
    by (simp add: upd_conv_take_nth_drop take_Suc_conv_app_nth min_def add.commute)
qed

lemma build_argv_eq:
  assumes "length args \<le> nargs"
  shows "build_argv nargs args = map Slot args @ replicate (nargs - length args) Uninit @ [Null]"
proof -
  have "build_argv nargs args =
      (map Slot args @ replicate (nargs - length args) Uninit @ [Uninit])[nargs := Null]"
    using assms
    by (simp add: build_argv_def store_args_eq Suc_diff_le replicate_append_same del: replicate_Suc)
      (simp add: replicate_append_same)
  then show ?thesis
    using assms by (simp add: list_update_append)
qed

lemma build_argv_holds: "length args = nargs \<Longrightarrow> argv_holds nargs (build_argv nargs args) args"
  by (simp add: build_argv_eq argv_holds_def)

lemma length_shift_argv [simp]: "length (shift_argv i n argv) = length argv"
proof (induction i n argv rule: shift_argv.induct)
  case (1 i n argv)
  then show ?case by (simp add: shift_argv.simps [of i])
qed

lemma nth_shift_argv:
  "Suc n < length argv \<Longrightarrow>
     shift_argv i n argv ! j = (if i \<le> j \<and> j \<le> n then argv ! Suc j else argv ! j)"
proof (induction i n argv arbitrary: j rule: shift_argv.induct)
  case (1 i n argv)
  then show ?case
    by (cases "j = i") (auto simp: shift_argv.simps [of i n argv] nth_list_update)
qed

lemma shift_argv_holds:
  assumes "argv_holds n argv ws" "i < length ws"
  shows "argv_holds (n - 1) (shift_argv i (n - 1) argv) (take i ws @ drop (Suc i) ws)"
proof -
  obtain junk where a: "argv = map Slot ws @ Null # junk" and n: "n = length ws"
    using assms(1) by (auto simp: argv_holds_def)
  let ?ws' = "take i ws @ drop (Suc i) ws"
  have len: "length ?ws' = n - 1" using assms(2) n by simp
  have "shift_argv i (n - 1) argv = map Slot ?ws' @ Null # Null # junk"
  proof (rule nth_equalityI)
    show "length (shift_argv i (n - 1) argv) = length (map Slot ?ws' @ Null # Null # junk)"
      using assms(2) n a by simp
  next
    fix j assume "j < length (shift_argv i (n - 1) argv)"
    have "Suc (n - 1) < length argv" using assms(2) n a by simp
    then show "shift_argv i (n - 1) argv ! j = (map Slot ?ws' @ Null # Null # junk) ! j"
      using assms(2) n a by (auto simp: nth_shift_argv nth_append nth_Cons' min_def)
  qed
  then show ?thesis
    using len by (auto simp: argv_holds_def)
qed

section \<open>The comparison with one older task\<close>

text \<open>Views of one array inside a task have one access right.\<close>

definition views_agree :: "arg_info list \<Rightarrow> bool" where
  "views_agree ps \<longleftrightarrow>
     (\<forall>a \<in> set ps. \<forall>b \<in> set ps. is_array a \<and> is_array b \<and> addr a = addr b \<longrightarrow> wr a = wr b)"

lemma superseded_total:
  assumes "list_all wf_arg qs" "sorted_wrt arg_before qs" "wf_arg w" "comparable qs [w]"
    and "views_agree qs" "conflict qs w = Some True"
  shows "\<exists>d. superseded qs w = Some d \<and> (d \<longrightarrow> footprint w \<subseteq> writes qs)"
proof -
  obtain p ps where qs: "qs = p # ps"
    using assms(6) by (cases qs) (auto simp: conflict_def)
  show ?thesis
  proof (cases "is_array w")
    case False
    have "meets p w"
      using assms(1,3,4,6) conflict_scalar [OF False, of p ps] qs by simp
    then have "\<not> is_array p"
      using False meets_array_iff(1) by blast
    then show ?thesis
      using assms(1,3) False qs
      by (auto simp: superseded_def contains_scalar split: if_splits)
  next
    case True
    have a: "addr p = addr w"
      using assms(6) True by (auto simp: qs conflict_def split: if_splits)
    have "is_contained_array w qs = Some (\<exists>q \<in> set qs. footprint w \<subseteq> footprint q)"
      using assms(1-3) True a comparable_same_ranks [OF assms(4) True assms(1)] unfolding qs
      by (intro is_contained_array_iff) auto
    moreover have "wr p \<Longrightarrow> q \<in> set qs \<Longrightarrow> footprint w \<subseteq> footprint q \<Longrightarrow> footprint w \<subseteq> writes qs" for q
    proof -
      assume q: "wr p" "q \<in> set qs" "footprint w \<subseteq> footprint q"
      then have "meets w q"
        using footprint_nonempty [OF assms(3)] by (auto simp: meets_def)
      then have q': "is_array q" "addr q = addr p"
        using True a meets_array_iff [of w q] by auto
      have "is_array p"
        using comparableD(3) [OF assms(4), of p w] True a base_in_footprint [of p] assms(1) qs by auto
      then have "wr q"
        using assms(5) q q' qs unfolding views_agree_def by (metis list.set_intros(1))
      then show "footprint w \<subseteq> writes qs"
        using q by (auto simp: writes_def)
    qed
    ultimately show ?thesis
      using True by (auto simp: superseded_def qs)
  qed
qed

definition comparison_ok :: "arg_info list \<Rightarrow> arg_info list \<Rightarrow> bool" where
  "comparison_ok ps ws \<longleftrightarrow>
     list_all wf_arg ps \<and> sorted_wrt arg_before ps \<and> list_all wf_arg ws \<and>
     sorted_wrt arg_before ws \<and> comparable ps ws \<and> shared_reads_ok ps ws \<and> views_agree ps"

lemma writes_suffix: "suffix qs ps \<Longrightarrow> writes qs \<subseteq> writes ps"
  by (auto simp: suffix_def writes_def)

lemma comparison_suffix:
  assumes "comparison_ok ps ws" "suffix qs ps" "w \<in> set ws"
  shows "list_all wf_arg qs" "sorted_wrt arg_before qs" "wf_arg w" "comparable qs [w]" "views_agree qs"
proof -
  have sub: "set qs \<subseteq> set ps" using assms(2) by (rule set_mono_suffix)
  show "list_all wf_arg qs" "wf_arg w"
    using assms sub by (auto simp: comparison_ok_def list_all_iff)
  show "sorted_wrt arg_before qs"
    using assms by (auto simp: comparison_ok_def suffix_def sorted_wrt_append)
  show "comparable qs [w]"
    using assms sub by (auto simp: comparison_ok_def intro: comparable_subset)
  show "views_agree qs"
    using assms sub unfolding comparison_ok_def views_agree_def by (meson subsetD)
qed

text \<open>
  A dependency is recorded exactly when the two tasks conflict, and an argument is taken off
  the vector only when the older task writes all of it.
\<close>

lemma compare_args_correct:
  assumes "comparison_ok ps ws" "argv_holds n argv ws"
  obtains c n' argv' ws' where "compare_args ps n argv = Some (c, n', argv')"
    and "c \<longleftrightarrow> conflicts ps ws" and "argv_holds n' argv' ws'"
    and "ws' = ws \<or> (\<exists>i < length ws. ws' = take i ws @ drop (Suc i) ws \<and>
                        footprint (ws ! i) \<subseteq> writes ps)"
proof -
  obtain junk where a: "argv = map Slot ws @ Null # junk"
    using assms(2) by (auto simp: argv_holds_def)
  have right: "scan_right ps ws 0 (scan ps argv 0)"
    unfolding a using assms(1) by (intro scan_correct) (auto simp: comparison_ok_def)
  show ?thesis
  proof (cases "scan ps argv 0")
    case NoConflict
    then show ?thesis
      using right assms(2) by (intro that) (auto simp: compare_args_def scan_right_def)
  next
    case BadRead
    then show ?thesis
      using right by (simp add: scan_right_def)
  next
    case (Conflict qs i)
    then have r: "suffix qs ps" "i < length ws" "conflict qs (ws ! i) = Some True"
      "\<exists>q \<in> set qs. (wr q \<or> wr (ws ! i)) \<and> meets q (ws ! i)"
      using right by (auto simp: scan_right_def)
    have cf: "conflicts ps ws"
      using r set_mono_suffix [OF r(1)] unfolding conflicts_def by (meson nth_mem subsetD)
    obtain d where d: "superseded qs (ws ! i) = Some d" "d \<longrightarrow> footprint (ws ! i) \<subseteq> writes qs"
      using superseded_total comparison_suffix [OF assms(1) r(1) nth_mem [OF r(2)]] r(3) by blast
    have slot: "argv ! i = Slot (ws ! i)" using a r(2) by (simp add: nth_append)
    show ?thesis
    proof (cases d)
      case True
      then have "footprint (ws ! i) \<subseteq> writes ps"
        using d(2) writes_suffix [OF r(1)] by blast
      then have drop: "\<exists>k < length ws. take i ws @ drop (Suc i) ws = take k ws @ drop (Suc k) ws \<and>
          footprint (ws ! k) \<subseteq> writes ps"
        using r(2) by blast
      have "compare_args ps n argv = Some (True, n - 1, shift_argv i (n - 1) argv)"
        using Conflict d(1) slot True by (simp add: compare_args_def)
      with cf shift_argv_holds [OF assms(2) r(2)] drop show ?thesis
        by (intro that [of True]) auto
    next
      case False
      then show ?thesis
        using Conflict d slot cf assms(2) by (intro that) (auto simp: compare_args_def)
    qed
  qed
qed

text \<open>With more slots than arguments, the merge runs into a slot that was never written.\<close>

lemma scan_uninit:
  assumes "length args < nargs" "list_all (\<lambda>w. addr w \<le> addr p \<and> conflict (p # ps) w = Some False) args"
  shows "scan (p # ps) (build_argv nargs args) 0 = BadRead"
proof -
  have "scan (p # ps) (map Slot args @ Uninit # junk) i = BadRead" for junk i
    using assms(2) by (induction args arbitrary: i) auto
  moreover have "replicate (nargs - length args) Uninit = Uninit # replicate (nargs - Suc (length args)) Uninit"
    using assms(1) by (metis Suc_diff_Suc replicate_Suc)
  ultimately show ?thesis
    using assms(1) by (simp add: build_argv_eq)
qed

section \<open>Containment in an ancestor\<close>

lemma wf_end_before:
  assumes "wf_arg w" "\<not> is_array w" "addr w + asize w \<le> e"
  shows "addr w \<le> e - 1"
proof -
  note W = wf_scalarD [OF assms(1,2)]
  have "unat (addr w) < unat e"
    using assms(3) W by (simp add: word_le_nat_alt unat_add_no_wrap)
  then have "1 \<le> e" "unat (addr w) \<le> unat e - 1"
    by (simp_all add: word_le_nat_alt)
  then show ?thesis
    by (simp add: word_le_nat_alt unat_sub_le)
qed

lemma is_contained_loop_sound:
  assumes "list_all wf_arg ws" "sorted_wrt arg_before ps" "list_all wf_arg ps" "comparable ps ws"
    and "is_contained_loop ws ps = Some True"
  shows "accesses ws \<subseteq> accesses ps"
  using assms
proof (induction ws ps rule: is_contained_loop.induct)
  case (3 w ws p ps)
  have sub: "comparable ps (w # ws)" "comparable (p # ps) ws"
    using "3.prems"(4) by (auto intro: comparable_subset)
  consider (arr) "\<not> addr w < addr p" "is_array w" "addr p = addr w"
    | (arr_skip) "\<not> addr w < addr p" "is_array w" "addr p \<noteq> addr w"
    | (inside) "\<not> addr w < addr p" "\<not> is_array w" "addr w + asize w \<le> addr p + asize p"
    | (skip) "\<not> addr w < addr p" "\<not> is_array w" "\<not> addr w + asize w \<le> addr p + asize p"
    using "3.prems"(5) by (auto split: if_splits)
  then show ?case
  proof cases
    case arr
    have "is_contained_array w (p # ps) = Some (\<exists>q \<in> set (p # ps). footprint w \<subseteq> footprint q)"
      using "3.prems" arr comparable_head [OF "3.prems"(4)]
      by (intro is_contained_array_iff comparable_same_ranks) auto
    then have c: "is_contained_array w (p # ps) = Some True" "is_contained_loop ws (p # ps) = Some True"
      "\<exists>q \<in> set (p # ps). footprint w \<subseteq> footprint q"
      using "3.prems"(5) arr by (auto split: if_splits)
    have "accesses ws \<subseteq> accesses (p # ps)"
      using "3.IH"(1) arr c "3.prems" sub by auto
    then show ?thesis
      using c(3) by (auto simp: accesses_def)
  next
    case arr_skip
    then show ?thesis
      using "3.IH"(2) "3.prems" sub by auto
  next
    case inside
    then have in_p: "accesses ws \<subseteq> accesses (p # ps)"
      using "3.IH"(3) "3.prems" sub by auto
    have wf: "wf_arg w" "wf_arg p" using "3.prems" by auto
    have np: "\<not> is_array p"
    proof
      assume p: "is_array p"
      then have "\<not> overlaps p w"
        using comparableD(1) [OF "3.prems"(4), of p w] inside by auto
      then show False
        using inside(1) wf_end_before [OF wf(1) inside(2,3)]
        by (simp add: overlaps_def overlaps_intervals_def not_less)
    qed
    have "contains p w"
      using inside by (auto simp: contains_def contains_intervals_def)
    then show ?thesis
      using in_p np inside wf by (auto simp: contains_scalar)
  next
    case skip
    then show ?thesis
      using "3.IH"(4) "3.prems" sub by auto
  qed
qed auto

text \<open>The check never fails: the descriptors of one array agree on its rank.\<close>

lemma is_contained_loop_total:
  assumes "list_all wf_arg ws" "sorted_wrt arg_before ps" "list_all wf_arg ps" "comparable ps ws"
  shows "is_contained_loop ws ps \<noteq> None"
  using assms
proof (induction ws ps rule: is_contained_loop.induct)
  case (3 w ws p ps)
  have sub: "comparable ps (w # ws)" "comparable (p # ps) ws"
    using "3.prems"(4) by (auto intro: comparable_subset)
  have arr: "is_contained_array w (p # ps) \<noteq> None" if "is_array w" "addr p = addr w"
  proof -
    have "same_ranks w (p # ps)"
      using "3.prems" that(1) comparable_head [OF "3.prems"(4)] by (intro comparable_same_ranks) auto
    then show ?thesis
      using "3.prems" that by (subst is_contained_array_iff) auto
  qed
  show ?case
    using 3 sub arr by (auto simp del: is_contained_array.simps) blast
qed auto

section \<open>Properties\<close>

lemmas comparison_defs = sample_defs comparison_ok_def comparable_def shared_reads_ok_def views_agree_def
  overlaps_def overlaps_intervals_def



text \<open>
  What the comparison takes off the vector of pending arguments is one argument, and only
  when every location of it may be written by the older task; the vector then holds the others,
  in order, closed by the null pointer.
\<close>

theorem comparison_drops:
  assumes "comparison_ok ps ws" "argv_holds n argv ws" "compare_args ps n argv = Some (c, n', argv')"
  shows "(n' = n \<and> argv_holds n' argv' ws) \<or>
         (\<exists>i < length ws. c \<and> argv_holds n' argv' (take i ws @ drop (Suc i) ws) \<and> footprint (ws ! i) \<subseteq> writes ps)"
proof -
  obtain ws' where r: "c = conflicts ps ws" "argv_holds n' argv' ws'"
    "ws' = ws \<or> (\<exists>i < length ws. ws' = take i ws @ drop (Suc i) ws \<and> footprint (ws ! i) \<subseteq> writes ps)"
    using compare_args_correct [OF assms(1,2)] assms(3) by (metis Pair_inject option.inject)
  show ?thesis
  proof (cases "ws' = ws")
    case True
    then show ?thesis using r(2) assms(2) by (simp add: argv_holds_def)
  next
    case False
    then obtain i where i: "i < length ws" "ws' = take i ws @ drop (Suc i) ws" "footprint (ws ! i) \<subseteq> writes ps"
      using r(3) by blast
    have "wf_arg (ws ! i)" using assms(1) i(1) by (simp add: comparison_ok_def list_all_iff)
    then have "writes ps \<inter> accesses ws \<noteq> {}"
      using footprint_nonempty [of "ws ! i"] i(1,3) nth_mem by (fastforce simp: accesses_def)
    then have c using r(1) by (simp add: conflicts_iff)
    then show ?thesis using r(2) i by blast
  qed
qed

lemma comparison_drops_witness:
  "(1 = (2::nat) \<and> argv_holds 1 [Slot (region 2000 4 False), Null, Null] [region 1000 4 True, region 2000 4 False]) \<or>
   (\<exists>i < length [region 1000 4 True, region 2000 4 False]. True \<and>
      argv_holds 1 [Slot (region 2000 4 False), Null, Null]
        (take i [region 1000 4 True, region 2000 4 False] @ drop (Suc i) [region 1000 4 True, region 2000 4 False]) \<and>
      footprint ([region 1000 4 True, region 2000 4 False] ! i) \<subseteq> writes [region 1000 8 True])"
proof (rule comparison_drops)
  show "comparison_ok [region 1000 8 True] [region 1000 4 True, region 2000 4 False]"
    by (auto simp: comparison_defs)
  show "argv_holds 2 (build_argv 2 [region 1000 4 True, region 2000 4 False]) [region 1000 4 True, region 2000 4 False]"
    by (rule build_argv_holds) simp
  show "compare_args [region 1000 8 True] 2 (build_argv 2 [region 1000 4 True, region 2000 4 False]) =
      Some (True, 1, [Slot (region 2000 4 False), Null, Null])"
    by code_simp
qed

text \<open>
  When more arguments were counted than the list holds (an argument passed twice), the merge
  with an older task whose first region conflicts with none of them and does not start before
  any of them reads a slot of the vector that was never written.
\<close>

theorem scan_reads_uninitialised:
  assumes "length as < nargs" "list_all (\<lambda>w. addr w \<le> addr p \<and> conflict (p # ps) w = Some False) as"
  shows "scan (p # ps) (build_argv nargs as) 0 = BadRead"
  using assms by (rule scan_uninit)

lemma scan_reads_uninitialised_witness:
  "scan [region 2000 4 True] (build_argv 2 [region 1000 4 True]) 0 = BadRead"
  by (rule scan_reads_uninitialised) (simp_all add: conflict_def overlaps_def overlaps_intervals_def)

text \<open>
  C29: A conflict the merge does not see: the older task reads four bytes and writes the next
  four, the newer task reads all eight. The common read moves the merge past the region of the
  newer task, and no dependency is found.
\<close>

theorem comparison_misses_conflict:
  "compare_args [region 1000 4 False, region 1004 4 True] 1 (build_argv 1 [region 1000 8 False]) =
     Some (False, 1, build_argv 1 [region 1000 8 False]) \<and>
   conflicts [region 1000 4 False, region 1004 4 True] [region 1000 8 False]"
proof
  show "compare_args [region 1000 4 False, region 1004 4 True] 1 (build_argv 1 [region 1000 8 False]) =
     Some (False, 1, build_argv 1 [region 1000 8 False])"
    by code_simp
  show "conflicts [region 1000 4 False, region 1004 4 True] [region 1000 8 False]"
    by (simp add: conflicts_def meets_def footprint_scalar Byte_image_Int)
qed

text \<open>
  When \<open>is_contained\<close> answers yes, every location of the arguments of the task is a location
  of an argument of the ancestor; the check itself never fails.
\<close>

theorem is_contained_right:
  assumes "list_all wf_arg ws" "sorted_wrt arg_before ps" "list_all wf_arg ps" "comparable ps ws"
  shows "is_contained_loop ws ps \<noteq> None \<and>
         (is_contained_loop ws ps = Some True \<longrightarrow> accesses ws \<subseteq> accesses ps)"
  using is_contained_loop_total [OF assms] is_contained_loop_sound [OF assms] by blast

lemma is_contained_right_witness:
  "accesses [region 1004 4 True] \<subseteq> accesses [region 1000 16 True]"
proof -
  have "is_contained_loop [region 1004 4 True] [region 1000 16 True] = Some True" by code_simp
  moreover have "is_contained_loop [region 1004 4 True] [region 1000 16 True] \<noteq> None \<and>
     (is_contained_loop [region 1004 4 True] [region 1000 16 True] = Some True \<longrightarrow>
        accesses [region 1004 4 True] \<subseteq> accesses [region 1000 16 True])"
    by (rule is_contained_right) (auto simp: comparison_defs)
  ultimately show ?thesis by blast
qed

end
