(* ===== verification/Workitem.thy ===== *)
theory Workitem
  imports DepScan
begin

text \<open>
  The tasks and the state of the runtime: \<open>struct Workitem\<close> (\<open>src/include/depspawn/workitem.h\<close>),
  the globals of \<open>src/src/depspawn.cpp\<close>, and the operations of \<open>src/src/workitem.cpp\<close>:
  construction, \<open>insert_in_worklist\<close>, \<open>post\<close>, \<open>finish_execution\<close>, \<open>Clean_worklist\<close>.

  A \<open>Workitem*\<close> is a natural number, looked up in a heap; \<open>nullptr\<close> is \<open>None\<close>. Every operation is
  the code of one thread run without interruption, in the configuration the build files choose
  by default (own thread pool, \<open>DEPSPAWN_FAST_START\<close>). The result \<open>None\<close> stands for an access
  through a null or dangling pointer, a failed assertion, or a spin loop that the state does
  not let the thread leave.
\<close>

section \<open>Data\<close>

datatype status_t = Filling | Waiting | Ready | Running | Done | Deallocatable

text \<open>The values of the enumeration; the code compares states with \<open><\<close>.\<close>

fun status_value :: "status_t \<Rightarrow> nat" where
  "status_value Filling = 0"
| "status_value Waiting = 1"
| "status_value Ready = 2"
| "status_value Running = 3"
| "status_value Done = 4"
| "status_value Deallocatable = 5"

lemma status_value_inj: "status_value a = status_value b \<Longrightarrow> a = b"
  by (cases a; cases b) auto

instantiation status_t :: linorder
begin

definition less_eq_status_t :: "status_t \<Rightarrow> status_t \<Rightarrow> bool" where
  "less_eq_status_t a b = (status_value a \<le> status_value b)"

definition less_status_t :: "status_t \<Rightarrow> status_t \<Rightarrow> bool" where
  "less_status_t a b = (status_value a < status_value b)"

instance
  by standard (auto simp: less_eq_status_t_def less_status_t_def dest: status_value_inj)

end

lemma less_Done_iff: "st < Done \<longleftrightarrow> st \<noteq> Done \<and> st \<noteq> Deallocatable"
  by (cases st) (auto simp: less_status_t_def)

lemma less_Ready_iff: "st < Ready \<longleftrightarrow> st = Filling \<or> st = Waiting"
  by (cases st) (auto simp: less_status_t_def)

definition PendingFills :: "16 word" where "PendingFills = 1"

definition FatherScape :: "16 word" where "FatherScape = 2"

type_synonym wid = nat

text \<open>\<open>TaskPool::Task\<close>: the function to run (by its number) and the task it belongs to.\<close>

record task_t =
  func :: nat
  ctx :: "wid option"

record workitem =
  status :: status_t
  optFlags :: "16 word"
  guard :: "8 word"
  nargs :: "8 word"
  args :: "arg_info list"
  nxt :: "wid option"
  father :: "wid option"
  ndependencies :: int
  nchildren :: int
  task :: "task_t option"
  deps :: "wid list"

text \<open>The globals, the tasks in the heap, and the queue of the thread pool.\<close>

record runtime =
  heap :: "wid \<Rightarrow> workitem option"
  worklist :: "wid option"
  eraser_assigned :: bool
  ObserversAtWork :: int
  Nthreads :: int
  FAST_THRESHOLD :: int
  tqueue :: "task_t list"

definition upd :: "wid \<Rightarrow> (workitem \<Rightarrow> workitem) \<Rightarrow> runtime \<Rightarrow> runtime option" where
  "upd w f s =
     (case heap s w of None \<Rightarrow> None | Some x \<Rightarrow> Some (s\<lparr>heap := (heap s)(w \<mapsto> f x)\<rparr>))"

section \<open>Construction and launch\<close>

text \<open>The constructor, for the storage \<open>w\<close> that the pool hands out; \<open>fa\<close> is the task that runs.\<close>

definition new_workitem ::
  "wid \<Rightarrow> arg_info list \<Rightarrow> int \<Rightarrow> wid option \<Rightarrow> runtime \<Rightarrow> runtime option"
where
  "new_workitem w iargs n fa s =
     (let s1 = s\<lparr>heap := (heap s)(w \<mapsto>
                 \<lparr>status = Filling, optFlags = 0, guard = 0, nargs = word_of_int n, args = iargs,
                  nxt = None, father = fa, ndependencies = 0, nchildren = 1, task = None,
                  deps = []\<rparr>)\<rparr>
      in case fa of
           None \<Rightarrow> Some s1
         | Some f \<Rightarrow> upd f (\<lambda>x. x\<lparr>nchildren := nchildren x + 1\<rparr>) s1)"

definition post :: "wid \<Rightarrow> runtime \<Rightarrow> runtime option" where
  "post w s =
     do {
       s1 \<leftarrow> upd w (\<lambda>x. x\<lparr>status := Ready\<rparr>) s;
       x \<leftarrow> heap s1 w;
       t \<leftarrow> task x;
       Some (s1\<lparr>tqueue := tqueue s1 @ [t]\<rparr>)
     }"

section \<open>Insertion in the worklist\<close>

text \<open>The local variables of the main loop.\<close>

record locals =
  n_args :: nat
  argv :: "slot list"
  ancestor :: "wid option"
  nready :: nat
  nfillwait :: nat

definition link_dep :: "wid \<Rightarrow> wid \<Rightarrow> runtime \<Rightarrow> runtime option" where
  "link_dep this p s =
     do {
       s1 \<leftarrow> upd this (\<lambda>x. x\<lparr>ndependencies := ndependencies x + 1\<rparr>) s;
       upd p (\<lambda>x. x\<lparr>deps := deps x @ [this]\<rparr>) s1
     }"

text \<open>The branch for an active task \<open>p\<close> that is no ancestor.\<close>

definition compare_with :: "wid \<Rightarrow> wid \<Rightarrow> locals \<Rightarrow> runtime \<Rightarrow> (locals \<times> runtime) option" where
  "compare_with this p l s =
     do {
       x \<leftarrow> heap s p;
       (found, n, av) \<leftarrow> compare_args (args x) (n_args l) (argv l);
       s1 \<leftarrow> (if found then link_dep this p s else Some s);
       y \<leftarrow> heap s1 p;
       s2 \<leftarrow> (if status y = Filling
              then upd this (\<lambda>t. t\<lparr>optFlags := optFlags t OR PendingFills\<rparr>) s1
              else Some s1);
       Some (l\<lparr>n_args := n, argv := av,
               nfillwait := nfillwait l + (if status y < Ready then 1 else 0),
               nready := nready l + (if status y = Ready then 1 else 0)\<rparr>, s2)
     }"

definition is_contained :: "wid \<Rightarrow> wid \<Rightarrow> runtime \<Rightarrow> bool option" where
  "is_contained w anc s =
     do { x \<leftarrow> heap s w; y \<leftarrow> heap s anc; is_contained_loop (args x) (args y) }"

text \<open>One iteration; the flag is the \<open>break\<close>.\<close>

definition visit :: "wid \<Rightarrow> wid \<Rightarrow> locals \<Rightarrow> runtime \<Rightarrow> (bool \<times> locals \<times> runtime) option" where
  "visit this p l s =
     (if p = this then Some (False, l, s)
      else if ancestor l = Some p then
        do {
          x \<leftarrow> heap s p;
          escapes \<leftarrow> (case father x of None \<Rightarrow> Some False | Some a \<Rightarrow> is_contained this a s);
          s1 \<leftarrow> (if escapes
                 then upd this (\<lambda>t. t\<lparr>optFlags := optFlags t OR FatherScape\<rparr>) s
                 else Some s);
          Some (escapes, l\<lparr>ancestor := father x\<rparr>, s1)
        }
      else
        do {
          x \<leftarrow> heap s p;
          if status x < Done
          then do { (l1, s1) \<leftarrow> compare_with this p l s; Some (False, l1, s1) }
          else Some (False, l, s)
        })"

partial_function (option) scan_worklist ::
  "wid \<Rightarrow> wid option \<Rightarrow> locals \<Rightarrow> runtime \<Rightarrow> (locals \<times> runtime) option"
where
  [code]: "scan_worklist this p l s =
     (case p of
        None \<Rightarrow> Some (l, s)
      | Some q \<Rightarrow>
          do {
            (stop, l1, s1) \<leftarrow> visit this q l s;
            if stop then Some (l1, s1)
            else do { x \<leftarrow> heap s1 q; scan_worklist this (nxt x) l1 s1 }
          })"

text \<open>Whether the thread should run one of the ready tasks before it goes on.\<close>

definition fast_start :: "locals \<Rightarrow> runtime \<Rightarrow> bool" where
  "fast_start l s =
     (int (nready l) > FAST_THRESHOLD s \<or>
      (int (nready l) > Nthreads s \<and> int (nfillwait l) > FAST_THRESHOLD s))"

text \<open>
  The whole operation. The result flag is \<open>steal_work\<close>: the caller then runs a task of the
  queue, which is a step of its own. A vector shorter than the list cannot be filled.
\<close>

definition insert_in_worklist :: "wid \<Rightarrow> task_t \<Rightarrow> runtime \<Rightarrow> (bool \<times> runtime) option" where
  "insert_in_worklist w itask s =
     do {
       x \<leftarrow> heap s w;
       (if sint (nargs x) < int (length (args x)) then None else Some ());
       let n = nat (sint (nargs x));
       let av = build_argv n (args x);
       s1 \<leftarrow> upd w (\<lambda>t. t\<lparr>task := Some itask, nxt := worklist s\<rparr>) s;
       (l, s2) \<leftarrow> scan_worklist w (worklist s)
          \<lparr>n_args = n, argv = av, ancestor = father x, nready = 0, nfillwait = 0\<rparr>
          (s1\<lparr>worklist := Some w\<rparr>);
       y \<leftarrow> heap s2 w;
       s3 \<leftarrow> (if ndependencies y = 0 then post w s2
              else upd w (\<lambda>t. t\<lparr>status := Waiting\<rparr>) s2);
       Some (fast_start l s2, s3)
     }"

section \<open>Completion of a task\<close>

text \<open>The condition under which a finishing thread takes the role of the eraser.\<close>

definition erase_candidate :: "wid \<Rightarrow> bool" where
  "erase_candidate w = ((w div 2 ^ 8) mod 2 ^ 12 < 32)"

definition try_eraser :: "wid \<Rightarrow> bool \<Rightarrow> runtime \<Rightarrow> bool \<times> runtime" where
  "try_eraser current erase s =
     (if erase then (True, s)
      else if erase_candidate current \<and> ObserversAtWork s = 0 \<and> \<not> eraser_assigned s
      then (True, s\<lparr>eraser_assigned := True\<rparr>)
      else (False, s))"

text \<open>The loop that waits for the tasks that are still being filled in.\<close>

partial_function (option) wait_fillers :: "wid \<Rightarrow> wid option \<Rightarrow> runtime \<Rightarrow> unit option" where
  [code]: "wait_fillers this p s =
     (case p of
        None \<Rightarrow> Some ()
      | Some q \<Rightarrow>
          if q = this then Some ()
          else
            do {
              x \<leftarrow> heap s q;
              if status x = Filling then None
              else if optFlags x AND PendingFills = 0 then
                (if optFlags x AND FatherScape \<noteq> 0 then
                   (if status x < Done
                    then do { f \<leftarrow> father x; y \<leftarrow> heap s f; wait_fillers this (nxt y) s }
                    else wait_fillers this (nxt x) s)
                 else Some ())
              else wait_fillers this (nxt x) s
            })"

fun release_deps :: "wid list \<Rightarrow> runtime \<Rightarrow> runtime option" where
  "release_deps [] s = Some s"
| "release_deps (w # ws) s =
     do {
       x \<leftarrow> heap s w;
       s1 \<leftarrow> upd w (\<lambda>x. x\<lparr>ndependencies := ndependencies x - 1\<rparr>) s;
       s2 \<leftarrow> (if ndependencies x = 1 then post w s1 else Some s1);
       release_deps ws s2
     }"

text \<open>The body of the \<open>do\<close> loop for the task \<open>current\<close>; the first result is its father.\<close>

definition finish_step ::
  "wid \<Rightarrow> wid \<Rightarrow> bool \<Rightarrow> runtime \<Rightarrow> (wid option \<times> bool \<times> wid option \<times> runtime) option"
where
  "finish_step this current erase s =
     do {
       s1 \<leftarrow> upd current (\<lambda>x. x\<lparr>status := Done\<rparr>) s;
       let (erase', s2) = try_eraser current erase s1;
       let hint = worklist s2;
       wait_fillers this hint s2;
       x \<leftarrow> heap s2 current;
       s3 \<leftarrow> release_deps (deps x) s2;
       s4 \<leftarrow> upd current (\<lambda>x. x\<lparr>deps := [], args := [], status := Deallocatable\<rparr>) s3;
       Some (father x, erase', hint, s4)
     }"

partial_function (option) finish_loop ::
  "wid \<Rightarrow> wid \<Rightarrow> bool \<Rightarrow> runtime \<Rightarrow> (bool \<times> wid option \<times> runtime) option"
where
  [code]: "finish_loop this current erase s =
     do {
       (p, erase', hint, s1) \<leftarrow> finish_step this current erase s;
       (case p of
          None \<Rightarrow> Some (erase', hint, s1)
        | Some f \<Rightarrow>
            do {
              y \<leftarrow> heap s1 f;
              s2 \<leftarrow> upd f (\<lambda>x. x\<lparr>nchildren := nchildren x - 1\<rparr>) s1;
              if nchildren y = 1 then finish_loop this f erase' s2
              else Some (erase', hint, s2)
            })
     }"

end
