(* ===== verification/Config.thy ===== *)
theory Config
  imports ThreadPool Workitem
begin

text \<open>
  The configuration of the library in \<open>src/src/depspawn.cpp\<close>: the environment variables read by
  the constructor of \<open>EnvInitClass\<close>, \<open>set_threads\<close> and \<open>get_num_threads\<close>, the limit of the
  queue, \<open>get_task_pool\<close>; and the two functions that report on the state of the library,
  \<open>profile_display_results\<close> and \<open>debug_follow_list\<close>.

  \<open>hc\<close> is the answer of \<open>std::thread::hardware_concurrency\<close>. A signed overflow, an exception
  and a failed assertion are values of an error type.
\<close>

section \<open>Reading numbers\<close>

text \<open>\<open>strtol\<close> of the C library with base 0, as the code calls it, for 64-bit \<open>long\<close>.\<close>

definition digit_value :: "char \<Rightarrow> int" where
  "digit_value c =
     (let n = of_char c :: nat
      in if 48 \<le> n \<and> n \<le> 57 then int n - 48
         else if 97 \<le> n \<and> n \<le> 122 then int n - 87
         else if 65 \<le> n \<and> n \<le> 90 then int n - 55
         else 36)"

fun digits :: "int \<Rightarrow> int \<Rightarrow> string \<Rightarrow> int" where
  "digits b acc [] = acc"
| "digits b acc (c # cs) = (if digit_value c < b then digits b (acc * b + digit_value c) cs else acc)"

definition is_space :: "char \<Rightarrow> bool" where
  "is_space c = (let n = of_char c :: nat in n = 32 \<or> 9 \<le> n \<and> n \<le> 13)"

text \<open>Without a sign; \<open>0x\<close> before a hexadecimal digit means base 16, another \<open>0\<close> base 8.\<close>

definition unsigned_digits :: "string \<Rightarrow> int" where
  "unsigned_digits s =
     (case s of
        [] \<Rightarrow> 0
      | z # cs \<Rightarrow>
          if z \<noteq> CHR ''0'' then digits 10 0 s
          else if length cs \<ge> 2 \<and> cs ! 0 \<in> {CHR ''x'', CHR ''X''} \<and> digit_value (cs ! 1) < 16
          then digits 16 0 (tl cs)
          else digits 8 0 cs)"

fun signed_digits :: "string \<Rightarrow> int" where
  "signed_digits (c # cs) =
     (if c = CHR ''-'' then - unsigned_digits cs
      else if c = CHR ''+'' then unsigned_digits cs
      else unsigned_digits (c # cs))"
| "signed_digits [] = 0"

definition strtol :: "string \<Rightarrow> int" where
  "strtol s = max (- (2 ^ 63)) (min (2 ^ 63 - 1) (signed_digits (dropWhile is_space s)))"

text \<open>The conversions of C to \<open>int\<close>.\<close>

definition to_int :: "int \<Rightarrow> int" where
  "to_int x = sint (word_of_int x :: 32 word)"

section \<open>The globals\<close>

datatype error = Invalid_threads | Invalid_limit | Signed_overflow | Negative_threads | Assertion_failed

text \<open>The pool, if it was built, is the number of its threads.\<close>

record config =
  TP :: "nat option"
  Nthreads :: int
  EnqueueTasks :: bool
  FAST_THRESHOLD :: int
  FAST_THRESHOLD_ExplicitlySet :: bool

definition uninitialised :: config where
  "uninitialised = \<lparr>TP = None, Nthreads = 0, EnqueueTasks = False, FAST_THRESHOLD = 0,
     FAST_THRESHOLD_ExplicitlySet = False\<rparr>"

definition signed_times2 :: "int \<Rightarrow> error + int" where
  "signed_times2 x = (if 2 * x < - (2 ^ 31) \<or> 2 ^ 31 \<le> 2 * x then Inl Signed_overflow else Inr (2 * x))"

text \<open>
  \<open>hardware_concurrency\<close> is unsigned, so the conditional expression of \<open>set_threads\<close> is.
\<close>

definition set_threads :: "32 word \<Rightarrow> int \<Rightarrow> config \<Rightarrow> error + config" where
  "set_threads hc n c =
     (let w = (if n < 0 then hc + word_of_int n else word_of_int (n - 1)) + 1;
          c1 = c\<lparr>TP := None, Nthreads := sint w\<rparr>
      in if \<not> FAST_THRESHOLD_ExplicitlySet c
         then (case signed_times2 (sint w) of
                 Inl e \<Rightarrow> Inl e
               | Inr t \<Rightarrow> Inr (c1\<lparr>FAST_THRESHOLD := t\<rparr>))
         else Inr c1)"

definition get_num_threads :: "config \<Rightarrow> int" where
  "get_num_threads c = Nthreads c"

definition set_task_queue_limit :: "int \<Rightarrow> config \<Rightarrow> config" where
  "set_task_queue_limit limit c = c\<lparr>FAST_THRESHOLD := limit, FAST_THRESHOLD_ExplicitlySet := True\<rparr>"

definition get_task_queue_limit :: "config \<Rightarrow> int" where
  "get_task_queue_limit c = FAST_THRESHOLD c"

text \<open>\<open>get_task_pool\<close> builds the pool; its threads are the ones of a new \<open>ThreadPool\<close>.\<close>

definition get_task_pool :: "32 word \<Rightarrow> config \<Rightarrow> error + config" where
  "get_task_pool hc c =
     (case TP c of
        Some k \<Rightarrow> Inr c
      | None \<Rightarrow>
          (case resize (sint hc) (Nthreads c - 1) no_threads of
             None \<Rightarrow> Inl Negative_threads
           | Some p \<Rightarrow>
               if Nthreads c = int (in_use p) + 1 then Inr (c\<lparr>TP := Some (in_use p)\<rparr>)
               else Inl Assertion_failed))"

type_synonym environment = "string \<Rightarrow> string option"

definition EnvInitClass :: "32 word \<Rightarrow> environment \<Rightarrow> error + config" where
  "EnvInitClass hc getenv =
     (let n = (case getenv ''DEPSPAWN_NUM_THREADS'' of None \<Rightarrow> sint hc | Some v \<Rightarrow> to_int (strtol v))
      in if n \<le> 0 then Inl Invalid_threads
         else
           (case set_threads hc n (uninitialised\<lparr>Nthreads := n\<rparr>) of
              Inl e \<Rightarrow> Inl e
            | Inr c \<Rightarrow>
                let c1 = c\<lparr>EnqueueTasks := getenv ''DEPSPAWN_ENQUEUE_TASKS'' \<noteq> None\<rparr>;
                    l = getenv ''DEPSPAWN_TASK_QUEUE_LIMIT'';
                    c2 = c1\<lparr>FAST_THRESHOLD_ExplicitlySet := l \<noteq> None\<rparr>
                in case (case l of Some v \<Rightarrow> Inr (to_int (strtol v)) | None \<Rightarrow> signed_times2 (Nthreads c2)) of
                     Inl e \<Rightarrow> Inl e
                   | Inr t \<Rightarrow>
                       if t < 0 then Inl Invalid_limit else Inr (c2\<lparr>FAST_THRESHOLD := t\<rparr>)))"

section \<open>Reports\<close>

text \<open>
  The counters of the profiling build, \<open>unsigned int\<close> and \<open>unsigned long long\<close>; the time is a
  value that is only printed and reset.
\<close>

record 'd profile =
  jobs :: "32 word"
  steals :: "32 word"
  steal_attempts :: "32 word"
  early_terminations :: "32 word"
  in_list :: "64 word"
  in_list_active :: "64 word"
  in_list_early :: "64 word"
  in_list_active_early :: "64 word"
  erases :: "32 word"
  eraser_waiting :: 'd

text \<open>What the two lines print, in their order, without the time.\<close>

definition average :: "64 word \<Rightarrow> 32 word \<Rightarrow> 32 word" where
  "average sum_all n = (if n = 0 then 0 else ucast (sum_all div ucast n))"

definition profile_display_results :: "'d \<Rightarrow> bool \<Rightarrow> 'd profile \<Rightarrow> 32 word list \<times> 32 word list \<times> 'd profile" where
  "profile_display_results zero reset s =
     ([jobs s, steals s, steal_attempts s - steals s, erases s,
       average (in_list s) (jobs s), average (in_list_active s) (jobs s)],
      [early_terminations s, average (in_list_early s) (early_terminations s),
       average (in_list_active_early s) (early_terminations s)],
      if reset
      then \<lparr>jobs = 0, steals = 0, steal_attempts = 0, early_terminations = 0, in_list = 0,
            in_list_active = 0, in_list_early = 0, in_list_active_early = 0, erases = 0,
            eraser_waiting = zero\<rparr>
      else s)"

text \<open>\<open>debug_follow_list\<close>: how many nodes a list has, and how many in each state.\<close>

definition Nstates :: nat where "Nstates = status_value Deallocatable + 1"

partial_function (option) follow ::
  "wid option \<Rightarrow> nat \<Rightarrow> nat list \<Rightarrow> runtime \<Rightarrow> (nat \<times> nat list) option"
where
  [code]: "follow p n stath s =
     (case p of
        None \<Rightarrow> Some (n, stath)
      | Some q \<Rightarrow> Option.bind (heap s q) (\<lambda>x.
          let i = status_value (status x)
          in follow (nxt x) (n + 1) (stath[i := stath ! i + 1]) s))"

definition debug_follow_list :: "wid option \<Rightarrow> runtime \<Rightarrow> (nat \<times> nat list) option" where
  "debug_follow_list p s = follow p 0 (replicate Nstates 0) s"

section \<open>What they report\<close>

lemma status_value_less: "status_value st < Nstates"
  by (cases st) (simp_all add: Nstates_def)

lemma follow_counts:
  "chain (\<lambda>q. map_option nxt (heap s q)) p ps None \<Longrightarrow> length stath = Nstates \<Longrightarrow>
   follow p n stath s = Some (n + length ps,
     map (\<lambda>i. stath ! i + length (filter (\<lambda>q. status_value (status (the (heap s q))) = i) ps)) [0 ..< Nstates])"
proof (induction ps arbitrary: p n stath)
  case Nil
  then have "map ((!) stath) [0 ..< Nstates] = stath" using map_nth [of stath] by simp
  then show ?case using Nil by (simp add: follow.simps)
next
  case (Cons q ps)
  then obtain x where x: "p = Some q" "heap s q = Some x"
    "chain (\<lambda>q. map_option nxt (heap s q)) (nxt x) ps None" by auto
  let ?i = "status_value (status x)"
  have "follow p n stath s = follow (nxt x) (n + 1) (stath[?i := stath ! ?i + 1]) s"
    using x(1,2) by (simp add: follow.simps [of "Some q"] Let_def)
  then show ?case
    using Cons.IH [OF x(3), of "stath[?i := stath ! ?i + 1]"] Cons.prems(2) x(2)
      status_value_less [of "status x"]
    by (auto simp: nth_list_update)
qed

theorem debug_follow_list_counts:
  assumes "chain (\<lambda>q. map_option nxt (heap s q)) p ps None"
  shows "debug_follow_list p s = Some (length ps,
     map (\<lambda>i. length (filter (\<lambda>q. status_value (status (the (heap s q))) = i) ps)) [0 ..< Nstates])"
  using follow_counts [OF assms, of "replicate Nstates 0" 0] by (simp add: debug_follow_list_def)

text \<open>The reset leaves nothing to report.\<close>

lemma profile_reset:
  "profile_display_results z True s = (l1, l2, s') \<Longrightarrow>
     fst (profile_display_results z r s') = replicate 6 0 \<and>
     fst (snd (profile_display_results z r s')) = replicate 3 0"
  by (auto simp: profile_display_results_def average_def numeral_eq_Suc)

section \<open>Numbers in the environment\<close>

fun decimal :: "nat \<Rightarrow> string" where
  "decimal n = (if n < 10 then [char_of (48 + n)] else decimal (n div 10) @ [char_of (48 + n mod 10)])"

declare decimal.simps [simp del]

lemma digit_value_decimal: "d < (10 :: nat) \<Longrightarrow> digit_value (char_of (48 + d)) = int d"
  by (simp add: digit_value_def Let_def)

lemma digits_append:
  "list_all (\<lambda>c. digit_value c < b) xs \<Longrightarrow> digits b acc (xs @ ys) = digits b (digits b acc xs) ys"
  by (induction xs arbitrary: acc) auto

lemma decimal_digits: "list_all (\<lambda>c. digit_value c < 10) (decimal n)"
  by (induction n rule: decimal.induct) (subst decimal.simps, auto simp: digit_value_decimal)

lemma digits_decimal: "digits 10 0 (decimal n) = int n"
proof (induction n rule: decimal.induct)
  case (1 n)
  show ?case
  proof (cases "n < 10")
    case True
    then show ?thesis by (simp add: decimal.simps [of n] digit_value_decimal)
  next
    case False
    then have "digits 10 0 (decimal n) = int (n div 10) * 10 + int (n mod 10)"
      using 1 decimal_digits by (subst decimal.simps) (simp add: digits_append digit_value_decimal)
    also have "\<dots> = int n" by (simp add: zdiv_int zmod_int)
    finally show ?thesis .
  qed
qed

lemma decimal_first:
  "0 < n \<Longrightarrow> \<exists>d cs. decimal n = char_of (48 + d) # cs \<and> 0 < d \<and> d < (10 :: nat)"
proof (induction n rule: decimal.induct)
  case (1 n)
  show ?case
  proof (cases "n < 10")
    case True
    then show ?thesis using 1(2) by (intro exI [of _ n]) (simp add: decimal.simps [of n])
  next
    case False
    then have "0 < n div 10" by (simp add: div_greater_zero_iff)
    then obtain d :: nat and cs where "decimal (n div 10) = char_of (48 + d) # cs" "0 < d" "d < 10"
      using 1(1) False by blast
    then have "decimal n = char_of (48 + d) # (cs @ [char_of (48 + n mod 10)])"
      using False by (subst decimal.simps) simp
    then show ?thesis using \<open>0 < d\<close> \<open>d < 10\<close> by blast
  qed
qed

lemma decimal_plain:
  assumes "0 < n"
  shows "\<not> is_space (hd (decimal n))" "decimal n \<noteq> []" "hd (decimal n) \<noteq> CHR ''0''"
    "hd (decimal n) \<noteq> CHR ''-''" "hd (decimal n) \<noteq> CHR ''+''"
proof -
  obtain d :: nat and cs where d: "decimal n = char_of (48 + d) # cs" "0 < d" "d < 10"
    using decimal_first [OF assms] by blast
  then have h: "hd (decimal n) = char_of (48 + d)" by simp
  have v: "(of_char (char_of (48 + d) :: char) :: nat) = 48 + d" using d(3) by simp
  have neq: "(char_of (48 + d) :: char) \<noteq> c" if "of_char c \<noteq> 48 + d" for c
    using v that by metis
  show "hd (decimal n) \<noteq> CHR ''0''" "hd (decimal n) \<noteq> CHR ''-''" "hd (decimal n) \<noteq> CHR ''+''"
    unfolding h by (rule neq, use d(2) in simp)+
  show "\<not> is_space (hd (decimal n))"
    unfolding h using d(3) by (simp add: is_space_def Let_def)
  show "decimal n \<noteq> []" using d(1) by simp
qed

theorem strtol_decimal:
  assumes "0 < n" "n < 2 ^ 63"
  shows "strtol (decimal n) = int n"
proof -
  note p = decimal_plain [OF assms(1)]
  obtain c cs where cs: "decimal n = c # cs" using p(2) by (cases "decimal n") auto
  have "unsigned_digits (c # cs) = digits 10 0 (c # cs)"
    using p(3) cs by (simp add: unsigned_digits_def)
  then have "signed_digits (decimal n) = int n"
    using p(4,5) cs digits_decimal [of n] by simp
  moreover have "dropWhile is_space (decimal n) = decimal n" using p(1) cs by simp
  moreover have "int n < 2 ^ 63" using assms(2) by (metis of_nat_less_numeral_power_cancel_iff)
  ultimately show ?thesis by (simp add: strtol_def)
qed
section \<open>The number of threads\<close>

lemma sint_small: "- (2 ^ 31) \<le> x \<Longrightarrow> x < 2 ^ 31 \<Longrightarrow> sint (word_of_int x :: 32 word) = x"
  by (simp add: signed_of_int signed_take_bit_int_eq_self)

lemma set_threads_closed:
  assumes "0 < sint hc" "sint hc < 2 ^ 30" "- (2 ^ 30) \<le> n" "n < 2 ^ 30"
  defines "k \<equiv> if n < 0 then sint hc + n + 1 else n"
  shows "set_threads hc n c = Inr (c\<lparr>TP := None, Nthreads := k,
     FAST_THRESHOLD := if FAST_THRESHOLD_ExplicitlySet c then FAST_THRESHOLD c else 2 * k\<rparr>)"
proof -
  have "hc + word_of_int n + 1 = word_of_int (sint hc + n + 1)"
    by (simp add: word_of_int_hom_syms(1)[symmetric])
  moreover have "word_of_int (n - 1) + 1 = (word_of_int n :: 32 word)"
    by (simp add: wi_hom_syms)
  ultimately have w: "(if n < 0 then hc + word_of_int n else word_of_int (n - 1)) + 1 = (word_of_int k :: 32 word)"
    by (simp add: k_def)
  have "sint (word_of_int k :: 32 word) = k"
    using assms(1-4) by (intro sint_small) (auto simp: k_def)
  moreover have "signed_times2 k = Inr (2 * k)"
    using assms(1-4) by (auto simp: signed_times2_def k_def)
  ultimately show ?thesis
    unfolding set_threads_def w Let_def by simp
qed

lemma get_task_pool_closed:
  assumes "TP c = None" "0 < sint hc"
  shows "get_task_pool hc c =
     (if 0 < Nthreads c then Inr (c\<lparr>TP := Some (nat (Nthreads c - 1))\<rparr>)
      else if Nthreads c - 1 + sint hc < 0 then Inl Negative_threads
      else Inl Assertion_failed)"
  using assms by (auto simp: get_task_pool_def resize_def Let_def)

text \<open>
  C36: After \<open>set_threads(n)\<close> the task pool can be built exactly when \<open>n\<close> is positive, or negative
  and not beyond the number of hardware threads; it then has one thread less than
  \<open>get_num_threads()\<close> says, which is \<open>n\<close>, or for negative \<open>n\<close> the hardware threads less \<open>|n| - 1\<close>.
  For 0 and for the other negative numbers an assertion or an exception ends the program at the
  next spawn, since \<open>set_threads\<close> does not check its argument.
\<close>

theorem set_threads_usable:
  assumes "0 < sint hc" "sint hc < 2 ^ 30" "- (2 ^ 30) \<le> n" "n < 2 ^ 30"
  shows "\<exists>c'. set_threads hc n c = Inr c' \<and>
     get_num_threads c' = (if n < 0 then sint hc + n + 1 else n) \<and>
     get_task_pool hc c' =
       (if 0 < n \<or> n < 0 \<and> - sint hc \<le> n then Inr (c'\<lparr>TP := Some (nat (get_num_threads c' - 1))\<rparr>)
        else if n = 0 \<or> - (2 * sint hc) \<le> n then Inl Assertion_failed
        else Inl Negative_threads)"
  using assms
  by (simp add: set_threads_closed [OF assms] get_num_threads_def get_task_pool_closed [OF _ assms(1)])

lemma set_threads_usable_witness:
  "\<exists>c'. set_threads 8 0 uninitialised = Inr c' \<and> get_num_threads c' = 0 \<and>
     get_task_pool 8 c' = Inl Assertion_failed"
  using set_threads_usable [of 8 0 uninitialised] by simp

text \<open>What the constructor of \<open>EnvInitClass\<close> accepts.\<close>

theorem environment_decimal:
  assumes "0 < n" "n < 2 ^ 30" "getenv ''DEPSPAWN_NUM_THREADS'' = Some (decimal n)"
    and "getenv ''DEPSPAWN_TASK_QUEUE_LIMIT'' = None" "0 < sint hc" "sint hc < 2 ^ 30"
  shows "EnvInitClass hc getenv = Inr \<lparr>TP = None, Nthreads = int n,
     EnqueueTasks = (getenv ''DEPSPAWN_ENQUEUE_TASKS'' \<noteq> None), FAST_THRESHOLD = 2 * int n,
     FAST_THRESHOLD_ExplicitlySet = False\<rparr>"
proof -
  have n: "0 < int n" "int n < 2 ^ 30" using assms(1,2) by (simp_all add: of_nat_less_numeral_power_cancel_iff)
  have "strtol (decimal n) = int n" using assms(1,2) by (intro strtol_decimal) simp_all
  moreover have "to_int (int n) = int n"
    unfolding to_int_def by (rule sint_small) (use n in simp_all)
  moreover have "signed_times2 (int n) = Inr (2 * int n)" using n by (simp add: signed_times2_def)
  ultimately show ?thesis
    using assms n set_threads_closed [OF assms(5,6), of "int n"]
    by (simp add: EnvInitClass_def Let_def uninitialised_def)
qed

lemma EnvInitClass_valid:
  "EnvInitClass hc getenv = Inr c \<Longrightarrow> 0 \<le> FAST_THRESHOLD c"
  by (auto simp: EnvInitClass_def Let_def split: if_splits sum.splits)

end
