(* ===== verification/Range.thy ===== *)
theory Range
  imports Prelude "HOL-Library.Signed_Division" "HOL-Library.Monad_Syntax"
begin

text \<open>
  The class \<open>Range\<close> of Blitz++ (\<open>src/depspawn-blitz-1.0.2/blitz/range.h\<close>, \<open>range.cc\<close>) and the parallel
  loops over them, \<open>for_range\<close> of \<open>src/include/depspawn/depspawn.h\<close>.

  Positions and lengths are integers that stay within \<open>int\<close>. A failed \<open>BZPRECONDITION\<close> or
  \<open>BZPRECHECK\<close> is the result \<open>None\<close>.
\<close>

section \<open>class Range\<close>

definition fromStart :: int where "fromStart = - (2 ^ 31)"

definition toEnd :: int where "toEnd = 2 ^ 31 - 1"

record range_t =
  first_of :: int
  last_of :: int
  stride_of :: int

definition whole_range :: range_t where
  "whole_range = \<lparr>first_of = fromStart, last_of = toEnd, stride_of = 1\<rparr>"

definition range_at :: "int \<Rightarrow> range_t" where
  "range_at p = \<lparr>first_of = p, last_of = p, stride_of = 1\<rparr>"

definition directed :: "int \<Rightarrow> int \<Rightarrow> int \<Rightarrow> bool" where
  "directed f l s \<longleftrightarrow> f < l \<and> s > 0 \<or> f > l \<and> s < 0 \<or> f = l"

definition new_range :: "int \<Rightarrow> int \<Rightarrow> int \<Rightarrow> range_t option" where
  "new_range f l s =
     (if (f = fromStart \<or> l = toEnd \<or> directed f l s) \<and>
         (f = fromStart \<or> l = toEnd \<or> s \<noteq> 0 \<and> (l - f) smod s = 0)
      then Some \<lparr>first_of = f, last_of = l, stride_of = s\<rparr> else None)"

definition setRange :: "int \<Rightarrow> int \<Rightarrow> int \<Rightarrow> range_t \<Rightarrow> range_t option" where
  "setRange f l s r =
     (if directed f l s \<and> s \<noteq> 0 \<and> (l - f) smod s = 0
      then Some (r\<lparr>first_of := f, last_of := l, stride_of := s\<rparr>) else None)"

definition range_first :: "int \<Rightarrow> range_t \<Rightarrow> int" where
  "range_first low r = (if first_of r = fromStart then low else first_of r)"

definition range_last :: "int \<Rightarrow> range_t \<Rightarrow> int" where
  "range_last high r = (if last_of r = toEnd then high else last_of r)"

definition range_length :: "range_t \<Rightarrow> int option" where
  "range_length r =
     (if first_of r \<noteq> fromStart \<and> last_of r \<noteq> toEnd \<and> stride_of r \<noteq> 0 \<and>
         (last_of r - first_of r) smod stride_of r = 0
      then Some ((last_of r - first_of r) sdiv stride_of r + 1) else None)"

definition ubound :: "range_t \<Rightarrow> int option" where
  "ubound r = map_option (\<lambda>n. n - 1) (range_length r)"

definition isUnitStride :: "range_t \<Rightarrow> bool" where
  "isUnitStride r = (stride_of r = 1)"

definition isAscendingContiguous :: "range_t \<Rightarrow> bool" where
  "isAscendingContiguous r =
     (first_of r < last_of r \<and> stride_of r = 1 \<or> first_of r = last_of r)"

definition assertInRange :: "int \<Rightarrow> range_t \<Rightarrow> bool option" where
  "assertInRange i r =
     do { u \<leftarrow> ubound r; if i \<le> u \<and> 0 \<le> i then Some True else None }"

text \<open>\<open>operator[]\<close>, and the shifted ranges.\<close>

definition element :: "int \<Rightarrow> range_t \<Rightarrow> int" where
  "element i r = first_of r + i * stride_of r"

definition shifted :: "int \<Rightarrow> range_t \<Rightarrow> range_t option" where
  "shifted d r =
     (if first_of r \<noteq> fromStart \<and> last_of r \<noteq> toEnd
      then new_range (first_of r + d) (last_of r + d) (stride_of r) else None)"

definition minus_shift :: "int \<Rightarrow> range_t \<Rightarrow> range_t option" where
  "minus_shift d r =
     (if first_of r \<noteq> fromStart \<and> last_of r \<noteq> toEnd
      then new_range (first_of r - d) (last_of r - d) (stride_of r) else None)"

text \<open>The elements of a range, in order.\<close>

definition elements :: "range_t \<Rightarrow> int list" where
  "elements r = (case range_length r of None \<Rightarrow> [] | Some n \<Rightarrow> map (\<lambda>i. element (int i) r) [0 ..< nat n])"

section \<open>for_range\<close>

text \<open>The chunks on which the function is called, in the order of the calls.\<close>

partial_function (option) chunk_loop :: "int \<Rightarrow> int \<Rightarrow> int \<Rightarrow> range_t list option" where
  [code]: "chunk_loop i l bs =
     (if i < l
      then
        let lbs = (if l - i + 1 \<le> bs then l - i + 1 else bs)
        in Option.bind (new_range i (i + lbs - 1) 1) (\<lambda>r.
             Option.bind (chunk_loop (i + bs) l bs) (\<lambda>rs. Some (r # rs)))
      else Some [])"

text \<open>\<open>bs = (r.length() + num_threads - 1) / num_threads\<close> when the step is -1.\<close>

definition block_size :: "int \<Rightarrow> range_t \<Rightarrow> int \<Rightarrow> int option" where
  "block_size num_threads r bs =
     (if bs = -1
      then do { n \<leftarrow> range_length r;
                if num_threads = 0 then None else Some ((n + num_threads - 1) sdiv num_threads) }
      else Some bs)"

definition for_range :: "int \<Rightarrow> range_t \<Rightarrow> int \<Rightarrow> range_t list option" where
  "for_range num_threads r bs =
     do { b \<leftarrow> block_size num_threads r bs; chunk_loop (range_first 0 r) (range_last 0 r) b }"

text \<open>The loop over two ranges; the inner loop with the chunk of the outer one in front.\<close>

partial_function (option) inner_loop ::
  "range_t \<Rightarrow> int \<Rightarrow> int \<Rightarrow> int \<Rightarrow> (range_t \<times> range_t) list option"
where
  [code]: "inner_loop r j l bs =
     (if j < l
      then
        let lbs = (if l - j + 1 \<le> bs then l - j + 1 else bs)
        in Option.bind (new_range j (j + lbs - 1) 1) (\<lambda>c.
             Option.bind (inner_loop r (j + bs) l bs) (\<lambda>cs. Some ((r, c) # cs)))
      else Some [])"

partial_function (option) outer_loop ::
  "int \<Rightarrow> int \<Rightarrow> int \<Rightarrow> int \<Rightarrow> int \<Rightarrow> int \<Rightarrow> (range_t \<times> range_t) list option"
where
  [code]: "outer_loop i l1 bs1 f2 l2 bs2 =
     (if i < l1
      then
        let lbs = (if l1 - i + 1 \<le> bs1 then l1 - i + 1 else bs1)
        in Option.bind (new_range i (i + lbs - 1) 1) (\<lambda>r.
             Option.bind (inner_loop r f2 l2 bs2) (\<lambda>cs.
               Option.bind (outer_loop (i + bs1) l1 bs1 f2 l2 bs2) (\<lambda>ds. Some (cs @ ds))))
      else Some [])"

definition for_range2 :: "int \<Rightarrow> range_t \<Rightarrow> range_t \<Rightarrow> int \<Rightarrow> int \<Rightarrow> (range_t \<times> range_t) list option" where
  "for_range2 num_threads r1 r2 bs1 bs2 =
     do {
       b1 \<leftarrow> block_size num_threads r1 bs1;
       b2 \<leftarrow> block_size num_threads r2 bs2;
       outer_loop (range_first 0 r1) (range_last 0 r1) b1 (range_first 0 r2) (range_last 0 r2) b2
     }"

section \<open>Elements of ranges\<close>

lemma smod_one [simp]: "x smod (1 :: int) = 0"
  by (simp add: signed_modulo_int_def)

lemma element_bounds:
  assumes "range_length r = Some n"
  shows "element 0 r = first_of r" "element (n - 1) r = last_of r" "1 \<le> n \<or> \<not> directed (first_of r) (last_of r) (stride_of r)"
proof -
  have s: "stride_of r \<noteq> 0" "(last_of r - first_of r) smod stride_of r = 0"
    "n = (last_of r - first_of r) sdiv stride_of r + 1"
    using assms by (auto simp: range_length_def split: if_splits)
  show "element 0 r = first_of r" by (simp add: element_def)
  have "(last_of r - first_of r) sdiv stride_of r * stride_of r + (last_of r - first_of r) smod stride_of r
      = last_of r - first_of r"
    by (rule sdiv_mult_smod_eq)
  then show "element (n - 1) r = last_of r" using s by (simp add: element_def)
  show "1 \<le> n \<or> \<not> directed (first_of r) (last_of r) (stride_of r)"
    using s(3) by (auto simp: directed_def signed_divide_int_def sgn_if pos_imp_zdiv_nonneg_iff)
qed

lemma unit_range:
  assumes "f \<noteq> fromStart" "l \<noteq> toEnd" "f \<le> l"
  shows "new_range f l 1 = Some \<lparr>first_of = f, last_of = l, stride_of = 1\<rparr>"
    and "range_length \<lparr>first_of = f, last_of = l, stride_of = 1\<rparr> = Some (l - f + 1)"
    and "elements \<lparr>first_of = f, last_of = l, stride_of = 1\<rparr> = [f .. l]"
proof -
  show "new_range f l 1 = Some \<lparr>first_of = f, last_of = l, stride_of = 1\<rparr>"
    using assms by (auto simp: new_range_def directed_def)
  show n: "range_length \<lparr>first_of = f, last_of = l, stride_of = 1\<rparr> = Some (l - f + 1)"
    using assms by (simp add: range_length_def)
  have "[f .. l] = map (\<lambda>i. f + int i) [0 ..< nat (l - f + 1)]"
    by (rule nth_equalityI) (auto simp: nth_upto)
  then show "elements \<lparr>first_of = f, last_of = l, stride_of = 1\<rparr> = [f .. l]"
    by (simp add: elements_def n element_def)
qed

section \<open>What the loops cover\<close>

definition span :: "range_t \<Rightarrow> int list" where
  "span r = [first_of r .. last_of r]"

lemma chunk_loop_covers:
  assumes "0 < bs" "i \<le> l"
  shows "\<exists>cs. chunk_loop i l bs = Some cs \<and>
     concat (map span cs) = (if bs dvd l - i then [i .. l - 1] else [i .. l]) \<and>
     (\<forall>c \<in> set cs. 1 \<le> length (span c) \<and> int (length (span c)) \<le> bs) \<and>
     int (length cs) = (l - i + bs - 1) div bs"
  using assms(2)
proof (induction "nat (l - i)" arbitrary: i rule: less_induct)
  case less
  show ?case
  proof (cases "i = l")
    case True
    then show ?thesis using assms(1) by (simp add: chunk_loop.simps div_pos_pos_trivial)
  next
    case False
    then have lt: "i < l" using less.prems by simp
    let ?lbs = "if l - i + 1 \<le> bs then l - i + 1 else bs"
    let ?r = "\<lparr>first_of = i, last_of = i + ?lbs - 1, stride_of = 1\<rparr>"
    have r: "new_range i (i + ?lbs - 1) 1 = Some ?r"
      using assms(1) lt by (auto simp: new_range_def directed_def)
    have unf: "chunk_loop i l bs = Option.bind (chunk_loop (i + bs) l bs) (\<lambda>rs. Some (?r # rs))"
      using lt r by (subst chunk_loop.simps) (simp add: Let_def)
    have sp: "span ?r = [i .. i + ?lbs - 1]" "length (span ?r) = nat ?lbs" by (simp_all add: span_def)
    show ?thesis
    proof (cases "l - i + 1 \<le> bs")
      case True
      then have "\<not> bs dvd l - i" using lt assms(1) zdvd_not_zless [of "l - i" bs] by auto
      moreover have "(l - i + bs - 1) div bs = 1"
        using True lt assms(1) by (intro int_div_pos_eq [where r = "l - i - 1"]) auto
      moreover have "chunk_loop (i + bs) l bs = Some []" using True by (simp add: chunk_loop.simps)
      ultimately show ?thesis using unf True lt sp by (simp add: span_def)
    next
      case big: False
      have "nat (l - (i + bs)) < nat (l - i)" "i + bs \<le> l" using big assms(1) lt by auto
      from less.hyps [OF this] obtain cs where cs: "chunk_loop (i + bs) l bs = Some cs"
        "concat (map span cs) = (if bs dvd l - (i + bs) then [i + bs .. l - 1] else [i + bs .. l])"
        "\<forall>c \<in> set cs. 1 \<le> length (span c) \<and> int (length (span c)) \<le> bs"
        "int (length cs) = (l - (i + bs) + bs - 1) div bs" by blast
      have "bs dvd l - (i + bs) \<longleftrightarrow> bs dvd l - i"
        by (metis diff_add_cancel diff_diff_eq dvd_add dvd_diff dvd_refl)
      moreover have "(l - i + bs - 1) div bs = (l - (i + bs) + bs - 1) div bs + 1"
        using assms(1) div_add_self2 [of bs "l - i - 1"] by (simp add: algebra_simps)
      moreover have "[i .. i + bs - 1] @ [i + bs .. k] = [i .. k]" if "i + bs - 1 \<le> k" for k
        using upto_split2 [of i "i + bs - 1" k] that assms(1) by simp
      ultimately show ?thesis
        using unf cs big sp assms(1) \<open>i + bs \<le> l\<close> by (auto simp: span_def)
    qed
  qed
qed

lemma inner_loop_chunks:
  assumes "0 < bs" "j \<le> l"
  shows "inner_loop r j l bs = map_option (map (Pair r)) (chunk_loop j l bs)"
proof (induction "nat (l - j)" arbitrary: j rule: less_induct)
  case less
  have "inner_loop r (j + bs) l bs = map_option (map (Pair r)) (chunk_loop (j + bs) l bs)" if "j < l"
    using less that assms(1) by auto
  then show ?case
    by (subst inner_loop.simps, subst chunk_loop.simps)
      (auto simp: Let_def split: bind_split option.splits)
qed

lemma outer_loop_chunks:
  assumes "0 < bs1" "0 < bs2" "chunk_loop f2 l2 bs2 = Some ds" "f2 \<le> l2"
  shows "outer_loop i l1 bs1 f2 l2 bs2 = map_option (\<lambda>cs. List.product cs ds) (chunk_loop i l1 bs1)"
proof (induction "nat (l1 - i)" arbitrary: i rule: less_induct)
  case less
  have "outer_loop (i + bs1) l1 bs1 f2 l2 bs2 = map_option (\<lambda>cs. List.product cs ds) (chunk_loop (i + bs1) l1 bs1)"
    if "i < l1" using less that assms(1) by auto
  moreover have "inner_loop r f2 l2 bs2 = Some (map (Pair r) ds)" for r
    using inner_loop_chunks [OF assms(2,4)] assms(3) by simp
  ultimately show ?case
    by (subst outer_loop.simps, subst chunk_loop.simps)
      (auto simp: Let_def split: bind_split option.splits)
qed

lemma div_less_mult:
  assumes "0 < b" "x < k * b"
  shows "x div b < (k :: int)"
proof (rule ccontr)
  assume "\<not> x div b < k"
  then have "k * b \<le> x div b * b" using assms(1) by (simp add: mult_right_mono)
  also have "\<dots> \<le> x" using pos_mod_sign [OF assms(1), of x] div_mult_mod_eq [of x b] by linarith
  finally show False using assms(2) by simp
qed

lemma default_block_size:
  assumes "0 < n" "range_length r = Some n" "0 < t"
  shows "block_size t r (-1) = Some ((n + t - 1) div t)" "0 < (n + t - 1) div t"
    and "(n - 1 + (n + t - 1) div t - 1) div ((n + t - 1) div t) \<le> t"
proof -
  let ?b = "(n + t - 1) div t"
  show "block_size t r (-1) = Some ?b"
    using assms by (simp add: block_size_def signed_divide_int_def sgn_if)
  show b: "0 < ?b" using assms by (simp add: pos_imp_zdiv_pos_iff)
  have "n + t - 1 = ?b * t + (n + t - 1) mod t" "(n + t - 1) mod t < t"
    using assms(3) by simp_all
  then have "n - 1 < ?b * t" using pos_mod_sign [OF assms(3), of "n + t - 1"] by linarith
  then have "n - 1 + ?b - 1 < (t + 1) * ?b" by (simp add: algebra_simps)
  then have "(n - 1 + ?b - 1) div ?b < t + 1" by (rule div_less_mult [OF b])
  then show "(n - 1 + ?b - 1) div ?b \<le> t" by simp
qed

text \<open>
  C37: With a positive step \<open>for_range\<close> ends, and its chunks, each of at least one and at most
  \<open>bs\<close> positions, are disjoint, consecutive and cover the range in order, except that the last
  position is left out when the step divides the distance between the ends. The loop over two
  ranges calls its function on all the pairs of a chunk of the first and one of the second.
\<close>

theorem for_range_covers:
  assumes "first_of r1 \<noteq> fromStart" "last_of r1 \<noteq> toEnd" "first_of r1 \<le> last_of r1"
    and "first_of r2 \<noteq> fromStart" "last_of r2 \<noteq> toEnd" "first_of r2 \<le> last_of r2"
    and "block_size t r1 bs1 = Some b1" "0 < b1" "block_size t r2 bs2 = Some b2" "0 < b2"
  shows "\<exists>cs ds. for_range t r1 bs1 = Some cs \<and> for_range t r2 bs2 = Some ds \<and>
     for_range2 t r1 r2 bs1 bs2 = Some (List.product cs ds) \<and>
     concat (map span cs) =
       (if b1 dvd last_of r1 - first_of r1 then [first_of r1 .. last_of r1 - 1] else [first_of r1 .. last_of r1]) \<and>
     list_all (\<lambda>c. 1 \<le> length (span c) \<and> int (length (span c)) \<le> b1) cs \<and>
     int (length cs) = (last_of r1 - first_of r1 + b1 - 1) div b1"
proof -
  obtain cs where cs: "chunk_loop (first_of r1) (last_of r1) b1 = Some cs"
    "concat (map span cs) =
       (if b1 dvd last_of r1 - first_of r1 then [first_of r1 .. last_of r1 - 1] else [first_of r1 .. last_of r1])"
    "list_all (\<lambda>c. 1 \<le> length (span c) \<and> int (length (span c)) \<le> b1) cs"
    "int (length cs) = (last_of r1 - first_of r1 + b1 - 1) div b1"
    using chunk_loop_covers [OF assms(8,3)] unfolding list_all_iff by blast
  obtain ds where ds: "chunk_loop (first_of r2) (last_of r2) b2 = Some ds"
    using chunk_loop_covers [OF assms(10,6)] by blast
  have "for_range t r1 bs1 = Some cs" "for_range t r2 bs2 = Some ds"
    using assms cs(1) ds by (simp_all add: for_range_def range_first_def range_last_def)
  moreover have "for_range2 t r1 r2 bs1 bs2 = Some (List.product cs ds)"
    using assms cs(1) outer_loop_chunks [OF assms(8,10) ds assms(6)]
    by (simp add: for_range2_def range_first_def range_last_def)
  ultimately show ?thesis using cs(2-4) by blast
qed

lemma for_range_covers_witness:
  "\<exists>cs ds. for_range 8 \<lparr>first_of = 0, last_of = 4, stride_of = 1\<rparr> 2 = Some cs \<and>
     for_range 8 \<lparr>first_of = 1, last_of = 10, stride_of = 1\<rparr> (-1) = Some ds \<and>
     for_range2 8 \<lparr>first_of = 0, last_of = 4, stride_of = 1\<rparr> \<lparr>first_of = 1, last_of = 10, stride_of = 1\<rparr> 2 (-1) =
       Some (List.product cs ds) \<and>
     concat (map span cs) = [0, 1, 2, 3] \<and> length cs = 2"
proof -
  have b: "block_size 8 \<lparr>first_of = 0, last_of = 4, stride_of = 1\<rparr> 2 = Some 2"
    "block_size 8 \<lparr>first_of = 1, last_of = 10, stride_of = 1\<rparr> (-1) = Some 2"
    by (simp_all add: block_size_def range_length_def fromStart_def toEnd_def)
  show ?thesis
    using for_range_covers [OF _ _ _ _ _ _ b(1) _ b(2)]
    by (simp add: fromStart_def toEnd_def upto.simps) blast
qed

end
