(* ===== verification/Steal.thy ===== *)
theory Steal
  imports Prelude "HOL-Library.Word"
begin

text \<open>
  The backend on the tasks of Intel TBB: a \<open>runner\<close> task executes the function of a work item
  (\<open>src/include/depspawn/depspawn.h\<close>), while threads that wait may try to steal it
  (\<open>Workitem::steal\<close> of \<open>src/src/workitem.cpp\<close>, \<open>try_to_run\<close> and \<open>run_in_env\<close> of
  \<open>src/src/depspawn.cpp\<close>). They agree through the counter \<open>guard_\<close> and the pointer \<open>ctx_\<close> of the
  task, accessed one at a time by the runner and by \<open>n\<close> attempts to steal.

  TBB itself is not in the repository; it is used as documented: it calls \<open>execute\<close> once and
  frees the task when \<open>execute\<close> has returned. \<open>guard_\<close> is a \<open>char\<close>, signed on the usual targets.
\<close>

section \<open>The hand-shake\<close>

text \<open>\<open>runner::execute\<close>: the points between its accesses.\<close>

datatype runner_pc =
    Queued
  | Claimed       \<comment> \<open>it took the pointer \<open>ctx_\<close>\<close>
  | Executing
  | Executed      \<comment> \<open>returned after running the function\<close>
  | Spinning      \<comment> \<open>waits until the function was copied\<close>
  | Leaving
  | Left          \<comment> \<open>returned after telling the thief\<close>
  | Missed        \<comment> \<open>returned at once, its pointer was taken\<close>

text \<open>An attempt: \<open>Workitem::steal\<close> and then \<open>run_in_env\<close>.\<close>

datatype thief_pc =
    Trying
  | Ready_seen    \<comment> \<open>the status was \<open>Ready\<close>\<close>
  | Failed
  | Won           \<comment> \<open>\<open>guard_\<close> was 0\<close>
  | Copied        \<comment> \<open>the function was moved to a \<open>BoxedFunction\<close>\<close>
  | Notifying     \<comment> \<open>the task had begun\<close>
  | Waiting_ack
  | Boxed         \<comment> \<open>\<open>steal\<close> has returned the function\<close>
  | Ran
  | Fault         \<comment> \<open>accessed the task after it was freed\<close>

record steal_state =
  guard :: "8 word"
  ctx_set :: bool
  ready :: bool
  runs :: nat
  runner :: runner_pc
  thief :: "nat \<Rightarrow> thief_pc"

definition freed_task :: "steal_state \<Rightarrow> bool" where
  "freed_task s \<longleftrightarrow> runner s \<in> {Executed, Left, Missed}"

definition goes :: "nat \<Rightarrow> thief_pc \<Rightarrow> steal_state \<Rightarrow> steal_state" where
  "goes t p s = s\<lparr>thief := (thief s)(t := p)\<rparr>"

text \<open>One access of the runner.\<close>

definition runner_step :: "steal_state \<Rightarrow> steal_state option" where
  "runner_step s =
     (case runner s of
        Queued \<Rightarrow> Some (if ctx_set s then s\<lparr>ctx_set := False, runner := Claimed\<rparr> else s\<lparr>runner := Missed\<rparr>)
      | Claimed \<Rightarrow>
          Some (if guard s = 0
                then s\<lparr>guard := guard s + 1, ready := False, runs := runs s + 1, runner := Executing\<rparr>
                else s\<lparr>guard := guard s + 1, runner := Spinning\<rparr>)
      | Executing \<Rightarrow> Some (s\<lparr>runner := Executed\<rparr>)
      | Spinning \<Rightarrow> if sint (guard s) < 3 then None else Some (s\<lparr>runner := Leaving\<rparr>)
      | Leaving \<Rightarrow> Some (s\<lparr>guard := 4, runner := Left\<rparr>)
      | _ \<Rightarrow> None)"

text \<open>\<open>runner::steal\<close> moves the function out of the task; \<open>run_in_env\<close> runs it.\<close>

definition take_function :: "nat \<Rightarrow> steal_state \<Rightarrow> steal_state" where
  [simp]: "take_function t s = goes t (if freed_task s then Fault else Copied) s"

definition run_in_env :: "nat \<Rightarrow> steal_state \<Rightarrow> steal_state" where
  [simp]: "run_in_env t s = goes t Ran (s\<lparr>ready := False, runs := runs s + 1\<rparr>)"

text \<open>One access of an attempt to steal.\<close>

definition thief_step :: "nat \<Rightarrow> steal_state \<Rightarrow> steal_state option" where
  "thief_step t s =
     (case thief s t of
        Trying \<Rightarrow> Some (goes t (if ready s then Ready_seen else Failed) s)
      | Ready_seen \<Rightarrow> Some (goes t (if guard s = 0 then Won else Failed) (s\<lparr>guard := guard s + 1\<rparr>))
      | Won \<Rightarrow> Some (take_function t s)
      | Copied \<Rightarrow>
          Some (if freed_task s then goes t Fault s
                else if ctx_set s then goes t Boxed (s\<lparr>ctx_set := False\<rparr>)
                else goes t Notifying s)
      | Notifying \<Rightarrow> Some (goes t Waiting_ack (s\<lparr>guard := guard s + 1\<rparr>))
      | Waiting_ack \<Rightarrow> if sint (guard s) < 4 then None else Some (goes t Boxed s)
      | Boxed \<Rightarrow> Some (run_in_env t s)
      | _ \<Rightarrow> None)"

inductive steal_step :: "nat \<Rightarrow> steal_state \<Rightarrow> steal_state \<Rightarrow> bool" for n where
  runner: "runner_step s = Some s' \<Longrightarrow> steal_step n s s'"
| thief: "t < n \<Longrightarrow> thief_step t s = Some s' \<Longrightarrow> steal_step n s s'"

definition posted :: steal_state where
  "posted = \<lparr>guard = 0, ctx_set = True, ready = True, runs = 0, runner = Queued, thief = (\<lambda>_. Trying)\<rparr>"

inductive steal_reachable :: "nat \<Rightarrow> steal_state \<Rightarrow> bool" for n where
  post: "steal_reachable n posted"
| moved: "steal_reachable n s \<Longrightarrow> steal_step n s s' \<Longrightarrow> steal_reachable n s'"

section \<open>One attempt\<close>

definition view :: "steal_state \<Rightarrow> runner_pc \<times> thief_pc \<times> 8 word \<times> bool \<times> bool \<times> nat" where
  "view s = (runner s, thief s 0, guard s, ctx_set s, ready s, runs s)"

definition of_view :: "runner_pc \<times> thief_pc \<times> 8 word \<times> bool \<times> bool \<times> nat \<Rightarrow> steal_state" where
  "of_view v =
     (case v of (p, q, g, c, r, k) \<Rightarrow>
        \<lparr>guard = g, ctx_set = c, ready = r, runs = k, runner = p, thief = (\<lambda>_. q)\<rparr>)"

text \<open>All the situations that one attempt and the runner can be in together.\<close>

definition single_views :: "(runner_pc \<times> thief_pc \<times> 8 word \<times> bool \<times> bool \<times> nat) list" where
  "single_views =
     [(Queued, Trying, 0, True, True, 0), (Queued, Ready_seen, 0, True, True, 0),
      (Claimed, Trying, 0, False, True, 0), (Claimed, Ready_seen, 0, False, True, 0),
      (Executing, Trying, 1, False, False, 1), (Executing, Ready_seen, 1, False, False, 1),
      (Executing, Failed, 1, False, False, 1), (Executing, Failed, 2, False, False, 1),
      (Executed, Trying, 1, False, False, 1), (Executed, Ready_seen, 1, False, False, 1),
      (Executed, Failed, 1, False, False, 1), (Executed, Failed, 2, False, False, 1),
      (Queued, Won, 1, True, True, 0), (Queued, Copied, 1, True, True, 0),
      (Queued, Boxed, 1, False, True, 0), (Queued, Ran, 1, False, False, 1),
      (Missed, Boxed, 1, False, True, 0), (Missed, Ran, 1, False, False, 1),
      (Claimed, Won, 1, False, True, 0), (Claimed, Copied, 1, False, True, 0),
      (Claimed, Notifying, 1, False, True, 0), (Claimed, Waiting_ack, 2, False, True, 0),
      (Spinning, Won, 2, False, True, 0), (Spinning, Copied, 2, False, True, 0),
      (Spinning, Notifying, 2, False, True, 0), (Spinning, Waiting_ack, 3, False, True, 0),
      (Leaving, Waiting_ack, 3, False, True, 0), (Left, Waiting_ack, 4, False, True, 0),
      (Left, Boxed, 4, False, True, 0), (Left, Ran, 4, False, False, 1)]"

definition closed_under :: "(steal_state \<Rightarrow> steal_state option) \<Rightarrow> bool" where
  "closed_under f =
     list_all (\<lambda>v. case f (of_view v) of None \<Rightarrow> True | Some s \<Rightarrow> view s \<in> set single_views) single_views"

lemma single_closed: "closed_under runner_step" "closed_under (thief_step 0)"
  by code_simp+

lemma view_steps:
  "map_option view (runner_step s) = map_option view (runner_step (of_view (view s)))"
  "map_option view (thief_step 0 s) = map_option view (thief_step 0 (of_view (view s)))"
proof -
  show "map_option view (runner_step s) = map_option view (runner_step (of_view (view s)))"
    by (cases "runner s") (simp_all add: view_def of_view_def runner_step_def)
  show "map_option view (thief_step 0 s) = map_option view (thief_step 0 (of_view (view s)))"
    by (cases "thief s 0") (simp_all add: view_def of_view_def thief_step_def goes_def freed_task_def)
qed

lemma closed_step:
  assumes "closed_under f" "map_option view (f s) = map_option view (f (of_view (view s)))"
    and "view s \<in> set single_views" "f s = Some s'"
  shows "view s' \<in> set single_views"
proof -
  have "map_option view (f (of_view (view s))) = Some (view s')" using assms(2,4) by simp
  then obtain s2 where "f (of_view (view s)) = Some s2" "view s2 = view s'" by auto
  then show ?thesis
    using assms(1,3) by (auto simp: closed_under_def list_all_iff)
qed

lemma single_reachable: "steal_reachable 1 s \<Longrightarrow> view s \<in> set single_views"
proof (induction rule: steal_reachable.induct)
  case post
  then show ?case by (simp add: posted_def view_def single_views_def)
next
  case (moved s s')
  from moved(2) show ?case
  proof cases
    case runner
    then show ?thesis by (rule closed_step [OF single_closed(1) view_steps(1) moved.IH])
  next
    case (thief t)
    then have "thief_step 0 s = Some s'" by simp
    then show ?thesis by (rule closed_step [OF single_closed(2) view_steps(2) moved.IH])
  qed
qed

text \<open>Nobody faults, and whoever is stuck has finished, the function having been run once.\<close>

definition settled :: "steal_state \<Rightarrow> bool" where
  "settled s \<longleftrightarrow>
     (runner s, thief s 0) \<in> {(Executed, Failed), (Missed, Ran), (Left, Ran)} \<and> runs s = 1"

lemma single_moves:
  assumes "view s \<in> set single_views"
  shows "thief s 0 \<noteq> Fault \<and> runs s \<le> 1 \<and> (runner_step s \<noteq> None \<or> thief_step 0 s \<noteq> None \<or> settled s)"
proof -
  have l: "list_all (\<lambda>v. let s = of_view v in thief s 0 \<noteq> Fault \<and> runs s \<le> 1 \<and>
      (runner_step s \<noteq> None \<or> thief_step 0 s \<noteq> None \<or> settled s)) single_views"
    by code_simp
  have v: "thief (of_view (view s)) 0 = thief s 0" "runs (of_view (view s)) = runs s"
    "runner (of_view (view s)) = runner s"
    by (simp_all add: of_view_def view_def)
  then have "settled (of_view (view s)) = settled s" by (simp add: settled_def)
  moreover have "runner_step (of_view (view s)) = None \<longleftrightarrow> runner_step s = None"
    "thief_step 0 (of_view (view s)) = None \<longleftrightarrow> thief_step 0 s = None"
    using view_steps [of s] by (metis map_option_is_None)+
  ultimately show ?thesis
    using l [unfolded list_all_iff Let_def, THEN bspec, OF assms] v by simp
qed

text \<open>
  When one thread tries to steal the work of a task that TBB may start at the same time, the
  function is run at most once, nobody touches the task after TBB has freed it, and as long as
  the thief and the task have not both come to their end one of them can go on; at the end the
  function has been run exactly once.
\<close>

theorem one_thief_is_safe:
  assumes "steal_reachable 1 s"
  shows "thief s 0 \<noteq> Fault \<and> runs s \<le> 1 \<and> ((\<exists>s'. steal_step 1 s s') \<or> settled s)"
  using single_moves [OF single_reachable [OF assms]] steal_step.runner steal_step.thief [of 0 1] by (metis less_one not_None_eq)

lemma one_thief_is_safe_witness:
  "thief posted 0 \<noteq> Fault \<and> runs posted \<le> 1 \<and> ((\<exists>s'. steal_step 1 posted s') \<or> settled posted)"
  by (rule one_thief_is_safe [OF steal_reachable.post])

section \<open>Any number of attempts\<close>

text \<open>Who has the function: an attempt that found \<open>guard_\<close> at 0, or the task.\<close>

fun owns :: "thief_pc \<Rightarrow> nat" where
  "owns Trying = 0"
| "owns Ready_seen = 0"
| "owns Failed = 0"
| "owns _ = 1"

fun ran_it :: "thief_pc \<Rightarrow> nat" where
  "ran_it Ran = 1"
| "ran_it _ = 0"

fun runner_owns :: "runner_pc \<Rightarrow> nat" where
  "runner_owns Executing = 1"
| "runner_owns Executed = 1"
| "runner_owns _ = 0"

definition owners :: "nat \<Rightarrow> steal_state \<Rightarrow> nat" where
  "owners n s = (\<Sum>t<n. owns (thief s t)) + runner_owns (runner s)"

text \<open>At most how often \<open>guard_\<close> was raised.\<close>

fun thief_raises :: "thief_pc \<Rightarrow> nat" where
  "thief_raises Trying = 0"
| "thief_raises Ready_seen = 0"
| "thief_raises Failed = 1"
| "thief_raises Won = 1"
| "thief_raises Copied = 1"
| "thief_raises Notifying = 1"
| "thief_raises _ = 2"

fun runner_raises :: "runner_pc \<Rightarrow> nat" where
  "runner_raises Queued = 0"
| "runner_raises Claimed = 0"
| "runner_raises Left = 2"
| "runner_raises _ = 1"

definition raises :: "nat \<Rightarrow> steal_state \<Rightarrow> nat" where
  "raises n s = (\<Sum>t<n. thief_raises (thief s t)) + runner_raises (runner s)"

definition run_count :: "nat \<Rightarrow> steal_state \<Rightarrow> nat" where
  "run_count n s = (\<Sum>t<n. ran_it (thief s t)) + runner_owns (runner s)"

definition steal_inv :: "nat \<Rightarrow> steal_state \<Rightarrow> bool" where
  "steal_inv n s \<longleftrightarrow>
     owners n s \<le> 1 \<and> (guard s = 0 \<longrightarrow> owners n s = 0) \<and>
     unat (guard s) \<le> raises n s \<and> runs s = run_count n s \<and>
     (runner s = Leaving \<longrightarrow> 3 \<le> raises n s)"
lemma counts_frame [simp]:
  "owners n (s\<lparr>guard := g\<rparr>) = owners n s" "owners n (s\<lparr>ctx_set := c\<rparr>) = owners n s"
  "owners n (s\<lparr>ready := r\<rparr>) = owners n s" "owners n (s\<lparr>runs := k\<rparr>) = owners n s"
  "raises n (s\<lparr>guard := g\<rparr>) = raises n s" "raises n (s\<lparr>ctx_set := c\<rparr>) = raises n s"
  "raises n (s\<lparr>ready := r\<rparr>) = raises n s" "raises n (s\<lparr>runs := k\<rparr>) = raises n s"
  "run_count n (s\<lparr>guard := g\<rparr>) = run_count n s" "run_count n (s\<lparr>ctx_set := c\<rparr>) = run_count n s"
  "run_count n (s\<lparr>ready := r\<rparr>) = run_count n s" "run_count n (s\<lparr>runs := k\<rparr>) = run_count n s"
  by (simp_all add: owners_def raises_def run_count_def)

lemma counts_goes:
  assumes "t < n"
  shows "owners n (goes t p s) + owns (thief s t) = owners n s + owns p"
    and "raises n (goes t p s) + thief_raises (thief s t) = raises n s + thief_raises p"
    and "run_count n (goes t p s) + ran_it (thief s t) = run_count n s + ran_it p"
proof -
  have t: "t \<in> {..<n}" using assms by simp
  note sum = sum_upd [OF finite_lessThan t, of _ "thief s" p]
  show "owners n (goes t p s) + owns (thief s t) = owners n s + owns p"
    using sum [of owns] by (simp add: owners_def goes_def)
  show "raises n (goes t p s) + thief_raises (thief s t) = raises n s + thief_raises p"
    using sum [of thief_raises] by (simp add: raises_def goes_def)
  show "run_count n (goes t p s) + ran_it (thief s t) = run_count n s + ran_it p"
    using sum [of ran_it] by (simp add: run_count_def goes_def)
qed

lemma raises_bound: "raises n s \<le> n + owners n s + 2"
proof -
  have "thief_raises p \<le> 1 + owns p" for p
    by (cases p) simp_all
  then have "(\<Sum>t<n. thief_raises (thief s t)) \<le> (\<Sum>t<n. 1 + owns (thief s t))"
    by (intro sum_mono) blast
  also have "\<dots> = n + (\<Sum>t<n. owns (thief s t))" by (subst sum.distrib) simp
  finally have "(\<Sum>t<n. thief_raises (thief s t)) \<le> n + (\<Sum>t<n. owns (thief s t))" .
  moreover have "runner_raises (runner s) \<le> 2" by (cases "runner s") simp_all
  ultimately show ?thesis by (simp add: raises_def owners_def)
qed

lemma guard_raised:
  assumes "unat (g :: 8 word) < 255"
  shows "unat (g + 1) = unat g + 1" "g + 1 \<noteq> 0"
proof -
  show u: "unat (g + 1) = unat g + 1" using assms by (simp add: unat_word_ariths(1))
  show "g + 1 \<noteq> 0"
  proof
    assume "g + 1 = 0"
    then show False using u by simp
  qed
qed

lemma sint_at_least:
  assumes "\<not> sint (g :: 8 word) < 3"
  shows "3 \<le> unat g"
proof (rule ccontr)
  assume "\<not> 3 \<le> unat g"
  then have "unat g = 0 \<or> unat g = 1 \<or> unat g = 2" by linarith
  then have "g = word_of_nat 0 \<or> g = word_of_nat 1 \<or> g = word_of_nat 2"
    by (metis of_nat_unat ucast_id)
  then show False using assms by auto
qed

lemma inv_lim:
  assumes "steal_inv n s" "n \<le> 250"
  shows "unat (guard s) < 255"
  using assms raises_bound [of n s] unfolding steal_inv_def by linarith

lemma runner_inv:
  assumes "steal_inv n s" "n \<le> 250" "runner_step s = Some s'"
  shows "steal_inv n s'"
proof -
  note i = assms(1) [unfolded steal_inv_def owners_def raises_def run_count_def]
  note g = guard_raised [OF inv_lim [OF assms(1,2)]]
  note unf = steal_inv_def owners_def raises_def run_count_def
  show ?thesis
  proof (cases "runner s")
    case Claimed
    then show ?thesis
      using assms(3) i g by (cases "guard s = 0") (auto simp: runner_step_def unf)
  next
    case Spinning
    then show ?thesis
      using assms(3) i sint_at_least [of "guard s"] by (auto simp: runner_step_def unf split: if_splits)
  qed (use assms(3) i in \<open>auto simp: runner_step_def unf split: if_splits\<close>)
qed

text \<open>The steps of a thief, by what they change in the counts.\<close>

lemma steal_inv_goes:
  assumes "steal_inv n s" "t < n" "owns p = owns (thief s t)"
    and "thief_raises (thief s t) \<le> thief_raises p" "ran_it p = ran_it (thief s t)"
  shows "steal_inv n (goes t p s)"
proof -
  have r: "runs (goes t p s) = runs s" "runner (goes t p s) = runner s" "guard (goes t p s) = guard s"
    by (simp_all add: goes_def)
  show ?thesis
    using assms(1,3-5) counts_goes [OF assms(2), of p s] by (auto simp: steal_inv_def r)
qed

lemma steal_inv_frame [simp]:
  "steal_inv n (s\<lparr>ctx_set := c\<rparr>) = steal_inv n s" "steal_inv n (s\<lparr>ready := b\<rparr>) = steal_inv n s"
  by (simp_all add: steal_inv_def)

lemma thief_inv:
  assumes "steal_inv n s" "n \<le> 250" "t < n" "thief_step t s = Some s'"
  shows "steal_inv n s'"
proof -
  note i = assms(1) [unfolded steal_inv_def]
  note g = guard_raised [OF inv_lim [OF assms(1,2)]]
  note k = steal_inv_goes [OF _ assms(3)]
  have c: "goes t p (s\<lparr>guard := h\<rparr>) = (goes t p s)\<lparr>guard := h\<rparr>"
    "goes t p (s\<lparr>ready := b, runs := m\<rparr>) = (goes t p s)\<lparr>ready := b, runs := m\<rparr>" for p h b m
    by (simp_all add: goes_def)
  have r: "runs (goes t p s) = runs s" "runner (goes t p s) = runner s" "guard (goes t p s) = guard s" for p
    by (simp_all add: goes_def)
  show ?thesis
  proof (cases "thief s t")
    case Ready_seen
    then show ?thesis
      using assms(4) i g counts_goes [OF assms(3), of Won s] counts_goes [OF assms(3), of Failed s]
      by (auto simp: thief_step_def c r steal_inv_def)
  next
    case Notifying
    then show ?thesis
      using assms(4) i g counts_goes [OF assms(3), of Waiting_ack s]
      by (auto simp: thief_step_def c r steal_inv_def)
  next
    case Boxed
    then show ?thesis
      using assms(4) i counts_goes [OF assms(3), of Ran s]
      by (auto simp: thief_step_def c r steal_inv_def)
  qed (use assms(1,4) k [of s] k [of "s\<lparr>ctx_set := False\<rparr>"] in
      \<open>auto simp: thief_step_def split: if_splits\<close>)
qed

lemma ran_le_owns: "ran_it p \<le> owns p"
  by (cases p) simp_all

text \<open>
  C39: However many threads try to steal the work of a task, up to 250 attempts in all, and however
  they interleave with the task itself, at most one of them gets it and the function is run at
  most once.
\<close>

theorem work_runs_at_most_once:
  assumes "steal_reachable n s" "n \<le> 250"
  shows "owners n s \<le> 1 \<and> runs s = run_count n s \<and> runs s \<le> 1"
proof -
  have "steal_inv n s"
    using assms(1)
  proof (induction rule: steal_reachable.induct)
    case post
    then show ?case
      by (simp add: posted_def steal_inv_def owners_def raises_def run_count_def)
  next
    case (moved s s')
    from moved(2) show ?case
      by cases (use moved.IH assms(2) runner_inv thief_inv in blast)+
  qed
  moreover have "run_count n s \<le> owners n s"
    unfolding run_count_def owners_def
    by (intro add_mono sum_mono ran_le_owns) simp_all
  ultimately show ?thesis by (auto simp: steal_inv_def)
qed

lemma work_runs_at_most_once_witness:
  "owners 2 posted \<le> 1 \<and> runs posted = run_count 2 posted \<and> runs posted \<le> 1"
  using work_runs_at_most_once [OF steal_reachable.post, of 2] by simp

section \<open>What goes wrong with more attempts\<close>

text \<open>A schedule says who moves next: the task (\<open>None\<close>) or an attempt.\<close>

fun schedule :: "nat option list \<Rightarrow> steal_state \<Rightarrow> steal_state option" where
  "schedule [] s = Some s"
| "schedule (None # xs) s = Option.bind (runner_step s) (schedule xs)"
| "schedule (Some t # xs) s = Option.bind (thief_step t s) (schedule xs)"

lemma schedule_reachable:
  "steal_reachable n s \<Longrightarrow> schedule xs s = Some s' \<Longrightarrow> list_all (\<lambda>x. x = None \<or> the x < n) xs \<Longrightarrow>
   steal_reachable n s'"
proof (induction xs s rule: schedule.induct)
  case (2 xs s)
  then obtain s1 where s1: "runner_step s = Some s1" "schedule xs s1 = Some s'"
    by (auto simp: bind_eq_Some_conv)
  have "steal_reachable n s1" by (rule steal_reachable.moved [OF 2(2) steal_step.runner [OF s1(1)]])
  then show ?case by (rule 2(1) [OF s1(1) _ s1(2)]) (use 2(4) in simp)
next
  case (3 t xs s)
  then obtain s1 where s1: "thief_step t s = Some s1" "schedule xs s1 = Some s'"
    by (auto simp: bind_eq_Some_conv)
  have "steal_reachable n s1" using steal_reachable.moved [OF 3(2) steal_step.thief [OF _ s1(1)]] 3(4) by simp
  then show ?case by (rule 3(1) [OF s1(1) _ s1(2)]) (use 3(4) in simp)
qed simp

text \<open>
  Two attempts are enough for a fault: the one that fails has raised \<open>guard_\<close> too, so the task
  takes it for the notice that its function was copied, returns and is freed.
\<close>

lemma two_thieves_can_fault:
  "\<exists>s. steal_reachable 2 s \<and> thief s 0 = Fault"
proof -
  let ?xs = "[Some 0, Some 0, Some 1, Some 1, None, None, None, None, Some 0]"
  have "map_option (\<lambda>s. thief s 0) (schedule ?xs posted) = Some Fault" by code_simp
  then obtain s where s: "schedule ?xs posted = Some s" "thief s 0 = Fault" by auto
  have "steal_reachable 2 s" by (rule schedule_reachable [OF steal_reachable.post s(1)]) simp
  then show ?thesis using s(2) by blast
qed

text \<open>
  The attempts to come: the first attempt has the function in a box, and \<open>k\<close> others have failed.
\<close>

definition boxed_by_first :: "nat \<Rightarrow> steal_state" where
  "boxed_by_first k =
     \<lparr>guard = word_of_nat (Suc k), ctx_set = False, ready = True, runs = 0, runner = Queued,
      thief = (\<lambda>t. if t = 0 then Boxed else if t \<le> k then Failed else Trying)\<rparr>"

lemma one_more_fails:
  assumes "steal_reachable n (boxed_by_first k)" "Suc k < n" "k < 255"
  shows "steal_reachable n (boxed_by_first (Suc k))"
proof -
  have g: "(word_of_nat (Suc k) :: 8 word) \<noteq> 0"
    unfolding word_of_nat_eq_0_iff using assms(3) by (auto dest: dvd_imp_le)
  have "schedule [Some (Suc k), Some (Suc k)] (boxed_by_first k) = Some (boxed_by_first (Suc k))"
    using g by (auto simp: boxed_by_first_def thief_step_def goes_def fun_eq_iff)
  then show ?thesis by (rule schedule_reachable [OF assms(1)]) (use assms(2) in simp)
qed

text \<open>The 257th attempt finds \<open>guard_\<close>, which has 8 bits, at 0 again, and the function is run twice.\<close>

lemma many_thieves_run_twice:
  "\<exists>s. steal_reachable 259 s \<and> runs s = 2"
proof -
  have "schedule [Some 0, Some 0, Some 0, Some 0] posted = Some (boxed_by_first 0)"
    by (simp add: boxed_by_first_def posted_def thief_step_def goes_def fun_eq_iff freed_task_def)
  then have 0: "steal_reachable 259 (boxed_by_first 0)"
    by (rule schedule_reachable [OF steal_reachable.post]) simp
  have "k \<le> 255 \<Longrightarrow> steal_reachable 259 (boxed_by_first k)" for k
    by (induction k) (auto intro: 0 one_more_fails)
  then have r: "steal_reachable 259 (boxed_by_first 255)" by simp
  let ?xs = "[Some 256, Some 256, Some 256, Some 256, Some 256, Some 257, Some 257, Some 258, Some 258,
    Some 256, Some 0, Some 256]"
  have "\<exists>s. schedule ?xs (boxed_by_first 255) = Some s \<and> runs s = 2"
    by (simp add: boxed_by_first_def thief_step_def goes_def freed_task_def)
  then obtain s where s: "schedule ?xs (boxed_by_first 255) = Some s" "runs s = 2" by blast
  have "steal_reachable 259 s" by (rule schedule_reachable [OF r s(1)]) simp
  then show ?thesis using s(2) by blast
qed

text \<open>
  C40: More attempts break the hand-shake. With two, one can touch the task after TBB has freed it;
  with 259, two of them can get the function, which is then run twice.
\<close>

theorem many_thieves_break_it:
  "(\<exists>s t. steal_reachable 2 s \<and> thief s t = Fault) \<and> (\<exists>s. steal_reachable 259 s \<and> runs s = 2)"
  using two_thieves_can_fault many_thieves_run_twice by blast

end
