(* ===== verification/FillArgs.thy ===== *)
theory FillArgs
  imports ArgInfo
begin

text \<open>
  The analysis of the actual arguments of \<open>spawn\<close>: \<open>fill_args\<close> and \<open>fill_in_array\<close> of
  \<open>src/include/depspawn/depspawn.h\<close>. What the templates read off the types of the formal
  parameter and of the actual argument are the fields of a record; the address of an object,
  and the block and extents of a Blitz++ array, are fields as well.
\<close>

record actual =
  is_reference :: bool          \<comment> \<open>the formal parameter is a reference\<close>
  is_const :: bool              \<comment> \<open>what it refers to is \<open>const\<close>\<close>
  formal_ignored :: bool        \<comment> \<open>the formal parameter is an \<open>Ignore\<close>\<close>
  head_ignored :: bool          \<comment> \<open>the actual argument is an \<open>Ignore\<close>\<close>
  head_rvalue :: bool           \<comment> \<open>the actual argument is an rvalue\<close>
  is_barray :: bool             \<comment> \<open>the actual argument is a Blitz++ array\<close>
  sizeof_head :: u64
  address :: u64
  block :: u64
  original_dims :: nat
  extent :: "(int \<times> int) list"

definition is_writable :: "actual \<Rightarrow> bool" where
  "is_writable x = (is_reference x \<and> \<not> is_const x)"

definition process_argument :: "actual \<Rightarrow> bool" where
  "process_argument x =
     (\<not> formal_ignored x \<and> \<not> head_ignored x \<and> \<not> (head_rvalue x \<and> \<not> is_barray x))"

definition fill_in_array :: "actual \<Rightarrow> arg_info \<Rightarrow> arg_info" where
  "fill_in_array x n =
     (if is_barray x
      then n\<lparr>addr := block x, rank := original_dims x,
             array_range := map (\<lambda>i. (fst (extent x ! i), snd (extent x ! i))) [0 ..< original_dims x]\<rparr>
      else n\<lparr>addr := address x, rank := 0, array_range := []\<rparr>)"

definition new_arg :: "actual \<Rightarrow> arg_info" where
  "new_arg x =
     fill_in_array x
       \<lparr>addr = 0, asize = sizeof_head x, array_range = [], wr = is_writable x, rank = 0\<rparr>"

text \<open>The recursion over the parameter list; the result is the number of arguments analysed.\<close>

fun fill_args :: "actual list \<Rightarrow> arg_info list \<Rightarrow> (nat \<times> arg_info list) option" where
  "fill_args [] args = Some (0, args)"
| "fill_args (x # xs) args =
     (if process_argument x
      then do {
        args' \<leftarrow> insert_in_arglist (new_arg x) args;
        (c, r) \<leftarrow> fill_args xs args';
        Some (Suc c, r)
      }
      else fill_args xs args)"

section \<open>What the list covers\<close>

abbreviation processed :: "actual list \<Rightarrow> arg_info list" where
  "processed xs \<equiv> map new_arg (filter process_argument xs)"

definition filled :: "arg_info list \<Rightarrow> arg_info list \<Rightarrow> arg_info list \<Rightarrow> bool" where
  "filled ns as r \<longleftrightarrow>
     wf_arglist r \<and> accesses r = accesses as \<union> accesses ns \<and> writes r = writes as \<union> writes ns \<and>
     array_args r = array_args as \<union> array_args ns \<and> length r \<le> length as + length ns"

lemma kinds_apart_append:
  assumes "inserted n as as'" and "kinds_apart (set (n # ns) \<union> set as)"
  shows "kinds_apart (set ns \<union> set as')"
proof -
  have "kinds_apart (set (n # ns @ as))" using assms(2) by simp
  moreover have "accesses (ns @ as') = accesses (n # ns @ as)"
    using assms(1) by (auto simp: inserted_def accesses_def)
  moreover have "array_args (ns @ as') = array_args (n # ns @ as)"
    using assms(1) by (auto simp: inserted_def array_args_def)
  ultimately have "kinds_apart (set (ns @ as'))"
    by (simp only: kinds_apart_iff)
  then show ?thesis by simp
qed

lemma fill_args_filled:
  assumes "wf_arglist as" "list_all wf_arg (processed xs)"
    and "kinds_apart (set (processed xs) \<union> set as)"
  shows "\<exists>r. fill_args xs as = Some (length (processed xs), r) \<and> filled (processed xs) as r"
  using assms
proof (induction xs arbitrary: as)
  case Nil
  then show ?case by (simp add: filled_def)
next
  case (Cons x xs)
  show ?case
  proof (cases "process_argument x")
    case False
    then show ?thesis
      using Cons by simp
  next
    case True
    let ?n = "new_arg x"
    have k: "kinds_apart (set (?n # as))"
      using Cons.prems(3) True by (auto intro: kinds_apart_subset)
    obtain as' where i: "insert_in_arglist ?n as = Some as'" "inserted ?n as as'"
      using insert_in_arglist_inserted [OF Cons.prems(1) _ k] Cons.prems(2) True by auto
    have "kinds_apart (set (processed xs) \<union> set as')"
      using Cons.prems(3) True by (intro kinds_apart_append [OF i(2)]) simp
    then obtain r where r: "fill_args xs as' = Some (length (processed xs), r)"
        "filled (processed xs) as' r"
      using Cons.IH [of as'] inserted_wf [OF i(2) k] Cons.prems(2) True by auto
    have "filled (processed (x # xs)) as r"
      using r(2) i(2) True by (auto simp: filled_def inserted_def)
    then show ?thesis
      using i(1) r(1) True by simp
  qed
qed

section \<open>Properties\<close>

definition actual_of :: "u64 \<Rightarrow> u64 \<Rightarrow> bool \<Rightarrow> bool \<Rightarrow> actual" where
  "actual_of a n ref cst =
     \<lparr>is_reference = ref, is_const = cst, formal_ignored = False, head_ignored = False,
      head_rvalue = False, is_barray = False, sizeof_head = n, address = a, block = 0,
      original_dims = 0, extent = []\<rparr>"

lemma process_actual_of [simp]: "process_argument (actual_of a n ref cst)"
  by (simp add: process_argument_def actual_of_def)

lemma new_arg_actual_of [simp]: "new_arg (actual_of a n ref cst) = region a n (ref \<and> \<not> cst)"
  by (simp add: new_arg_def fill_in_array_def actual_of_def region_def is_writable_def)

text \<open>
  C20: The analysis of the arguments of a \<open>spawn\<close> never fails, and counts the arguments it tracks;
  the list it builds is well formed and covers exactly the memory and the array elements of the
  tracked arguments, those the task may write being those bound to a reference to non-const.
\<close>

theorem fill_args_covers:
  assumes "list_all wf_arg (processed xs)" "kinds_apart (set (processed xs))"
  shows "\<exists>r. fill_args xs [] = Some (length (filter process_argument xs), r) \<and> wf_arglist r \<and>
           accesses r = (\<Union>x \<in> {x \<in> set xs. process_argument x}. footprint (new_arg x)) \<and>
           writes r = (\<Union>x \<in> {x \<in> set xs. process_argument x \<and> is_writable x}. footprint (new_arg x))"
proof -
  have "wf_arglist []" by (simp add: wf_arglist_def kinds_apart_def)
  then obtain r where r: "fill_args xs [] = Some (length (processed xs), r)" "filled (processed xs) [] r"
    using fill_args_filled [of "[]" xs] assms by auto
  have "wr (new_arg x) = is_writable x" for x
    by (simp add: new_arg_def fill_in_array_def)
  then have "writes (processed xs) =
      (\<Union>x \<in> {x \<in> set xs. process_argument x \<and> is_writable x}. footprint (new_arg x))"
    by (auto simp: writes_def split: if_splits)
  moreover have "accesses (processed xs) = (\<Union>x \<in> {x \<in> set xs. process_argument x}. footprint (new_arg x))"
    by (auto simp: accesses_def)
  ultimately show ?thesis
    using r by (auto simp: filled_def)
qed

lemma fill_args_covers_witness:
  "\<exists>r. fill_args [actual_of 1000 4 True False, actual_of 1008 8 True True] [] =
         Some (length (filter process_argument [actual_of 1000 4 True False, actual_of 1008 8 True True]), r) \<and>
       wf_arglist r \<and>
       accesses r = (\<Union>x \<in> {x \<in> set [actual_of 1000 4 True False, actual_of 1008 8 True True]. process_argument x}.
          footprint (new_arg x)) \<and>
       writes r = (\<Union>x \<in> {x \<in> set [actual_of 1000 4 True False, actual_of 1008 8 True True].
          process_argument x \<and> is_writable x}. footprint (new_arg x))"
  by (rule fill_args_covers) (simp_all add: wf_arg_def kinds_apart_def)

text \<open>
  An argument passed twice by reference is counted twice, although the list keeps one node
  for it: the count that sizes the vector of pending arguments exceeds the length of the list.
\<close>

theorem fill_args_counts_duplicates:
  "fill_args [actual_of a n True False, actual_of a n True False] [] = Some (2, [region a n True])"
  by (simp add: insert_in_arglist_def insert_after.simps [of _ _ "[]"] solve_overlap_def numeral_2_eq_2)

end
