(* ===== verification/Types.thy ===== *)
theory Types
  imports FillArgs
begin

text \<open>
  What the templates of \<open>src/include/depspawn/depspawn.h\<close> compute from C++ types: the parameter
  types of a callable (\<open>memb_func_traits\<close>, \<open>function_type\<close>, \<open>ParameterTypes\<close>), the class
  \<open>Ignore\<close>, the reference wrappers \<open>ref\<close>, the trait \<open>is_blitz_array\<close>, and the flags of
  \<open>fill_args\<close>.

  A C++ type is a value of a datatype. A template that has no matching member, which does not
  compile, is the result \<open>None\<close>.
\<close>

section \<open>C++ types\<close>

datatype fundamental = Int_t | UInt | ULongLong | LongLong | Float | Double | LongDouble | Other nat

datatype cxx =
  Fundamental fundamental
| Class nat
| Const cxx
| LRef cxx                                    \<comment> \<open>\<open>T&\<close>\<close>
| RRef cxx                                    \<comment> \<open>\<open>T&&\<close>\<close>
| Pointer cxx
| Ignore cxx                                  \<comment> \<open>\<open>depspawn::Ignore<T>\<close>\<close>
| Array cxx nat                               \<comment> \<open>\<open>blitz::Array<T, dim>\<close>\<close>
| Function cxx "cxx list"                     \<comment> \<open>\<open>R (Types...)\<close>\<close>
| Member cxx cxx "cxx list" bool              \<comment> \<open>\<open>R (C::*)(Types...)\<close>, \<open>const\<close> or not\<close>
| Std_function cxx
| Boost_function cxx
| Functor nat cxx                             \<comment> \<open>a class and the type of \<open>&F::operator()\<close>\<close>

text \<open>\<open>T&&\<close> and \<open>T&\<close> with the collapse of references, and the traits of the standard library.\<close>

fun add_rref :: "cxx \<Rightarrow> cxx" where
  "add_rref (LRef t) = LRef t"
| "add_rref (RRef t) = RRef t"
| "add_rref t = RRef t"

fun add_lref :: "cxx \<Rightarrow> cxx" where
  "add_lref (LRef t) = LRef t"
| "add_lref (RRef t) = LRef t"
| "add_lref t = LRef t"

fun is_reference_type :: "cxx \<Rightarrow> bool" where
  "is_reference_type (LRef t) = True"
| "is_reference_type (RRef t) = True"
| "is_reference_type _ = False"

fun is_rvalue_reference :: "cxx \<Rightarrow> bool" where
  "is_rvalue_reference (RRef t) = True"
| "is_rvalue_reference _ = False"

fun remove_reference :: "cxx \<Rightarrow> cxx" where
  "remove_reference (LRef t) = t"
| "remove_reference (RRef t) = t"
| "remove_reference t = t"

fun is_const_type :: "cxx \<Rightarrow> bool" where
  "is_const_type (Const t) = True"
| "is_const_type _ = False"

fun remove_const :: "cxx \<Rightarrow> cxx" where
  "remove_const (Const t) = t"
| "remove_const t = t"

section \<open>Parameter types of a callable\<close>

text \<open>
  The first specialisation of \<open>memb_func_traits\<close> is written for \<open>R ClassT::* (Arg...)\<close>, the type
  of functions that return a pointer to a member, and not for the pointer to a member function
  \<open>R (ClassT::*)(Arg...)\<close>; only the second one, for \<open>const\<close> members, can match.
\<close>

fun memb_func_signature :: "cxx \<Rightarrow> cxx option" where
  "memb_func_signature (Member c r ts True) = Some (Function r ts)"
| "memb_func_signature _ = None"

fun function_type_signature :: "cxx \<Rightarrow> cxx option" where
  "function_type_signature (Member c r ts False) = Some (Function r (add_lref c # ts))"
| "function_type_signature (Member c r ts True) = Some (Function r (add_lref (Const c) # ts))"
| "function_type_signature (Functor n m) = memb_func_signature m"
| "function_type_signature _ = None"

fun parameters_of_function :: "cxx \<Rightarrow> cxx list option" where
  "parameters_of_function (Function r ts) = Some ts"
| "parameters_of_function _ = None"

fun ParameterTypes :: "cxx \<Rightarrow> cxx list option" where
  "ParameterTypes (Function r ts) = Some ts"
| "ParameterTypes (Std_function f) = parameters_of_function f"
| "ParameterTypes (Boost_function f) = parameters_of_function f"
| "ParameterTypes (Member c r ts k) = Some (add_lref c # ts)"
| "ParameterTypes (LRef t) = ParameterTypes t"
| "ParameterTypes t = Option.bind (function_type_signature t) parameters_of_function"

text \<open>\<open>is_function_object\<close>, and the guard of the \<open>spawn\<close> for functors that are lvalues.\<close>

fun is_function_object :: "cxx \<Rightarrow> bool" where
  "is_function_object (Std_function f) = True"
| "is_function_object (Boost_function f) = True"
| "is_function_object _ = False"

fun is_member_function_pointer :: "cxx \<Rightarrow> bool" where
  "is_member_function_pointer (Member c r ts k) = True"
| "is_member_function_pointer _ = False"

fun is_function :: "cxx \<Rightarrow> bool" where
  "is_function (Function r ts) = True"
| "is_function _ = False"

definition spawns_functor :: "cxx \<Rightarrow> bool" where
  "spawns_functor t \<longleftrightarrow>
     is_reference_type t \<and> \<not> is_member_function_pointer (remove_reference t) \<and>
     \<not> is_function (remove_reference t) \<and> \<not> is_function_object (remove_reference t)"

text \<open>
  The function and the types of the arguments that the other \<open>spawn\<close> then analyses; \<open>t\<close> is what
  \<open>T\<close> is deduced to, a reference exactly for an lvalue.
\<close>

fun call_operator :: "cxx \<Rightarrow> cxx option" where
  "call_operator (Functor n m) = Some m"
| "call_operator (Const (Functor n m)) = Some m"
| "call_operator _ = None"

definition spawn_call :: "cxx \<Rightarrow> cxx list \<Rightarrow> (cxx list \<times> cxx list) option" where
  "spawn_call t as =
     (if spawns_functor t
      then do {
        m \<leftarrow> call_operator (remove_reference t);
        ps \<leftarrow> ParameterTypes m;
        Some (ps, t # as)
      }
      else do { ps \<leftarrow> ParameterTypes (remove_const (remove_reference t)); Some (ps, as) })"

section \<open>Ignored arguments and Blitz++ arrays\<close>

fun is_ignored :: "cxx \<Rightarrow> bool" where
  "is_ignored (RRef (Ignore t)) = True"
| "is_ignored _ = False"

text \<open>\<open>ignore(x)\<close> for an argument deduced as \<open>t\<close>: an object that holds a \<open>t\<close>.\<close>

definition ignore :: "cxx \<Rightarrow> cxx" where
  "ignore t = Ignore t"

text \<open>What the conversion operator of \<open>Ignore<T>\<close> to \<open>T&\<close> gives.\<close>

definition ignored_content :: "cxx \<Rightarrow> cxx" where
  "ignored_content t = add_lref t"

definition blitz_array_types :: "(cxx \<times> nat) list" where
  "blitz_array_types =
     [(Fundamental Int_t, 1), (Fundamental Int_t, 2), (Fundamental Int_t, 3), (Fundamental Int_t, 4),
      (Fundamental UInt, 1), (Fundamental UInt, 2), (Fundamental UInt, 3), (Fundamental UInt, 4),
      (Fundamental ULongLong, 1), (Fundamental ULongLong, 2), (Fundamental ULongLong, 3), (Fundamental ULongLong, 4),
      (Fundamental LongLong, 1), (Fundamental LongLong, 2), (Fundamental LongLong, 3), (Fundamental LongLong, 4),
      (Fundamental Float, 1), (Fundamental Float, 2), (Fundamental Float, 3), (Fundamental Float, 4),
      (Fundamental Double, 1), (Fundamental Double, 2), (Fundamental Double, 3), (Fundamental Double, 4),
      (Fundamental LongDouble, 1), (Fundamental LongDouble, 2), (Fundamental LongDouble, 3),
      (Fundamental LongDouble, 4)]"

fun is_blitz_array :: "cxx \<Rightarrow> bool" where
  "is_blitz_array (Array t d) = ((t, d) \<in> set blitz_array_types)"
| "is_blitz_array _ = False"

section \<open>What the task receives\<close>

text \<open>
  \<open>ref<Args&&>::make\<close>: a reference wrapper, a reference that \<open>std::bind\<close> copies from, or a copy
  of a Blitz++ array, which shares the data of the original.
\<close>

datatype passed = Wrapper cxx | Copied cxx | View cxx

fun ref_make :: "cxx \<Rightarrow> passed" where
  "ref_make (RRef (Ignore t)) = Wrapper (ignored_content t)"
| "ref_make (RRef (Array t d)) = View (Array t d)"
| "ref_make (LRef (Array t d)) = View (Array t d)"
| "ref_make (LRef (Const (Array t d))) = View (Const (Array t d))"
| "ref_make (Const (Array t d)) = View (Const (Array t d))"
| "ref_make (RRef t) = Copied t"
| "ref_make t = Wrapper (add_lref t)"

fun is_array_type :: "cxx \<Rightarrow> bool" where
  "is_array_type (Array t d) = True"
| "is_array_type _ = False"

text \<open>Whether the task works on memory of the caller.\<close>

fun shares :: "passed \<Rightarrow> bool" where
  "shares (Wrapper t) = True"
| "shares (Copied t) = is_array_type (remove_const t)"
| "shares (View t) = True"

section \<open>The flags of fill_args\<close>

text \<open>For a formal parameter of type \<open>c\<close> and an argument deduced as \<open>h\<close>.\<close>

definition type_flags :: "cxx \<Rightarrow> cxx \<Rightarrow> actual \<Rightarrow> actual" where
  "type_flags c h x =
     x\<lparr>is_reference := is_reference_type c,
       is_const := is_const_type (remove_reference c),
       formal_ignored := is_ignored (add_rref c),
       head_ignored := is_ignored (add_rref h),
       head_rvalue := is_rvalue_reference (add_rref h),
       is_barray := is_blitz_array (remove_const (remove_reference h))\<rparr>"

text \<open>\<open>fill_args\<close> walks through the parameters and the arguments together.\<close>

fun spawn_flags :: "cxx list \<Rightarrow> (cxx \<times> actual) list \<Rightarrow> actual list option" where
  "spawn_flags cs [] = Some []"
| "spawn_flags [] (h # hs) = None"
| "spawn_flags (c # cs) ((h, x) # hs) =
     map_option ((#) (type_flags c h x)) (spawn_flags cs hs)"

section \<open>Properties\<close>

text \<open>Array types that the program uses have to be announced with \<open>DEFINE_NEW_ARRAY_TYPE\<close>.\<close>

definition announced :: "cxx \<Rightarrow> bool" where
  "announced h \<longleftrightarrow>
     (is_array_type (remove_const (remove_reference h)) \<longrightarrow> is_blitz_array (remove_const (remove_reference h)))"

text \<open>An argument is deduced to an lvalue reference or to the type of an rvalue.\<close>

definition deduced :: "cxx \<Rightarrow> bool" where
  "deduced h \<longleftrightarrow> (\<exists>t. (h = LRef t \<or> h = t) \<and> \<not> is_reference_type t)"

lemma blitz_array_is_array: "is_blitz_array t \<Longrightarrow> is_array_type t"
  by (cases t) auto

lemma shares_rvalue:
  "\<not> is_reference_type t \<Longrightarrow> \<not> is_ignored (RRef t) \<Longrightarrow> shares (ref_make (RRef t)) = is_array_type (remove_const t)"
  by (cases t) auto

lemma shares_lvalue: "shares (ref_make (LRef t))"
  by (cases "LRef t" rule: ref_make.cases) auto

lemma add_rref_plain: "\<not> is_reference_type t \<Longrightarrow> add_rref t = RRef t"
  by (cases t) auto

lemma remove_reference_plain: "\<not> is_reference_type t \<Longrightarrow> remove_reference t = t"
  by (cases t) auto

text \<open>
  C38: Provided that the types of the Blitz++ arrays in use were announced, an argument of a spawn is
  tracked exactly when the task works on memory of the caller, because it receives a reference
  or a view of the same array, and neither the argument nor the parameter is an \<open>Ignore\<close>; it is
  tracked as written exactly when the parameter is a reference to a type that is not \<open>const\<close>.
  What is passed through \<open>ignore\<close> is never tracked.
\<close>

theorem shared_arguments_are_tracked:
  assumes "deduced h" "announced h"
  shows "(process_argument (type_flags c h x) \<longleftrightarrow>
            shares (ref_make (add_rref h)) \<and> \<not> is_ignored (add_rref c) \<and> \<not> is_ignored (add_rref h)) \<and>
         (is_writable (type_flags c h x) \<longleftrightarrow> is_reference_type c \<and> \<not> is_const_type (remove_reference c)) \<and>
         \<not> process_argument (type_flags c (ignore h) x)"
proof (intro conjI)
  show "\<not> process_argument (type_flags c (ignore h) x)"
    by (simp add: process_argument_def type_flags_def ignore_def)
  show "is_writable (type_flags c h x) \<longleftrightarrow> is_reference_type c \<and> \<not> is_const_type (remove_reference c)"
    by (simp add: is_writable_def type_flags_def)
  obtain t where t: "h = LRef t \<or> h = t" "\<not> is_reference_type t"
    using assms(1) by (auto simp: deduced_def)
  show "process_argument (type_flags c h x) \<longleftrightarrow>
      shares (ref_make (add_rref h)) \<and> \<not> is_ignored (add_rref c) \<and> \<not> is_ignored (add_rref h)"
  proof (cases "h = LRef t")
    case True
    then show ?thesis
      using shares_lvalue [of t] by (simp add: process_argument_def type_flags_def)
  next
    case False
    then have h: "h = t" using t(1) by blast
    have "is_blitz_array (remove_const t) = is_array_type (remove_const t)"
      using assms(2) blitz_array_is_array h remove_reference_plain [OF t(2)] by (auto simp: announced_def)
    then show ?thesis
      using h add_rref_plain [OF t(2)] shares_rvalue [OF t(2)] remove_reference_plain [OF t(2)]
      by (auto simp: process_argument_def type_flags_def)
  qed
qed

definition some_actual :: actual where
  "some_actual = \<lparr>is_reference = False, is_const = False, formal_ignored = False, head_ignored = False,
     head_rvalue = False, is_barray = False, sizeof_head = 4, address = 1000, block = 0,
     original_dims = 0, extent = []\<rparr>"

lemma shared_arguments_are_tracked_witness:
  "process_argument (type_flags (LRef (Fundamental Int_t)) (LRef (Fundamental Int_t)) some_actual) \<and>
   is_writable (type_flags (LRef (Fundamental Int_t)) (LRef (Fundamental Int_t)) some_actual) \<and>
   \<not> process_argument (type_flags (LRef (Fundamental Int_t)) (ignore (LRef (Fundamental Int_t))) some_actual) \<and>
   \<not> process_argument (type_flags (Fundamental Int_t) (Fundamental Int_t) some_actual) \<and>
   process_argument (type_flags (Array (Fundamental Float) 1) (Const (Array (Fundamental Float) 1)) some_actual)"
proof -
  have d: "deduced (LRef (Fundamental Int_t))" "announced (LRef (Fundamental Int_t))"
    "deduced (Fundamental Int_t)" "announced (Fundamental Int_t)"
    "deduced (Const (Array (Fundamental Float) 1))" "announced (Const (Array (Fundamental Float) 1))"
    by (auto simp: deduced_def announced_def blitz_array_types_def)
  show ?thesis
    using shared_arguments_are_tracked [OF d(1,2), of "LRef (Fundamental Int_t)" some_actual]
      shared_arguments_are_tracked [OF d(3,4), of "Fundamental Int_t" some_actual]
      shared_arguments_are_tracked [OF d(5,6), of "Array (Fundamental Float) 1" some_actual]
    by simp
qed

text \<open>
  A functor whose \<open>operator()\<close> is not \<open>const\<close> has no parameter types when it is an rvalue; as an
  lvalue it has. The object of a \<open>const\<close> member function is tracked as written.
\<close>

theorem functor_parameters:
  "spawn_call (Functor n (Member (Class n) r ts False)) as = None \<and>
   spawn_call (LRef (Functor n (Member (Class n) r ts False))) as =
     Some (LRef (Class n) # ts, LRef (Functor n (Member (Class n) r ts False)) # as) \<and>
   spawn_call (Functor n (Member (Class n) r ts True)) as = Some (ts, as) \<and>
   spawn_call (LRef (Functor n (Member (Class n) r ts True))) as =
     Some (LRef (Class n) # ts, LRef (Functor n (Member (Class n) r ts True)) # as) \<and>
   is_writable (type_flags (LRef (Class n)) (LRef (Functor n (Member (Class n) r ts True))) x)"
  by (simp add: spawn_call_def spawns_functor_def is_writable_def type_flags_def)

end
