(* ===== verification/MemBlock.thy ===== *)
theory MemBlock
  imports Prelude
begin

text \<open>
  The reference counted memory blocks of Blitz++ (\<open>MemoryBlock\<close>, \<open>MemoryBlockReference\<close>,
  \<open>src/depspawn-blitz-1.0.2/blitz/memblock.h\<close>, \<open>memblock.cc\<close>). A block is known by the address
  of its \<open>MemoryBlock\<close> object, 0 being the null pointer; the heap maps it to its fields, and
  \<open>delete\<close> removes it. Using a block that is not in the heap is \<open>None\<close>. What \<open>new\<close> returns
  is an argument of the operations that allocate.
\<close>

section \<open>Blocks\<close>

record mblock =
  block_length :: nat
  block_data :: int
  references :: int
  allocatedByUs :: bool

type_synonym blocks = "u64 \<Rightarrow> mblock option"

datatype deletion_policy = DuplicateData | DeleteDataWhenDone | NeverDeleteData

definition fresh_block :: "nat \<Rightarrow> nat \<Rightarrow> int \<Rightarrow> mblock" where
  "fresh_block vecWidth items d =
     (let m = items mod vecWidth;
          n = (if m > 0 then items + (vecWidth - m) else items)
      in \<lparr>block_length = n, block_data = d, references = 1, allocatedByUs = True\<rparr>)"

definition preallocated_block :: "nat \<Rightarrow> int \<Rightarrow> mblock" where
  "preallocated_block n d =
     \<lparr>block_length = n, block_data = d, references = 1, allocatedByUs = False\<rparr>"

definition block_addReference :: "u64 \<Rightarrow> blocks \<Rightarrow> blocks option" where
  "block_addReference p h =
     (case h p of None \<Rightarrow> None
      | Some b \<Rightarrow> Some (h(p \<mapsto> b\<lparr>references := references b + 1\<rparr>)))"

definition block_removeReference :: "u64 \<Rightarrow> blocks \<Rightarrow> (blocks \<times> int) option" where
  "block_removeReference p h =
     (case h p of None \<Rightarrow> None
      | Some b \<Rightarrow> Some (h(p \<mapsto> b\<lparr>references := references b - 1\<rparr>), references b - 1))"

section \<open>Where the data of a block lie\<close>

text \<open>
  \<open>allocate\<close> and \<open>deallocate\<close>, in bytes. The result of \<open>allocate\<close> is the number of bytes asked
  for and the address of the data, given the address \<open>raw\<close> that \<open>new\<close> returns;
  \<open>minLengthToAlign\<close> is the largest \<open>size_t\<close> unless blocks are aligned on cache lines.
\<close>

record layout_params =
  byteWidth :: nat
  vec_width :: nat
  elem_size :: nat
  cacheLineSize :: nat
  minLengthToAlign :: nat

definition allocate :: "layout_params \<Rightarrow> nat \<Rightarrow> nat \<Rightarrow> (nat \<times> nat) option" where
  "allocate c n raw =
     (if n mod vec_width c = 0 then
        let numBytes = n * elem_size c
        in if numBytes < minLengthToAlign c \<or> cacheLineSize c mod byteWidth c \<noteq> 0
           then Some (n div vec_width c * (vec_width c * elem_size c), raw)
           else let offsetToCacheLine = raw mod cacheLineSize c;
                    shift = (if offsetToCacheLine = 0 then 0 else cacheLineSize c - offsetToCacheLine)
                in Some (numBytes + cacheLineSize c + 1, raw + shift)
      else None)"

datatype delete_how = DeleteElements | DeleteVectors | DeleteBytes

definition deallocate :: "layout_params \<Rightarrow> bool \<Rightarrow> nat \<Rightarrow> delete_how" where
  "deallocate c by_us n =
     (let numBytes = n * elem_size c
      in if \<not> by_us then DeleteElements
         else if numBytes < minLengthToAlign c \<or> cacheLineSize c mod byteWidth c \<noteq> 0
         then DeleteVectors else DeleteBytes)"

section \<open>References to blocks\<close>

record mbref =
  data_ptr :: int
  block_ptr :: u64

definition null_ref :: mbref where
  "null_ref = \<lparr>data_ptr = 0, block_ptr = 0\<rparr>"

definition addReference :: "'a mbref_scheme \<Rightarrow> blocks \<Rightarrow> blocks option" where
  "addReference r h = (if block_ptr r \<noteq> 0 then block_addReference (block_ptr r) h else Some h)"

definition removeReference :: "'a mbref_scheme \<Rightarrow> blocks \<Rightarrow> (blocks \<times> int) option" where
  "removeReference r h =
     (if block_ptr r \<noteq> 0 then block_removeReference (block_ptr r) h else Some (h, - 1))"

definition blockRemoveReference :: "'a mbref_scheme \<Rightarrow> blocks \<Rightarrow> blocks option" where
  "blockRemoveReference r h =
     do { (h', refcount) \<leftarrow> removeReference r h;
          Some (if refcount = 0 then h'(block_ptr r := None) else h') }"

definition numReferences :: "'a mbref_scheme \<Rightarrow> blocks \<Rightarrow> int option" where
  "numReferences r h =
     (if block_ptr r \<noteq> 0 then map_option references (h (block_ptr r)) else Some (- 1))"

definition changeToNullBlock :: "'a mbref_scheme \<Rightarrow> blocks \<Rightarrow> (blocks \<times> 'a mbref_scheme) option" where
  "changeToNullBlock r h =
     do { h' \<leftarrow> blockRemoveReference r h; Some (h', r\<lparr>block_ptr := 0, data_ptr := 0\<rparr>) }"

definition changeBlock ::
  "'a mbref_scheme \<Rightarrow> 'b mbref_scheme \<Rightarrow> nat \<Rightarrow> blocks \<Rightarrow> (blocks \<times> 'a mbref_scheme) option"
where
  "changeBlock r ref offset h =
     do { h1 \<leftarrow> blockRemoveReference r h;
          let r' = r\<lparr>block_ptr := block_ptr ref\<rparr>;
          h2 \<leftarrow> addReference r' h1;
          Some (h2, r'\<lparr>data_ptr := data_ptr ref + int offset\<rparr>) }"

definition newBlock ::
  "nat \<Rightarrow> 'a mbref_scheme \<Rightarrow> nat \<Rightarrow> u64 \<times> int \<Rightarrow> blocks \<Rightarrow> (blocks \<times> 'a mbref_scheme) option"
where
  "newBlock vecWidth r items new h =
     do { h1 \<leftarrow> blockRemoveReference r h;
          Some (h1(fst new \<mapsto> fresh_block vecWidth items (snd new)),
                r\<lparr>block_ptr := fst new, data_ptr := snd new\<rparr>) }"

text \<open>The constructors and the destructor.\<close>

definition ref_copy :: "'a mbref_scheme \<Rightarrow> nat \<Rightarrow> blocks \<Rightarrow> (blocks \<times> mbref) option" where
  "ref_copy ref offset h =
     do { let r = \<lparr>data_ptr = data_ptr ref + int offset, block_ptr = block_ptr ref\<rparr>;
          h' \<leftarrow> addReference r h;
          Some (h', r) }"

definition ref_existing :: "nat \<Rightarrow> int \<Rightarrow> deletion_policy \<Rightarrow> u64 \<Rightarrow> blocks \<Rightarrow> blocks \<times> mbref" where
  "ref_existing n d policy new h =
     (if policy = NeverDeleteData \<or> policy = DuplicateData
      then (h, \<lparr>data_ptr = d, block_ptr = 0\<rparr>)
      else (h(new \<mapsto> preallocated_block n d), \<lparr>data_ptr = d, block_ptr = new\<rparr>))"

definition ref_new :: "nat \<Rightarrow> nat \<Rightarrow> u64 \<times> int \<Rightarrow> blocks \<Rightarrow> blocks \<times> mbref" where
  "ref_new vecWidth items new h =
     (h(fst new \<mapsto> fresh_block vecWidth items (snd new)),
      \<lparr>data_ptr = snd new, block_ptr = fst new\<rparr>)"

definition ref_destroy :: "'a mbref_scheme \<Rightarrow> blocks \<Rightarrow> blocks option" where
  "ref_destroy r h = blockRemoveReference r h"

section \<open>Counting\<close>

text \<open>
  The references that a program holds, in a list. A heap is counted when the blocks in it are
  those some reference points to, each with the number of those references.
\<close>

definition users :: "u64 \<Rightarrow> mbref list \<Rightarrow> nat" where
  "users p rs = length (filter (\<lambda>r. block_ptr r = p) rs)"

definition counted :: "blocks \<Rightarrow> mbref list \<Rightarrow> bool" where
  "counted h rs \<longleftrightarrow>
     h 0 = None \<and>
     (\<forall>p. p \<noteq> 0 \<and> h p = None \<longrightarrow> users p rs = 0) \<and>
     (\<forall>p b. p \<noteq> 0 \<and> h p = Some b \<longrightarrow> users p rs > 0 \<and> references b = int (users p rs))"

lemma users_simps [simp]:
  "users p [] = 0"
  "users p (r # rs) = (if block_ptr r = p then Suc (users p rs) else users p rs)"
  "users p (xs @ ys) = users p xs + users p ys"
  by (simp_all add: users_def)

lemma counted_cong:
  assumes "\<And>p. p \<noteq> 0 \<Longrightarrow> users p rs = users p rs'"
  shows "counted h rs = counted h rs'"
  using assms by (simp_all add: counted_def)

lemma counted_middle: "counted h (xs @ r # ys) = counted h (r # xs @ ys)"
  by (rule counted_cong) simp

lemma countedD:
  assumes "counted h rs" "p \<noteq> 0"
  shows "h p = None \<Longrightarrow> users p rs = 0"
    and "h p = Some b \<Longrightarrow> users p rs > 0 \<and> references b = int (users p rs)"
  using assms unfolding counted_def by blast+

text \<open>One reference less, one reference more, and a new block.\<close>

lemma blockRemoveReference_counted:
  assumes c: "counted h (r # rs)"
  shows "\<exists>h'. blockRemoveReference r h = Some h' \<and> counted h' rs \<and> (\<forall>p. h p = None \<longrightarrow> h' p = None) \<and>
           (\<forall>p. p \<noteq> 0 \<and> users p rs > 0 \<longrightarrow> h' p \<noteq> None)"
proof (cases "block_ptr r = 0")
  case True
  have "counted h rs"
    using c True by (subst counted_cong [of _ "r # rs"]) auto
  moreover have "h p \<noteq> None" if "p \<noteq> 0" "users p rs > 0" for p
    using countedD(1) [OF \<open>counted h rs\<close> that(1)] that(2) by fastforce
  ultimately show ?thesis
    using True by (simp add: blockRemoveReference_def removeReference_def)
next
  case False
  let ?p = "block_ptr r"
  obtain b where b: "h ?p = Some b" "references b = int (Suc (users ?p rs))"
    using countedD [OF c False] by (cases "h ?p") auto
  let ?h1 = "h(?p \<mapsto> b\<lparr>references := references b - 1\<rparr>)"
  let ?h' = "if users ?p rs = 0 then ?h1(?p := None) else ?h1"
  have "blockRemoveReference r h = Some ?h'"
    using False b by (simp add: blockRemoveReference_def removeReference_def block_removeReference_def)
  moreover have new: "counted ?h' rs"
    using c False b by (auto simp: counted_def split: option.splits if_splits)
  moreover have "\<forall>p. h p = None \<longrightarrow> ?h' p = None"
    using b(1) by auto
  moreover have "?h' p \<noteq> None" if "p \<noteq> 0" "users p rs > 0" for p
    using countedD(1) [OF new that(1)] that(2) by linarith
  ultimately show ?thesis by blast
qed

lemma addReference_counted:
  assumes c: "counted h rs" and p: "block_ptr r \<noteq> 0 \<Longrightarrow> h (block_ptr r) \<noteq> None"
  shows "\<exists>h'. addReference r h = Some h' \<and> counted h' (r # rs)"
proof (cases "block_ptr r = 0")
  case True
  have "counted h (r # rs)"
    using c True by (subst counted_cong [of _ rs]) auto
  then show ?thesis using True by (simp add: addReference_def)
next
  case False
  then obtain b where b: "h (block_ptr r) = Some b" using p by auto
  then have "counted (h(block_ptr r \<mapsto> b\<lparr>references := references b + 1\<rparr>)) (r # rs)"
    using c False by (auto simp: counted_def split: option.splits)
  then show ?thesis
    using False b by (simp add: addReference_def block_addReference_def)
qed

lemma new_counted:
  assumes c: "counted h rs" and "h p = None" "p \<noteq> 0" "block_ptr r = p" "references b = 1"
  shows "counted (h(p \<mapsto> b)) (r # rs)"
  using assms by (auto simp: counted_def split: option.splits)

section \<open>Programs over references\<close>

text \<open>
  What a program does with its references: each operation names the references of the list it
  works on. \<open>Copy\<close> and \<open>Declare\<close> add a reference at the front, \<open>Destroy\<close> removes one.
\<close>

datatype ref_op = Declare | Allocate nat "u64 \<times> int" | Existing nat int deletion_policy u64
  | Copy nat nat | ToNull nat | NewBlock nat nat "u64 \<times> int" | ChangeBlock nat nat nat | Destroy nat

fun ref_step :: "nat \<Rightarrow> ref_op \<Rightarrow> blocks \<times> mbref list \<Rightarrow> (blocks \<times> mbref list) option" where
  "ref_step w Declare (h, rs) = Some (h, null_ref # rs)"
| "ref_step w (Allocate items new) (h, rs) = (let (h', r) = ref_new w items new h in Some (h', r # rs))"
| "ref_step w (Existing n d policy new) (h, rs) =
     (let (h', r) = ref_existing n d policy new h in Some (h', r # rs))"
| "ref_step w (Copy i offset) (h, rs) =
     map_option (\<lambda>(h', r). (h', r # rs)) (ref_copy (rs ! i) offset h)"
| "ref_step w (ToNull i) (h, rs) = map_option (\<lambda>(h', r). (h', rs[i := r])) (changeToNullBlock (rs ! i) h)"
| "ref_step w (NewBlock i items new) (h, rs) =
     map_option (\<lambda>(h', r). (h', rs[i := r])) (newBlock w (rs ! i) items new h)"
| "ref_step w (ChangeBlock i j offset) (h, rs) =
     map_option (\<lambda>(h', r). (h', rs[i := r])) (changeBlock (rs ! i) (rs ! j) offset h)"
| "ref_step w (Destroy i) (h, rs) =
     map_option (\<lambda>h'. (h', take i rs @ drop (Suc i) rs)) (ref_destroy (rs ! i) h)"

text \<open>
  The references an operation names exist, \<open>new\<close> returns the address of no live block, and a
  reference is not made to refer to itself.
\<close>

fun legal :: "ref_op \<Rightarrow> blocks \<times> mbref list \<Rightarrow> bool" where
  "legal Declare (h, rs) = True"
| "legal (Allocate items new) (h, rs) = (fst new \<noteq> 0 \<and> h (fst new) = None)"
| "legal (Existing n d policy new) (h, rs) = (new \<noteq> 0 \<and> h new = None)"
| "legal (Copy i offset) (h, rs) = (i < length rs)"
| "legal (ToNull i) (h, rs) = (i < length rs)"
| "legal (NewBlock i items new) (h, rs) = (i < length rs \<and> fst new \<noteq> 0 \<and> h (fst new) = None)"
| "legal (ChangeBlock i j offset) (h, rs) = (i < length rs \<and> j < length rs \<and> i \<noteq> j)"
| "legal (Destroy i) (h, rs) = (i < length rs)"

fun ref_run :: "nat \<Rightarrow> ref_op list \<Rightarrow> blocks \<times> mbref list \<Rightarrow> (blocks \<times> mbref list) option" where
  "ref_run w [] s = Some s"
| "ref_run w (op # ops) s = do { s' \<leftarrow> ref_step w op s; ref_run w ops s' }"

fun legal_run :: "nat \<Rightarrow> ref_op list \<Rightarrow> blocks \<times> mbref list \<Rightarrow> bool" where
  "legal_run w [] s = True"
| "legal_run w (op # ops) s =
     (legal op s \<and> (case ref_step w op s of None \<Rightarrow> True | Some s' \<Rightarrow> legal_run w ops s'))"

lemma split_nth: "i < length rs \<Longrightarrow> rs = take i rs @ rs ! i # drop (Suc i) rs"
  by (rule id_take_nth_drop)

lemma counted_take_out:
  "i < length rs \<Longrightarrow> counted h rs = counted h (rs ! i # take i rs @ drop (Suc i) rs)"
  using split_nth [of i rs] counted_middle [of h "take i rs" "rs ! i" "drop (Suc i) rs"] by simp

lemma counted_put:
  "i < length rs \<Longrightarrow> counted h (rs[i := r]) = counted h (r # take i rs @ drop (Suc i) rs)"
  by (simp add: upd_conv_take_nth_drop counted_middle)

lemma still_used:
  assumes "i < length rs" "j < length rs" "i \<noteq> j"
  shows "users (block_ptr (rs ! j)) (take i rs @ drop (Suc i) rs) > 0"
proof -
  have "rs ! j \<in> set (take i rs @ drop (Suc i) rs)"
  proof (cases "j < i")
    case True
    then have "take i rs ! j = rs ! j" "j < length (take i rs)" using assms by simp_all
    then show ?thesis by (metis in_set_conv_nth UnCI set_append)
  next
    case False
    then have "drop (Suc i) rs ! (j - Suc i) = rs ! j" "j - Suc i < length (drop (Suc i) rs)"
      using assms by simp_all
    then show ?thesis by (metis in_set_conv_nth UnCI set_append)
  qed
  then have "filter (\<lambda>r. block_ptr r = block_ptr (rs ! j)) (take i rs @ drop (Suc i) rs) \<noteq> []"
    unfolding filter_empty_conv by blast
  then show ?thesis unfolding users_def by (rule length_greater_0_conv [THEN iffD2])
qed

lemma legal_step_counted:
  assumes c: "counted h rs" and l: "legal op (h, rs)"
  shows "\<exists>h' rs'. ref_step w op (h, rs) = Some (h', rs') \<and> counted h' rs'"
proof (cases op)
  case Declare
  have "counted h (null_ref # rs)"
    using c by (subst counted_cong [of _ rs]) (auto simp: null_ref_def)
  then show ?thesis using Declare by simp
next
  case (Allocate items new)
  then show ?thesis
    using l new_counted [OF c, of "fst new"] by (auto simp: ref_new_def fresh_block_def Let_def)
next
  case (Existing n d policy new)
  have "counted h (\<lparr>data_ptr = d, block_ptr = 0\<rparr> # rs)"
    using c by (subst counted_cong [of _ rs]) auto
  moreover have "counted (h(new \<mapsto> preallocated_block n d)) (\<lparr>data_ptr = d, block_ptr = new\<rparr> # rs)"
    using l Existing by (intro new_counted [OF c]) (simp_all add: preallocated_block_def)
  ultimately show ?thesis
    using Existing by (auto simp: ref_existing_def)
next
  case (Copy i offset)
  let ?r = "\<lparr>data_ptr = data_ptr (rs ! i) + int offset, block_ptr = block_ptr (rs ! i)\<rparr>"
  have "h (block_ptr ?r) \<noteq> None" if "block_ptr ?r \<noteq> 0"
  proof
    assume "h (block_ptr ?r) = None"
    then have "users (block_ptr (rs ! i)) rs = 0" using countedD(1) [OF c] that by simp
    then show False using l Copy by (auto simp: users_def filter_empty_conv)
  qed
  then obtain h' where "addReference ?r h = Some h'" "counted h' (?r # rs)"
    using addReference_counted [OF c, of ?r] by auto
  then show ?thesis using Copy by (simp add: ref_copy_def Let_def)
next
  case (ToNull i)
  then have i: "i < length rs" using l by simp
  obtain h' where h': "blockRemoveReference (rs ! i) h = Some h'" "counted h' (take i rs @ drop (Suc i) rs)"
    using blockRemoveReference_counted [OF c [unfolded counted_take_out [OF i]]] by auto
  have "counted h' (rs[i := (rs ! i)\<lparr>block_ptr := 0, data_ptr := 0\<rparr>])"
    unfolding counted_put [OF i] using h'(2) by (subst counted_cong [of _ "take i rs @ drop (Suc i) rs"]) auto
  then show ?thesis using ToNull h'(1) by (simp add: changeToNullBlock_def)
next
  case (NewBlock i items new)
  then have i: "i < length rs" and f: "fst new \<noteq> 0" "h (fst new) = None" using l by simp_all
  obtain h' where h': "blockRemoveReference (rs ! i) h = Some h'" "counted h' (take i rs @ drop (Suc i) rs)"
      "h' (fst new) = None"
    using blockRemoveReference_counted [OF c [unfolded counted_take_out [OF i]]] f(2) by auto
  have "counted (h'(fst new \<mapsto> fresh_block w items (snd new)))
      (rs[i := (rs ! i)\<lparr>block_ptr := fst new, data_ptr := snd new\<rparr>])"
    unfolding counted_put [OF i] using h' f(1) by (intro new_counted) (simp_all add: fresh_block_def Let_def)
  then show ?thesis using NewBlock h'(1) by (simp add: newBlock_def)
next
  case (ChangeBlock i j offset)
  then have ij: "i < length rs" "j < length rs" "i \<noteq> j" using l by simp_all
  let ?rest = "take i rs @ drop (Suc i) rs"
  obtain h1 where h1: "blockRemoveReference (rs ! i) h = Some h1" "counted h1 ?rest"
      "block_ptr (rs ! j) \<noteq> 0 \<Longrightarrow> h1 (block_ptr (rs ! j)) \<noteq> None"
    using blockRemoveReference_counted [OF c [unfolded counted_take_out [OF ij(1)]]] still_used [OF ij] by auto
  let ?r = "(rs ! i)\<lparr>block_ptr := block_ptr (rs ! j)\<rparr>"
  let ?r' = "?r\<lparr>data_ptr := data_ptr (rs ! j) + int offset\<rparr>"
  obtain h2 where h2: "addReference ?r h1 = Some h2" "counted h2 (?r # ?rest)"
    using addReference_counted [OF h1(2), of ?r] h1(3) by auto
  have "counted h2 (rs[i := ?r'])"
    unfolding counted_put [OF ij(1)] using h2(2) by (subst counted_cong [of _ "?r # ?rest"]) auto
  then show ?thesis using ChangeBlock h1(1) h2(1) by (simp add: changeBlock_def Let_def)
next
  case (Destroy i)
  then have i: "i < length rs" using l by simp
  show ?thesis
    using blockRemoveReference_counted [OF c [unfolded counted_take_out [OF i]]] Destroy
    by (auto simp: ref_destroy_def)
qed

text \<open>
  A program that never makes a reference refer to itself uses no freed block and leaks none:
  every sequence of constructions, copies, reassignments and destructions goes through, and
  after it the live blocks are exactly those that some reference points to, each counting them.
\<close>

theorem blocks_are_counted:
  assumes "legal_run w ops (Map.empty, [])"
  shows "\<exists>h rs. ref_run w ops (Map.empty, []) = Some (h, rs) \<and> counted h rs"
proof -
  have "counted Map.empty []" by (simp add: counted_def)
  then have "legal_run w ops (h, rs) \<Longrightarrow> counted h rs \<Longrightarrow>
      \<exists>h' rs'. ref_run w ops (h, rs) = Some (h', rs') \<and> counted h' rs'" for h rs
  proof (induction ops arbitrary: h rs)
    case (Cons op ops)
    then obtain h1 rs1 where 1: "ref_step w op (h, rs) = Some (h1, rs1)" "counted h1 rs1"
      using legal_step_counted [of h rs op w] by auto
    then show ?case using Cons by auto
  qed simp
  then show ?thesis using assms \<open>counted Map.empty []\<close> by blast
qed

lemma blocks_are_counted_witness:
  "\<exists>h rs. ref_run 2 [Allocate 3 (1000, 64), Copy 0 0, Declare, ChangeBlock 0 1 2, Destroy 2, Destroy 1]
     (Map.empty, []) = Some (h, rs) \<and> counted h rs"
  by (rule blocks_are_counted)
    (simp add: ref_new_def ref_copy_def null_ref_def changeBlock_def ref_destroy_def blockRemoveReference_def
      removeReference_def addReference_def block_addReference_def block_removeReference_def fresh_block_def Let_def)

text \<open>
  \<open>changeBlock\<close> drops the old reference before it takes the new one: when the only reference
  to a block is made to refer to itself, the block is deleted and then used.
\<close>

theorem self_reference_uses_freed_block:
  assumes "block_ptr r \<noteq> 0" "h (block_ptr r) = Some b" "references b = 1"
  shows "\<exists>h'. blockRemoveReference r h = Some h' \<and> h' (block_ptr r) = None \<and> changeBlock r r offset h = None"
  using assms
  by (simp add: changeBlock_def blockRemoveReference_def removeReference_def block_removeReference_def
      addReference_def block_addReference_def Let_def)

lemma self_reference_uses_freed_block_witness:
  "\<exists>h'. blockRemoveReference \<lparr>data_ptr = 64, block_ptr = 1000\<rparr> [1000 \<mapsto> fresh_block 1 3 64] = Some h' \<and>
     h' (block_ptr \<lparr>data_ptr = 64, block_ptr = 1000\<rparr>) = None \<and>
     changeBlock \<lparr>data_ptr = 64, block_ptr = 1000\<rparr> \<lparr>data_ptr = 64, block_ptr = 1000\<rparr> 0
       [1000 \<mapsto> fresh_block 1 3 64] = None"
  by (rule self_reference_uses_freed_block [where b = "fresh_block 1 3 64"]) (simp_all add: fresh_block_def)

section \<open>The data fit in what was allocated\<close>

lemma shift_bound:
  assumes "0 < (c :: nat)"
  shows "(if raw mod c = 0 then 0 else c - raw mod c) \<le> c"
    and "(raw + (if raw mod c = 0 then 0 else c - raw mod c)) mod c = 0"
proof -
  show "(if raw mod c = 0 then 0 else c - raw mod c) \<le> c" by simp
  show "(raw + (if raw mod c = 0 then 0 else c - raw mod c)) mod c = 0"
  proof (cases "raw mod c = 0")
    case False
    have "raw + (c - raw mod c) = raw div c * c + c"
      using assms mod_less_divisor [OF assms, of raw] div_mult_mod_eq [of raw c] by linarith
    then show ?thesis using False by simp
  qed simp
qed

text \<open>
  The data of a block lie inside the memory that was asked for, and start on a cache line when
  the pointer was shifted; \<open>deallocate\<close> frees them the way \<open>allocate\<close> obtained them.
\<close>

theorem data_fit_in_allocation:
  assumes "allocate c n raw = Some (bytes, data)" "0 < cacheLineSize c"
  shows "raw \<le> data \<and> data + n * elem_size c \<le> raw + bytes \<and>
         (deallocate c True n = DeleteVectors \<longleftrightarrow> data = raw \<and> bytes = n * elem_size c) \<and>
         (deallocate c True n = DeleteBytes \<longrightarrow> data mod cacheLineSize c = 0)"
proof (cases "n * elem_size c < minLengthToAlign c \<or> cacheLineSize c mod byteWidth c \<noteq> 0")
  case True
  have "n mod vec_width c = 0" using assms(1) by (auto simp: allocate_def split: if_splits)
  then have "n div vec_width c * (vec_width c * elem_size c) = n * elem_size c"
    by (metis div_mult_mod_eq add.right_neutral mult.assoc)
  then show ?thesis
    using assms(1) True by (auto simp: allocate_def deallocate_def Let_def split: if_splits)
next
  case False
  let ?s = "if raw mod cacheLineSize c = 0 then 0 else cacheLineSize c - raw mod cacheLineSize c"
  have "bytes = n * elem_size c + cacheLineSize c + 1" "data = raw + ?s"
    using assms(1) False by (auto simp: allocate_def Let_def split: if_splits)
  moreover have "deallocate c True n = DeleteBytes"
    using False by (auto simp: deallocate_def Let_def)
  ultimately show ?thesis
    using shift_bound [OF assms(2), of raw] by auto
qed

lemma data_fit_in_allocation_witness:
  "let c = \<lparr>byteWidth = 16, vec_width = 2, elem_size = 8, cacheLineSize = 64, minLengthToAlign = 16\<rparr> in
   100 \<le> (128 :: nat) \<and> 128 + 4 * elem_size c \<le> 100 + 97 \<and>
     (deallocate c True 4 = DeleteVectors \<longleftrightarrow> (128 :: nat) = 100 \<and> 97 = 4 * elem_size c) \<and>
     \<not> (deallocate c True 4 = DeleteBytes \<and> 128 mod cacheLineSize c \<noteq> 0)"
  using data_fit_in_allocation
    [of "\<lparr>byteWidth = 16, vec_width = 2, elem_size = 8, cacheLineSize = 64, minLengthToAlign = 16\<rparr>" 4 100 97 128]
  by (simp add: allocate_def)

end
