(* ===== verification/BlitzArray.thy ===== *)
theory BlitzArray
  imports MemBlock Range FillArgs
begin

text \<open>
  The arrays of Blitz++ as the repository changes them (\<open>src/depspawn-blitz-1.0.2/blitz\<close>:
  \<open>array/storage.h\<close>, \<open>array/methods.cc\<close>, \<open>array/slicing.cc\<close>, \<open>array/resize.cc\<close>,
  \<open>array-impl.h\<close>): the layout of an array in memory, its views, and the extents that the
  changed storage class keeps so that \<open>fill_in_array\<close> knows which part of the original array a
  view covers.

  The template parameter \<open>N_rank\<close> is the length of the vectors of an array. A group of
  overloads for 1 to 11 arguments is one definition on the list of the arguments. The result
  \<open>None\<close> is a failed \<open>BZPRECONDITION\<close> or \<open>BZPRECHECK\<close>, or undefined behaviour: a read of a
  member no constructor has written, or past the end of a vector. An element of \<open>extents\<close> or
  \<open>originalDim\<close> that was never written is \<open>None\<close>. Integers are unbounded.
\<close>

section \<open>GeneralArrayStorage\<close>

datatype padding_policy = ContiguousData | PaddedData

record storage_t =
  paddingPolicy :: padding_policy
  ascendingFlag :: "bool list"
  ordering :: "nat list"
  base :: "int list"
  originalDims :: "nat option"
  extents :: "(int \<times> int) option list"
  originalDim :: "nat option list"

definition read_at :: "'a option list \<Rightarrow> nat \<Rightarrow> 'a option" where
  "read_at xs i = (if i < length xs then xs ! i else None)"

definition general_storage :: "nat \<Rightarrow> padding_policy \<Rightarrow> storage_t" where
  "general_storage N pp =
     \<lparr>paddingPolicy = pp, ascendingFlag = replicate N True,
      ordering = map (\<lambda>i. N - 1 - i) [0 ..< N], base = replicate N 0, originalDims = Some N,
      extents = replicate 11 None,
      originalDim = map (\<lambda>i. if i < N then Some i else None) [0 ..< 11]\<rparr>"

definition ordered_storage :: "nat list \<Rightarrow> bool list \<Rightarrow> padding_policy \<Rightarrow> storage_t" where
  "ordered_storage ord asc pp =
     \<lparr>paddingPolicy = pp, ascendingFlag = asc, ordering = ord, base = replicate (length ord) 0,
      originalDims = Some (length ord), extents = replicate 11 None, originalDim = map Some [0 ..< 11]\<rparr>"

text \<open>
  \<open>FortranArray\<close> and \<open>ColumnMajorArray\<close> start from the constructor that initialises nothing and
  write only the four members of the original Blitz++.
\<close>

definition fortran_storage :: "nat \<Rightarrow> padding_policy \<Rightarrow> storage_t" where
  "fortran_storage N pp =
     \<lparr>paddingPolicy = pp, ascendingFlag = replicate N True, ordering = [0 ..< N], base = replicate N 1,
      originalDims = None, extents = replicate 11 None, originalDim = replicate 11 None\<rparr>"

definition column_major_storage :: "nat \<Rightarrow> padding_policy \<Rightarrow> storage_t" where
  "column_major_storage N pp =
     \<lparr>paddingPolicy = pp, ascendingFlag = replicate N True, ordering = [0 ..< N], base = replicate N 0,
      originalDims = None, extents = replicate 11 None, originalDim = replicate 11 None\<rparr>"

text \<open>The copy constructor, \<open>operator=\<close>, and the copy between storages of different rank.\<close>

definition copy_storage :: "storage_t \<Rightarrow> storage_t option" where
  "copy_storage x =
     (case originalDims x of None \<Rightarrow> None
      | Some n \<Rightarrow> if n \<le> 11
          then Some (x\<lparr>extents := take n (extents x) @ replicate (11 - n) None,
                       originalDim := take n (originalDim x) @ replicate (11 - n) None\<rparr>)
          else None)"

definition assign_storage :: "storage_t \<Rightarrow> storage_t \<Rightarrow> storage_t option" where
  "assign_storage lhs rhs =
     (case originalDims rhs of None \<Rightarrow> None
      | Some n \<Rightarrow> if n \<le> 11
          then Some (rhs\<lparr>extents := take n (extents rhs) @ drop n (extents lhs),
                         originalDim := take n (originalDim rhs) @ drop n (originalDim lhs)\<rparr>)
          else None)"

definition copyDepSpawnInfo :: "storage_t \<Rightarrow> storage_t \<Rightarrow> storage_t option" where
  "copyDepSpawnInfo other s =
     (case originalDims other of None \<Rightarrow> None
      | Some n \<Rightarrow> if n \<le> 11
          then Some (s\<lparr>originalDims := Some n,
                       extents := take n (extents other) @ drop n (extents s),
                       originalDim := take n (originalDim other) @ drop n (originalDim s)\<rparr>)
          else None)"

definition allRanksStoredAscending :: "storage_t \<Rightarrow> bool" where
  "allRanksStoredAscending s = list_all (\<lambda>b. b) (ascendingFlag s)"

definition setExtent :: "nat \<Rightarrow> int \<Rightarrow> storage_t \<Rightarrow> storage_t" where
  "setExtent i len s = s\<lparr>extents := (extents s)[i := Some (base s ! i, base s ! i + len - 1)]\<rparr>"

definition displaceExtent :: "nat \<Rightarrow> range_t \<Rightarrow> storage_t \<Rightarrow> storage_t option" where
  "displaceExtent i r s =
     do { d \<leftarrow> read_at (originalDim s) i;
          e \<leftarrow> read_at (extents s) d;
          let init_range = fst e;
          Some (s\<lparr>extents := (extents s)
                    [d := Some (range_first 0 r + init_range, range_last 0 r + init_range)]\<rparr>) }"

definition remap :: "nat \<Rightarrow> nat \<Rightarrow> storage_t \<Rightarrow> storage_t" where
  "remap new_user_dim old_user_dim s =
     s\<lparr>originalDim := (originalDim s)[new_user_dim := read_at (originalDim s) old_user_dim]\<rparr>"

section \<open>Array: layout\<close>

record array_t = mbref +
  storage :: storage_t
  lengths :: "int list"
  strides :: "int list"
  zeroOffset :: int

abbreviation N_rank :: "array_t \<Rightarrow> nat" where
  "N_rank a \<equiv> length (lengths a)"

definition isRankStoredAscending :: "array_t \<Rightarrow> nat \<Rightarrow> bool" where
  "isRankStoredAscending a k = ascendingFlag (storage a) ! k"

definition array_lbound :: "array_t \<Rightarrow> nat \<Rightarrow> int" where
  "array_lbound a k = base (storage a) ! k"

definition array_ubound :: "array_t \<Rightarrow> nat \<Rightarrow> int" where
  "array_ubound a k = base (storage a) ! k + lengths a ! k - 1"

definition paddedLength :: "int \<Rightarrow> int \<Rightarrow> int" where
  "paddedLength vecWidth n =
     (if n AND (vecWidth - 1) \<noteq> 0 then (n AND NOT (vecWidth - 1)) + vecWidth else n)"

fun stride_loop :: "int \<Rightarrow> array_t \<Rightarrow> nat \<Rightarrow> nat list \<Rightarrow> int \<Rightarrow> int list \<Rightarrow> int list" where
  "stride_loop w a n [] stride ss = ss"
| "stride_loop w a n (r # rs) stride ss =
     (let strideSign = (if \<not> allRanksStoredAscending (storage a) \<and> \<not> isRankStoredAscending a r
                        then - 1 else 1);
          ss' = ss[r := stride * strideSign];
          stride' = (if paddingPolicy (storage a) = PaddedData \<and> n = 0
                     then stride * paddedLength w (lengths a ! r)
                     else stride * lengths a ! r)
      in stride_loop w a (Suc n) rs stride' ss')"

definition calculateZeroOffset :: "array_t \<Rightarrow> array_t" where
  "calculateZeroOffset a =
     a\<lparr>zeroOffset :=
         sum_list (map (\<lambda>n. if \<not> isRankStoredAscending a n
                             then - ((lengths a ! n - 1 + base (storage a) ! n) * strides a ! n)
                             else - (strides a ! n * base (storage a) ! n)) [0 ..< N_rank a])\<rparr>"

definition computeStrides :: "int \<Rightarrow> array_t \<Rightarrow> array_t" where
  "computeStrides w a =
     calculateZeroOffset
       (if N_rank a > 1
        then a\<lparr>strides := stride_loop w a 0 (ordering (storage a)) 1 (strides a)\<rparr>
        else a\<lparr>strides := (strides a)[0 := (if isRankStoredAscending a 0 then 1 else - 1)]\<rparr>)"

fun missing_loop :: "int list \<Rightarrow> (int \<times> int) list \<Rightarrow> nat \<Rightarrow> bool \<Rightarrow> bool" where
  "missing_loop ss [] numStridesMissing haveUnitStride = haveUnitStride"
| "missing_loop ss ((s, len) # rest) numStridesMissing haveUnitStride =
     (let stride = \<bar>s\<bar>;
          unit = (stride = 1 \<or> haveUnitStride);
          vi = stride * len
      in if list_all (\<lambda>t. \<bar>t\<bar> \<noteq> vi) ss
         then (if Suc numStridesMissing = 2 then False else missing_loop ss rest (Suc numStridesMissing) unit)
         else missing_loop ss rest numStridesMissing unit)"

definition isStorageContiguous :: "array_t \<Rightarrow> bool" where
  "isStorageContiguous a = missing_loop (strides a) (zip (strides a) (lengths a)) 0 False"

text \<open>
  \<open>setupStorage\<close>: the extents of the ranks that were given a length, the lengths and bases of
  the others, the strides, and the block. Reading past the last rank is undefined. A negative
  number of elements is a \<open>size_t\<close> that no allocation can serve.
\<close>

definition setupStorage ::
  "nat \<Rightarrow> nat \<Rightarrow> u64 \<times> int \<Rightarrow> blocks \<Rightarrow> array_t \<Rightarrow> (blocks \<times> array_t) option"
where
  "setupStorage w lastRankInitialized new h a =
     (if lastRankInitialized < N_rank a then
        let last = lastRankInitialized;
            s1 = fold (\<lambda>i. setExtent i (lengths a ! i)) [0 ..< Suc last] (storage a);
            s2 = s1\<lparr>base := map (\<lambda>i. if i > last then base s1 ! last else base s1 ! i) [0 ..< N_rank a]\<rparr>;
            ls = map (\<lambda>i. if i > last then lengths a ! last else lengths a ! i) [0 ..< N_rank a];
            a1 = computeStrides (int w) (a\<lparr>storage := s2, lengths := ls\<rparr>);
            alloc_length = (if paddingPolicy s2 = PaddedData
                            then ls[ordering s2 ! 0 := paddedLength (int w) (ls ! (ordering s2 ! 0))]
                            else ls);
            numElem = prod_list alloc_length
        in if numElem < 0 then None
           else do { (h', a2) \<leftarrow> (if numElem = 0 then changeToNullBlock a1 h
                                  else newBlock w a1 (nat numElem) new h);
                     Some (h', a2\<lparr>data_ptr := data_ptr a2 + zeroOffset a2\<rparr>) }
      else None)"

section \<open>Array: constructors\<close>

text \<open>
  A member \<open>TinyVector\<close> that a constructor leaves uninitialised is a vector of zeros here:
  \<open>setupStorage\<close> writes every element before it is read.
\<close>

definition blank_array :: "nat \<Rightarrow> storage_t \<Rightarrow> array_t" where
  "blank_array N s =
     \<lparr>data_ptr = 0, block_ptr = 0, storage = s, lengths = replicate N 0, strides = replicate N 0,
      zeroOffset = 0\<rparr>"

definition null_array :: "nat \<Rightarrow> storage_t \<Rightarrow> array_t option" where
  "null_array N st = map_option (blank_array N) (copy_storage st)"

definition new_array ::
  "nat \<Rightarrow> nat \<Rightarrow> int list \<Rightarrow> storage_t \<Rightarrow> u64 \<times> int \<Rightarrow> blocks \<Rightarrow> (blocks \<times> array_t) option"
where
  "new_array w N ls st new h =
     (if ls \<noteq> [] \<and> N \<ge> length ls then
        do { s \<leftarrow> copy_storage st;
             setupStorage w (length ls - 1) new h
               ((blank_array N s)\<lparr>lengths := ls @ replicate (N - length ls) 0\<rparr>) }
      else None)"

definition new_array_of_shape ::
  "nat \<Rightarrow> int list \<Rightarrow> storage_t \<Rightarrow> u64 \<times> int \<Rightarrow> blocks \<Rightarrow> (blocks \<times> array_t) option"
where
  "new_array_of_shape w shape st new h =
     do { s \<leftarrow> copy_storage st;
          setupStorage w (length shape - 1) new h ((blank_array (length shape) s)\<lparr>lengths := shape\<rparr>) }"

definition new_array_of_bounds ::
  "nat \<Rightarrow> int list \<Rightarrow> int list \<Rightarrow> storage_t \<Rightarrow> u64 \<times> int \<Rightarrow> blocks \<Rightarrow> (blocks \<times> array_t) option"
where
  "new_array_of_bounds w lbounds shape st new h =
     do { s \<leftarrow> copy_storage st;
          setupStorage w (length shape - 1) new h
            ((blank_array (length shape) (s\<lparr>base := lbounds\<rparr>))\<lparr>lengths := shape\<rparr>) }"

fun ranges_loop :: "nat \<Rightarrow> range_t list \<Rightarrow> array_t \<Rightarrow> array_t option" where
  "ranges_loop k [] a = Some a"
| "ranges_loop k (r # rs) a =
     do { n \<leftarrow> range_length r;
          ranges_loop (Suc k) rs
            (a\<lparr>lengths := (lengths a)[k := n],
               storage := (storage a)\<lparr>base := (base (storage a))[k := range_first 0 r]\<rparr>\<rparr>) }"

definition new_array_of_ranges ::
  "nat \<Rightarrow> nat \<Rightarrow> range_t list \<Rightarrow> storage_t \<Rightarrow> u64 \<times> int \<Rightarrow> blocks \<Rightarrow> (blocks \<times> array_t) option"
where
  "new_array_of_ranges w N rs st new h =
     (if rs \<noteq> [] \<and> length rs \<le> N \<and> list_all isAscendingContiguous rs then
        do { s \<leftarrow> copy_storage st;
             a \<leftarrow> ranges_loop 0 rs (blank_array N s);
             setupStorage w (length rs - 1) new h a }
      else None)"

text \<open>Arrays over memory that exists already have no block.\<close>

definition array_over ::
  "nat \<Rightarrow> int \<Rightarrow> int list \<Rightarrow> storage_t \<Rightarrow> array_t option"
where
  "array_over w dataFirst shape st =
     (if dataFirst \<noteq> 0 then
        do { s \<leftarrow> copy_storage st;
             let a = computeStrides (int w)
               ((blank_array (length shape) s)\<lparr>data_ptr := dataFirst, lengths := shape\<rparr>);
             Some (a\<lparr>data_ptr := data_ptr a + zeroOffset a\<rparr>) }
      else None)"

definition array_over_strided ::
  "int \<Rightarrow> int list \<Rightarrow> int list \<Rightarrow> storage_t \<Rightarrow> array_t option"
where
  "array_over_strided dataFirst shape ss st =
     (if dataFirst \<noteq> 0 then
        do { s \<leftarrow> copy_storage st;
             let a = calculateZeroOffset
               ((blank_array (length shape) s)\<lparr>data_ptr := dataFirst, lengths := shape, strides := ss\<rparr>);
             Some (a\<lparr>data_ptr := data_ptr a + zeroOffset a\<rparr>) }
      else None)"

definition setStorage :: "storage_t \<Rightarrow> array_t \<Rightarrow> array_t option" where
  "setStorage x a =
     (if prod_list (lengths a) \<noteq> 0 then None
      else do { s \<leftarrow> assign_storage (storage a) x; Some (a\<lparr>storage := s\<rparr>) })"

section \<open>Array: access to the elements\<close>

definition isInRangeForDim :: "array_t \<Rightarrow> int \<Rightarrow> nat \<Rightarrow> bool" where
  "isInRangeForDim a i d = (i \<ge> base (storage a) ! d \<and> i - base (storage a) ! d < lengths a ! d)"

definition isInRange :: "array_t \<Rightarrow> int list \<Rightarrow> bool" where
  "isInRange a ix =
     (length ix = N_rank a \<and>
      list_all (\<lambda>(i, (b, n)). i \<ge> b \<and> i - b < n) (zip ix (zip (base (storage a)) (lengths a))))"

definition dot :: "int list \<Rightarrow> int list \<Rightarrow> int" where
  "dot xs ys = sum_list (map2 (*) xs ys)"

definition address_of :: "array_t \<Rightarrow> int list \<Rightarrow> int" where
  "address_of a ix = data_ptr a + dot ix (strides a)"

text \<open>
  \<open>assertInRange\<close>, and \<open>operator()\<close> with positions and with an index vector; the result is the
  address of the element.
\<close>

definition assert_index :: "array_t \<Rightarrow> int list \<Rightarrow> bool option" where
  "assert_index a ix = (if isInRange a ix then Some True else None)"

definition subscript :: "array_t \<Rightarrow> int list \<Rightarrow> int option" where
  "subscript a ix = do { _ \<leftarrow> assert_index a ix; Some (data_ptr a + sum_list (map2 (*) ix (strides a))) }"

definition subscript_vector :: "array_t \<Rightarrow> int list \<Rightarrow> int option" where
  "subscript_vector a ix = do { _ \<leftarrow> assert_index a ix; Some (data_ptr a + dot ix (strides a)) }"

definition dataOffset :: "array_t \<Rightarrow> int" where
  "dataOffset a = dot (base (storage a)) (strides a)"

definition dataFirstOffset :: "array_t \<Rightarrow> int" where
  "dataFirstOffset a =
     sum_list (map (\<lambda>i. (base (storage a) ! i +
                         (1 - (if isRankStoredAscending a i then 1 else 0)) * (lengths a ! i - 1)) * strides a ! i)
                [0 ..< N_rank a])"

definition numElements :: "array_t \<Rightarrow> int" where
  "numElements a = prod_list (lengths a)"

section \<open>Array: references and views\<close>

text \<open>\<open>reference\<close>, the copy constructor and \<open>weakReference\<close>.\<close>

definition reference :: "array_t \<Rightarrow> array_t \<Rightarrow> blocks \<Rightarrow> (blocks \<times> array_t) option" where
  "reference a other h =
     do { s \<leftarrow> assign_storage (storage a) (storage other);
          changeBlock (a\<lparr>storage := s, lengths := lengths other, strides := strides other,
                         zeroOffset := zeroOffset other\<rparr>) other 0 h }"

definition array_copy :: "array_t \<Rightarrow> blocks \<Rightarrow> (blocks \<times> array_t) option" where
  "array_copy other h = reference (blank_array (N_rank other) (general_storage (N_rank other) ContiguousData)) other h"

definition weakReference :: "array_t \<Rightarrow> array_t \<Rightarrow> blocks \<Rightarrow> (blocks \<times> array_t) option" where
  "weakReference a other h =
     do { s \<leftarrow> assign_storage (storage a) (storage other);
          (h', a') \<leftarrow> changeToNullBlock (a\<lparr>storage := s, lengths := lengths other, strides := strides other,
                         zeroOffset := zeroOffset other\<rparr>) h;
          Some (h', a'\<lparr>data_ptr := data_ptr other\<rparr>) }"

text \<open>\<open>slice(rank, r)\<close>, on the array itself.\<close>

definition slice_rank :: "nat \<Rightarrow> range_t \<Rightarrow> array_t \<Rightarrow> array_t option" where
  "slice_rank k r a =
     (if k < N_rank a then
        let first = range_first (array_lbound a k) r;
            last = range_last (array_ubound a k) r;
            stride = stride_of r;
            b = base (storage a) ! k
        in if (first \<le> last \<and> stride > 0 \<or> first \<ge> last \<and> stride < 0) \<and>
              (first \<ge> b \<and> first - b < lengths a ! k) \<and> (last \<ge> b \<and> last - b < lengths a ! k)
           then
             let offset = (first - b * stride) * strides a ! k;
                 s = (if stride < 0
                      then (storage a)\<lparr>ascendingFlag := (ascendingFlag (storage a))[k := \<not> isRankStoredAscending a k]\<rparr>
                      else storage a)
             in do { s' \<leftarrow> displaceExtent k r s;
                     Some (a\<lparr>lengths := (lengths a)[k := (last - first) sdiv stride + 1],
                             data_ptr := data_ptr a + offset, zeroOffset := zeroOffset a + offset,
                             strides := (strides a)[k := strides a ! k * stride], storage := s'\<rparr>) }
           else None
      else None)"

fun slice_ranks :: "nat \<Rightarrow> range_t list \<Rightarrow> array_t \<Rightarrow> array_t option" where
  "slice_ranks k [] a = Some a"
| "slice_ranks k (r # rs) a = do { a' \<leftarrow> slice_rank k r a; slice_ranks (Suc k) rs a' }"

definition constructSubarray ::
  "array_t \<Rightarrow> array_t \<Rightarrow> range_t list \<Rightarrow> blocks \<Rightarrow> (blocks \<times> array_t) option"
where
  "constructSubarray a other rs h =
     do { (h', a') \<leftarrow> reference a other h; a'' \<leftarrow> slice_ranks 0 rs a'; Some (h', a'') }"

text \<open>The constructor of a sub-array, and \<open>operator()\<close> with ranges.\<close>

definition subarray :: "array_t \<Rightarrow> range_t list \<Rightarrow> blocks \<Rightarrow> (blocks \<times> array_t) option" where
  "subarray other rs h =
     constructSubarray (blank_array (N_rank other) (general_storage (N_rank other) ContiguousData)) other rs h"

definition paren_ranges :: "array_t \<Rightarrow> range_t list \<Rightarrow> blocks \<Rightarrow> (blocks \<times> array_t) option" where
  "paren_ranges a rs h = subarray a rs h"

text \<open>Sub-arrays given by a domain.\<close>

record rect_domain =
  dom_lbound :: "int list"
  dom_ubound :: "int list"

record strided_domain = rect_domain +
  dom_stride :: "int list"

fun domain_ranges :: "int list \<Rightarrow> int list \<Rightarrow> int list \<Rightarrow> range_t list option" where
  "domain_ranges (l # ls) (u # us) (s # ss) =
     do { r \<leftarrow> new_range l u s; rs \<leftarrow> domain_ranges ls us ss; Some (r # rs) }"
| "domain_ranges _ _ _ = Some []"

definition subarray_of_domain :: "array_t \<Rightarrow> rect_domain \<Rightarrow> blocks \<Rightarrow> (blocks \<times> array_t) option" where
  "subarray_of_domain a d h =
     do { rs \<leftarrow> domain_ranges (dom_lbound d) (dom_ubound d) (replicate (N_rank a) 1); subarray a rs h }"

definition subarray_of_strided_domain ::
  "array_t \<Rightarrow> strided_domain \<Rightarrow> blocks \<Rightarrow> (blocks \<times> array_t) option"
where
  "subarray_of_strided_domain a d h =
     do { rs \<leftarrow> domain_ranges (dom_lbound d) (dom_ubound d) (dom_stride d); subarray a rs h }"

text \<open>
  \<open>operator()\<close> with any mixture of positions and ranges: \<open>constructSlice\<close> and the two overloads
  of \<open>slice\<close> it calls. The array under construction has one rank for each range; \<open>rankMap\<close>
  is -1, here \<open>None\<close>, at a position. Fewer arguments than ranks leave \<open>rankMap\<close> uninitialised.
\<close>

datatype 'r section_arg = At int | Section 'r

definition slice_range_arg ::
  "range_t \<Rightarrow> array_t \<Rightarrow> nat \<Rightarrow> nat \<times> nat option list \<times> array_t \<Rightarrow> (nat \<times> nat option list \<times> array_t) option"
where
  "slice_range_arg r src sourceRank st =
     (case st of (setRank, rankMap, a) \<Rightarrow>
        let s0 = storage a;
            s1 = remap setRank sourceRank s0;
            s2 = s1\<lparr>ascendingFlag := (ascendingFlag s1)[setRank := isRankStoredAscending src sourceRank],
                    base := (base s1)[setRank := base (storage src) ! sourceRank]\<rparr>;
            a1 = a\<lparr>storage := s2, lengths := (lengths a)[setRank := lengths src ! sourceRank],
                   strides := (strides a)[setRank := strides src ! sourceRank]\<rparr>
        in do { a2 \<leftarrow> slice_rank setRank r a1;
                Some (Suc setRank, rankMap[sourceRank := Some setRank], a2) })"

definition slice_int_arg ::
  "int \<Rightarrow> array_t \<Rightarrow> nat \<Rightarrow> nat \<times> nat option list \<times> array_t \<Rightarrow> (nat \<times> nat option list \<times> array_t) option"
where
  "slice_int_arg i src sourceRank st =
     (case st of (setRank, rankMap, a) \<Rightarrow>
        if isInRangeForDim src i sourceRank then
          do { s \<leftarrow> displaceExtent sourceRank (range_at i) (storage a);
               Some (setRank, rankMap[sourceRank := None],
                     a\<lparr>data_ptr := data_ptr a + i * strides src ! sourceRank, storage := s\<rparr>) }
        else None)"

fun slice_args ::
  "nat \<Rightarrow> range_t section_arg list \<Rightarrow> array_t \<Rightarrow> nat \<times> nat option list \<times> array_t \<Rightarrow>
     (nat \<times> nat option list \<times> array_t) option"
where
  "slice_args k [] src st = Some st"
| "slice_args k (At i # xs) src st =
     do { st' \<leftarrow> slice_int_arg i src k st; slice_args (Suc k) xs src st' }"
| "slice_args k (Section r # xs) src st =
     do { st' \<leftarrow> slice_range_arg r src k st; slice_args (Suc k) xs src st' }"

fun redo_ordering :: "nat list \<Rightarrow> nat option list \<Rightarrow> nat \<Rightarrow> nat list \<Rightarrow> nat list" where
  "redo_ordering [] rankMap j ord = ord"
| "redo_ordering (o1 # os) rankMap j ord =
     (case rankMap ! o1 of
        None \<Rightarrow> redo_ordering os rankMap j ord
      | Some k \<Rightarrow> redo_ordering os rankMap (Suc j) (ord[j := k]))"

definition is_section :: "'r section_arg \<Rightarrow> bool" where
  "is_section x = (case x of At _ \<Rightarrow> False | Section _ \<Rightarrow> True)"

definition slice_info_rank :: "'r section_arg list \<Rightarrow> nat" where
  "slice_info_rank xs = sum_list (map (\<lambda>x. if is_section x then 1 else 0) xs)"

definition constructSlice ::
  "nat \<Rightarrow> array_t \<Rightarrow> range_t section_arg list \<Rightarrow> blocks \<Rightarrow> (blocks \<times> array_t) option"
where
  "constructSlice N src xs h =
     (if length xs = N_rank src then
        let a = blank_array N (general_storage N ContiguousData)
        in do { (h', a1) \<leftarrow> changeBlock a src 0 h;
                s \<leftarrow> copyDepSpawnInfo (storage src) (storage a1);
                (setRank, rankMap, a2) \<leftarrow>
                   slice_args 0 xs src (0, replicate (N_rank src) None, a1\<lparr>storage := s\<rparr>);
                let ord = redo_ordering (ordering (storage src)) rankMap 0 (ordering (storage a2));
                Some (h', calculateZeroOffset (a2\<lparr>storage := (storage a2)\<lparr>ordering := ord\<rparr>\<rparr>)) }
      else None)"

definition paren_mixed :: "array_t \<Rightarrow> range_t section_arg list \<Rightarrow> blocks \<Rightarrow> (blocks \<times> array_t) option" where
  "paren_mixed a xs h = constructSlice (slice_info_rank xs) a xs h"

text \<open>\<open>transposeSelf\<close> reads the old layout from a reference copy that goes away at its end.\<close>

definition doTranspose :: "nat \<Rightarrow> nat \<Rightarrow> array_t \<Rightarrow> array_t \<Rightarrow> array_t option" where
  "doTranspose destRank sourceRank old a =
     (if destRank \<ge> N_rank a then Some a
      else if sourceRank < N_rank a then
        let s = storage a;
            i = length (takeWhile (\<lambda>r. r \<noteq> sourceRank) (ordering (storage old)))
        in if i < N_rank a
           then Some (a\<lparr>lengths := (lengths a)[destRank := lengths old ! sourceRank],
                        strides := (strides a)[destRank := strides old ! sourceRank],
                        storage := s\<lparr>ascendingFlag := (ascendingFlag s)[destRank := isRankStoredAscending old sourceRank],
                                     base := (base s)[destRank := base (storage old) ! sourceRank],
                                     ordering := (ordering s)[i := destRank]\<rparr>\<rparr>)
           else None
      else None)"

fun transpose_loop :: "nat \<Rightarrow> nat list \<Rightarrow> array_t \<Rightarrow> array_t \<Rightarrow> array_t option" where
  "transpose_loop k [] old a = Some a"
| "transpose_loop k (r # rs) old a =
     do { a' \<leftarrow> doTranspose k r old a; transpose_loop (Suc k) rs old a' }"

definition transposeSelf :: "nat list \<Rightarrow> array_t \<Rightarrow> array_t option" where
  "transposeSelf rs a =
     (if sum_list rs = N_rank a * (N_rank a - 1) div 2 then transpose_loop 0 rs a a else None)"

definition array_transpose :: "nat list \<Rightarrow> array_t \<Rightarrow> blocks \<Rightarrow> (blocks \<times> array_t) option" where
  "array_transpose rs a h =
     do { (h', b) \<leftarrow> array_copy a h; b' \<leftarrow> transposeSelf rs b; Some (h', b') }"

definition reverseSelf :: "nat \<Rightarrow> array_t \<Rightarrow> array_t option" where
  "reverseSelf k a =
     (if k < N_rank a then
        let s = (storage a)\<lparr>ascendingFlag := (ascendingFlag (storage a))[k := \<not> isRankStoredAscending a k]\<rparr>;
            adjustment = strides a ! k * (array_lbound a k + array_ubound a k)
        in Some (a\<lparr>storage := s, zeroOffset := zeroOffset a + adjustment,
                   data_ptr := data_ptr a + adjustment,
                   strides := (strides a)[k := strides a ! k * - 1]\<rparr>)
      else None)"

definition array_reverse :: "nat \<Rightarrow> array_t \<Rightarrow> blocks \<Rightarrow> (blocks \<times> array_t) option" where
  "array_reverse k a h = do { (h', b) \<leftarrow> array_copy a h; b' \<leftarrow> reverseSelf k b; Some (h', b') }"

definition reindexSelf :: "int list \<Rightarrow> array_t \<Rightarrow> array_t" where
  "reindexSelf newBase a =
     (let delta = sum_list (map (\<lambda>i. (base (storage a) ! i - newBase ! i) * strides a ! i) [0 ..< N_rank a])
      in calculateZeroOffset (a\<lparr>data_ptr := data_ptr a + delta, storage := (storage a)\<lparr>base := newBase\<rparr>\<rparr>))"

definition array_reindex :: "int list \<Rightarrow> array_t \<Rightarrow> blocks \<Rightarrow> (blocks \<times> array_t) option" where
  "array_reindex newBase a h =
     do { (h', b) \<leftarrow> array_copy a h; Some (h', reindexSelf newBase b) }"

section \<open>Array: resizing\<close>

definition resize :: "nat \<Rightarrow> int list \<Rightarrow> u64 \<times> int \<Rightarrow> blocks \<Rightarrow> array_t \<Rightarrow> (blocks \<times> array_t) option" where
  "resize w es new h a =
     (if list_all (\<lambda>e. e \<ge> 0) es \<and> N_rank a = length es then
        if es \<noteq> lengths a then setupStorage w (length es - 1) new h (a\<lparr>lengths := es\<rparr>) else Some (h, a)
      else None)"

definition resize_ranges ::
  "nat \<Rightarrow> range_t list \<Rightarrow> u64 \<times> int \<Rightarrow> blocks \<Rightarrow> array_t \<Rightarrow> (blocks \<times> array_t) option"
where
  "resize_ranges w rs new h a =
     (if rs \<noteq> [] \<and> length rs \<le> N_rank a \<and> list_all isAscendingContiguous rs then
        do { a' \<leftarrow> ranges_loop 0 rs a; setupStorage w (length rs - 1) new h a' }
      else None)"

text \<open>\<open>resize\<close> with a vector passes the rank itself as the last rank that is initialised.\<close>

definition resize_vector ::
  "nat \<Rightarrow> int list \<Rightarrow> u64 \<times> int \<Rightarrow> blocks \<Rightarrow> array_t \<Rightarrow> (blocks \<times> array_t) option"
where
  "resize_vector w es new h a = setupStorage w (N_rank a) new h (a\<lparr>lengths := es\<rparr>)"

section \<open>Domains\<close>

definition rect_range :: "rect_domain \<Rightarrow> nat \<Rightarrow> range_t option" where
  "rect_range d k = new_range (dom_lbound d ! k) (dom_ubound d ! k) 1"

definition strided_range :: "strided_domain \<Rightarrow> nat \<Rightarrow> range_t option" where
  "strided_range d k = new_range (dom_lbound d ! k) (dom_ubound d ! k) (dom_stride d ! k)"

definition rect_of_ranges :: "range_t list \<Rightarrow> rect_domain" where
  "rect_of_ranges rs = \<lparr>dom_lbound = map (range_first 0) rs, dom_ubound = map (range_last 0) rs\<rparr>"

definition shrink_all :: "int \<Rightarrow> rect_domain \<Rightarrow> rect_domain" where
  "shrink_all n d = d\<lparr>dom_lbound := map (\<lambda>l. l + n) (dom_lbound d), dom_ubound := map (\<lambda>u. u - n) (dom_ubound d)\<rparr>"

definition shrink_dim :: "nat \<Rightarrow> int \<Rightarrow> rect_domain \<Rightarrow> rect_domain" where
  "shrink_dim k n d = d\<lparr>dom_lbound := (dom_lbound d)[k := dom_lbound d ! k + n],
                          dom_ubound := (dom_ubound d)[k := dom_ubound d ! k - n]\<rparr>"

definition expand_all :: "int \<Rightarrow> rect_domain \<Rightarrow> rect_domain" where
  "expand_all n d = d\<lparr>dom_lbound := map (\<lambda>l. l - n) (dom_lbound d), dom_ubound := map (\<lambda>u. u + n) (dom_ubound d)\<rparr>"

definition expand_dim :: "nat \<Rightarrow> int \<Rightarrow> rect_domain \<Rightarrow> rect_domain" where
  "expand_dim k n d = d\<lparr>dom_lbound := (dom_lbound d)[k := dom_lbound d ! k - n],
                          dom_ubound := (dom_ubound d)[k := dom_ubound d ! k + n]\<rparr>"

definition strided_shrink_all :: "int \<Rightarrow> strided_domain \<Rightarrow> strided_domain" where
  "strided_shrink_all n d =
     d\<lparr>dom_lbound := map2 (\<lambda>l s. l + n * s) (dom_lbound d) (dom_stride d),
       dom_ubound := map2 (\<lambda>u s. u - n * s) (dom_ubound d) (dom_stride d)\<rparr>"

definition strided_shrink_dim :: "nat \<Rightarrow> int \<Rightarrow> strided_domain \<Rightarrow> strided_domain" where
  "strided_shrink_dim k n d =
     d\<lparr>dom_lbound := (dom_lbound d)[k := dom_lbound d ! k + n * dom_stride d ! k],
       dom_ubound := (dom_ubound d)[k := dom_ubound d ! k - n * dom_stride d ! k]\<rparr>"

definition strided_expand_all :: "int \<Rightarrow> strided_domain \<Rightarrow> strided_domain" where
  "strided_expand_all n d =
     d\<lparr>dom_lbound := map2 (\<lambda>l s. l - n * s) (dom_lbound d) (dom_stride d),
       dom_ubound := map2 (\<lambda>u s. u + n * s) (dom_ubound d) (dom_stride d)\<rparr>"

definition strided_expand_dim :: "nat \<Rightarrow> int \<Rightarrow> strided_domain \<Rightarrow> strided_domain" where
  "strided_expand_dim k n d =
     d\<lparr>dom_lbound := (dom_lbound d)[k := dom_lbound d ! k - n * dom_stride d ! k],
       dom_ubound := (dom_ubound d)[k := dom_ubound d ! k + n * dom_stride d ! k]\<rparr>"

definition strip :: "int list \<Rightarrow> nat \<Rightarrow> int \<Rightarrow> rect_domain option" where
  "strip startPosition k ub =
     (if k < length startPosition \<and> ub \<ge> startPosition ! k
      then Some \<lparr>dom_lbound = startPosition, dom_ubound = startPosition[k := ub]\<rparr> else None)"

text \<open>Growing a domain and shrinking it again gives it back.\<close>

lemma shrink_expand:
  "shrink_all n (expand_all n d) = d" "shrink_dim k n (expand_dim k n d) = d"
  by (simp_all add: shrink_all_def expand_all_def shrink_dim_def expand_dim_def o_def
      nth_list_update list_update_beyond split: if_splits) (cases "k < length (dom_lbound d)"; cases "k < length (dom_ubound d)"; simp add: list_update_beyond)

end
