(* ===== verification/BlitzLayout.thy ===== *)
theory BlitzLayout
  imports BlitzArray
begin

text \<open>
  Where the elements of a Blitz++ array lie: the strides that \<open>computeStrides\<close> sets make the
  position of an element a number in a mixed radix system, so that an index in range has an
  address inside the block of the array and no two indices have the same one.
\<close>

section \<open>Mixed radix\<close>

text \<open>
  The position of an element inside its block is a number in a mixed radix system: its digits
  are the indices, from the most minor rank to the most major one.
\<close>

fun radix :: "nat list \<Rightarrow> (nat \<Rightarrow> int) \<Rightarrow> (nat \<Rightarrow> int) \<Rightarrow> int \<Rightarrow> int" where
  "radix [] F d st = 0"
| "radix (r # rs) F d st = d r * st + radix rs F d (st * F r)"

lemma radix_scale: "radix rs F d (c * st) = c * radix rs F d st"
proof (induction rs arbitrary: st)
  case (Cons r rs)
  have "radix rs F d (c * st * F r) = c * radix rs F d (st * F r)"
    using Cons.IH [of "st * F r"] by (simp only: mult.assoc)
  then show ?case by (simp only: radix.simps distrib_left mult.left_commute)
qed simp

lemma radix_cong:
  assumes "\<And>r. r \<in> set rs \<Longrightarrow> F r = F' r \<and> d r = d' r"
  shows "radix rs F d st = radix rs F' d' st"
  using assms by (induction rs arbitrary: st) auto

lemma radix_bound:
  assumes "\<And>r. r \<in> set rs \<Longrightarrow> 0 \<le> d r \<and> d r < F r" and "0 < st"
  shows "0 \<le> radix rs F d st \<and> radix rs F d st + st \<le> st * prod_list (map F rs)"
  using assms
proof (induction rs arbitrary: st)
  case (Cons r rs)
  have r: "0 \<le> d r" "d r < F r" using Cons.prems(1) by auto
  then have st': "0 < st * F r" using Cons.prems(2) by simp
  have IH: "0 \<le> radix rs F d (st * F r)"
      "radix rs F d (st * F r) + st * F r \<le> st * F r * prod_list (map F rs)"
    using Cons.IH [OF _ st'] Cons.prems(1) by auto
  have "d r * st + st \<le> st * F r"
    using r(2) Cons.prems(2) mult_left_mono [of "d r + 1" "F r" st] by (simp add: algebra_simps)
  then show ?case using IH r(1) Cons.prems(2) by (simp add: algebra_simps)
qed simp

lemma digit_unique:
  fixes f :: int
  assumes "0 \<le> a" "a < f" "0 \<le> b" "b < f" "a + f * q = b + f * q'"
  shows "a = b \<and> q = q'"
proof -
  have "a = (a + f * q) mod f" "b = (b + f * q') mod f"
    using assms(1-4) by simp_all
  then have "a = b" using assms(5) by simp
  then show ?thesis using assms by simp
qed

lemma radix_inj:
  assumes "\<And>r. r \<in> set rs \<Longrightarrow> 0 \<le> d r \<and> d r < F r" "\<And>r. r \<in> set rs \<Longrightarrow> 0 \<le> d' r \<and> d' r < F r"
    and "radix rs F d 1 = radix rs F d' 1" and "r \<in> set rs"
  shows "d r = d' r"
  using assms
proof (induction rs)
  case (Cons r0 rs)
  have eq: "d r0 + F r0 * radix rs F d 1 = d' r0 + F r0 * radix rs F d' 1"
    using Cons.prems(3) radix_scale [of rs F _ "F r0" 1] by simp
  have "d r0 = d' r0 \<and> radix rs F d 1 = radix rs F d' 1"
    using digit_unique [OF _ _ _ _ eq] Cons.prems(1,2) by simp
  then show ?case
    using Cons.IH Cons.prems by auto
qed simp

section \<open>The strides of a new array\<close>

definition wf_storage :: "nat \<Rightarrow> storage_t \<Rightarrow> bool" where
  "wf_storage N s \<longleftrightarrow>
     0 < N \<and> N \<le> 11 \<and> length (ascendingFlag s) = N \<and> length (base s) = N \<and>
     distinct (ordering s) \<and> set (ordering s) = {..<N} \<and> originalDims s = Some N \<and>
     length (extents s) = 11 \<and> length (originalDim s) = 11 \<and> (\<forall>i<N. originalDim s ! i = Some i)"

lemma wf_general_storage: "0 < N \<Longrightarrow> N \<le> 11 \<Longrightarrow> wf_storage N (general_storage N pp)"
proof -
  assume N: "0 < N" "N \<le> 11"
  have "(\<lambda>i. N - 1 - i) ` {0 ..< N} = {..<N}"
  proof (intro equalityI subsetI)
    fix x assume "x \<in> {..<N}"
    then have "x = N - 1 - (N - 1 - x)" "N - 1 - x \<in> {0 ..< N}" by auto
    then show "x \<in> (\<lambda>i. N - 1 - i) ` {0 ..< N}" by blast
  qed (use N(1) in auto)
  then show ?thesis
    using N by (auto simp: wf_storage_def general_storage_def distinct_map inj_on_def)
qed

definition sign_of :: "array_t \<Rightarrow> nat \<Rightarrow> int" where
  "sign_of a r = (if isRankStoredAscending a r then 1 else - 1)"

lemma sign_of_cases: "sign_of a r = 1 \<or> sign_of a r = - 1"
  by (simp add: sign_of_def)

lemma stride_sign:
  assumes "length (ascendingFlag (storage a)) = N" "r < N"
  shows "(if \<not> allRanksStoredAscending (storage a) \<and> \<not> isRankStoredAscending a r then - 1 else 1) = sign_of a r"
  using assms by (auto simp: sign_of_def allRanksStoredAscending_def isRankStoredAscending_def list_all_length)

lemma stride_loop_frame:
  "length (stride_loop w a n rs st ss) = length ss \<and>
   (\<forall>k. k \<notin> set rs \<longrightarrow> stride_loop w a n rs st ss ! k = ss ! k)"
  by (induction rs arbitrary: n st ss) (auto simp: Let_def)

lemma stride_loop_radix:
  assumes "distinct rs" "set rs \<subseteq> {..<N}" "length ss = N" "length (ascendingFlag (storage a)) = N" "0 < n"
  shows "(\<Sum>r\<in>set rs. x r * stride_loop w a n rs st ss ! r) =
           radix rs (\<lambda>r. lengths a ! r) (\<lambda>r. x r * sign_of a r) st"
  using assms
proof (induction rs arbitrary: n st ss)
  case (Cons r rs)
  let ?ss = "ss[r := st * sign_of a r]"
  have r: "r < N" "r \<notin> set rs" using Cons.prems by auto
  have loop: "stride_loop w a n (r # rs) st ss = stride_loop w a (Suc n) rs (st * lengths a ! r) ?ss"
    using stride_sign [OF Cons.prems(4) r(1)] Cons.prems(5) by (simp add: Let_def)
  have "stride_loop w a (Suc n) rs (st * lengths a ! r) ?ss ! r = st * sign_of a r"
    using stride_loop_frame r Cons.prems(3) by simp
  moreover have "(\<Sum>k\<in>set rs. x k * stride_loop w a (Suc n) rs (st * lengths a ! r) ?ss ! k) =
      radix rs (\<lambda>r. lengths a ! r) (\<lambda>r. x r * sign_of a r) (st * lengths a ! r)"
    using Cons.IH [of ?ss "Suc n"] Cons.prems by simp
  ultimately show ?case
    using r(2) unfolding loop by (simp add: algebra_simps)
qed simp

text \<open>The factor by which the stride grows after a rank.\<close>

definition radix_factor :: "int \<Rightarrow> array_t \<Rightarrow> nat \<Rightarrow> int" where
  "radix_factor w a r =
     (if paddingPolicy (storage a) = PaddedData \<and> r = hd (ordering (storage a))
      then paddedLength w (lengths a ! r) else lengths a ! r)"

lemma strides_radix:
  assumes "wf_storage N (storage a)" "N_rank a = N" "length (strides a) = N" "0 < N"
  shows "(\<Sum>r<N. x r * strides (computeStrides w a) ! r) =
           radix (ordering (storage a)) (radix_factor w a) (\<lambda>r. x r * sign_of a r) 1"
    and "length (strides (computeStrides w a)) = N"
proof -
  note wf = assms(1) [unfolded wf_storage_def]
  obtain r rs where o1: "ordering (storage a) = r # rs"
    using wf assms(4) by (cases "ordering (storage a)") auto
  have r: "r < N" "r \<notin> set rs" "distinct rs" "set rs \<subseteq> {..<N}" and all: "{..<N} = insert r (set rs)"
    using wf o1 by auto
  have len: "length (ascendingFlag (storage a)) = N" using wf by simp
  let ?L = "stride_loop w a 0 (r # rs) 1 (strides a)"
  have ss: "strides (computeStrides w a) = ?L"
  proof (cases "N > 1")
    case True
    then show ?thesis using assms(2) o1 by (simp add: computeStrides_def calculateZeroOffset_def)
  next
    case False
    then have N1: "N = 1" using assms(4) by simp
    then have r0: "r = 0" using r(1) by simp
    have "k = 0" if "k \<in> set rs" for k using that r(4) N1 by auto
    then have "rs = []" using r(2) r0 by (cases rs) auto
    note r0 this
    then show ?thesis
      using False assms(2) N1 len stride_sign [OF len, of 0]
      by (simp add: computeStrides_def calculateZeroOffset_def sign_of_def Let_def)
  qed
  let ?ss = "(strides a)[r := sign_of a r]"
  have L: "?L = stride_loop w a (Suc 0) rs (radix_factor w a r) ?ss"
    using stride_sign [OF len r(1)] o1 by (simp add: Let_def radix_factor_def)
  have "(\<Sum>k\<in>set rs. x k * ?L ! k) = radix rs (\<lambda>k. lengths a ! k) (\<lambda>k. x k * sign_of a k) (radix_factor w a r)"
    unfolding L using stride_loop_radix [OF r(3,4) _ len] assms(3) by simp
  moreover have "radix rs (\<lambda>k. lengths a ! k) (\<lambda>k. x k * sign_of a k) (radix_factor w a r) =
      radix rs (radix_factor w a) (\<lambda>k. x k * sign_of a k) (radix_factor w a r)"
    using r(2) o1 by (intro radix_cong) (auto simp: radix_factor_def)
  moreover have "?L ! r = sign_of a r"
    unfolding L using stride_loop_frame r(1,2) assms(3) by simp
  ultimately show "(\<Sum>r<N. x r * strides (computeStrides w a) ! r) =
           radix (ordering (storage a)) (radix_factor w a) (\<lambda>r. x r * sign_of a r) 1"
    using r(2) unfolding ss all o1 by simp
  show "length (strides (computeStrides w a)) = N"
    unfolding ss using stride_loop_frame assms(3) by simp
qed

lemma sum_list_upt: "sum_list (map f [0 ..< n]) = (\<Sum>i<n. f i :: int)"
  by (simp add: sum_list_distinct_conv_sum_set atLeast0LessThan)

lemma dot_sum:
  assumes "length xs = n" "length ys = n"
  shows "dot xs ys = (\<Sum>i<n. xs ! i * ys ! i)"
proof -
  have "map2 (*) xs ys = map (\<lambda>i. xs ! i * ys ! i) [0 ..< n]"
    using assms by (intro nth_equalityI) simp_all
  then show ?thesis unfolding dot_def by (simp add: sum_list_upt)
qed

lemma paddedLength_ge:
  assumes "w = 2 ^ v" "0 \<le> n"
  shows "n \<le> paddedLength w n"
proof (cases "n AND (w - 1) = 0")
  case False
  have m: "w - 1 = (mask v :: int)" using assms(1) by (simp add: mask_eq_exp_minus_1)
  have "(n AND mask v) AND (n AND NOT (mask v)) = 0"
    by (rule bit_eqI) (auto simp: bit_simps)
  then have "(n AND mask v) + (n AND NOT (mask v)) = (n AND mask v) OR (n AND NOT (mask v))"
    by (rule disjunctive_add_eq_or)
  also have "\<dots> = n"
    by (rule bit_eqI) (auto simp: bit_simps)
  finally have "n = (n AND mask v) + (n AND NOT (mask v))" ..
  moreover have "n AND mask v < w"
    using assms by (simp add: take_bit_eq_mask [symmetric] take_bit_int_less_exp)
  ultimately have "n \<le> (n AND NOT (mask v)) + w" by linarith
  then show ?thesis
    using False unfolding paddedLength_def m by simp
qed (simp add: paddedLength_def)

section \<open>Addresses in a new array\<close>

definition origin :: "array_t \<Rightarrow> nat \<Rightarrow> int" where
  "origin a k =
     (if isRankStoredAscending a k then base (storage a) ! k
      else lengths a ! k - 1 + base (storage a) ! k)"

definition digit :: "array_t \<Rightarrow> int list \<Rightarrow> nat \<Rightarrow> int" where
  "digit a ix k = (ix ! k - origin a k) * sign_of a k"

definition laid_out :: "int \<Rightarrow> int \<Rightarrow> array_t \<Rightarrow> bool" where
  "laid_out w d a \<longleftrightarrow>
     wf_storage (N_rank a) (storage a) \<and> length (strides a) = N_rank a \<and>
     (\<forall>ix. length ix = N_rank a \<longrightarrow>
        address_of a ix = d + radix (ordering (storage a)) (radix_factor w a) (digit a ix) 1)"

lemma isInRange_nth:
  "isInRange a ix \<longleftrightarrow> length ix = N_rank a \<and>
     (\<forall>k < min (N_rank a) (length (base (storage a))).
        base (storage a) ! k \<le> ix ! k \<and> ix ! k - base (storage a) ! k < lengths a ! k)"
  by (auto simp: isInRange_def list_all_length)

lemma digit_in_range:
  assumes "isInRange a ix" "length (base (storage a)) = N_rank a" "k < N_rank a"
  shows "0 \<le> digit a ix k \<and> digit a ix k < lengths a ! k"
  using assms by (auto simp: isInRange_nth digit_def origin_def sign_of_def)

lemma digit_inj:
  assumes "digit a ix k = digit a jx k"
  shows "ix ! k = jx ! k"
  using assms by (auto simp: digit_def sign_of_def split: if_splits)

lemma computeStrides_simps [simp]:
  "storage (computeStrides w a) = storage a" "lengths (computeStrides w a) = lengths a"
  "data_ptr (computeStrides w a) = data_ptr a" "block_ptr (computeStrides w a) = block_ptr a"
  by (simp_all add: computeStrides_def calculateZeroOffset_def)

lemma computeStrides_zeroOffset:
  "zeroOffset (computeStrides w a) = - (\<Sum>k<N_rank a. origin a k * strides (computeStrides w a) ! k)"
proof -
  let ?c = "computeStrides w a"
  have "zeroOffset (calculateZeroOffset b) = (\<Sum>k<N_rank b. - (origin b k * strides b ! k))" for b
    by (auto simp: calculateZeroOffset_def sum_list_upt origin_def mult.commute intro: sum.cong)
  moreover obtain b where b: "?c = calculateZeroOffset b" "storage b = storage a" "lengths b = lengths a"
    by (auto simp: computeStrides_def)
  moreover have "origin b = origin a"
    using b by (auto simp: origin_def isRankStoredAscending_def fun_eq_iff)
  moreover have "strides ?c = strides b" using b by (simp add: calculateZeroOffset_def)
  ultimately show ?thesis by (simp add: sum_negf)
qed

lemma computeStrides_laid_out:
  assumes wf: "wf_storage (N_rank a) (storage a)" and len: "length (strides a) = N_rank a" and N: "0 < N_rank a"
    and a': "storage a' = storage a" "lengths a' = lengths a" "strides a' = strides (computeStrides w a)"
      "data_ptr a' = d + zeroOffset (computeStrides w a)"
  shows "laid_out w d a'"
proof -
  note radix = strides_radix [OF wf refl len N]
  have factor: "radix_factor w a' = radix_factor w a"
    using a' by (auto simp: radix_factor_def fun_eq_iff)
  have sign: "sign_of a' = sign_of a" and orig: "origin a' = origin a"
    using a' by (auto simp: sign_of_def origin_def isRankStoredAscending_def fun_eq_iff)
  have "address_of a' ix = d + radix (ordering (storage a')) (radix_factor w a') (digit a' ix) 1"
    if ix: "length ix = N_rank a'" for ix
  proof -
    let ?S = "strides (computeStrides w a)"
    have "address_of a' ix = d - (\<Sum>k<N_rank a. origin a k * ?S ! k) + (\<Sum>k<N_rank a. ix ! k * ?S ! k)"
      using ix a' radix(2) by (simp add: address_of_def dot_sum [of _ "N_rank a"] computeStrides_zeroOffset)
    also have "\<dots> = d + (\<Sum>k<N_rank a. (ix ! k - origin a k) * ?S ! k)"
      by (simp add: left_diff_distrib sum_subtractf)
    also have "\<dots> = d + radix (ordering (storage a)) (radix_factor w a) (\<lambda>k. (ix ! k - origin a k) * sign_of a k) 1"
      by (simp only: radix(1))
    finally show ?thesis
      using a' factor sign orig by (simp add: digit_def [abs_def])
  qed
  then show ?thesis
    using wf radix(2) a' by (simp add: laid_out_def)
qed

lemma prod_list_ordering:
  assumes "distinct rs" "set rs = {..<N}"
  shows "prod_list (map f rs) = (\<Prod>k<N. f k :: int)"
  using prod.distinct_set_conv_list [OF assms(1), of f] assms(2) by simp

lemma prod_list_nth: "prod_list xs = (\<Prod>k<length xs. xs ! k :: int)"
  using prod_list_ordering [of "[0 ..< length xs]" "length xs" "\<lambda>k. xs ! k"] map_nth [of xs]
  by (simp add: atLeast0LessThan)

text \<open>An array that is laid out keeps its elements apart, inside a block of the size it asks for.\<close>

lemma factor_ge:
  assumes "w = 2 ^ v" "k < N_rank a" "\<forall>l \<in> set (lengths a). 0 < l"
  shows "lengths a ! k \<le> radix_factor w a k"
proof -
  have "0 < lengths a ! k" using assms(2,3) nth_mem by blast
  then show ?thesis
    using paddedLength_ge [OF assms(1), of "lengths a ! k"] by (auto simp: radix_factor_def)
qed

lemma laid_out_addresses:
  assumes l: "laid_out w d a" and w: "w = 2 ^ v" and pos: "\<forall>l \<in> set (lengths a). 0 < l"
  shows "inj_on (address_of a) {ix. isInRange a ix}"
    and "isInRange a ix \<Longrightarrow>
      d \<le> address_of a ix \<and> address_of a ix < d + prod_list (map (radix_factor w a) (ordering (storage a)))"
proof -
  note wf = l [unfolded laid_out_def wf_storage_def]
  have ord: "set (ordering (storage a)) = {..<N_rank a}" using wf by simp
  have digits: "0 \<le> digit a ix k \<and> digit a ix k < radix_factor w a k"
    if "isInRange a ix" "k \<in> set (ordering (storage a))" for ix k
  proof -
    have k: "k < N_rank a" using that(2) ord by simp
    show ?thesis
      using digit_in_range [OF that(1) _ k] factor_ge [OF w k pos] wf by fastforce
  qed
  have addr: "address_of a ix = d + radix (ordering (storage a)) (radix_factor w a) (digit a ix) 1"
    if "isInRange a ix" for ix
    using that wf by (simp add: isInRange_nth)
  show "inj_on (address_of a) {ix. isInRange a ix}"
  proof (intro inj_onI, unfold mem_Collect_eq)
    fix ix jx assume ij: "isInRange a ix" "isInRange a jx" "address_of a ix = address_of a jx"
    then have eq: "radix (ordering (storage a)) (radix_factor w a) (digit a ix) 1 =
        radix (ordering (storage a)) (radix_factor w a) (digit a jx) 1"
      using addr by simp
    have "digit a ix k = digit a jx k" if "k < N_rank a" for k
      by (rule radix_inj [where d = "digit a ix" and d' = "digit a jx", OF digits [OF ij(1)] digits [OF ij(2)] eq])
        (use that ord in auto)
    then have "ix ! k = jx ! k" if "k < N_rank a" for k using digit_inj that by blast
    then show "ix = jx"
      using ij(1,2) unfolding isInRange_nth by (metis nth_equalityI)
  qed
  show "d \<le> address_of a ix \<and> address_of a ix < d + prod_list (map (radix_factor w a) (ordering (storage a)))"
    if "isInRange a ix"
    using radix_bound [where st = 1 and rs = "ordering (storage a)" and d = "digit a ix", OF digits [OF that]] addr [OF that] by simp
qed

text \<open>\<open>setupStorage\<close> gives an array of its own block.\<close>

lemma fold_setExtent:
  "fold (\<lambda>i. setExtent i (f i)) is s =
     s\<lparr>extents := fold (\<lambda>i es. es[i := Some (base s ! i, base s ! i + f i - 1)]) is (extents s)\<rparr>"
  by (induction "is" arbitrary: s) (simp_all add: setExtent_def)

lemma fold_update:
  "length (fold (\<lambda>i es. es[i := f i]) [0 ..< n] es) = length es \<and>
   (\<forall>k < length es. fold (\<lambda>i es. es[i := f i]) [0 ..< n] es ! k = (if k < n then f k else es ! k))"
  by (induction n) (auto simp: less_Suc_eq nth_list_update)

definition filled_lengths :: "nat \<Rightarrow> int list \<Rightarrow> int list" where
  "filled_lengths lr ls = map (\<lambda>i. if i > lr then ls ! lr else ls ! i) [0 ..< length ls]"

definition own_block :: "nat \<Rightarrow> u64 \<times> int \<Rightarrow> blocks \<Rightarrow> array_t \<Rightarrow> bool" where
  "own_block w new h a \<longleftrightarrow>
     block_ptr a = fst new \<and> laid_out (int w) (snd new) a \<and>
     (\<exists>b. h (fst new) = Some b \<and> block_data b = snd new \<and>
          prod_list (map (radix_factor (int w) a) (ordering (storage a))) \<le> int (block_length b))"

lemma block_length_ge: "items \<le> block_length (fresh_block w items d)"
  by (simp add: fresh_block_def Let_def)

lemma blockRemoveReference_cong:
  assumes "block_ptr r = block_ptr r'"
  shows "blockRemoveReference r h = blockRemoveReference r' h"
  unfolding blockRemoveReference_def removeReference_def assms ..

lemma setupStorage_own_block:
  fixes a :: array_t
  assumes rem: "blockRemoveReference a h = Some h1" and lr: "lr < N_rank a"
    and wf: "wf_storage (N_rank a) (storage a)" and len: "length (strides a) = N_rank a"
    and pos: "\<forall>l \<in> set (filled_lengths lr (lengths a)). 0 < l" and w: "int w = 2 ^ v"
  obtains h' a' where "setupStorage w lr new h a = Some (h', a')"
    and "own_block w new h' a'" and "lengths a' = filled_lengths lr (lengths a)"
    and "wf_storage (N_rank a') (storage a')"
    and "\<And>i. i < 11 \<Longrightarrow> extents (storage a') ! i =
          (if i \<le> lr then Some (base (storage a) ! i, base (storage a) ! i + lengths a ! i - 1)
           else extents (storage a) ! i)"
    and "\<And>i. i < N_rank a \<Longrightarrow> base (storage a') ! i = base (storage a) ! min i lr"
    and "ordering (storage a') = ordering (storage a)" and "ascendingFlag (storage a') = ascendingFlag (storage a)"
proof -
  note wfD = wf [unfolded wf_storage_def]
  let ?N = "N_rank a"
  define es where "es = fold (\<lambda>i es. es[i := Some (base (storage a) ! i, base (storage a) ! i + lengths a ! i - 1)])
      [0 ..< Suc lr] (extents (storage a))"
  define s2 where "s2 = (storage a)\<lparr>extents := es,
      base := map (\<lambda>i. if i > lr then base (storage a) ! lr else base (storage a) ! i) [0 ..< ?N]\<rparr>"
  define ls where "ls = filled_lengths lr (lengths a)"
  define a0 where "a0 = a\<lparr>storage := s2, lengths := ls\<rparr>"
  define a1 where "a1 = computeStrides (int w) a0"
  define alloc where "alloc = (if paddingPolicy s2 = PaddedData
      then ls[ordering s2 ! 0 := paddedLength (int w) (ls ! (ordering s2 ! 0))] else ls)"
  have N: "length ls = ?N" by (simp add: ls_def filled_lengths_def)
  have wf2: "wf_storage ?N s2"
    using wf fold_update [of _ "Suc lr" "extents (storage a)"]
    by (simp add: s2_def es_def wf_storage_def del: upt_Suc)
  have unfold1: "setupStorage w lr new h a =
      (if prod_list alloc < 0 then None
       else do { (h', a2) \<leftarrow> (if prod_list alloc = 0 then changeToNullBlock a1 h
                                  else newBlock w a1 (nat (prod_list alloc)) new h);
                 Some (h', a2\<lparr>data_ptr := data_ptr a2 + zeroOffset a2\<rparr>) })"
    using lr unfolding setupStorage_def Let_def fold_setExtent es_def s2_def ls_def filled_lengths_def a0_def a1_def alloc_def
    by (simp del: upt_Suc cong: if_cong)
  have a1: "storage a1 = s2" "lengths a1 = ls" by (simp_all add: a1_def a0_def)
  have factor: "radix_factor (int w) a1 k = alloc ! k" if "k < ?N" for k
    using wf2 that N by (cases "ordering s2")
      (auto simp: radix_factor_def alloc_def a1 wf_storage_def nth_list_update)
  have prod: "prod_list alloc = prod_list (map (radix_factor (int w) a1) (ordering s2))"
  proof -
    have "prod_list alloc = (\<Prod>k<?N. alloc ! k)"
      using N by (simp add: prod_list_nth alloc_def)
    also have "\<dots> = (\<Prod>k<?N. radix_factor (int w) a1 k)" using factor by (auto intro: prod.cong)
    also have "\<dots> = prod_list (map (radix_factor (int w) a1) (ordering s2))"
      using wf2 by (intro prod_list_ordering [symmetric]) (simp_all add: wf_storage_def)
    finally show ?thesis .
  qed
  have "0 < radix_factor (int w) a1 k" if "k < ?N" for k
  proof -
    have "0 < ls ! k" using pos that N nth_mem unfolding ls_def by metis
    moreover have "ls ! k \<le> radix_factor (int w) a1 k"
      using factor_ge [OF w, of k a1] that N pos a1(2) by (simp add: ls_def)
    ultimately show ?thesis by linarith
  qed
  then have "0 < (\<Prod>k<?N. radix_factor (int w) a1 k)" by (intro prod_pos) auto
  then have pos': "0 < prod_list alloc"
    using prod prod_list_ordering [of "ordering s2" ?N "radix_factor (int w) a1"] wf2 by (simp add: wf_storage_def)
  define h' where "h' = h1(fst new \<mapsto> fresh_block w (nat (prod_list alloc)) (snd new))"
  define a' where "a' = (a1\<lparr>block_ptr := fst new, data_ptr := snd new\<rparr>)\<lparr>data_ptr := snd new + zeroOffset a1\<rparr>"
  have "blockRemoveReference a1 h = Some h1"
    using rem blockRemoveReference_cong [of a1 a h] by (simp add: a1_def a0_def)
  then have result: "setupStorage w lr new h a = Some (h', a')"
    using unfold1 pos' by (simp add: newBlock_def h'_def a'_def)
  have "laid_out (int w) (snd new) a'"
  proof (rule computeStrides_laid_out [of a0])
    show "wf_storage (N_rank a0) (storage a0)" using wf2 N by (simp add: a0_def)
    show "length (strides a0) = N_rank a0" using len N by (simp add: a0_def)
    show "0 < N_rank a0" using N wfD by (simp add: a0_def)
  qed (simp_all add: a'_def a1_def)
  moreover have "map (radix_factor (int w) a') (ordering (storage a')) = map (radix_factor (int w) a1) (ordering s2)"
    by (simp add: a'_def a1 radix_factor_def)
  moreover have "block_ptr a' = fst new" by (simp add: a'_def)
  moreover have "prod_list alloc \<le> int (block_length (fresh_block w (nat (prod_list alloc)) (snd new)))"
    using block_length_ge [of "nat (prod_list alloc)" w "snd new"] by linarith
  ultimately have own: "own_block w new h' a'"
    using prod by (simp add: own_block_def h'_def) (simp add: fresh_block_def Let_def)
  show ?thesis
  proof (rule that [OF result own])
  show "lengths a' = filled_lengths lr (lengths a)" by (simp add: a'_def a1 ls_def)
  show "wf_storage (N_rank a') (storage a')" using wf2 N by (simp add: a'_def a1)
  show "extents (storage a') ! i =
          (if i \<le> lr then Some (base (storage a) ! i, base (storage a) ! i + lengths a ! i - 1)
           else extents (storage a) ! i)" if "i < 11" for i
    using fold_update [of "\<lambda>i. Some (base (storage a) ! i, base (storage a) ! i + lengths a ! i - 1)"
        "Suc lr" "extents (storage a)"] wfD that
    by (simp add: a'_def a1 s2_def es_def less_Suc_eq_le del: upt_Suc fold_simps)
  show "base (storage a') ! i = base (storage a) ! min i lr" if "i < ?N" for i
    using that by (auto simp: a'_def a1 s2_def min_def)
  show "ordering (storage a') = ordering (storage a)" "ascendingFlag (storage a') = ascendingFlag (storage a)"
    by (simp_all add: a'_def a1 s2_def)
  qed
qed


section \<open>New arrays\<close>

lemma copy_storage_wf:
  assumes "wf_storage N st"
  obtains s where "copy_storage st = Some s" "wf_storage N s" "base s = base st" "ordering s = ordering st"
    "ascendingFlag s = ascendingFlag st" "\<And>i. i < N \<Longrightarrow> extents s ! i = extents st ! i"
  using assms by (auto simp: copy_storage_def wf_storage_def nth_append)

lemma null_blockRemoveReference [simp]: "block_ptr r = 0 \<Longrightarrow> blockRemoveReference r h = Some h"
  by (simp add: blockRemoveReference_def removeReference_def)

lemma blank_array_simps [simp]:
  "block_ptr (blank_array N s) = 0" "storage (blank_array N s) = s" "length (strides (blank_array N s)) = N"
  "lengths (blank_array N s) = replicate N 0"
  by (simp_all add: blank_array_def)

lemma filled_new:
  assumes "ls \<noteq> []" "length ls \<le> N"
  shows "filled_lengths (length ls - 1) (ls @ replicate (N - length ls) 0) =
         map (\<lambda>i. if i < length ls then ls ! i else List.last ls) [0 ..< N]"
proof (rule nth_equalityI)
  fix i assume i: "i < length (filled_lengths (length ls - 1) (ls @ replicate (N - length ls) 0))"
  show "filled_lengths (length ls - 1) (ls @ replicate (N - length ls) 0) ! i =
      map (\<lambda>i. if i < length ls then ls ! i else List.last ls) [0 ..< N] ! i"
  proof (cases "i < length ls")
    case False
    then have "length ls - 1 < i" using assms(1) by (cases ls) auto
    then show ?thesis
      using i False assms by (simp add: filled_lengths_def nth_append last_conv_nth)
  qed (use i assms in \<open>auto simp: filled_lengths_def nth_append\<close>)
qed (use assms in \<open>simp add: filled_lengths_def\<close>)

lemma new_array_own_block:
  assumes "wf_storage N st" "ls \<noteq> []" "length ls \<le> N" "\<forall>l \<in> set ls. 0 < l" "int w = 2 ^ v"
  obtains h' a where "new_array w N ls st new h = Some (h', a)" "own_block w new h' a"
    "wf_storage N (storage a)"
    "lengths a = map (\<lambda>i. if i < length ls then ls ! i else List.last ls) [0 ..< N]"
    "\<And>i. i < length ls \<Longrightarrow> extents (storage a) ! i = Some (base st ! i, base st ! i + ls ! i - 1)"
    "\<And>i. length ls \<le> i \<Longrightarrow> i < N \<Longrightarrow> extents (storage a) ! i = extents st ! i"
    "\<And>i. i < N \<Longrightarrow> base (storage a) ! i = base st ! min i (length ls - 1)"
    "ordering (storage a) = ordering st" "ascendingFlag (storage a) = ascendingFlag st"
proof -
  obtain s where s: "copy_storage st = Some s" "wf_storage N s" "base s = base st" "ordering s = ordering st"
      "ascendingFlag s = ascendingFlag st" "\<And>i. i < N \<Longrightarrow> extents s ! i = extents st ! i"
    by (rule copy_storage_wf [OF assms(1)]) (rule that)
  let ?a = "(blank_array N s)\<lparr>lengths := ls @ replicate (N - length ls) 0\<rparr>"
  have N: "N_rank ?a = N" using assms(3) by simp
  have lr: "length ls - 1 < N_rank ?a" using assms(2,3) N by (cases ls) auto
  have "lengths ?a = ls @ replicate (N - length ls) 0" by simp
  then have fl: "filled_lengths (length ls - 1) (lengths ?a) =
      map (\<lambda>i. if i < length ls then ls ! i else List.last ls) [0 ..< N]"
    by (simp only: filled_new [OF assms(2,3)])
  then have pos: "\<forall>l \<in> set (filled_lengths (length ls - 1) (lengths ?a)). 0 < l"
    using assms(2,4) by auto
  have rem: "blockRemoveReference ?a h = Some h" and wf: "wf_storage (N_rank ?a) (storage ?a)"
      and len: "length (strides ?a) = N_rank ?a"
    using s(2) N assms(3) by simp_all
  obtain h' a where 1: "setupStorage w (length ls - 1) new h ?a = Some (h', a)" "own_block w new h' a"
      "lengths a = filled_lengths (length ls - 1) (lengths ?a)" "wf_storage (N_rank a) (storage a)"
      and e: "\<And>i. i < 11 \<Longrightarrow> extents (storage a) ! i =
          (if i \<le> length ls - 1 then Some (base (storage ?a) ! i, base (storage ?a) ! i + lengths ?a ! i - 1)
           else extents (storage ?a) ! i)"
      and b: "\<And>i. i < N_rank ?a \<Longrightarrow> base (storage a) ! i = base (storage ?a) ! min i (length ls - 1)"
      and o: "ordering (storage a) = ordering (storage ?a)" "ascendingFlag (storage a) = ascendingFlag (storage ?a)"
    by (rule setupStorage_own_block [OF rem lr wf len pos assms(5)]) (rule that)
  have st: "storage ?a = s" by simp
  have "N \<le> 11" using assms(1) by (simp add: wf_storage_def)
  show ?thesis
  proof (rule that [of h' a])
    show "new_array w N ls st new h = Some (h', a)"
      using assms(2,3) s(1) 1(1) by (simp add: new_array_def)
    show "own_block w new h' a" by (rule 1(2))
    show "lengths a = map (\<lambda>i. if i < length ls then ls ! i else List.last ls) [0 ..< N]"
      using 1(3) fl by simp
    then show "wf_storage N (storage a)" using 1(4) by simp
    show "extents (storage a) ! i = Some (base st ! i, base st ! i + ls ! i - 1)" if "i < length ls" for i
      using e [of i] that \<open>N \<le> 11\<close> assms(3) s(3) unfolding st by (auto simp: nth_append)
    show "extents (storage a) ! i = extents st ! i" if "length ls \<le> i" "i < N" for i
    proof -
      have "\<not> i \<le> length ls - 1" using that(1) assms(2) by (cases ls) auto
      then show ?thesis using e [of i] that(2) \<open>N \<le> 11\<close> s(6) unfolding st by simp
    qed
    show "base (storage a) ! i = base st ! min i (length ls - 1)" if "i < N" for i
      using b [of i] that N s(3) unfolding st by simp
    show "ordering (storage a) = ordering st" "ascendingFlag (storage a) = ascendingFlag st"
      using o s(4,5) unfolding st by simp_all
  qed
qed

text \<open>
  C23: A new array owns a block, every index in range has an address inside the block, and two
  indices never have the same address; whatever its storage order, directions, bases and padding.
\<close>

theorem new_array_addresses:
  assumes "wf_storage N st" "ls \<noteq> []" "length ls \<le> N" "\<forall>l \<in> set ls. 0 < l" "int w = 2 ^ v"
  shows "\<exists>h' a b. new_array w N ls st new h = Some (h', a) \<and> h' (block_ptr a) = Some b \<and>
           lengths a = map (\<lambda>i. if i < length ls then ls ! i else List.last ls) [0 ..< N] \<and>
           inj_on (address_of a) {ix. isInRange a ix} \<and>
           address_of a ` {ix. isInRange a ix} \<subseteq> {block_data b ..< block_data b + int (block_length b)}"
proof -
  obtain h' a where a: "new_array w N ls st new h = Some (h', a)" "own_block w new h' a"
      "lengths a = map (\<lambda>i. if i < length ls then ls ! i else List.last ls) [0 ..< N]"
    by (rule new_array_own_block [OF assms, of new h]) (rule that)
  obtain b where b: "h' (block_ptr a) = Some b" "block_data b = snd new" "laid_out (int w) (snd new) a"
      "prod_list (map (radix_factor (int w) a) (ordering (storage a))) \<le> int (block_length b)"
    using a(2) by (auto simp: own_block_def)
  have pos: "\<forall>l \<in> set (lengths a). 0 < l" using assms(2,4) by (auto simp: a(3))
  note l = laid_out_addresses [OF b(3) assms(5) pos]
  have "address_of a ` {ix. isInRange a ix} \<subseteq> {block_data b ..< block_data b + int (block_length b)}"
    using l(2) b(2,4) by fastforce
  then show ?thesis using a b(1) l(1) by blast
qed

lemma new_array_addresses_witness:
  "\<exists>h' a b. new_array 4 2 [3] (general_storage 2 PaddedData) (1000, 64) Map.empty = Some (h', a) \<and>
     h' (block_ptr a) = Some b \<and>
     lengths a = map (\<lambda>i. if i < length [3] then [3] ! i else List.last [3]) [0 ..< 2] \<and>
     inj_on (address_of a) {ix. isInRange a ix} \<and>
     address_of a ` {ix. isInRange a ix} \<subseteq> {block_data b ..< block_data b + int (block_length b)}"
  using new_array_addresses [of 2 "general_storage 2 PaddedData" "[3]" 4 2 "(1000, 64)" Map.empty]
  by (simp add: wf_general_storage)

text \<open>
  Resizing an array that counts its block gives it a block of its own, with the same storage
  order and the new lengths as extents.
\<close>

lemma resize_own_block:
  assumes "counted h rs" "\<lparr>data_ptr = data_ptr a, block_ptr = block_ptr a\<rparr> \<in> set rs"
    and "wf_storage (N_rank a) (storage a)" "length (strides a) = N_rank a"
    and "length es = N_rank a" "\<forall>e \<in> set es. 0 < e" "es \<noteq> lengths a" "int w = 2 ^ v"
  shows "\<exists>h' a'. resize w es new h a = Some (h', a') \<and> own_block w new h' a' \<and> lengths a' = es \<and>
           (\<forall>i < N_rank a. extents (storage a') ! i = Some (base (storage a) ! i, base (storage a) ! i + es ! i - 1))"
proof -
  let ?r = "\<lparr>data_ptr = data_ptr a, block_ptr = block_ptr a\<rparr>"
  let ?a = "a\<lparr>lengths := es\<rparr>"
  obtain k where k: "k < length rs" "rs ! k = ?r" using assms(2) by (auto simp: in_set_conv_nth)
  obtain h1 where "blockRemoveReference ?r h = Some h1"
    using blockRemoveReference_counted [OF assms(1) [unfolded counted_take_out [OF k(1)]]] k(2) by auto
  moreover have "blockRemoveReference ?a h = blockRemoveReference ?r h"
    by (rule blockRemoveReference_cong) simp
  ultimately have rem: "blockRemoveReference ?a h = Some h1" by simp
  have N: "0 < length es" "N_rank a \<le> 11" using assms(3,5) by (auto simp: wf_storage_def)
  then have lr: "length es - 1 < N_rank ?a" by simp
  have wf: "wf_storage (N_rank ?a) (storage ?a)" "length (strides ?a) = N_rank ?a"
    using assms(3-5) by simp_all
  have fl: "filled_lengths (length es - 1) (lengths ?a) = es"
    using N by (intro nth_equalityI) (auto simp: filled_lengths_def)
  have pos: "\<forall>l \<in> set (filled_lengths (length es - 1) (lengths ?a)). 0 < l"
    unfolding fl by (rule assms(6))
  obtain h' a' where 1: "setupStorage w (length es - 1) new h ?a = Some (h', a')" "own_block w new h' a'"
      "lengths a' = filled_lengths (length es - 1) (lengths ?a)"
      and e: "\<And>i. i < 11 \<Longrightarrow> extents (storage a') ! i =
          (if i \<le> length es - 1 then Some (base (storage ?a) ! i, base (storage ?a) ! i + lengths ?a ! i - 1)
           else extents (storage ?a) ! i)"
    by (rule setupStorage_own_block [OF rem lr wf pos assms(8)]) (rule that)
  have "resize w es new h a = Some (h', a')"
    using assms(5-7) 1(1) by (auto simp: resize_def list_all_iff)
  moreover have "extents (storage a') ! i = Some (base (storage a) ! i, base (storage a) ! i + es ! i - 1)"
    if "i < N_rank a" for i
    using e [of i] that N assms(5) by auto
  ultimately show ?thesis using 1(2,3) fl by auto
qed

end
