(* ===== verification/BlitzViews.thy ===== *)
theory BlitzViews
  imports BlitzLayout
begin

text \<open>
  Views of Blitz++ arrays and the dependencies that \<open>spawn\<close> derives from them: what
  \<open>fill_in_array\<close> reads from an array, which elements of the original array a view has, and
  when the extents kept by the storage class are exactly the indices of those elements.
\<close>

section \<open>Elements as storage\<close>

text \<open>
  Reading and writing elements through their addresses, for any addressing of indices that
  keeps the indices of one array apart.
\<close>

definition load :: "('a \<Rightarrow> 'i \<Rightarrow> int) \<Rightarrow> (int \<Rightarrow> 'v) \<Rightarrow> 'a \<Rightarrow> 'i \<Rightarrow> 'v" where
  "load adr m a i = m (adr a i)"

definition store :: "('a \<Rightarrow> 'i \<Rightarrow> int) \<Rightarrow> (int \<Rightarrow> 'v) \<Rightarrow> 'a \<Rightarrow> 'i \<Rightarrow> 'v \<Rightarrow> (int \<Rightarrow> 'v)" where
  "store adr m a i x = m(adr a i := x)"

locale element_addresses =
  fixes adr :: "'a \<Rightarrow> 'i \<Rightarrow> int" and valid :: "'a \<Rightarrow> 'i \<Rightarrow> bool"
  assumes apart: "valid a i \<Longrightarrow> valid a j \<Longrightarrow> adr a i = adr a j \<Longrightarrow> i = j"
begin

lemma load_store:
  "valid a i \<Longrightarrow> valid a j \<Longrightarrow>
     load adr (store adr m a i x) a j = (if i = j then x else load adr m a j)"
  using apart by (auto simp: load_def store_def)

lemma store_store_commute:
  assumes "valid a i" "valid a j" "i \<noteq> j"
  shows "store adr (store adr m a i x) a j y = store adr (store adr m a j y) a i x"
proof -
  have "adr a i \<noteq> adr a j" using assms apart by blast
  then show ?thesis by (simp add: store_def fun_upd_twist)
qed

end

definition separate :: "array_t \<Rightarrow> bool" where
  "separate a = inj_on (address_of a) {ix. isInRange a ix}"

interpretation blitz: element_addresses address_of "\<lambda>a ix. separate a \<and> isInRange a ix"
  by unfold_locales (auto simp: separate_def inj_on_def)

section \<open>What spawn reads from an array\<close>

definition array_extents :: "array_t \<Rightarrow> (int \<times> int) list option" where
  "array_extents v =
     (case originalDims (storage v) of None \<Rightarrow> None
      | Some n \<Rightarrow> those (map (read_at (extents (storage v))) [0 ..< n]))"

definition array_actual :: "bool \<Rightarrow> array_t \<Rightarrow> actual option" where
  "array_actual cst v =
     do { n \<leftarrow> originalDims (storage v);
          es \<leftarrow> array_extents v;
          Some \<lparr>is_reference = True, is_const = cst, formal_ignored = False, head_ignored = False,
                head_rvalue = False, is_barray = True, sizeof_head = 0, address = 0,
                block = block_ptr v, original_dims = n, extent = es\<rparr> }"

lemma those_map_Some: "(\<And>i. i \<in> set is \<Longrightarrow> f i = Some (g i)) \<Longrightarrow> those (map f is) = Some (map g is)"
  by (induction "is") auto

section \<open>Tracked views\<close>

text \<open>
  The view \<open>v\<close> of the array \<open>R\<close> is tracked when its extents are a box of indices of \<open>R\<close>, its
  ranks walk along distinct ranks of \<open>R\<close>, the box has one position in the other ranks, and the
  data start at the lowest corner.
\<close>

definition shaped :: "array_t \<Rightarrow> bool" where
  "shaped v \<longleftrightarrow>
     length (strides v) = N_rank v \<and> length (base (storage v)) = N_rank v \<and>
     length (extents (storage v)) = 11 \<and> length (originalDim (storage v)) = 11 \<and> N_rank v \<le> 11"

definition boxed :: "array_t \<Rightarrow> array_t \<Rightarrow> (nat \<Rightarrow> int) \<Rightarrow> (nat \<Rightarrow> int) \<Rightarrow> bool" where
  "boxed R v lo hi \<longleftrightarrow>
     originalDims (storage v) = Some (N_rank R) \<and>
     (\<forall>d < N_rank R. extents (storage v) ! d = Some (lo d, hi d) \<and>
        0 \<le> lo d \<and> lo d \<le> hi d \<and> hi d < lengths R ! d) \<and>
     data_ptr v = data_ptr R + (\<Sum>d < N_rank R. lo d * strides R ! d)"

definition walks :: "array_t \<Rightarrow> array_t \<Rightarrow> (nat \<Rightarrow> int) \<Rightarrow> (nat \<Rightarrow> int) \<Rightarrow> nat \<Rightarrow> nat \<Rightarrow> bool" where
  "walks R v lo hi k d \<longleftrightarrow>
     d < N_rank R \<and> originalDim (storage v) ! k = Some d \<and> base (storage v) ! k = 0 \<and>
     strides v ! k = strides R ! d \<and> lengths v ! k = hi d - lo d + 1"

definition tracked_by :: "array_t \<Rightarrow> array_t \<Rightarrow> (nat \<Rightarrow> int) \<Rightarrow> (nat \<Rightarrow> int) \<Rightarrow> nat list \<Rightarrow> bool" where
  "tracked_by R v lo hi dm \<longleftrightarrow>
     shaped v \<and> block_ptr v = block_ptr R \<and> boxed R v lo hi \<and>
     length dm = N_rank v \<and> distinct dm \<and> (\<forall>k < N_rank v. walks R v lo hi k (dm ! k)) \<and>
     (\<forall>d < N_rank R. d \<notin> set dm \<longrightarrow> lo d = hi d)"

definition tracked :: "array_t \<Rightarrow> array_t \<Rightarrow> bool" where
  "tracked R v \<longleftrightarrow> N_rank R \<le> 11 \<and> (\<exists>lo hi dm. tracked_by R v lo hi dm)"

text \<open>A range with explicit ends and step 1.\<close>

definition explicit_range :: "range_t \<Rightarrow> bool" where
  "explicit_range r \<longleftrightarrow> first_of r \<noteq> fromStart \<and> last_of r \<noteq> toEnd \<and> stride_of r = 1"

lemma explicit_ends [simp]:
  "explicit_range r \<Longrightarrow> range_first d r = first_of r" "explicit_range r \<Longrightarrow> range_last d r = last_of r"
  by (simp_all add: explicit_range_def range_first_def range_last_def)

text \<open>The new box after one rank of it has been narrowed.\<close>

lemma sum_shift:
  assumes "d < n"
  shows "(\<Sum>e<n. ((lo :: nat \<Rightarrow> int)(d := lo d + c)) e * s e) = (\<Sum>e<n. lo e * s e) + c * s d"
proof -
  have "(\<Sum>e<n. (lo(d := lo d + c)) e * s e) = (\<Sum>e<n. lo e * s e + (if e = d then c * s d else 0))"
    by (rule sum.cong) (auto simp: distrib_right)
  then show ?thesis using assms by (simp add: sum.distrib)
qed

lemma boxed_narrow:
  assumes "boxed R v lo hi" "d < N_rank R" "0 \<le> f" "f \<le> l" "lo d + l \<le> hi d" "N_rank R \<le> 11"
    and "length (extents (storage v)) = 11"
    and "originalDims (storage v') = originalDims (storage v)"
    and "extents (storage v') = (extents (storage v))[d := Some (f + lo d, l + lo d)]"
    and "data_ptr v' = data_ptr v + f * strides R ! d"
  shows "boxed R v' (lo(d := lo d + f)) (hi(d := lo d + l))"
  using assms sum_shift [OF assms(2), of lo f "\<lambda>e. strides R ! e"]
  by (auto simp: boxed_def nth_list_update add.commute)

lemma trackedE:
  assumes "tracked R v"
  obtains lo hi dm where "tracked_by R v lo hi dm" "N_rank R \<le> 11"
  using assms by (auto simp: tracked_def)

text \<open>Narrowing a rank with an explicit range.\<close>

lemma slice_rank_Some:
  assumes "slice_rank k r v = Some v'" "explicit_range r" "base (storage v) ! k = 0"
    and d: "originalDim (storage v) ! k = Some d" and e: "extents (storage v) ! d = Some (lo, hi)"
    and len: "length (originalDim (storage v)) = 11" "length (extents (storage v)) = 11" "d < 11" "N_rank v \<le> 11"
  shows "k < N_rank v" and "0 \<le> first_of r" "first_of r \<le> last_of r" "last_of r < lengths v ! k"
    and "v' = v\<lparr>lengths := (lengths v)[k := last_of r - first_of r + 1],
           data_ptr := data_ptr v + first_of r * strides v ! k,
           zeroOffset := zeroOffset v + first_of r * strides v ! k,
           strides := (strides v)[k := strides v ! k],
           storage := (storage v)\<lparr>extents :=
             (extents (storage v))[d := Some (first_of r + lo, last_of r + lo)]\<rparr>\<rparr>"
proof -
  show k: "k < N_rank v" using assms(1) by (auto simp: slice_rank_def split: if_splits)
  have s: "stride_of r = 1" using assms(2) by (simp add: explicit_range_def)
  have conds: "first_of r \<le> last_of r \<and> 0 \<le> first_of r \<and> last_of r < lengths v ! k"
    using assms(1-3) k s by (auto simp: slice_rank_def Let_def split: if_splits)
  then show "0 \<le> first_of r" "first_of r \<le> last_of r" "last_of r < lengths v ! k" by simp_all
  have "displaceExtent k r (storage v) = Some ((storage v)\<lparr>extents :=
             (extents (storage v))[d := Some (first_of r + lo, last_of r + lo)]\<rparr>)"
    using d e len k assms(2) by (simp add: displaceExtent_def read_at_def)
  then show "v' = v\<lparr>lengths := (lengths v)[k := last_of r - first_of r + 1],
           data_ptr := data_ptr v + first_of r * strides v ! k,
           zeroOffset := zeroOffset v + first_of r * strides v ! k,
           strides := (strides v)[k := strides v ! k],
           storage := (storage v)\<lparr>extents :=
             (extents (storage v))[d := Some (first_of r + lo, last_of r + lo)]\<rparr>\<rparr>"
    using assms(1-3) k s conds by (simp add: slice_rank_def Let_def)
qed

lemma slice_rank_tracked:
  assumes t: "tracked R v" and s: "slice_rank k r v = Some v'" and r: "explicit_range r"
  shows "tracked R v'"
proof -
  obtain lo hi dm where v: "tracked_by R v lo hi dm" and R: "N_rank R \<le> 11"
    using t by (rule trackedE)
  have sh: "shaped v" and bx: "boxed R v lo hi" and dm: "length dm = N_rank v" "distinct dm"
    and w: "\<And>j. j < N_rank v \<Longrightarrow> walks R v lo hi j (dm ! j)"
    using v by (auto simp: tracked_by_def)
  have k: "k < N_rank v" using s by (auto simp: slice_rank_def split: if_splits)
  let ?d = "dm ! k"
  have d: "?d < N_rank R" "originalDim (storage v) ! k = Some ?d" "base (storage v) ! k = 0"
      "strides v ! k = strides R ! ?d" "lengths v ! k = hi ?d - lo ?d + 1"
    using w [OF k] by (auto simp: walks_def)
  have e: "extents (storage v) ! ?d = Some (lo ?d, hi ?d)" using bx d(1) by (simp add: boxed_def)
  have sl: "0 \<le> first_of r" "first_of r \<le> last_of r" "last_of r < lengths v ! k"
    "v' = v\<lparr>lengths := (lengths v)[k := last_of r - first_of r + 1],
           data_ptr := data_ptr v + first_of r * strides v ! k,
           zeroOffset := zeroOffset v + first_of r * strides v ! k,
           strides := (strides v)[k := strides v ! k],
           storage := (storage v)\<lparr>extents :=
             (extents (storage v))[?d := Some (first_of r + lo ?d, last_of r + lo ?d)]\<rparr>\<rparr>"
    using slice_rank_Some [OF s r d(3,2) e] sh d(1) R by (simp_all add: shaped_def)
  let ?lo = "lo(?d := lo ?d + first_of r)" and ?hi = "hi(?d := lo ?d + last_of r)"
  have "boxed R v' ?lo ?hi"
    using sh sl d(4,5) by (intro boxed_narrow [OF bx d(1)]) (simp_all add: R shaped_def)
  moreover have "walks R v' ?lo ?hi j (dm ! j)" if "j < N_rank v" for j
    using w [OF that] that k dm sl(4) by (auto simp: walks_def nth_list_update nth_eq_iff_index_eq)
  moreover have "e \<noteq> ?d" if "e \<notin> set dm" for e using that k dm(1) nth_mem by metis
  ultimately have "tracked_by R v' ?lo ?hi dm"
    using v sl(4) by (simp add: tracked_by_def shaped_def)
  then show ?thesis using R by (auto simp: tracked_def)
qed

lemma slice_ranks_tracked:
  "tracked R v \<Longrightarrow> slice_ranks k rs v = Some v' \<Longrightarrow> list_all explicit_range rs \<Longrightarrow> tracked R v'"
  by (induction k rs v rule: slice_ranks.induct)
    (auto split: bind_splits intro: slice_rank_tracked)

text \<open>A reference to a tracked view is tracked.\<close>

lemma reference_fields:
  assumes "reference a v h = Some (h', v')" "shaped v" "originalDims (storage v) = Some n" "n \<le> 11"
    and "length (extents (storage a)) = 11" "length (originalDim (storage a)) = 11"
  shows "lengths v' = lengths v" "strides v' = strides v" "base (storage v') = base (storage v)"
    "data_ptr v' = data_ptr v" "block_ptr v' = block_ptr v" "originalDims (storage v') = Some n"
    "length (extents (storage v')) = 11" "length (originalDim (storage v')) = 11"
    "\<And>d. d < n \<Longrightarrow> extents (storage v') ! d = extents (storage v) ! d \<and>
       originalDim (storage v') ! d = originalDim (storage v) ! d"
proof -
  have s: "assign_storage (storage a) (storage v) =
      Some ((storage v)\<lparr>extents := take n (extents (storage v)) @ drop n (extents (storage a)),
                         originalDim := take n (originalDim (storage v)) @ drop n (originalDim (storage a))\<rparr>)"
    using assms(3,4) by (simp add: assign_storage_def)
  show "lengths v' = lengths v" "strides v' = strides v" "base (storage v') = base (storage v)"
    "data_ptr v' = data_ptr v" "block_ptr v' = block_ptr v" "originalDims (storage v') = Some n"
    "length (extents (storage v')) = 11" "length (originalDim (storage v')) = 11"
    using assms s by (auto simp: reference_def changeBlock_def shaped_def Let_def split: bind_splits)
  show "extents (storage v') ! d = extents (storage v) ! d \<and>
       originalDim (storage v') ! d = originalDim (storage v) ! d" if "d < n" for d
    using assms s that by (auto simp: reference_def changeBlock_def shaped_def Let_def nth_append split: bind_splits)
qed

lemma distinct_bounded_length:
  assumes "distinct dm" "\<And>k. k < length dm \<Longrightarrow> dm ! k < n"
  shows "length dm \<le> n"
proof -
  have "set dm \<subseteq> {..<n}" using assms(2) by (auto simp: in_set_conv_nth)
  then show ?thesis
    using card_mono [of "{..<n}" "set dm"] distinct_card [OF assms(1)] by simp
qed

lemma tracked_rank: "tracked_by R v lo hi dm \<Longrightarrow> N_rank v \<le> N_rank R"
  using distinct_bounded_length [of dm "N_rank R"] unfolding tracked_by_def walks_def by metis

lemma general_storage_lengths [simp]:
  "length (extents (general_storage N pp)) = 11" "length (originalDim (general_storage N pp)) = 11"
  by (simp_all add: general_storage_def)

lemma reference_tracked:
  assumes t: "tracked R v" and c: "reference a v h = Some (h', v')"
    and a: "length (extents (storage a)) = 11" "length (originalDim (storage a)) = 11"
  shows "tracked R v'"
proof -
  obtain lo hi dm where v: "tracked_by R v lo hi dm" and R: "N_rank R \<le> 11"
    using t by (rule trackedE)
  have sh: "shaped v" and od: "originalDims (storage v) = Some (N_rank R)"
    using v by (auto simp: tracked_by_def boxed_def)
  note f = reference_fields [OF c sh od R a]
  have "walks R v' lo hi k (dm ! k)" if "k < N_rank v" for k
    using v that f tracked_rank [OF v] by (auto simp: tracked_by_def walks_def)
  then have "tracked_by R v' lo hi dm"
    using v f by (simp add: tracked_by_def shaped_def boxed_def)
  then show ?thesis using R by (auto simp: tracked_def)
qed

lemma subarray_tracked:
  assumes "tracked R v" "subarray v rs h = Some (h', v')" "list_all explicit_range rs"
  shows "tracked R v'"
proof -
  obtain a' where ref: "reference (blank_array (N_rank v) (general_storage (N_rank v) ContiguousData)) v h = Some (h', a')"
      and sl: "slice_ranks 0 rs a' = Some v'"
    using assms(2) by (auto simp: subarray_def constructSubarray_def split: bind_splits)
  have "tracked R a'"
    by (rule reference_tracked [OF assms(1) ref]) simp_all
  then show ?thesis using sl assms(3) by (rule slice_ranks_tracked)
qed

text \<open>An array of 4 by 4 elements and the view of its rows 1 to 2.\<close>

definition sample_array :: array_t where
  "sample_array =
     (case new_array 1 2 [4, 4] (general_storage 2 ContiguousData) (1000, 64) Map.empty of
        Some (h, a) \<Rightarrow> a | None \<Rightarrow> blank_array 2 (general_storage 2 ContiguousData))"

definition sample_range :: "int \<Rightarrow> int \<Rightarrow> range_t" where
  "sample_range f l = \<lparr>first_of = f, last_of = l, stride_of = 1\<rparr>"

lemma sample_range_explicit [simp]: "0 \<le> f \<Longrightarrow> l < toEnd \<Longrightarrow> explicit_range (sample_range f l)"
  by (simp add: explicit_range_def sample_range_def fromStart_def)

lemma sample_new:
  "\<exists>h'. new_array 1 2 [4, 4] (general_storage 2 ContiguousData) (1000, 64) Map.empty = Some (h', sample_array)"
proof -
  have "new_array 1 2 [4, 4] (general_storage 2 ContiguousData) (1000, 64) Map.empty \<noteq> None"
    using new_array_addresses [of 2 "general_storage 2 ContiguousData" "[4, 4]" 1 0 "(1000, 64)" Map.empty]
    by (auto simp: wf_general_storage)
  then show ?thesis by (auto simp: sample_array_def)
qed

definition sample_view :: array_t where
  "sample_view = (case slice_rank 0 (sample_range 1 2) sample_array of Some v \<Rightarrow> v | None \<Rightarrow> sample_array)"

section \<open>Which element a view has at an index\<close>

lemma dot_update:
  assumes "k < n" "length ix = n" "length ss = n"
  shows "dot (ix[k := x]) ss = dot ix ss + (x - ix ! k) * ss ! k"
proof -
  have "dot (ix[k := x]) ss = (\<Sum>i<n. ix ! i * ss ! i + (if i = k then (x - ix ! k) * ss ! k else 0))"
    using assms by (auto simp: dot_sum [of _ n] nth_list_update left_diff_distrib intro!: sum.cong)
  then show ?thesis using assms by (simp add: sum.distrib dot_sum [of _ n])
qed

lemma dot_update_stride:
  assumes "k < n" "length ix = n" "length ss = n"
  shows "dot ix (ss[k := s]) = dot ix ss + ix ! k * (s - ss ! k)"
proof -
  have "dot ix (ss[k := s]) = (\<Sum>i<n. ix ! i * ss ! i + (if i = k then ix ! k * (s - ss ! k) else 0))"
    using assms by (auto simp: dot_sum [of _ n] nth_list_update right_diff_distrib intro!: sum.cong)
  then show ?thesis using assms by (simp add: sum.distrib dot_sum [of _ n])
qed

text \<open>A position of a strided range lies between its ends.\<close>

lemma strided_between:
  fixes f l st j :: int
  assumes "f \<le> l \<and> st > 0 \<or> f \<ge> l \<and> st < 0" "0 \<le> j" "j < (l - f) sdiv st + 1"
  shows "min f l \<le> f + j * st \<and> f + j * st \<le> max f l"
proof (cases "st > 0")
  case True
  then have fl: "f \<le> l" using assms(1) by auto
  then have "(l - f) sdiv st = (l - f) div st"
    using True by (cases "f = l") (simp_all add: signed_divide_int_def)
  then have "j \<le> (l - f) div st" using assms(3) by simp
  then have "j * st \<le> (l - f) div st * st" using True by (simp add: mult_right_mono)
  also have "\<dots> \<le> l - f" using True fl by (simp add: minus_mod_eq_div_mult [symmetric])
  finally show ?thesis using assms(2) True fl by simp
next
  case False
  then have st: "st < 0" "l \<le> f" using assms(1) by auto
  then have "(l - f) sdiv st = (f - l) div (- st)"
    by (cases "f = l") (simp_all add: signed_divide_int_def)
  then have "j \<le> (f - l) div (- st)" using assms(3) by simp
  then have "j * (- st) \<le> (f - l) div (- st) * (- st)"
    using st(1) by (intro mult_right_mono) simp_all
  also have "\<dots> \<le> f - l"
    using st by (simp only: minus_mod_eq_div_mult [symmetric]) simp
  finally show ?thesis using assms(2) st mult_nonneg_nonpos [of j st] by simp
qed

text \<open>
  A slice of a rank, with any range and any step, has at an index the element of the array at
  the position of the range with that number, and this element is in the array.
\<close>

theorem slice_elements:
  assumes "slice_rank k r a = Some v" "shaped a" "isInRange v ix"
    and "jx = ix[k := range_first (array_lbound a k) r + (ix ! k - array_lbound a k) * stride_of r]"
  shows "isInRange a jx \<and> address_of v ix = address_of a jx"
proof -
  let ?f = "range_first (array_lbound a k) r" and ?l = "range_last (array_ubound a k) r"
  let ?st = "stride_of r" and ?b = "base (storage a) ! k" and ?n = "N_rank a"
  have k: "k < ?n" using assms(1) by (auto simp: slice_rank_def split: if_splits)
  have c: "?f \<le> ?l \<and> ?st > 0 \<or> ?f \<ge> ?l \<and> ?st < 0" "?f \<ge> ?b \<and> ?f - ?b < lengths a ! k"
      "?l \<ge> ?b \<and> ?l - ?b < lengths a ! k"
    using assms(1) k by (auto simp: slice_rank_def Let_def split: if_splits)
  then obtain s where v: "lengths v = (lengths a)[k := (?l - ?f) sdiv ?st + 1]" "storage v = s"
      "base s = base (storage a)" "strides v = (strides a)[k := strides a ! k * ?st]"
      "data_ptr v = data_ptr a + (?f - ?b * ?st) * strides a ! k"
    using assms(1) k
    by (auto simp: slice_rank_def Let_def displaceExtent_def split: if_splits bind_splits)
  have len: "length ix = ?n" "length (strides a) = ?n" "length (base (storage a)) = ?n"
    using assms(2,3) v by (auto simp: shaped_def isInRange_nth)
  have ix: "\<And>i. i < ?n \<Longrightarrow> base (storage a) ! i \<le> ix ! i \<and> ix ! i - base (storage a) ! i < lengths v ! i"
    using assms(3) v len by (simp add: isInRange_nth)
  have j: "?f + (ix ! k - ?b) * ?st \<ge> min ?f ?l \<and> ?f + (ix ! k - ?b) * ?st \<le> max ?f ?l"
    using ix [OF k] v(1) k by (intro strided_between [OF c(1)]) simp_all
  then have x: "?b \<le> ?f + (ix ! k - ?b) * ?st \<and> ?f + (ix ! k - ?b) * ?st - ?b < lengths a ! k"
    using c by linarith
  have "base (storage a) ! i \<le> jx ! i \<and> jx ! i - base (storage a) ! i < lengths a ! i" if "i < ?n" for i
    using x ix [OF that] v(1) that len(1) assms(4) by (cases "i = k") (simp_all add: array_lbound_def)
  then have "isInRange a jx" using len assms(4) by (simp add: isInRange_nth)
  moreover have "address_of v ix = address_of a jx"
    using v len k assms(4)
    by (simp add: address_of_def dot_update [of _ ?n] dot_update_stride [of _ ?n] array_lbound_def algebra_simps)
  ultimately show ?thesis by simp
qed

definition sample_odd :: array_t where
  "sample_odd = (case slice_rank 0 \<lparr>first_of = 1, last_of = 3, stride_of = 2\<rparr> sample_array of
     Some v \<Rightarrow> v | None \<Rightarrow> sample_array)"

lemma slice_elements_witness:
  "isInRange sample_array [3, 2] \<and> address_of sample_odd [1, 2] = address_of sample_array [3, 2]"
proof -
  let ?r = "\<lparr>first_of = 1, last_of = 3, stride_of = 2\<rparr>"
  have "slice_rank 0 ?r sample_array \<noteq> None" by code_simp
  then have s: "slice_rank 0 ?r sample_array = Some sample_odd" by (auto simp: sample_odd_def)
  have sh: "shaped sample_array" by code_simp
  have i: "isInRange sample_odd [1, 2]" by code_simp
  have "[3, 2] = [1, 2][0 := range_first (array_lbound sample_array 0) ?r +
      ([1, 2] ! 0 - array_lbound sample_array 0) * stride_of ?r]" by code_simp
  then show ?thesis by (rule slice_elements [OF s sh i])
qed

text \<open>
  Reversing a rank and changing the bases of an array keep its elements: the index is mirrored
  between the bounds of the rank, or moved by the difference of the bases.
\<close>

lemma reverse_elements:
  assumes "reverseSelf k a = Some v" "shaped a" "isInRange v ix"
    and "jx = ix[k := array_lbound a k + array_ubound a k - ix ! k]"
  shows "isInRange a jx \<and> address_of v ix = address_of a jx"
proof -
  let ?n = "N_rank a"
  have k: "k < ?n" using assms(1) by (auto simp: reverseSelf_def split: if_splits)
  have v: "lengths v = lengths a" "base (storage v) = base (storage a)"
      "strides v = (strides a)[k := strides a ! k * - 1]"
      "data_ptr v = data_ptr a + strides a ! k * (array_lbound a k + array_ubound a k)"
    using assms(1) k by (auto simp: reverseSelf_def Let_def)
  have len: "length ix = ?n" "length (strides a) = ?n" "length (base (storage a)) = ?n"
    using assms(2,3) v by (auto simp: shaped_def isInRange_nth)
  have ix: "\<And>i. i < ?n \<Longrightarrow> base (storage a) ! i \<le> ix ! i \<and> ix ! i - base (storage a) ! i < lengths a ! i"
    using assms(3) v len by (simp add: isInRange_nth)
  have "base (storage a) ! i \<le> jx ! i \<and> jx ! i - base (storage a) ! i < lengths a ! i" if "i < ?n" for i
    using ix [OF that] that len(1) assms(4) by (cases "i = k") (simp_all add: array_lbound_def array_ubound_def)
  then have "isInRange a jx" using len assms(4) by (simp add: isInRange_nth)
  moreover have "address_of v ix = address_of a jx"
    using v len k assms(4)
    by (simp add: address_of_def dot_update [of _ ?n] dot_update_stride [of _ ?n] algebra_simps)
  ultimately show ?thesis by simp
qed

lemma reindex_elements:
  assumes "shaped a" "length newBase = N_rank a" "isInRange (reindexSelf newBase a) ix"
    and "jx = map (\<lambda>i. ix ! i - newBase ! i + base (storage a) ! i) [0 ..< N_rank a]"
  shows "isInRange a jx \<and> address_of (reindexSelf newBase a) ix = address_of a jx"
proof -
  let ?n = "N_rank a" and ?v = "reindexSelf newBase a"
  have v: "lengths ?v = lengths a" "base (storage ?v) = newBase" "strides ?v = strides a"
      "data_ptr ?v = data_ptr a + (\<Sum>i<?n. (base (storage a) ! i - newBase ! i) * strides a ! i)"
    by (simp_all add: reindexSelf_def calculateZeroOffset_def Let_def sum_list_upt)
  have len: "length ix = ?n" "length (strides a) = ?n" "length (base (storage a)) = ?n"
    using assms(1-3) v by (auto simp: shaped_def isInRange_nth)
  have "isInRange a jx"
    using assms(2-4) v len by (fastforce simp: isInRange_nth)
  moreover have "dot jx (strides a) = dot ix (strides a) + (\<Sum>i<?n. (base (storage a) ! i - newBase ! i) * strides a ! i)"
    using len assms(4) by (simp add: dot_sum [of _ ?n] sum.distrib [symmetric] algebra_simps)
  ultimately show ?thesis using v by (simp add: address_of_def)
qed

section \<open>Views with positions and ranges\<close>

text \<open>
  Lengths are below the value that stands for "to the end of the rank".
\<close>

definition int_lengths :: "array_t \<Rightarrow> bool" where
  "int_lengths R \<longleftrightarrow> (\<forall>l \<in> set (lengths R). l \<le> toEnd)"

text \<open>
  The array under construction after \<open>k\<close> arguments, \<open>s\<close> of them ranges: its first \<open>s\<close> ranks
  are done, and the original dimensions of the ranks still to come are those of the source.
\<close>

definition partial_slice ::
  "array_t \<Rightarrow> nat list \<Rightarrow> (nat \<Rightarrow> int) \<Rightarrow> (nat \<Rightarrow> int) \<Rightarrow> nat \<Rightarrow> nat \<Rightarrow> array_t \<Rightarrow>
     (nat \<Rightarrow> int) \<Rightarrow> (nat \<Rightarrow> int) \<Rightarrow> nat list \<Rightarrow> bool"
where
  "partial_slice R dm0 lo0 hi0 k s a lo hi dm \<longleftrightarrow>
     shaped a \<and> block_ptr a = block_ptr R \<and> boxed R a lo hi \<and>
     length dm = s \<and> s \<le> k \<and> distinct dm \<and> set dm \<subseteq> set (take k dm0) \<and>
     (\<forall>j < s. walks R a lo hi j (dm ! j)) \<and>
     (\<forall>j. k \<le> j \<and> j < length dm0 \<longrightarrow> originalDim (storage a) ! j = Some (dm0 ! j) \<and>
        lo (dm0 ! j) = lo0 (dm0 ! j) \<and> hi (dm0 ! j) = hi0 (dm0 ! j)) \<and>
     (\<forall>d < N_rank R. d \<notin> set dm \<longrightarrow> d \<notin> set (drop k dm0) \<longrightarrow> lo d = hi d)"

lemma nth_notin_rest:
  assumes "distinct xs" "k < length xs"
  shows "xs ! k \<notin> set (take k xs)" "xs ! k \<notin> set (drop (Suc k) xs)"
proof -
  have "distinct (take k xs @ xs ! k # drop (Suc k) xs)"
    using assms id_take_nth_drop [OF assms(2)] by simp
  then show "xs ! k \<notin> set (take k xs)" "xs ! k \<notin> set (drop (Suc k) xs)" by auto
qed

lemma set_drop_nth: "k < length xs \<Longrightarrow> set (drop k xs) = insert (xs ! k) (set (drop (Suc k) xs))"
  by (simp add: Cons_nth_drop_Suc [symmetric])

lemma set_take_nth: "k < length xs \<Longrightarrow> set (take (Suc k) xs) = insert (xs ! k) (set (take k xs))"
  by (simp add: take_Suc_conv_app_nth)

lemma nth_outside: "set xs \<subseteq> A \<Longrightarrow> x \<notin> A \<Longrightarrow> j < length xs \<Longrightarrow> xs ! j \<noteq> x"
  using nth_mem by blast

lemma narrowed_later:
  assumes p: "partial_slice R dm0 lo0 hi0 k s a lo hi dm" and k: "k < length dm0" "distinct dm0"
    and j: "Suc k \<le> j" "j < length dm0" and od: "originalDim s' ! j = originalDim (storage a) ! j"
  shows "originalDim s' ! j = Some (dm0 ! j) \<and>
    (lo(dm0 ! k := x)) (dm0 ! j) = lo0 (dm0 ! j) \<and> (hi(dm0 ! k := y)) (dm0 ! j) = hi0 (dm0 ! j)"
proof -
  have "dm0 ! j \<noteq> dm0 ! k" using j k by (simp add: nth_eq_iff_index_eq)
  moreover have "originalDim (storage a) ! j = Some (dm0 ! j) \<and> lo (dm0 ! j) = lo0 (dm0 ! j) \<and> hi (dm0 ! j) = hi0 (dm0 ! j)"
    using p j unfolding partial_slice_def by simp
  ultimately show ?thesis using od by simp
qed

lemma narrowed_rest:
  assumes p: "partial_slice R dm0 lo0 hi0 k s a lo hi dm" and k: "k < length dm0"
    and d: "d < N_rank R" "d \<notin> set dm" "d \<notin> set (drop (Suc k) dm0)" and x: "d = dm0 ! k \<Longrightarrow> x = y"
  shows "(lo(dm0 ! k := x)) d = (hi(dm0 ! k := y)) d"
proof (cases "d = dm0 ! k")
  case False
  then have "d \<notin> set (drop k dm0)" using d(3) set_drop_nth [OF k] by simp
  then show ?thesis using p d(1,2) False unfolding partial_slice_def by simp
qed (use x in simp)

lemma src_rank:
  assumes src: "tracked_by R src lo0 hi0 dm0" and "k < N_rank src"
  shows "dm0 ! k < N_rank R" "base (storage src) ! k = 0" "strides src ! k = strides R ! (dm0 ! k)"
    "lengths src ! k = hi0 (dm0 ! k) - lo0 (dm0 ! k) + 1" "length dm0 = N_rank src" "distinct dm0"
  using src assms by (auto simp: tracked_by_def walks_def)

lemma int_step:
  assumes src: "tracked_by R src lo0 hi0 dm0" and R: "N_rank R \<le> 11" "int_lengths R"
    and p: "partial_slice R dm0 lo0 hi0 k s a lo hi dm" and k: "k < N_rank src"
    and st: "slice_int_arg i src k (s, rm, a) = Some (s', rm', a')"
  shows "\<exists>lo hi. partial_slice R dm0 lo0 hi0 (Suc k) s a' lo hi dm" and "s' = s" and "N_rank a' = N_rank a"
proof -
  note r = src_rank [OF src k]
  let ?d = "dm0 ! k"
  have sh: "shaped a" and bx: "boxed R a lo hi" and dm: "length dm = s" "set dm \<subseteq> set (take k dm0)"
    and w: "\<And>j. j < s \<Longrightarrow> walks R a lo hi j (dm ! j)"
    and od: "originalDim (storage a) ! k = Some ?d" and lh: "lo ?d = lo0 ?d" "hi ?d = hi0 ?d"
    using p k r(5) by (auto simp: partial_slice_def)
  have e: "extents (storage a) ! ?d = Some (lo ?d, hi ?d)" and hl: "hi ?d < lengths R ! ?d"
      and l0: "0 \<le> lo ?d"
    using bx r(1) by (simp_all add: boxed_def)
  have i: "0 \<le> i" "i \<le> hi ?d - lo ?d" "s' = s"
    using st r(2,4) lh by (auto simp: slice_int_arg_def isInRangeForDim_def split: if_splits bind_splits)
  then show "s' = s" by simp
  have "lengths R ! ?d \<le> toEnd" using R(2) r(1) by (simp add: int_lengths_def)
  then have "i \<noteq> toEnd" "i \<noteq> fromStart" using i hl l0 by (auto simp: fromStart_def)
  then have "displaceExtent k (range_at i) (storage a) = Some ((storage a)\<lparr>extents :=
      (extents (storage a))[?d := Some (i + lo ?d, i + lo ?d)]\<rparr>)"
    using od e sh k r(1,5) R(1) tracked_rank [OF src]
    by (simp add: displaceExtent_def read_at_def shaped_def range_at_def range_first_def range_last_def Let_def)
  then have a': "a' = a\<lparr>data_ptr := data_ptr a + i * strides R ! ?d, storage := (storage a)\<lparr>extents :=
      (extents (storage a))[?d := Some (i + lo ?d, i + lo ?d)]\<rparr>\<rparr>"
    using st r(3) by (auto simp: slice_int_arg_def split: if_splits)
  then show "N_rank a' = N_rank a" by simp
  let ?lo = "lo(?d := lo ?d + i)" and ?hi = "hi(?d := lo ?d + i)"
  have "boxed R a' ?lo ?hi"
    using sh a' i by (intro boxed_narrow [OF bx r(1)]) (simp_all add: R shaped_def)
  moreover have nd: "?d \<notin> set (take k dm0)" "?d \<notin> set (drop (Suc k) dm0)"
    using nth_notin_rest [of dm0 k] r(5,6) k by simp_all
  moreover have "walks R a' ?lo ?hi j (dm ! j)" if "j < s" for j
  proof -
    have "dm ! j \<noteq> ?d" using nth_outside [OF dm(2) nd(1)] dm(1) that by simp
    then show ?thesis using w [OF that] a' by (simp add: walks_def)
  qed
  moreover have "originalDim (storage a') ! j = Some (dm0 ! j) \<and> ?lo (dm0 ! j) = lo0 (dm0 ! j) \<and> ?hi (dm0 ! j) = hi0 (dm0 ! j)"
    if "Suc k \<le> j" "j < length dm0" for j
    by (rule narrowed_later [OF p _ r(6) that]) (use k r(5) a' in simp_all)
  moreover have "?lo d = ?hi d" if "d < N_rank R" "d \<notin> set dm" "d \<notin> set (drop (Suc k) dm0)" for d
    by (rule narrowed_rest [OF p _ that]) (use k r(5) in simp_all)
  moreover have "shaped a'" using sh a' by (simp add: shaped_def)
  moreover have "block_ptr a' = block_ptr R" "s \<le> k" "distinct dm"
    using p a' by (simp_all add: partial_slice_def)
  moreover have "set dm \<subseteq> set (take (Suc k) dm0)"
    using dm(2) set_take_nth [of k dm0] k r(5) by auto
  ultimately have "partial_slice R dm0 lo0 hi0 (Suc k) s a' ?lo ?hi dm"
    using dm(1) unfolding partial_slice_def by (intro conjI allI impI) (auto elim: conjE)
  then show "\<exists>lo hi. partial_slice R dm0 lo0 hi0 (Suc k) s a' lo hi dm" by blast
qed

lemma range_step:
  assumes src: "tracked_by R src lo0 hi0 dm0" and R: "N_rank R \<le> 11" "int_lengths R"
    and p: "partial_slice R dm0 lo0 hi0 k s a lo hi dm" and k: "k < N_rank src"
    and x: "explicit_range r" and st: "slice_range_arg r src k (s, rm, a) = Some (s', rm', a')"
  shows "\<exists>lo hi dm. partial_slice R dm0 lo0 hi0 (Suc k) (Suc s) a' lo hi dm"
    and "s' = Suc s" and "N_rank a' = N_rank a" and "s < N_rank a"
proof -
  note r = src_rank [OF src k]
  let ?d = "dm0 ! k"
  have sh: "shaped a" and bx: "boxed R a lo hi" and dm: "length dm = s" "set dm \<subseteq> set (take k dm0)" "distinct dm"
    and w: "\<And>j. j < s \<Longrightarrow> walks R a lo hi j (dm ! j)" and sk: "s \<le> k"
    and od: "originalDim (storage a) ! k = Some ?d" and lh: "lo ?d = lo0 ?d" "hi ?d = hi0 ?d"
    using p k r(5) by (auto simp: partial_slice_def)
  have e: "extents (storage a) ! ?d = Some (lo ?d, hi ?d)" and hl: "hi ?d < lengths R ! ?d"
      and l0: "0 \<le> lo ?d"
    using bx r(1) by (simp_all add: boxed_def)
  define a1 where "a1 = a\<lparr>storage := (remap s k (storage a))
        \<lparr>ascendingFlag := (ascendingFlag (storage a))[s := isRankStoredAscending src k],
         base := (base (storage a))[s := base (storage src) ! k]\<rparr>,
      lengths := (lengths a)[s := lengths src ! k], strides := (strides a)[s := strides src ! k]\<rparr>"
  have od1: "originalDim (storage a1) = (originalDim (storage a))[s := Some ?d]"
    using od sh k tracked_rank [OF src] R(1) by (simp add: a1_def remap_def read_at_def shaped_def)
  have a1: "extents (storage a1) = extents (storage a)" "N_rank a1 = N_rank a"
      "base (storage a1) = (base (storage a))[s := 0]" "strides a1 = (strides a)[s := strides R ! ?d]"
      "lengths a1 = (lengths a)[s := hi ?d - lo ?d + 1]" "data_ptr a1 = data_ptr a"
      "originalDims (storage a1) = originalDims (storage a)" "block_ptr a1 = block_ptr a"
    using r lh by (simp_all add: a1_def remap_def)
  obtain a2 where a2: "slice_rank s r a1 = Some a2" "s' = Suc s" "a' = a2"
    using st by (auto simp: slice_range_arg_def a1_def remap_def Let_def split: bind_splits)
  then show "s' = Suc s" by simp
  show s: "s < N_rank a"
    using a2(1) a1(2) by (auto simp: slice_rank_def split: if_splits)
  have sl: "0 \<le> first_of r" "first_of r \<le> last_of r" "last_of r < lengths a1 ! s"
    "a' = a1\<lparr>lengths := (lengths a1)[s := last_of r - first_of r + 1],
           data_ptr := data_ptr a1 + first_of r * strides a1 ! s,
           zeroOffset := zeroOffset a1 + first_of r * strides a1 ! s,
           strides := (strides a1)[s := strides a1 ! s],
           storage := (storage a1)\<lparr>extents :=
             (extents (storage a1))[?d := Some (first_of r + lo ?d, last_of r + lo ?d)]\<rparr>\<rparr>"
    using slice_rank_Some [OF a2(1) x, of ?d "lo ?d" "hi ?d"] s sh a1 od1 e r(1) R(1) a2(3)
    by (simp_all add: shaped_def)
  then show "N_rank a' = N_rank a" using a1(2) by simp
  let ?lo = "lo(?d := lo ?d + first_of r)" and ?hi = "hi(?d := lo ?d + last_of r)"
  have "boxed R a' ?lo ?hi"
    using sh sl s a1 by (intro boxed_narrow [OF bx r(1)]) (simp_all add: R shaped_def)
  moreover have nd: "?d \<notin> set (take k dm0)" "?d \<notin> set (drop (Suc k) dm0)"
    using nth_notin_rest [of dm0 k] r(5,6) k by simp_all
  moreover have "walks R a' ?lo ?hi j ((dm @ [?d]) ! j)" if "j < Suc s" for j
  proof (cases "j = s")
    case True
    have "(dm @ [?d]) ! s = ?d" using dm(1) by (metis nth_append_length)
    then show ?thesis
      using True sl(4) s sh a1 od1 r(1) by (simp add: walks_def shaped_def)
  next
    case False
    then have j: "j < s" using that by simp
    have "dm ! j \<noteq> ?d" using nth_outside [OF dm(2) nd(1)] dm(1) j by simp
    then show ?thesis using w [OF j] sl(4) j dm(1) a1 od1 by (simp add: walks_def nth_append)
  qed
  moreover have "originalDim (storage a') ! j = Some (dm0 ! j) \<and> ?lo (dm0 ! j) = lo0 (dm0 ! j) \<and> ?hi (dm0 ! j) = hi0 (dm0 ! j)"
    if "Suc k \<le> j" "j < length dm0" for j
    by (rule narrowed_later [OF p _ r(6) that]) (use k r(5) that sl(4) od1 sk in simp_all)
  moreover have "?lo d = ?hi d" if "d < N_rank R" "d \<notin> set (dm @ [?d])" "d \<notin> set (drop (Suc k) dm0)" for d
    using narrowed_rest [OF p _ that(1) _ that(3), of "lo ?d + first_of r" "lo ?d + last_of r"] that(2) k r(5) by simp
  moreover have "shaped a'" using sh sl(4) a1 od1 by (simp add: shaped_def)
  moreover have "block_ptr a' = block_ptr R"
    using p sl(4) a1(8) by (simp add: partial_slice_def)
  moreover have "set (dm @ [?d]) \<subseteq> set (take (Suc k) dm0)" "distinct (dm @ [?d])"
    using dm nd(1) set_take_nth [of k dm0] k r(5) by auto
  ultimately have "partial_slice R dm0 lo0 hi0 (Suc k) (Suc s) a' ?lo ?hi (dm @ [?d])"
    using dm(1) sk unfolding partial_slice_def by (intro conjI allI impI) (auto elim: conjE)
  then show "\<exists>lo hi dm. partial_slice R dm0 lo0 hi0 (Suc k) (Suc s) a' lo hi dm" by blast
qed


definition explicit_arg :: "range_t section_arg \<Rightarrow> bool" where
  "explicit_arg x = (case x of At _ \<Rightarrow> True | Section r \<Rightarrow> explicit_range r)"

lemma slice_args_partial:
  assumes src: "tracked_by R src lo0 hi0 dm0" and R: "N_rank R \<le> 11" "int_lengths R"
    and "partial_slice R dm0 lo0 hi0 k s a lo hi dm" "k + length xs = N_rank src"
    and "list_all explicit_arg xs" "slice_args k xs src (s, rm, a) = Some (s', rm', a')"
  shows "(\<exists>lo hi dm. partial_slice R dm0 lo0 hi0 (N_rank src) s' a' lo hi dm) \<and>
         s' = s + length (filter is_section xs) \<and> N_rank a' = N_rank a"
  using assms(4-)
proof (induction xs arbitrary: k s rm a lo hi dm)
  case Nil
  then show ?case by auto
next
  case (Cons x xs)
  have k: "k < N_rank src" using Cons.prems(2) by simp
  show ?case
  proof (cases x)
    case (At i)
    then obtain s1 rm1 a1 where 1: "slice_int_arg i src k (s, rm, a) = Some (s1, rm1, a1)"
        "slice_args (Suc k) xs src (s1, rm1, a1) = Some (s', rm', a')"
      using Cons.prems(4) by (auto split: bind_splits)
    note st = int_step [OF src R Cons.prems(1) k 1(1)]
    show ?thesis
      using st Cons.IH [of "Suc k" s a1] 1(2) Cons.prems(2,3) At by (auto simp: is_section_def)
  next
    case (Section r)
    then obtain s1 rm1 a1 where 1: "slice_range_arg r src k (s, rm, a) = Some (s1, rm1, a1)"
        "slice_args (Suc k) xs src (s1, rm1, a1) = Some (s', rm', a')"
      using Cons.prems(4) by (auto split: bind_splits)
    have x: "explicit_range r" using Cons.prems(3) Section by (simp add: explicit_arg_def)
    note st = range_step [OF src R Cons.prems(1) k x 1(1)]
    show ?thesis
      using st Cons.IH [of "Suc k" "Suc s" a1] 1(2) Cons.prems(2,3) Section by (auto simp: is_section_def)
  qed
qed

lemma slice_info_rank_filter: "slice_info_rank xs = length (filter is_section xs)"
  by (induction xs) (simp_all add: slice_info_rank_def)

lemma paren_mixed_tracked:
  assumes t: "tracked R src" and R: "int_lengths R" and x: "list_all explicit_arg xs"
    and c: "paren_mixed src xs h = Some (h', v)"
  shows "tracked R v"
proof -
  obtain lo hi dm where src: "tracked_by R src lo hi dm" and R11: "N_rank R \<le> 11"
    using t by (rule trackedE)
  have sh: "shaped src" and bx: "boxed R src lo hi" and dm: "length dm = N_rank src" "distinct dm"
      and od: "originalDims (storage src) = Some (N_rank R)"
    using src by (auto simp: tracked_by_def boxed_def)
  let ?N = "length (filter is_section xs)"
  let ?a = "blank_array ?N (general_storage ?N ContiguousData)"
  obtain h1 a1 s setRank rankMap a2 where xs: "length xs = N_rank src"
      and a1: "changeBlock ?a src 0 h = Some (h1, a1)"
      and s: "copyDepSpawnInfo (storage src) (storage a1) = Some s"
      and a2: "slice_args 0 xs src (0, replicate (N_rank src) None, a1\<lparr>storage := s\<rparr>) = Some (setRank, rankMap, a2)"
      and v: "v = calculateZeroOffset (a2\<lparr>storage := (storage a2)
                \<lparr>ordering := redo_ordering (ordering (storage src)) rankMap 0 (ordering (storage a2))\<rparr>\<rparr>)"
    using c by (auto simp: paren_mixed_def slice_info_rank_filter constructSlice_def Let_def split: if_splits bind_splits)
  have N: "?N \<le> 11" using length_filter_le [of is_section xs] xs sh by (simp add: shaped_def)
  have a1': "storage a1 = general_storage ?N ContiguousData" "N_rank a1 = ?N" "length (strides a1) = ?N"
      "data_ptr a1 = data_ptr src" "block_ptr a1 = block_ptr src"
    using a1 by (auto simp: changeBlock_def Let_def split: bind_splits)
  have s': "originalDims s = Some (N_rank R)" "length (extents s) = 11" "length (originalDim s) = 11"
      "length (base s) = ?N" "\<And>d. d < N_rank R \<Longrightarrow> extents s ! d = extents (storage src) ! d"
      "\<And>d. d < N_rank R \<Longrightarrow> originalDim s ! d = originalDim (storage src) ! d"
    using s od R11 a1'(1) sh by (auto simp: copyDepSpawnInfo_def shaped_def general_storage_def nth_append)
  have start: "partial_slice R dm lo hi 0 0 (a1\<lparr>storage := s\<rparr>) lo hi []"
    using src bx a1' s' N tracked_rank [OF src] dm(1)
    by (auto simp: partial_slice_def shaped_def boxed_def tracked_by_def walks_def)
  have fin: "(\<exists>lo' hi' dm'. partial_slice R dm lo hi (N_rank src) setRank a2 lo' hi' dm') \<and>
      setRank = 0 + ?N \<and> N_rank a2 = N_rank (a1\<lparr>storage := s\<rparr>)"
    by (rule slice_args_partial [OF src R11 R start _ x a2]) (simp add: xs)
  then obtain lo' hi' dm' where p: "partial_slice R dm lo hi (N_rank src) setRank a2 lo' hi' dm'" by blast
  have r: "setRank = ?N" "N_rank a2 = ?N" using fin a1'(2) by simp_all
  have "shaped a2" "block_ptr a2 = block_ptr R" "boxed R a2 lo' hi'" "length dm' = ?N" "distinct dm'"
      "\<And>j. j < ?N \<Longrightarrow> walks R a2 lo' hi' j (dm' ! j)"
      "\<And>d. d < N_rank R \<Longrightarrow> d \<notin> set dm' \<Longrightarrow> lo' d = hi' d"
    using p r dm(1) by (simp_all add: partial_slice_def)
  then have "tracked_by R v lo' hi' dm'"
    using r(2) v by (simp add: tracked_by_def shaped_def boxed_def walks_def calculateZeroOffset_def)
  then show ?thesis using R11 by (auto simp: tracked_def)
qed

section \<open>The elements of a tracked view\<close>

definition original_index :: "array_t \<Rightarrow> (nat \<Rightarrow> int) \<Rightarrow> nat list \<Rightarrow> int list \<Rightarrow> int list" where
  "original_index R lo dm ix =
     map (\<lambda>d. lo d + (\<Sum>k<length dm. if dm ! k = d then ix ! k else 0)) [0 ..< N_rank R]"

lemma tracked_address:
  assumes v: "tracked_by R v lo hi dm" and R: "length (strides R) = N_rank R" and ix: "length ix = N_rank v"
  shows "address_of v ix = address_of R (original_index R lo dm ix)"
proof -
  let ?n = "N_rank R" and ?m = "N_rank v" and ?S = "\<lambda>d. strides R ! d"
  have sh: "length (strides v) = ?m" "length dm = ?m" and w: "\<And>k. k < ?m \<Longrightarrow> walks R v lo hi k (dm ! k)"
      and dp: "data_ptr v = data_ptr R + (\<Sum>d<?n. lo d * ?S d)"
    using v by (auto simp: tracked_by_def shaped_def boxed_def)
  have "dot ix (strides v) = (\<Sum>k<?m. ix ! k * ?S (dm ! k))"
    using dot_sum [OF ix sh(1)] w by (simp add: walks_def)
  also have "\<dots> = (\<Sum>k<?m. \<Sum>d<?n. (if dm ! k = d then ix ! k else 0) * ?S d)"
    using w by (intro sum.cong) (simp_all add: walks_def if_distrib [of "\<lambda>x. x * _"] sum.delta' cong: if_cong)
  also have "\<dots> = (\<Sum>d<?n. \<Sum>k<?m. (if dm ! k = d then ix ! k else 0) * ?S d)"
    by (rule sum.swap)
  also have "\<dots> = (\<Sum>d<?n. (\<Sum>k<?m. if dm ! k = d then ix ! k else 0) * ?S d)"
    by (simp only: sum_distrib_right)
  finally have d: "dot ix (strides v) = (\<Sum>d<?n. (\<Sum>k<?m. if dm ! k = d then ix ! k else 0) * ?S d)" .
  have "dot (original_index R lo dm ix) (strides R) =
      (\<Sum>d<?n. (lo d + (\<Sum>k<?m. if dm ! k = d then ix ! k else 0)) * ?S d)"
    using R sh(2) by (simp add: dot_sum [of _ ?n] original_index_def)
  also have "\<dots> = (\<Sum>d<?n. lo d * ?S d) + dot ix (strides v)"
    by (simp only: distrib_right sum.distrib d)
  finally show ?thesis
    using dp by (simp add: address_of_def)
qed

text \<open>An index of the view and the box of its array.\<close>

definition index_box :: "array_t \<Rightarrow> (nat \<Rightarrow> int) \<Rightarrow> (nat \<Rightarrow> int) \<Rightarrow> int list \<Rightarrow> bool" where
  "index_box R lo hi jx \<longleftrightarrow> length jx = N_rank R \<and> (\<forall>d < N_rank R. lo d \<le> jx ! d \<and> jx ! d \<le> hi d)"

lemma sum_at_dim:
  assumes "distinct dm" "k < length dm"
  shows "(\<Sum>j<length dm. if dm ! j = dm ! k then f j else 0) = (f k :: int)"
proof -
  have "(\<Sum>j<length dm. if dm ! j = dm ! k then f j else 0) = (\<Sum>j<length dm. if j = k then f j else 0)"
    using assms by (intro sum.cong) (auto simp: nth_eq_iff_index_eq)
  then show ?thesis using assms(2) by simp
qed

lemma sum_no_dim:
  assumes "d \<notin> set dm"
  shows "(\<Sum>j<length dm. if dm ! j = d then f j else 0) = (0 :: int)"
proof -
  have "dm ! j \<noteq> d" if "j < length dm" for j using assms that nth_mem by blast
  then show ?thesis by (intro sum.neutral) simp
qed

lemma original_index_in_box:
  assumes v: "tracked_by R v lo hi dm" and ix: "isInRange v ix"
  shows "index_box R lo hi (original_index R lo dm ix)"
proof -
  have D: "distinct dm" "length dm = N_rank v" and w: "\<And>k. k < N_rank v \<Longrightarrow> walks R v lo hi k (dm ! k)"
      and bx: "boxed R v lo hi" and sh: "shaped v"
    using v by (auto simp: tracked_by_def)
  have "lo d \<le> original_index R lo dm ix ! d \<and> original_index R lo dm ix ! d \<le> hi d" if d: "d < N_rank R" for d
  proof (cases "d \<in> set dm")
    case True
    then obtain k where k: "k < length dm" "dm ! k = d" by (auto simp: in_set_conv_nth)
    have "0 \<le> ix ! k" "ix ! k \<le> hi d - lo d"
      using ix w [of k] k D(2) sh by (auto simp: isInRange_nth walks_def shaped_def)
    then show ?thesis
      using sum_at_dim [OF D(1) k(1), of "\<lambda>j. ix ! j"] k(2) d by (simp add: original_index_def)
  next
    case False
    then show ?thesis
      using sum_no_dim [OF False, of "\<lambda>j. ix ! j"] d bx by (simp add: original_index_def boxed_def)
  qed
  then show ?thesis by (simp add: index_box_def original_index_def)
qed

lemma index_box_original:
  assumes v: "tracked_by R v lo hi dm" and jx: "index_box R lo hi jx"
  obtains ix where "isInRange v ix" "original_index R lo dm ix = jx"
proof -
  have D: "distinct dm" "length dm = N_rank v" and w: "\<And>k. k < N_rank v \<Longrightarrow> walks R v lo hi k (dm ! k)"
      and sh: "shaped v" and eq: "\<And>d. d < N_rank R \<Longrightarrow> d \<notin> set dm \<Longrightarrow> lo d = hi d"
    using v by (auto simp: tracked_by_def)
  let ?ix = "map (\<lambda>k. jx ! (dm ! k) - lo (dm ! k)) [0 ..< length dm]"
  have "isInRange v ?ix"
    using w jx D(2) sh by (fastforce simp: isInRange_nth walks_def index_box_def shaped_def)
  moreover have "original_index R lo dm ?ix = jx"
  proof (rule nth_equalityI)
    fix d assume "d < length (original_index R lo dm ?ix)"
    then have d: "d < N_rank R" by (simp add: original_index_def)
    show "original_index R lo dm ?ix ! d = jx ! d"
    proof (cases "d \<in> set dm")
      case True
      then obtain k where k: "k < length dm" "dm ! k = d" by (auto simp: in_set_conv_nth)
      then show ?thesis
        using sum_at_dim [OF D(1) k(1), of "\<lambda>j. ?ix ! j"] d by (simp add: original_index_def)
    next
      case False
      then have "jx ! d = lo d" using jx eq [OF d False] d by (force simp: index_box_def)
      then show ?thesis
        using sum_no_dim [OF False, of "\<lambda>j. ?ix ! j"] d by (simp add: original_index_def)
    qed
  qed (use jx in \<open>simp add: original_index_def index_box_def\<close>)
  ultimately show ?thesis by (rule that)
qed

text \<open>What is recorded for the view.\<close>

lemma tracked_actual:
  assumes v: "tracked_by R v lo hi dm" and R: "N_rank R \<le> 11" "0 < N_rank R"
  obtains x where "array_actual cst v = Some x" "is_barray x" "is_const x = cst"
    "footprint (new_arg x) = Cell (block_ptr R) ` {jx. index_box R lo hi jx}"
    "wf_arg (new_arg x)" "rank (new_arg x) = N_rank R" "addr (new_arg x) = block_ptr R" "wr (new_arg x) = (\<not> cst)"
proof -
  let ?n = "N_rank R"
  have od: "originalDims (storage v) = Some ?n" and bp: "block_ptr v = block_ptr R"
      and e: "\<And>d. d < ?n \<Longrightarrow> read_at (extents (storage v)) d = Some (lo d, hi d)"
    using v R by (auto simp: tracked_by_def boxed_def shaped_def read_at_def)
  have ex: "array_extents v = Some (map (\<lambda>d. (lo d, hi d)) [0 ..< ?n])"
    using od those_map_Some [of "[0 ..< ?n]" "read_at (extents (storage v))" "\<lambda>d. (lo d, hi d)"] e
    by (simp add: array_extents_def)
  let ?x = "\<lparr>is_reference = True, is_const = cst, formal_ignored = False, head_ignored = False,
                head_rvalue = False, is_barray = True, sizeof_head = 0, address = 0,
                block = block_ptr R, original_dims = ?n, extent = map (\<lambda>d. (lo d, hi d)) [0 ..< ?n]\<rparr>"
  have "{jx. list_all2 (\<lambda>(l, h) i. l \<le> i \<and> i \<le> h) (map (\<lambda>d. (lo d, hi d)) [0 ..< ?n]) jx} =
      {jx. index_box R lo hi jx}"
    by (auto simp: index_box_def list_all2_conv_all_nth)
  moreover have "array_range (new_arg ?x) = map (\<lambda>d. (lo d, hi d)) [0 ..< ?n]"
    by (simp add: new_arg_def fill_in_array_def)
  moreover have "is_array (new_arg ?x)" "addr (new_arg ?x) = block_ptr R"
    using R(2) by (simp_all add: is_array_def new_arg_def fill_in_array_def)
  ultimately have "footprint (new_arg ?x) = Cell (block_ptr R) ` {jx. index_box R lo hi jx}"
    by (simp add: footprint_def)
  moreover have "array_actual cst v = Some ?x"
    using od ex bp by (simp add: array_actual_def)
  moreover have "wf_arg (new_arg ?x)"
    using v R(2) by (auto simp: wf_arg_def new_arg_def fill_in_array_def is_array_def list_all_length
        tracked_by_def boxed_def)
  moreover have "wr (new_arg ?x) = (\<not> cst)" "rank (new_arg ?x) = ?n" "addr (new_arg ?x) = block_ptr R"
    by (simp_all add: new_arg_def fill_in_array_def is_writable_def)
  ultimately show ?thesis by (intro that [of ?x]) simp_all
qed

section \<open>Programs over views\<close>

text \<open>
  The views that a program makes of an array: copies, slices in place, sub-arrays, and
  slices with positions and ranges, the ranges with explicit ends and step 1.
\<close>

inductive view_of :: "array_t \<Rightarrow> array_t \<Rightarrow> bool" for R where
  itself: "view_of R R"
| slice: "view_of R v \<Longrightarrow> slice_rank k r v = Some v' \<Longrightarrow> explicit_range r \<Longrightarrow> view_of R v'"
| copied: "view_of R v \<Longrightarrow> array_copy v h = Some (h', v') \<Longrightarrow> view_of R v'"
| ranges: "view_of R v \<Longrightarrow> paren_ranges v rs h = Some (h', v') \<Longrightarrow> list_all explicit_range rs \<Longrightarrow> view_of R v'"
| mixed: "view_of R v \<Longrightarrow> paren_mixed v xs h = Some (h', v') \<Longrightarrow> list_all explicit_arg xs \<Longrightarrow> view_of R v'"

lemma view_of_tracked:
  assumes "view_of R v" "tracked R R" "int_lengths R"
  shows "tracked R v"
  using assms(1)
proof (induction rule: view_of.induct)
  case itself
  show ?case by (rule assms(2))
next
  case (slice v k r v')
  then show ?case using slice_rank_tracked by blast
next
  case (copied v h h' v')
  show ?case
    by (rule reference_tracked [OF copied.IH copied.hyps(2) [unfolded array_copy_def]]) simp_all
next
  case (ranges v rs h h' v')
  then show ?case using subarray_tracked by (simp add: paren_ranges_def)
next
  case (mixed v xs h h' v')
  then show ?case using paren_mixed_tracked [OF _ assms(3)] by blast
qed

lemma new_array_tracked:
  assumes "wf_storage N st" "base st = replicate N 0" "length ls = N" "\<forall>l \<in> set ls. 0 < l \<and> l \<le> toEnd"
    "int w = 2 ^ v" "new_array w N ls st new h = Some (h', R)"
  shows "tracked R R" "int_lengths R" "separate R" "N_rank R = N" "0 < N_rank R" "length (strides R) = N_rank R"
    "base (storage R) = replicate N 0" "lengths R = ls"
proof -
  have N: "0 < N" "N \<le> 11" using assms(1) by (auto simp: wf_storage_def)
  have ls: "ls \<noteq> []" "length ls \<le> N" "\<forall>l \<in> set ls. 0 < l" using assms(3,4) N by auto
  obtain h1 a where a: "new_array w N ls st new h = Some (h1, a)" "own_block w new h1 a" "wf_storage N (storage a)"
      "lengths a = map (\<lambda>i. if i < length ls then ls ! i else List.last ls) [0 ..< N]"
      and e: "\<And>i. i < length ls \<Longrightarrow> extents (storage a) ! i = Some (base st ! i, base st ! i + ls ! i - 1)"
      and b: "\<And>i. i < N \<Longrightarrow> base (storage a) ! i = base st ! min i (length ls - 1)"
    by (rule new_array_own_block [OF assms(1) ls assms(5), of new h]) (rule that)
  have R: "a = R" using a(1) assms(6) by simp
  show len: "lengths R = ls"
    using a(4) assms(3) R by (intro nth_equalityI) auto
  then show n: "N_rank R = N" "0 < N_rank R" using assms(3) N by simp_all
  show il: "int_lengths R" using assms(4) len by (simp add: int_lengths_def)
  have lo: "laid_out (int w) (snd new) R" using a(2) R by (simp add: own_block_def)
  then show st: "length (strides R) = N_rank R" by (simp add: laid_out_def)
  show "separate R"
    using laid_out_addresses(1) [OF lo assms(5)] ls(3) len by (simp add: separate_def)
  note wf = a(3) [unfolded R wf_storage_def]
  show base: "base (storage R) = replicate N 0"
    using b assms(2) R wf by (intro nth_equalityI) (auto simp: min_def)
  have "walks R R (\<lambda>_. 0) (\<lambda>d. ls ! d - 1) k k" if "k < N" for k
    using that wf n len base by (simp add: walks_def)
  moreover have "boxed R R (\<lambda>_. 0) (\<lambda>d. ls ! d - 1)"
    using wf e R n len assms(2,3) ls(3) by (auto simp: boxed_def dest: nth_mem)
  moreover have "shaped R" using wf n st base N by (simp add: shaped_def)
  ultimately have "tracked_by R R (\<lambda>_. 0) (\<lambda>d. ls ! d - 1) [0 ..< N]"
    using n by (simp add: tracked_by_def)
  then show "tracked R R" using n N by (auto simp: tracked_def)
qed

text \<open>What a view of a new array has, and what is recorded for it.\<close>

lemma view_recorded:
  assumes "wf_storage N st" "base st = replicate N 0" "length ls = N" "\<forall>l \<in> set ls. 0 < l \<and> l \<le> toEnd"
    and "int w = 2 ^ p" "new_array w N ls st new h = Some (h', R)" and "view_of R v"
  obtains x where "array_actual cst v = Some x" "is_barray x"
    "footprint (new_arg x) =
       Cell (block_ptr R) ` {jx. isInRange R jx \<and> address_of R jx \<in> address_of v ` {ix. isInRange v ix}}"
    "address_of v ` {ix. isInRange v ix} \<subseteq> address_of R ` {jx. isInRange R jx}"
    "wf_arg (new_arg x)" "rank (new_arg x) = N_rank R" "addr (new_arg x) = block_ptr R" "wr (new_arg x) = (\<not> cst)"
proof -
  note R = new_array_tracked [OF assms(1-6)]
  obtain lo hi dm where t: "tracked_by R v lo hi dm" "N_rank R \<le> 11"
    using view_of_tracked [OF assms(7) R(1,2)] by (rule trackedE)
  have bx: "\<And>d. d < N_rank R \<Longrightarrow> 0 \<le> lo d \<and> lo d \<le> hi d \<and> hi d < lengths R ! d"
    using t(1) by (simp add: tracked_by_def boxed_def)
  have inR: "isInRange R jx" if "index_box R lo hi jx" for jx
    using that bx R(4,7) by (fastforce simp: isInRange_nth index_box_def)
  have o: "index_box R lo hi (original_index R lo dm ix)"
      "address_of v ix = address_of R (original_index R lo dm ix)" if "isInRange v ix" for ix
    using original_index_in_box [OF t(1) that] tracked_address [OF t(1) R(6), of ix] that
    by (simp_all add: isInRange_nth)
  have sub: "address_of v ` {ix. isInRange v ix} \<subseteq> address_of R ` {jx. isInRange R jx}"
    using o inR by auto
  have cells: "{jx. index_box R lo hi jx} = {jx. isInRange R jx \<and> address_of R jx \<in> address_of v ` {ix. isInRange v ix}}"
  proof (intro equalityI subsetI; clarify)
    fix jx assume jx: "index_box R lo hi jx"
    then obtain ix where "isInRange v ix" "original_index R lo dm ix = jx"
      by (rule index_box_original [OF t(1)])
    then show "isInRange R jx \<and> address_of R jx \<in> address_of v ` {ix. isInRange v ix}"
      using inR [OF jx] o(2) [of ix] by (metis (mono_tags) imageI mem_Collect_eq)
  next
    fix jx ix assume jx: "isInRange R jx" "isInRange v ix" "address_of R jx = address_of v ix"
    then have "jx = original_index R lo dm ix"
      using R(3) inR [OF o(1) [OF jx(2)]] o(2) [OF jx(2)] by (auto simp: separate_def dest: inj_onD)
    then show "index_box R lo hi jx" using o(1) [OF jx(2)] by simp
  qed
  show ?thesis
    by (rule tracked_actual [OF t R(5), of cst]) (rule that, simp_all add: cells sub)
qed

text \<open>
  C22: For an array with bases 0 and every view a program makes of it with positions and explicit
  ranges of step 1, what \<open>spawn\<close> records for the view is exactly the set of the indices of the
  original array whose elements the view has.
\<close>

theorem view_footprint_exact:
  assumes "wf_storage N st" "base st = replicate N 0" "length ls = N" "\<forall>l \<in> set ls. 0 < l \<and> l \<le> toEnd"
    and "int w = 2 ^ p" "new_array w N ls st new h = Some (h', R)" and "view_of R v"
  shows "\<exists>x. array_actual cst v = Some x \<and> is_barray x \<and>
           footprint (new_arg x) =
             Cell (block_ptr R) ` {jx. isInRange R jx \<and> address_of R jx \<in> address_of v ` {ix. isInRange v ix}}"
  by (rule view_recorded [OF assms, of cst]) blast

lemma preimages_meet:
  assumes "A \<subseteq> f ` {j. D j}"
  shows "{j. D j \<and> f j \<in> A} \<inter> {j. D j \<and> f j \<in> B} \<noteq> {} \<longleftrightarrow> A \<inter> B \<noteq> {}"
  using assms by auto


lemma sample_view_of: "view_of sample_array sample_view"
proof -
  have "slice_rank 0 (sample_range 1 2) sample_array \<noteq> None" by code_simp
  then have "slice_rank 0 (sample_range 1 2) sample_array = Some sample_view"
    by (auto simp: sample_view_def)
  then show ?thesis
    by (rule view_of.slice [OF view_of.itself]) (simp add: toEnd_def)
qed

lemma view_footprint_exact_witness:
  "\<exists>x. array_actual True sample_view = Some x \<and> is_barray x \<and>
     footprint (new_arg x) = Cell (block_ptr sample_array) `
       {jx. isInRange sample_array jx \<and>
            address_of sample_array jx \<in> address_of sample_view ` {ix. isInRange sample_view ix}}"
proof -
  obtain h' where n: "new_array 1 2 [4, 4] (general_storage 2 ContiguousData) (1000, 64) Map.empty = Some (h', sample_array)"
    using sample_new by blast
  show ?thesis
    by (rule view_footprint_exact [where p = 0, OF wf_general_storage _ _ _ _ n sample_view_of])
      (simp_all add: general_storage_def toEnd_def)
qed


section \<open>Views that are not tracked\<close>

text \<open>Two views that share the element \<open>ix\<close> of one and \<open>jx\<close> of the other, and that \<open>spawn\<close> takes for disjoint.\<close>

definition missed :: "array_t \<Rightarrow> int list \<Rightarrow> array_t \<Rightarrow> int list \<Rightarrow> bool" where
  "missed v ix w jx =
     (isInRange v ix \<and> isInRange w jx \<and> block_ptr v = block_ptr w \<and> address_of v ix = address_of w jx \<and>
      (case (array_actual False v, array_actual False w) of
         (Some x, Some y) \<Rightarrow> overlap_array (new_arg x) [new_arg y] = Some False
       | _ \<Rightarrow> False))"

definition missed_opt :: "array_t option \<Rightarrow> int list \<Rightarrow> array_t option \<Rightarrow> int list \<Rightarrow> bool" where
  "missed_opt v ix w jx = (case (v, w) of (Some v, Some w) \<Rightarrow> missed v ix w jx | _ \<Rightarrow> False)"

definition view_by_ranges :: "array_t \<Rightarrow> range_t list \<Rightarrow> array_t option" where
  "view_by_ranges a rs =
     map_option snd (paren_ranges a rs [block_ptr a \<mapsto> preallocated_block 16 64])"

definition based_array :: array_t where
  "based_array =
     (case new_array_of_ranges 1 1 [sample_range 1 4] (general_storage 1 ContiguousData) (1000, 64) Map.empty of
        Some (h, a) \<Rightarrow> a | None \<Rightarrow> blank_array 1 (general_storage 1 ContiguousData))"

text \<open>Row 1 of the sample array, resized to 8 elements of its own.\<close>

definition resized_row :: "array_t option" where
  "resized_row =
     do { (h, v) \<leftarrow> paren_mixed sample_array [At 1, Section (sample_range 0 3)] [1000 \<mapsto> preallocated_block 16 64];
          (h', v') \<leftarrow> resize 1 [8] (2000, 128) h v;
          Some v' }"

text \<open>
  The extents are wrong, and a conflict is missed, for a whole rank \<open>Range::all()\<close>, which is
  recorded as its first position; for an array whose first index is not 0, which is shifted
  twice; for a slice of a reversed or of a transposed view; and for a slice of an array that was a
  view of an array of higher rank before it was resized.
\<close>

theorem views_miss_conflicts:
  "missed_opt (view_by_ranges sample_array [sample_range 0 1, whole_range]) [0, 2]
              (view_by_ranges sample_array [sample_range 0 1, sample_range 2 3]) [0, 0] \<and>
   missed_opt (Some based_array) [4] (view_by_ranges based_array [sample_range 4 4]) [1] \<and>
   missed_opt (Option.bind (reverseSelf 0 sample_array) (slice_rank 0 (sample_range 0 1))) [0, 0]
              (slice_rank 0 (sample_range 3 3) sample_array) [0, 0] \<and>
   missed_opt (Option.bind (transposeSelf [1, 0, 0, 0, 0, 0, 0, 0, 0, 0, 0] sample_array) (slice_rank 0 (sample_range 0 1))) [0, 3]
              (slice_rank 0 (sample_range 3 3) sample_array) [0, 0] \<and>
   missed_opt resized_row [5] (Option.bind resized_row (slice_rank 0 (sample_range 5 6))) [0]"
  by code_simp

lemma those_None: "None \<in> set xs \<Longrightarrow> those xs = None"
  by (induction xs) (auto split: option.splits)

lemma array_extents_None:
  assumes "originalDims (storage v) = Some n" "d < n" "read_at (extents (storage v)) d = None"
  shows "array_actual cst v = None"
proof -
  have "None \<in> set (map (read_at (extents (storage v))) [0 ..< n])"
    using assms(2,3) by (auto simp: image_iff intro!: bexI [of _ d])
  then show ?thesis
    using assms(1) by (simp add: array_actual_def array_extents_def those_None)
qed

lemma general_storage_extents: "i < 11 \<Longrightarrow> extents (general_storage N pp) ! i = None"
  by (simp add: general_storage_def)

lemma new_array_partial:
  assumes "0 < N" "N \<le> 11" "int w = 2 ^ p" "ls \<noteq> []" "length ls < N" "\<forall>l \<in> set ls. 0 < l"
  shows "\<exists>h' a. new_array w N ls (general_storage N pp) new h = Some (h', a) \<and> array_actual cst a = None"
proof -
  obtain h' a where a: "new_array w N ls (general_storage N pp) new h = Some (h', a)" "wf_storage N (storage a)"
      and e: "\<And>i. length ls \<le> i \<Longrightarrow> i < N \<Longrightarrow> extents (storage a) ! i = extents (general_storage N pp) ! i"
    by (rule new_array_own_block [OF wf_general_storage [OF assms(1,2), of pp] assms(4) less_imp_le [OF assms(5)]
          assms(6,3), of new h]) (rule that)
  have "read_at (extents (storage a)) (N - 1) = None"
    using e [of "N - 1"] assms by (simp add: read_at_def general_storage_extents)
  then have "array_actual cst a = None"
    using a(2) assms(1) by (intro array_extents_None [of _ N "N - 1"]) (simp_all add: wf_storage_def)
  then show ?thesis using a(1) by blast
qed

lemma array_over_uninitialised:
  assumes "0 < N" "N \<le> 11" "dataFirst \<noteq> 0" "length shape = N"
  shows "\<exists>a. array_over w dataFirst shape (general_storage N pp) = Some a \<and> array_actual cst a = None"
proof -
  obtain s where s: "copy_storage (general_storage N pp) = Some s" "wf_storage N s"
      "\<And>i. i < N \<Longrightarrow> extents s ! i = extents (general_storage N pp) ! i"
    by (rule copy_storage_wf [OF wf_general_storage [OF assms(1,2)]]) (rule that)
  then obtain a where a: "array_over w dataFirst shape (general_storage N pp) = Some a" "storage a = s"
    using assms(3) by (simp add: array_over_def Let_def)
  have "read_at (extents (storage a)) 0 = None"
    using s(3) [of 0] assms(1,2) a(2) by (simp add: read_at_def general_storage_extents)
  then have "array_actual cst a = None"
    using s(2) a(2) assms(1) by (intro array_extents_None [of _ N 0]) (simp_all add: wf_storage_def)
  then show ?thesis using a(1) by blast
qed

text \<open>
  C24: The extents that \<open>spawn\<close> would read were never written when some lengths of the array were
  left out, and when the array was made over existing memory; the FORTRAN and column-major
  storages cannot even be copied, and resizing with a vector reads past the last rank.
\<close>

theorem extents_uninitialised:
  assumes "0 < N" "N \<le> 11" "int w = 2 ^ p" "ls \<noteq> []" "length ls < N" "\<forall>l \<in> set ls. 0 < l"
    and "dataFirst \<noteq> 0" "length shape = N" "length es = N_rank b"
  shows "(\<exists>h' a. new_array w N ls (general_storage N pp) new h = Some (h', a) \<and> array_actual cst a = None) \<and>
         (\<exists>a. array_over w dataFirst shape (general_storage N pp) = Some a \<and> array_actual cst a = None) \<and>
         new_array w N ls (fortran_storage N pp) new h = None \<and>
         new_array w N ls (column_major_storage N pp) new h = None \<and>
         resize_vector w es new h b = None"
proof (intro conjI)
  show "\<exists>h' a. new_array w N ls (general_storage N pp) new h = Some (h', a) \<and> array_actual cst a = None"
    by (rule new_array_partial [OF assms(1-6)])
  show "\<exists>a. array_over w dataFirst shape (general_storage N pp) = Some a \<and> array_actual cst a = None"
    by (rule array_over_uninitialised [OF assms(1,2,7,8)])
  show "new_array w N ls (fortran_storage N pp) new h = None"
       "new_array w N ls (column_major_storage N pp) new h = None"
    by (simp_all add: new_array_def copy_storage_def fortran_storage_def column_major_storage_def)
  show "resize_vector w es new h b = None"
    using assms(9) by (simp add: resize_vector_def setupStorage_def)
qed

lemma extents_uninitialised_witness:
  "(\<exists>h' a. new_array 1 3 [40] (general_storage 3 ContiguousData) (1000, 64) Map.empty = Some (h', a) \<and>
      array_actual True a = None) \<and>
   (\<exists>a. array_over 1 64 [4, 4, 4] (general_storage 3 ContiguousData) = Some a \<and> array_actual True a = None) \<and>
   new_array 1 3 [40] (fortran_storage 3 ContiguousData) (1000, 64) Map.empty = None \<and>
   new_array 1 3 [40] (column_major_storage 3 ContiguousData) (1000, 64) Map.empty = None \<and>
   resize_vector 1 [5] (1000, 64) Map.empty (blank_array 1 (general_storage 1 ContiguousData)) = None"
  by (rule extents_uninitialised [where p = 0]) simp_all

section \<open>Other facts about views\<close>

text \<open>Both forms of \<open>operator()\<close> on positions give the same element, in range or not at all.\<close>

lemma subscript_eq: "subscript a ix = subscript_vector a ix"
  by (simp add: subscript_def subscript_vector_def dot_def)

lemma subscript_address: "subscript a ix = (if isInRange a ix then Some (address_of a ix) else None)"
  by (simp add: subscript_def assert_index_def address_of_def dot_def)

text \<open>A weak reference has no block: \<open>spawn\<close> takes all of them for views of one array.\<close>

lemma weakReference_no_block:
  assumes "weakReference a v h = Some (h', v')"
  shows "block_ptr v' = 0 \<and> data_ptr v' = data_ptr v"
  using assms by (auto simp: weakReference_def changeToNullBlock_def split: bind_splits)

text \<open>A sub-array has the block of its array.\<close>

lemma subarray_block:
  assumes "subarray v rs h = Some (h', v')"
  shows "block_ptr v' = block_ptr v"
proof -
  have s: "block_ptr b' = block_ptr b" if "slice_ranks k rs b = Some b'" for k b b'
    using that
    by (induction k rs b rule: slice_ranks.induct)
      (auto simp: slice_rank_def Let_def split: bind_splits if_splits)
  show ?thesis
    using assms s
    by (fastforce simp: subarray_def constructSubarray_def reference_def changeBlock_def Let_def split: bind_splits)
qed

end
