(* ===== verification/Cleaning.thy ===== *)
theory Cleaning
  imports Workitem
begin

text \<open>
  Removal of finished tasks from the worklist: \<open>Workitem::Clean_worklist\<close> of
  \<open>src/src/workitem.cpp\<close>, and \<open>finish_execution\<close>, which calls it. The nodes that leave the list
  go back to the pool in sublists; a node given back is no longer in the heap of the model.
\<close>

section \<open>Operations\<close>

record clean =
  lastkeep :: wid
  last_workitem :: "wid option"
  deletable_workitems :: nat
  Dones :: "wid list"
  Deletable_Sublists :: "(wid option \<times> wid option) list"

text \<open>The branch for a node that stays; more than four deletable nodes before it are cut out.\<close>

definition keep_node :: "wid \<Rightarrow> workitem \<Rightarrow> clean \<Rightarrow> runtime \<Rightarrow> (clean \<times> runtime) option" where
  "keep_node q x c s =
     do {
       let c1 = (if status x = Done then c\<lparr>Dones := Dones c @ [q]\<rparr> else c);
       (c2, s1) \<leftarrow>
         (if deletable_workitems c1 > 4
          then do {
            k \<leftarrow> heap s (lastkeep c1);
            s1 \<leftarrow> upd (lastkeep c1) (\<lambda>k. k\<lparr>nxt := Some q\<rparr>) s;
            Some (c1\<lparr>Deletable_Sublists := Deletable_Sublists c1 @ [(nxt k, last_workitem c1)]\<rparr>, s1)
          }
          else Some (c1, s));
       Some (c2\<lparr>lastkeep := q, deletable_workitems := 0, last_workitem := Some q\<rparr>, s1)
     }"

partial_function (option) clean_scan ::
  "wid option \<Rightarrow> clean \<Rightarrow> runtime \<Rightarrow> (clean \<times> runtime) option"
where
  [code]: "clean_scan p c s =
     (case p of
        None \<Rightarrow> Some (c, s)
      | Some q \<Rightarrow>
          do {
            x \<leftarrow> heap s q;
            if status x \<noteq> Deallocatable
            then do { (c1, s1) \<leftarrow> keep_node q x c s; clean_scan (nxt x) c1 s1 }
            else clean_scan (nxt x)
                   (c\<lparr>deletable_workitems := deletable_workitems c + 1, last_workitem := Some q\<rparr>) s
          })"

text \<open>After the loop, the rest of the list behind \<open>lastkeep\<close> is cut off.\<close>

definition clean_tail :: "clean \<Rightarrow> runtime \<Rightarrow> (clean \<times> runtime) option" where
  "clean_tail c s =
     do {
       k \<leftarrow> heap s (lastkeep c);
       if nxt k \<noteq> None
       then do {
         s1 \<leftarrow> upd (lastkeep c) (\<lambda>k. k\<lparr>nxt := None\<rparr>) s;
         Some (c\<lparr>Deletable_Sublists := Deletable_Sublists c @ [(nxt k, last_workitem c)]\<rparr>, s1)
       }
       else Some (c, s)
     }"

text \<open>The wait for the tasks that were inserted since the finishing thread looked.\<close>

partial_function (option) wait_newer :: "wid option \<Rightarrow> wid option \<Rightarrow> runtime \<Rightarrow> unit option" where
  [code]: "wait_newer p hint s =
     (if p = hint then Some ()
      else
        do {
          q \<leftarrow> p;
          x \<leftarrow> heap s q;
          if status x = Filling then None
          else if optFlags x AND (PendingFills OR FatherScape) = 0 then Some ()
          else wait_newer (nxt x) hint s
        })"

text \<open>The wait for the nodes that were seen in state \<open>Done\<close>.\<close>

fun wait_dones :: "wid list \<Rightarrow> runtime \<Rightarrow> unit option" where
  "wait_dones [] s = Some ()"
| "wait_dones (w # ws) s =
     do { x \<leftarrow> heap s w; if status x = Done then None else wait_dones ws s }"

text \<open>\<open>Workitem::Pool.freeLinkedList(begin, end)\<close>, as far as the tasks are concerned.\<close>

partial_function (option) free_sublist :: "wid option \<Rightarrow> wid option \<Rightarrow> runtime \<Rightarrow> runtime option" where
  [code]: "free_sublist p e s =
     do {
       q \<leftarrow> p;
       x \<leftarrow> heap s q;
       (let s1 = s\<lparr>heap := (heap s)(q := None)\<rparr>
        in if p = e then Some s1 else free_sublist (nxt x) e s1)
     }"

fun free_sublists :: "(wid option \<times> wid option) list \<Rightarrow> runtime \<Rightarrow> runtime option" where
  "free_sublists [] s = Some s"
| "free_sublists ((b, e) # ls) s = do { s1 \<leftarrow> free_sublist b e s; free_sublists ls s1 }"

definition Clean_worklist :: "wid option \<Rightarrow> runtime \<Rightarrow> runtime option" where
  "Clean_worklist hint s =
     do {
       h \<leftarrow> worklist s;
       x \<leftarrow> heap s h;
       (c, s1) \<leftarrow> clean_scan (nxt x)
          \<lparr>lastkeep = h, last_workitem = None, deletable_workitems = 0, Dones = [],
           Deletable_Sublists = []\<rparr> s;
       (c', s2) \<leftarrow> clean_tail c s1;
       wait_newer (worklist s2) hint s2;
       wait_dones (Dones c') s2;
       s3 \<leftarrow> free_sublists (Deletable_Sublists c') s2;
       Some (s3\<lparr>eraser_assigned := False\<rparr>)
     }"

definition finish_execution :: "wid \<Rightarrow> runtime \<Rightarrow> runtime option" where
  "finish_execution w s =
     do {
       x \<leftarrow> heap s w;
       s1 \<leftarrow> upd w (\<lambda>x. x\<lparr>nchildren := nchildren x - 1\<rparr>) s;
       if nchildren x \<noteq> 1 then Some s1
       else
         do {
           (erase, hint, s2) \<leftarrow> finish_loop w w False s1;
           if erase then Clean_worklist hint s2 else Some s2
         }
     }"

section \<open>Running a task\<close>

text \<open>
  \<open>TaskPool::Task::run\<close> up to and after the call of the user's function; in between, the
  function runs with the task as \<open>enum_thr_spec_father\<close>. A task without context only runs its
  function.
\<close>

definition run_begin :: "task_t \<Rightarrow> runtime \<Rightarrow> runtime option" where
  "run_begin t s =
     (case ctx t of None \<Rightarrow> Some s | Some c \<Rightarrow> upd c (\<lambda>x. x\<lparr>status := Running\<rparr>) s)"

definition run_end :: "task_t \<Rightarrow> runtime \<Rightarrow> runtime option" where
  "run_end t s = (case ctx t of None \<Rightarrow> Some s | Some c \<Rightarrow> finish_execution c s)"

end
