(* ===== verification/Dependence.thy ===== *)
theory Dependence
  imports DepScan
begin

text \<open>
  The interface between the comparison of arguments and the insertion of a task: a new task is
  compared with the older ones, newest first, while its vector of pending arguments shrinks.
  Whatever the representation of the vector, every older task that clashes with the new one is
  linked to it, or clashes with a more recent task that is linked to it.
\<close>

section \<open>A row of comparisons\<close>

fun compare_all ::
  "('a \<Rightarrow> 'v \<Rightarrow> (bool \<times> 'v) option) \<Rightarrow> 'a list \<Rightarrow> 'v \<Rightarrow> (bool list \<times> 'v) option"
where
  "compare_all f [] v = Some ([], v)"
| "compare_all f (a # as) v =
     do { (c, v1) \<leftarrow> f a v; (cs, v2) \<leftarrow> compare_all f as v1; Some (c # cs, v2) }"

text \<open>The older tasks found, and how each clash of the row is accounted for.\<close>

definition linked_or_covered ::
  "('b list \<Rightarrow> 'b list \<Rightarrow> bool) \<Rightarrow> 'b list list \<Rightarrow> 'b list \<Rightarrow> bool list \<Rightarrow> bool"
where
  "linked_or_covered clash as ws cs \<longleftrightarrow>
     length cs = length as \<and>
     (\<forall>k < length as. cs ! k \<longrightarrow> clash (as ! k) ws) \<and>
     (\<forall>k < length as. clash (as ! k) ws \<longrightarrow>
        cs ! k \<or> (\<exists>j < k. cs ! j \<and> clash (as ! k) (as ! j)))"

locale dependence_test =
  fixes compare :: "'b list \<Rightarrow> 'v \<Rightarrow> (bool \<times> 'v) option"
    and pending :: "'v \<Rightarrow> 'b list \<Rightarrow> bool"
    and admissible :: "'b list \<Rightarrow> 'b list \<Rightarrow> bool"
    and clash :: "'b list \<Rightarrow> 'b list \<Rightarrow> bool"
  assumes compare_step:
      "admissible as ws \<Longrightarrow> pending v ws \<Longrightarrow>
         \<exists>c v' ws'. compare as v = Some (c, v') \<and> pending v' ws' \<and> subseq ws' ws \<and>
           (c \<longleftrightarrow> clash as ws) \<and> (\<forall>os. clash os ws \<longrightarrow> clash os ws' \<or> (c \<and> clash os as))"
    and admissible_subseq: "admissible as ws \<Longrightarrow> subseq ws' ws \<Longrightarrow> admissible as ws'"
    and clash_subseq: "subseq ws' ws \<Longrightarrow> clash as ws' \<Longrightarrow> clash as ws"
begin

lemma linked_or_covered_Cons:
  assumes "c \<longleftrightarrow> clash a ws" "linked_or_covered clash as ws' cs" "subseq ws' ws"
    and "\<And>os. clash os ws \<Longrightarrow> clash os ws' \<or> (c \<and> clash os a)"
  shows "linked_or_covered clash (a # as) ws (c # cs)"
  unfolding linked_or_covered_def
proof (intro conjI allI impI)
  show "length (c # cs) = length (a # as)"
    using assms(2) by (simp add: linked_or_covered_def)
next
  fix k assume k: "k < length (a # as)" "(c # cs) ! k"
  show "clash ((a # as) ! k) ws"
    using k assms(1,2) clash_subseq [OF assms(3)]
    by (cases k) (auto simp: linked_or_covered_def)
next
  fix k assume k: "k < length (a # as)" "clash ((a # as) ! k) ws"
  show "(c # cs) ! k \<or> (\<exists>j < k. (c # cs) ! j \<and> clash ((a # as) ! k) ((a # as) ! j))"
  proof (cases k)
    case 0
    then show ?thesis using k assms(1) by simp
  next
    case (Suc m)
    then have m: "m < length as" "clash (as ! m) ws" using k by auto
    from assms(4) [OF m(2)] show ?thesis
    proof
      assume "clash (as ! m) ws'"
      then have "cs ! m \<or> (\<exists>j < m. cs ! j \<and> clash (as ! m) (as ! j))"
        using assms(2) m(1) by (simp add: linked_or_covered_def)
      then show ?thesis
        using Suc by (auto intro: exI [of _ "Suc _"])
    next
      assume "c \<and> clash (as ! m) a"
      then show ?thesis
        using Suc by (intro disjI2 exI [of _ 0]) simp
    qed
  qed
qed

lemma compare_all_covers:
  assumes "\<forall>a \<in> set as. admissible a ws" "pending v ws"
  shows "\<exists>cs v'. compare_all compare as v = Some (cs, v') \<and> linked_or_covered clash as ws cs"
  using assms
proof (induction as arbitrary: v ws)
  case Nil
  then show ?case by (simp add: linked_or_covered_def)
next
  case (Cons a as)
  obtain c v1 ws1 where s: "compare a v = Some (c, v1)" "pending v1 ws1" "subseq ws1 ws"
    "c \<longleftrightarrow> clash a ws" "\<And>os. clash os ws \<Longrightarrow> clash os ws1 \<or> (c \<and> clash os a)"
    using compare_step [of a ws v] Cons.prems by auto
  have "\<forall>b \<in> set as. admissible b ws1"
    using Cons.prems(1) s(3) by (auto intro: admissible_subseq)
  then obtain cs v2 where r: "compare_all compare as v1 = Some (cs, v2)"
      "linked_or_covered clash as ws1 cs"
    using Cons.IH s(2) by blast
  show ?case
    using s(1) r(1) linked_or_covered_Cons [OF s(4) r(2) s(3) s(5)] by simp
qed

end

section \<open>The argument lists provide it\<close>

definition compare_vec :: "arg_info list \<Rightarrow> nat \<times> slot list \<Rightarrow> (bool \<times> nat \<times> slot list) option" where
  "compare_vec as v = compare_args as (fst v) (snd v)"

definition vec_holds :: "nat \<times> slot list \<Rightarrow> arg_info list \<Rightarrow> bool" where
  "vec_holds v ws = argv_holds (fst v) (snd v) ws"

lemma subseq_set: "subseq xs ys \<Longrightarrow> set xs \<subseteq> set ys"
  by (auto simp: subseq_conv_nths set_nths_subset dest: in_set_nthsD)

lemma subseq_sorted: "subseq xs ys \<Longrightarrow> sorted_wrt P ys \<Longrightarrow> sorted_wrt P xs"
  by (induction rule: list_emb.induct) (auto dest: subseq_set)

lemma comparison_subseq:
  assumes "comparison_ok as ws" "subseq ws' ws"
  shows "comparison_ok as ws'"
  using assms subseq_set [OF assms(2)] subseq_sorted [OF assms(2)]
  unfolding comparison_ok_def
  by (auto simp: list_all_iff intro: comparable_subset shared_reads_subset)

lemma subseq_drop_nth: "subseq (take i ws @ drop (Suc i) ws) ws"
proof (cases "i < length ws")
  case True
  then have "subseq (take i ws @ drop (Suc i) ws) (take i ws @ ws ! i # drop (Suc i) ws)"
    by (intro list_emb_append_mono) auto
  then show ?thesis
    using True by (simp add: id_take_nth_drop [symmetric])
qed simp

lemma conflicts_covered:
  assumes "conflicts os ws" "i < length ws" "footprint (ws ! i) \<subseteq> writes as"
  shows "conflicts os (take i ws @ drop (Suc i) ws) \<or> conflicts os as"
proof -
  obtain a b where ab: "a \<in> set os" "b \<in> set ws" "wr a \<or> wr b" "meets a b"
    using assms(1) by (auto simp: conflicts_def)
  have ws: "set ws = set (take i ws @ drop (Suc i) ws) \<union> {ws ! i}"
    using assms(2) by (subst id_take_nth_drop [OF assms(2)]) auto
  show ?thesis
  proof (cases "b \<in> set (take i ws @ drop (Suc i) ws)")
    case True
    then show ?thesis
      using ab by (auto simp: conflicts_def)
  next
    case False
    then have "b = ws ! i" using ab(2) ws by blast
    then obtain x where "x \<in> footprint a" "x \<in> writes as"
      using ab(4) assms(3) by (auto simp: meets_def)
    then have "writes as \<inter> accesses os \<noteq> {}"
      using ab(1) by (auto simp: accesses_def)
    then have "conflicts as os" by (simp add: conflicts_iff)
    then show ?thesis by (simp add: conflicts_commute)
  qed
qed

interpretation args: dependence_test compare_vec vec_holds comparison_ok conflicts
proof unfold_locales
  fix as ws v
  assume ok: "comparison_ok as ws" and v: "vec_holds v ws"
  obtain c n' argv' ws' where r: "compare_args as (fst v) (snd v) = Some (c, n', argv')"
    "c \<longleftrightarrow> conflicts as ws" "argv_holds n' argv' ws'"
    "ws' = ws \<or> (\<exists>i < length ws. ws' = take i ws @ drop (Suc i) ws \<and>
                    footprint (ws ! i) \<subseteq> writes as)"
    by (rule compare_args_correct [OF ok v [unfolded vec_holds_def]])
  have cov: "conflicts os ws' \<or> (c \<and> conflicts os as)" if "conflicts os ws" for os
  proof (cases "ws' = ws")
    case False
    then obtain i where i: "i < length ws" "ws' = take i ws @ drop (Suc i) ws"
      "footprint (ws ! i) \<subseteq> writes as"
      using r(4) by blast
    have "wf_arg (ws ! i)"
      using ok i(1) by (simp add: comparison_ok_def list_all_iff)
    then have "writes as \<inter> accesses ws \<noteq> {}"
      using footprint_nonempty [of "ws ! i"] i(1,3) nth_mem by (fastforce simp: accesses_def)
    then have c using r(2) by (simp add: conflicts_iff)
    then show ?thesis
      using conflicts_covered [OF that i(1,3)] i(2) by blast
  qed (use that in simp)
  have "subseq ws' ws"
    using r(4) subseq_drop_nth by auto
  moreover have "compare_vec as v = Some (c, (n', argv'))" "vec_holds (n', argv') ws'"
    by (simp_all add: compare_vec_def vec_holds_def r(1,3))
  ultimately show "\<exists>c v' ws'. compare_vec as v = Some (c, v') \<and> vec_holds v' ws' \<and> subseq ws' ws \<and>
      (c \<longleftrightarrow> conflicts as ws) \<and> (\<forall>os. conflicts os ws \<longrightarrow> conflicts os ws' \<or> (c \<and> conflicts os as))"
    using r(2) cov by blast
next
  fix as ws ws' :: "arg_info list"
  assume "comparison_ok as ws" "subseq ws' ws"
  then show "comparison_ok as ws'" by (rule comparison_subseq)
next
  fix as ws ws' :: "arg_info list"
  assume s: "subseq ws' ws" and c: "conflicts as ws'"
  show "conflicts as ws" by (rule conflicts_mono [OF subseq_set [OF s] c])
qed

section \<open>Properties\<close>



end
