(* ===== verification/Insertion.thy ===== *)
theory Insertion
  imports Cleaning Dependence
begin

text \<open>
  What \<open>insert_in_worklist\<close> does to the state: the pointer-chasing loop is a loop over the list
  of the nodes, the comparisons are the row of \<open>Dependence\<close>, and the state it leaves differs
  from the one it found in the new node, in the dependents of the older tasks it is linked to,
  and in the queue.
\<close>

abbreviation item :: "runtime \<Rightarrow> wid \<Rightarrow> workitem" where
  "item s p \<equiv> the (heap s p)"

definition next_of :: "runtime \<Rightarrow> wid \<Rightarrow> wid option option" where
  "next_of s q = map_option nxt (heap s q)"

text \<open>An allocated task that has not finished.\<close>

definition live :: "runtime \<Rightarrow> wid \<Rightarrow> bool" where
  "live s p = (case heap s p of None \<Rightarrow> False | Some x \<Rightarrow> status x < Done)"

lemma live_iff: "live s p \<longleftrightarrow> (\<exists>x. heap s p = Some x \<and> status x \<noteq> Done \<and> status x \<noteq> Deallocatable)"
  by (auto simp: live_def less_Done_iff split: option.splits)

lemma upd_Some: "heap s w = Some x \<Longrightarrow> upd w f s = Some (s\<lparr>heap := (heap s)(w \<mapsto> f x)\<rparr>)"
  by (simp add: upd_def)

lemma upd_eq_Some:
  "upd w f s = Some s' \<longleftrightarrow>
     (\<exists>x. heap s w = Some x \<and> s' = s\<lparr>heap := (heap s)(w \<mapsto> f x)\<rparr>)"
  by (auto simp: upd_def split: option.splits)

section \<open>The loop over pointers is a loop over the list\<close>

fun scan_list :: "wid \<Rightarrow> wid list \<Rightarrow> locals \<Rightarrow> runtime \<Rightarrow> (locals \<times> runtime) option" where
  "scan_list this [] l s = Some (l, s)"
| "scan_list this (q # qs) l s =
     do {
       (stop, l1, s1) \<leftarrow> visit this q l s;
       if stop then Some (l1, s1) else scan_list this qs l1 s1
     }"

lemma next_of_upd [simp]:
  "heap s w = Some x \<Longrightarrow> nxt y = nxt x \<Longrightarrow> next_of (s\<lparr>heap := (heap s)(w \<mapsto> y)\<rparr>) = next_of s"
  by (rule ext) (simp add: next_of_def)

lemma link_dep_next_of: "link_dep this p s = Some s' \<Longrightarrow> next_of s' = next_of s"
  by (rule ext) (auto simp: link_dep_def bind_eq_Some_conv upd_eq_Some next_of_def)

lemma compare_with_next_of:
  assumes "compare_with this q l s = Some (l', s')"
  shows "next_of s' = next_of s"
proof -
  from assms obtain found s1 and y :: workitem
    where 1: "(if found then link_dep this q s else Some s) = Some s1"
      and 2: "(if status y = Filling then upd this (\<lambda>t. t\<lparr>optFlags := optFlags t OR PendingFills\<rparr>) s1
               else Some s1) = Some s'"
    by (auto simp: compare_with_def bind_eq_Some_conv)
  have "next_of s1 = next_of s"
    using 1 link_dep_next_of by (auto split: if_splits)
  moreover have "next_of s' = next_of s1"
    using 2 by (auto simp: upd_eq_Some split: if_splits)
  ultimately show ?thesis by simp
qed

lemma visit_next_of: "visit this q l s = Some (b, l', s') \<Longrightarrow> next_of s' = next_of s"
  by (fastforce simp: visit_def bind_eq_Some_conv upd_eq_Some
      dest: compare_with_next_of split: if_splits)

lemma scan_worklist_list:
  "chain (next_of s) p ps None \<Longrightarrow> scan_worklist this p l s = scan_list this ps l s"
proof (induction ps arbitrary: p l s)
  case Nil
  then show ?case by (simp add: scan_worklist.simps)
next
  case (Cons q qs)
  then obtain r where p: "p = Some q" and r: "next_of s q = Some r" "chain (next_of s) r qs None"
    by auto
  show ?case
  proof (cases "visit this q l s")
    case None
    then show ?thesis by (simp add: p scan_worklist.simps [of this])
  next
    case (Some res)
    obtain b l' s' where res: "res = (b, l', s')" by (cases res) auto
    have ns: "next_of s' = next_of s"
      using visit_next_of Some res by simp
    then have "next_of s' q = Some r" using r(1) by simp
    then obtain x where x: "heap s' q = Some x" "nxt x = r"
      by (auto simp: next_of_def)
    have "scan_worklist this r l' s' = scan_list this qs l' s'"
      using Cons.IH r(2) ns by simp
    then show ?thesis
      using Some res x by (simp add: p scan_worklist.simps [of this "Some q"])
  qed
qed

section \<open>The state while the dependencies are linked\<close>

definition linked :: "wid \<Rightarrow> wid list \<Rightarrow> runtime \<Rightarrow> runtime" where
  "linked this D s =
     s\<lparr>heap := (\<lambda>q. map_option
         (\<lambda>x. if q = this then x\<lparr>ndependencies := ndependencies x + int (length D)\<rparr>
              else if q \<in> set D then x\<lparr>deps := deps x @ [this]\<rparr> else x) (heap s q))\<rparr>"

lemma linked_Nil [simp]: "linked this [] s = s"
  by (simp add: linked_def cong: if_cong option.map_cong) (simp add: option.map_ident)

lemma heap_linked:
  "heap (linked this D s) q = map_option
     (\<lambda>x. if q = this then x\<lparr>ndependencies := ndependencies x + int (length D)\<rparr>
          else if q \<in> set D then x\<lparr>deps := deps x @ [this]\<rparr> else x) (heap s q)"
  by (simp add: linked_def)

lemma link_dep_linked:
  assumes "heap s this = Some t" "heap s p = Some x" "p \<noteq> this" "p \<notin> set D"
  shows "link_dep this p (linked this D s) = Some (linked this (D @ [p]) s)"
proof -
  have 1: "upd this (\<lambda>x. x\<lparr>ndependencies := ndependencies x + 1\<rparr>) (linked this D s) =
      Some ((linked this D s)\<lparr>heap := (heap (linked this D s))(this \<mapsto>
        t\<lparr>ndependencies := ndependencies t + int (length D) + 1\<rparr>)\<rparr>)"
    using assms(1) by (simp add: upd_Some heap_linked)
  show ?thesis
    unfolding link_dep_def 1
    using assms
    by (auto simp: upd_def heap_linked linked_def fun_eq_iff intro!: arg_cong [where f = "\<lambda>h. s\<lparr>heap := h\<rparr>"])
qed

section \<open>Which nodes the loop compares\<close>

text \<open>
  The ancestors are passed over; the loop ends early at an ancestor whose father contains the
  arguments of the new task. The flag says whether it did.
\<close>

definition contained_in :: "runtime \<Rightarrow> wid \<Rightarrow> wid option \<Rightarrow> bool" where
  "contained_in s this fa = (case fa of None \<Rightarrow> False | Some a \<Rightarrow> is_contained this a s = Some True)"

fun compared :: "runtime \<Rightarrow> wid \<Rightarrow> wid option \<Rightarrow> wid list \<Rightarrow> wid list \<times> bool" where
  "compared s this anc [] = ([], False)"
| "compared s this anc (p # ps) =
     (if p = this then compared s this anc ps
      else if anc = Some p then
        (let fa = father (item s p)
         in if contained_in s this fa then ([], True) else compared s this fa ps)
      else if live s p
      then (p # fst (compared s this anc ps), snd (compared s this anc ps))
      else compared s this anc ps)"

lemma compared_subset: "set (fst (compared s this anc ps)) \<subseteq> set ps"
  by (induction s this anc ps rule: compared.induct) (auto simp: Let_def)

lemma compared_live: "p \<in> set (fst (compared s this anc ps)) \<Longrightarrow> live s p \<and> p \<noteq> this"
  by (induction s this anc ps rule: compared.induct)
    (auto simp: Let_def split: if_splits)

lemma compared_distinct: "distinct ps \<Longrightarrow> distinct (fst (compared s this anc ps))"
proof (induction s this anc ps rule: compared.induct)
  case (2 s this anc p ps)
  then show ?case
    using compared_subset [of s this anc ps] by (auto simp: Let_def)
qed simp

lemma compared_flat:
  "this \<notin> set ps \<Longrightarrow> compared s this None ps = (filter (live s) ps, False)"
  by (induction ps) auto

text \<open>The early end leaves a mark.\<close>

definition mark_escape :: "wid \<Rightarrow> bool \<Rightarrow> runtime \<Rightarrow> runtime" where
  "mark_escape this e s =
     (if e then s\<lparr>heap := (heap s)(this := map_option (\<lambda>t. t\<lparr>optFlags := optFlags t OR FatherScape\<rparr>) (heap s this))\<rparr>
      else s)"

text \<open>The nodes of a row whose comparison found a conflict.\<close>

definition selected :: "'a list \<Rightarrow> bool list \<Rightarrow> 'a list" where
  "selected vs cs = map fst (filter snd (zip vs cs))"

lemma selected_simps [simp]:
  "selected [] cs = []"
  "selected (v # vs) (c # cs) = (if c then v # selected vs cs else selected vs cs)"
  by (auto simp: selected_def)

lemma selected_subset: "set (selected vs cs) \<subseteq> set vs"
  by (auto simp: selected_def dest: set_zip_leftD)

lemma selected_distinct: "distinct vs \<Longrightarrow> distinct (selected vs cs)"
proof (induction vs arbitrary: cs)
  case (Cons v vs)
  then show ?case
    using selected_subset [of vs] by (cases cs) (auto simp: selected_def)
qed simp

lemma selected_nth:
  "k < length vs \<Longrightarrow> length cs = length vs \<Longrightarrow> cs ! k \<Longrightarrow> vs ! k \<in> set (selected vs cs)"
  by (force simp: selected_def set_zip)

lemma selected_obtain:
  assumes "v \<in> set (selected vs cs)" "length cs = length vs"
  obtains k where "k < length vs" "vs ! k = v" "cs ! k"
  using assms by (auto simp: selected_def set_zip)


section \<open>The loop, in closed form\<close>

lemma compare_with_linked:
  assumes "heap s this = Some t" "heap s p = Some x" "p \<noteq> this" "p \<notin> set D" "status x \<noteq> Filling"
    and "compare_vec (args x) (n_args l, argv l) = Some (c, n, av)"
  shows "\<exists>l'. compare_with this p l (linked this D s) =
           Some (l', linked this (if c then D @ [p] else D) s) \<and>
         n_args l' = n \<and> argv l' = av \<and> ancestor l' = ancestor l"
proof -
  have hp: "heap (linked this D s) p = Some x"
    using assms(2-4) by (simp add: heap_linked)
  have hp': "\<exists>y. heap (linked this (D @ [p]) s) p = Some y \<and> status y \<noteq> Filling"
    using assms(2-5) by (simp add: heap_linked)
  have ca: "compare_args (args x) (n_args l) (argv l) = Some (c, n, av)"
    using assms(6) by (simp add: compare_vec_def)
  show ?thesis
  proof (cases c)
    case True
    then show ?thesis
      using hp hp' ca link_dep_linked [OF assms(1-4)] by (auto simp: compare_with_def)
  next
    case False
    then show ?thesis
      using hp ca assms(5) by (auto simp: compare_with_def)
  qed
qed

lemma is_contained_linked:
  "is_contained this a (linked this D s) = is_contained this a s"
  by (cases "heap s this"; cases "heap s a") (auto simp: is_contained_def heap_linked)

lemma mark_escape_linked:
  assumes "heap s this = Some t"
  shows "upd this (\<lambda>t. t\<lparr>optFlags := optFlags t OR FatherScape\<rparr>) (linked this D s) =
         Some (mark_escape this True (linked this D s))"
  using assms by (simp add: upd_def mark_escape_def heap_linked)

text \<open>What the loop needs of the nodes it meets.\<close>

definition scannable :: "runtime \<Rightarrow> wid \<Rightarrow> wid option \<Rightarrow> wid list \<Rightarrow> bool" where
  "scannable s this anc ps \<longleftrightarrow>
     heap s this \<noteq> None \<and> this \<notin> set ps \<and> distinct ps \<and>
     (\<forall>p \<in> set ps. heap s p \<noteq> None \<and> status (item s p) \<noteq> Filling) \<and>
     (\<forall>p \<in> set ps. live s p \<longrightarrow>
        (\<forall>a. father (item s p) = Some a \<longrightarrow> live s a \<and> is_contained this a s \<noteq> None)) \<and>
     (\<forall>a. anc = Some a \<longrightarrow> live s a)"

lemma scannable_Cons:
  assumes "scannable s this anc (p # ps)"
  shows "scannable s this anc ps"
    and "anc = Some p \<Longrightarrow> scannable s this (father (item s p)) ps"
proof -
  note sc = assms [unfolded scannable_def list.set distinct.simps]
  show "scannable s this anc ps"
    using sc unfolding scannable_def by blast
  assume "anc = Some p"
  then have "live s p" using sc by blast
  then show "scannable s this (father (item s p)) ps"
    using sc unfolding scannable_def by blast
qed

lemma scan_list_linked:
  assumes "scannable s this (ancestor l) ps" "set D \<inter> set ps = {}"
    and "compared s this (ancestor l) ps = (vs, e)"
    and "compare_all compare_vec (map (\<lambda>p. args (item s p)) vs) (n_args l, argv l) = Some (cs, v')"
  shows "\<exists>l'. scan_list this ps l (linked this D s) =
               Some (l', mark_escape this e (linked this (D @ selected vs cs) s))"
  using assms
proof (induction ps arbitrary: l D vs cs)
  case Nil
  then show ?case by (simp add: mark_escape_def)
next
  case (Cons p ps)
  obtain t x where tx: "heap s this = Some t" "heap s p = Some x" "p \<noteq> this" "status x \<noteq> Filling"
    using Cons.prems(1) by (auto simp: scannable_def)
  have pD: "p \<notin> set D" "set D \<inter> set ps = {}" "p \<notin> set ps"
    using Cons.prems(1,2) by (auto simp: scannable_def)
  have hp: "heap (linked this D s) p = Some x"
    using tx pD(1) by (simp add: heap_linked)
  note sc = scannable_Cons(1) [OF Cons.prems(1)]
  consider (anc) "ancestor l = Some p" | (live) "ancestor l \<noteq> Some p" "live s p"
    | (dead) "ancestor l \<noteq> Some p" "\<not> live s p" by blast
  then show ?case
  proof cases
    case anc
    have sc': "scannable s this (father x) ps"
      using scannable_Cons(2) [OF Cons.prems(1) anc] tx(2) by simp
    have lp: "live s p" using Cons.prems(1) anc by (simp add: scannable_def)
    have esc: "(case father x of None \<Rightarrow> Some False | Some a \<Rightarrow> is_contained this a (linked this D s)) =
        Some (contained_in s this (father x))"
      using Cons.prems(1) lp tx(2)
      by (auto simp: scannable_def is_contained_linked contained_in_def split: option.splits)
    show ?thesis
    proof (cases "contained_in s this (father x)")
      case True
      then show ?thesis
        using Cons.prems(3,4) anc tx hp esc mark_escape_linked [OF tx(1)]
        by (auto simp: visit_def)
    next
      case False
      then have "compared s this (father x) ps = (vs, e)"
        using Cons.prems(3) anc tx(2,3) by simp
      then show ?thesis
        using Cons.IH [of "l\<lparr>ancestor := father x\<rparr>" D vs cs] Cons.prems(4) sc' pD False anc tx(3) hp esc
        by (simp add: visit_def)
    qed
  next
    case live
    then obtain vs' where vs: "vs = p # vs'" "compared s this (ancestor l) ps = (vs', e)"
      using Cons.prems(3) tx(3) by (auto simp: prod_eq_iff)
    obtain c n av cs' where c: "compare_vec (args x) (n_args l, argv l) = Some (c, n, av)"
      "compare_all compare_vec (map (\<lambda>p. args (item s p)) vs') (n, av) = Some (cs', v')" "cs = c # cs'"
      using Cons.prems(4) vs(1) tx(2) by (auto simp: bind_eq_Some_conv)
    obtain l1 where l1: "compare_with this p l (linked this D s) =
        Some (l1, linked this (if c then D @ [p] else D) s)"
      "n_args l1 = n" "argv l1 = av" "ancestor l1 = ancestor l"
      using compare_with_linked [OF tx(1-3) pD(1) tx(4) c(1)] by blast
    have "status x < Done" using live(2) tx(2) by (simp add: live_def)
    then have "visit this p l (linked this D s) =
        Some (False, l1, linked this (if c then D @ [p] else D) s)"
      using live(1) hp tx(3) l1(1) by (simp add: visit_def)
    then show ?thesis
      using Cons.IH [of l1 "if c then D @ [p] else D" vs' cs'] l1 sc c vs pD by auto
  next
    case dead
    have "\<not> status x < Done" using dead(2) tx(2) by (simp add: live_def)
    then have "visit this p l (linked this D s) = Some (False, l, linked this D s)"
      using dead(1) hp tx(3) by (simp add: visit_def)
    moreover have "compared s this (ancestor l) ps = (vs, e)"
      using Cons.prems(3) dead tx(3) by simp
    ultimately show ?thesis
      using Cons.IH [of l D vs cs] sc pD(2) Cons.prems(4) by simp
  qed
qed

section \<open>Spawning a task\<close>

text \<open>
  \<open>spawn\<close> of \<open>depspawn.h\<close>, after the analysis of the arguments: a work item taken from the pool
  at the free address \<open>w\<close>, and its insertion. The task created by \<open>build_task\<close> runs \<open>f\<close> for it.
\<close>

definition spawn_task ::
  "wid \<Rightarrow> nat \<Rightarrow> arg_info list \<Rightarrow> int \<Rightarrow> wid option \<Rightarrow> runtime \<Rightarrow> (bool \<times> runtime) option"
where
  "spawn_task w f as n fa s =
     do {
       s1 \<leftarrow> new_workitem w as n fa s;
       insert_in_worklist w \<lparr>func = f, ctx = Some w\<rparr> s1
     }"

text \<open>The state after it, when the new task depends on the tasks \<open>D\<close>.\<close>

definition spawned ::
  "wid \<Rightarrow> nat \<Rightarrow> arg_info list \<Rightarrow> wid option \<Rightarrow> wid list \<Rightarrow> bool \<Rightarrow> runtime \<Rightarrow> runtime"
where
  "spawned w f as fa D e s =
     s\<lparr>heap := (\<lambda>q. if q = w
          then Some \<lparr>status = if D = [] then Ready else Waiting, optFlags = if e then FatherScape else 0,
                 guard = 0, nargs = word_of_nat (length as), args = as, nxt = worklist s, father = fa,
                 ndependencies = int (length D), nchildren = 1,
                 task = Some \<lparr>func = f, ctx = Some w\<rparr>, deps = []\<rparr>
          else map_option (\<lambda>x. x\<lparr>nchildren := nchildren x + (if fa = Some q then 1 else 0),
                                 deps := deps x @ (if q \<in> set D then [w] else [])\<rparr>) (heap s q)),
       worklist := Some w,
       tqueue := tqueue s @ (if D = [] then [\<lparr>func = f, ctx = Some w\<rparr>] else [])\<rparr>"

definition fresh_item :: "runtime \<Rightarrow> wid \<Rightarrow> nat \<Rightarrow> arg_info list \<Rightarrow> wid option \<Rightarrow> workitem" where
  "fresh_item s w f as fa =
     \<lparr>status = Filling, optFlags = 0, guard = 0, nargs = word_of_nat (length as), args = as,
      nxt = worklist s, father = fa, ndependencies = 0, nchildren = 1,
      task = Some \<lparr>func = f, ctx = Some w\<rparr>, deps = []\<rparr>"

definition being_inserted :: "runtime \<Rightarrow> wid \<Rightarrow> nat \<Rightarrow> arg_info list \<Rightarrow> wid option \<Rightarrow> runtime" where
  "being_inserted s w f as fa =
     s\<lparr>heap := (\<lambda>q. if q = w then Some (fresh_item s w f as fa)
          else map_option (\<lambda>x. x\<lparr>nchildren := nchildren x + (if fa = Some q then 1 else 0)\<rparr>) (heap s q)),
       worklist := Some w\<rparr>"

lemma heap_being_inserted:
  "heap (being_inserted s w f as fa) q =
     (if q = w then Some (fresh_item s w f as fa)
      else map_option (\<lambda>x. x\<lparr>nchildren := nchildren x + (if fa = Some q then 1 else 0)\<rparr>) (heap s q))"
  by (simp add: being_inserted_def)

lemma sint_nargs: "n \<le> 127 \<Longrightarrow> sint (word_of_nat n :: 8 word) = int n"
  by (simp add: signed_of_nat signed_take_bit_int_eq_self)

lemma spawn_task_scan:
  assumes "heap s w = None" "length as \<le> 127" "\<And>a. fa = Some a \<Longrightarrow> heap s a \<noteq> None"
  shows "spawn_task w f as (int (length as)) fa s =
     do {
       (l, s2) \<leftarrow> scan_worklist w (worklist s)
          \<lparr>n_args = length as, argv = build_argv (length as) as, ancestor = fa, nready = 0, nfillwait = 0\<rparr>
          (being_inserted s w f as fa);
       y \<leftarrow> heap s2 w;
       s3 \<leftarrow> (if ndependencies y = 0 then post w s2
              else upd w (\<lambda>t. t\<lparr>status := Waiting\<rparr>) s2);
       Some (fast_start l s2, s3)
     }"
proof -
  define x :: workitem where "x = (fresh_item s w f as fa)\<lparr>task := None, nxt := None\<rparr>"
  obtain s1 where s1: "new_workitem w as (int (length as)) fa s = Some s1" "heap s1 w = Some x"
    "worklist s1 = worklist s"
    "s1\<lparr>heap := (heap s1)(w \<mapsto> fresh_item s w f as fa), worklist := Some w\<rparr> = being_inserted s w f as fa"
  proof (cases fa)
    case None
    then show ?thesis
      by (intro that [of "s\<lparr>heap := (heap s)(w \<mapsto> x)\<rparr>"])
        (auto simp: new_workitem_def x_def fresh_item_def being_inserted_def fun_eq_iff option.map_ident
          intro!: arg_cong [where f = "\<lambda>h. s\<lparr>heap := h, worklist := Some w\<rparr>"])
  next
    case (Some a)
    then obtain y where y: "heap s a = Some y" "a \<noteq> w" using assms(1,3) by fastforce
    with Some show ?thesis
      by (intro that [of "s\<lparr>heap := (heap s)(w \<mapsto> x, a \<mapsto> y\<lparr>nchildren := nchildren y + 1\<rparr>)\<rparr>"])
        (auto simp: new_workitem_def upd_def x_def fresh_item_def being_inserted_def fun_eq_iff option.map_ident
          intro!: arg_cong [where f = "\<lambda>h. s\<lparr>heap := h, worklist := Some w\<rparr>"])
  qed
  have upd: "upd w (\<lambda>t. t\<lparr>task := Some \<lparr>func = f, ctx = Some w\<rparr>, nxt := worklist s\<rparr>) s1 =
      Some (s1\<lparr>heap := (heap s1)(w \<mapsto> fresh_item s w f as fa)\<rparr>)"
    using s1(2) by (simp add: upd_def x_def fresh_item_def)
  have n: "nargs x = word_of_nat (length as)" "args x = as" "father x = fa"
    by (simp_all add: x_def fresh_item_def)
  have "(s1\<lparr>heap := (heap s1)(w \<mapsto> fresh_item s w f as fa)\<rparr>)\<lparr>worklist := Some w\<rparr> =
      being_inserted s w f as fa"
    using s1(4) by simp
  then show ?thesis
    using s1(1-3) upd n assms(2)
    by (simp add: spawn_task_def insert_in_worklist_def sint_nargs Let_def)
qed

text \<open>The end of the insertion, once the dependencies are known.\<close>

lemma insert_end:
  assumes "heap s w = None" "w \<notin> set D"
    and "s2 = mark_escape w e (linked w D (being_inserted s w f as fa))"
  obtains y s3 where "heap s2 w = Some y"
    and "(if ndependencies y = 0 then post w s2 else upd w (\<lambda>t. t\<lparr>status := Waiting\<rparr>) s2) = Some s3"
    and "s3 = spawned w f as fa D e s"
proof -
  define y where "y = (fresh_item s w f as fa)\<lparr>ndependencies := int (length D),
      optFlags := if e then FatherScape else 0\<rparr>"
  have y: "heap s2 w = Some y"
    by (simp add: assms(3) mark_escape_def heap_linked heap_being_inserted y_def fresh_item_def)
  have h: "heap s2 q = map_option (\<lambda>x. x\<lparr>nchildren := nchildren x + (if fa = Some q then 1 else 0),
                                 deps := deps x @ (if q \<in> set D then [w] else [])\<rparr>) (heap s q)"
    if "q \<noteq> w" for q
    using that by (cases "heap s q")
      (auto simp: assms(3) mark_escape_def heap_linked heap_being_inserted)
  have s2: "s2 = s\<lparr>heap := heap s2, worklist := Some w\<rparr>"
    by (simp add: assms(3) mark_escape_def linked_def being_inserted_def)
  show ?thesis
  proof (cases "D = []")
    case True
    have "post w s2 = Some (s\<lparr>heap := (heap s2)(w \<mapsto> y\<lparr>status := Ready\<rparr>), worklist := Some w,
        tqueue := tqueue s @ [\<lparr>func = f, ctx = Some w\<rparr>]\<rparr>)"
      using y by (subst s2) (simp add: post_def upd_def y_def fresh_item_def)
    also have "\<dots> = Some (spawned w f as fa D e s)"
      using True h by (auto simp: spawned_def y_def fresh_item_def fun_eq_iff
          intro!: arg_cong [where f = "\<lambda>h. s\<lparr>heap := h, worklist := Some w, tqueue := q\<rparr>" for q])
    finally show ?thesis
      using y True by (intro that [of y]) (simp_all add: y_def)
  next
    case False
    have "upd w (\<lambda>t. t\<lparr>status := Waiting\<rparr>) s2 =
        Some (s\<lparr>heap := (heap s2)(w \<mapsto> y\<lparr>status := Waiting\<rparr>), worklist := Some w\<rparr>)"
      using y by (subst s2) (simp add: upd_def)
    also have "\<dots> = Some (spawned w f as fa D e s)"
      using False h by (auto simp: spawned_def y_def fresh_item_def fun_eq_iff
          intro!: arg_cong [where f = "\<lambda>h. s\<lparr>heap := h, worklist := Some w\<rparr>"])
    finally show ?thesis
      using y False by (intro that [of y]) (simp_all add: y_def)
  qed
qed

text \<open>What the state must provide for the insertion to run to its end.\<close>

definition insertable :: "runtime \<Rightarrow> wid \<Rightarrow> arg_info list \<Rightarrow> wid option \<Rightarrow> wid list \<Rightarrow> bool" where
  "insertable s w as fa ps \<longleftrightarrow>
     heap s w = None \<and> length as \<le> 127 \<and> chain (next_of s) (worklist s) ps None \<and>
     (\<forall>p \<in> set ps. heap s p \<noteq> None \<and> status (item s p) \<noteq> Filling) \<and>
     (\<forall>p. live s p \<longrightarrow> comparison_ok (args (item s p)) as) \<and>
     (\<forall>p \<in> set ps. live s p \<longrightarrow> (\<forall>a. father (item s p) = Some a \<longrightarrow> live s a)) \<and>
     (\<forall>a. fa = Some a \<longrightarrow> live s a)"

lemma liveD: "live s p \<Longrightarrow> heap s p \<noteq> None"
  by (auto simp: live_def split: option.splits)

lemma being_inserted_next:
  "heap s w = None \<Longrightarrow> chain (next_of s) p ps None \<Longrightarrow> chain (next_of (being_inserted s w f as fa)) p ps None"
proof -
  assume w: "heap s w = None" and c: "chain (next_of s) p ps None"
  have "w \<notin> set ps"
    using c w by (induction ps arbitrary: p) (auto simp: next_of_def)
  moreover have "next_of (being_inserted s w f as fa) q = next_of s q" if "q \<noteq> w" for q
    using that by (cases "heap s q") (auto simp: next_of_def heap_being_inserted)
  ultimately have "\<And>q. q \<in> set ps \<Longrightarrow> next_of (being_inserted s w f as fa) q = next_of s q"
    by metis
  then show ?thesis
    using c chain_cong by metis
qed

lemma chain_allocated: "chain (next_of s) p ps q \<Longrightarrow> x \<in> set ps \<Longrightarrow> heap s x \<noteq> None"
  by (induction ps arbitrary: p) (auto simp: next_of_def)

lemma insertable_scannable:
  assumes "insertable s w as fa ps"
  shows "scannable (being_inserted s w f as fa) w fa ps"
proof -
  let ?b = "being_inserted s w f as fa"
  note ins = assms [unfolded insertable_def]
  have w: "heap s w = None" using ins by blast
  have c: "chain (next_of s) (worklist s) ps None" using ins by blast
  then have ps: "distinct ps" "w \<notin> set ps"
    using chain_null_distinct chain_allocated w by blast+
  have it: "p \<noteq> w \<Longrightarrow> heap s p \<noteq> None \<Longrightarrow>
      status (item ?b p) = status (item s p) \<and> father (item ?b p) = father (item s p) \<and>
      args (item ?b p) = args (item s p)" for p
    by (auto simp: heap_being_inserted)
  have lv: "p \<noteq> w \<Longrightarrow> live ?b p = live s p" for p
    by (cases "heap s p") (auto simp: live_def heap_being_inserted)
  have lw: "live s a \<Longrightarrow> a \<noteq> w" for a using w by (auto simp: live_def)
  have cont: "is_contained w a ?b \<noteq> None" if la: "live s a" for a
  proof -
    obtain x where x: "heap s a = Some x" using liveD [OF la] by auto
    have ok: "comparison_ok (args x) as" using ins la x by (metis option.sel)
    have "is_contained_loop as (args x) \<noteq> None"
      using ok by (intro is_contained_loop_total) (simp_all add: comparison_ok_def)
    then show ?thesis
      using x lw [OF la] by (simp add: is_contained_def heap_being_inserted fresh_item_def)
  qed
  show ?thesis
    unfolding scannable_def
  proof (intro conjI ballI impI allI)
    show "heap ?b w \<noteq> None" by (simp add: heap_being_inserted)
  next
    fix p assume p: "p \<in> set ps"
    then have pw: "p \<noteq> w" "heap s p \<noteq> None" using ps ins by blast+
    show "heap ?b p \<noteq> None" using pw by (simp add: heap_being_inserted)
    show "status (item ?b p) \<noteq> Filling" using it [OF pw] ins p by simp
    fix a assume "live ?b p" "father (item ?b p) = Some a"
    then have "live s a" using it [OF pw] lv [OF pw(1)] ins p by simp
    then show "live ?b a" "is_contained w a ?b \<noteq> None" using lv lw cont by auto
  next
    fix a assume "fa = Some a"
    then have "live s a" using ins by blast
    then show "live ?b a" using lv lw by auto
  qed (use ps in auto)
qed

lemma compared_subseq: "subseq (fst (compared s this anc ps)) ps"
  by (induction s this anc ps rule: compared.induct) (auto simp: Let_def)

lemma before_subseq: "subseq xs ys \<Longrightarrow> before xs x y \<Longrightarrow> before ys x y"
proof (induction rule: list_emb.induct)
  case (list_emb_Cons2 x' y' xs ys)
  then show ?case
    using subseq_set [of xs ys] by (auto simp: before_Cons)
qed (auto simp: before_Cons)

lemma before_nth: "i < j \<Longrightarrow> j < length xs \<Longrightarrow> before xs (xs ! i) (xs ! j)"
proof -
  assume ij: "i < j" "j < length xs"
  then have "xs = take i xs @ xs ! i # drop (Suc i) xs"
    by (simp add: id_take_nth_drop)
  moreover have "xs ! j \<in> set (drop (Suc i) xs)"
    using ij by (auto simp: in_set_conv_nth intro!: exI [of _ "j - Suc i"])
  ultimately show ?thesis
    unfolding before_def by blast
qed

text \<open>
  The dependencies of a new task: a set \<open>D\<close> of the nodes it was compared with, all of them in
  conflict with it, such that every other node in conflict with it is in conflict with a more
  recent one of \<open>D\<close>.
\<close>

definition dependency_set :: "runtime \<Rightarrow> arg_info list \<Rightarrow> wid list \<Rightarrow> wid list \<Rightarrow> wid list \<Rightarrow> bool" where
  "dependency_set s as ps vs D \<longleftrightarrow>
     distinct D \<and> set D \<subseteq> set vs \<and> set vs \<subseteq> {p \<in> set ps. live s p} \<and>
     (\<forall>d \<in> set D. conflicts (args (item s d)) as) \<and>
     (\<forall>p \<in> set vs. conflicts (args (item s p)) as \<longrightarrow>
        p \<in> set D \<or> (\<exists>d \<in> set D. before ps d p \<and> conflicts (args (item s p)) (args (item s d))))"

lemma selected_dependency_set:
  assumes "linked_or_covered conflicts (map (\<lambda>p. args (item s p)) vs) as cs"
    and "distinct vs" "subseq vs ps" "\<forall>p \<in> set vs. live s p"
  shows "dependency_set s as ps vs (selected vs cs)"
proof -
  note lc = assms(1) [unfolded linked_or_covered_def length_map]
  have len: "length cs = length vs" using lc by blast
  show ?thesis
    unfolding dependency_set_def
  proof (intro conjI ballI impI)
    show "distinct (selected vs cs)" using assms(2) by (rule selected_distinct)
    show "set (selected vs cs) \<subseteq> set vs" by (rule selected_subset)
    show "set vs \<subseteq> {p \<in> set ps. live s p}" using assms(3,4) subseq_set by blast
  next
    fix d assume "d \<in> set (selected vs cs)"
    then obtain k where "k < length vs" "vs ! k = d" "cs ! k"
      using len by (rule selected_obtain)
    then show "conflicts (args (item s d)) as" using lc by auto
  next
    fix p assume p: "p \<in> set vs" "conflicts (args (item s p)) as"
    then obtain k where k: "k < length vs" "vs ! k = p" by (auto simp: in_set_conv_nth)
    then have "cs ! k \<or> (\<exists>j < k. cs ! j \<and> conflicts (args (item s p)) (args (item s (vs ! j))))"
      using lc p(2) by auto
    then show "p \<in> set (selected vs cs) \<or>
        (\<exists>d \<in> set (selected vs cs). before ps d p \<and> conflicts (args (item s p)) (args (item s d)))"
    proof
      assume "cs ! k"
      then show ?thesis using k selected_nth len by blast
    next
      assume "\<exists>j < k. cs ! j \<and> conflicts (args (item s p)) (args (item s (vs ! j)))"
      then obtain j where j: "j < k" "cs ! j" "conflicts (args (item s p)) (args (item s (vs ! j)))"
        by blast
      then have "vs ! j \<in> set (selected vs cs)" using k(1) len by (intro selected_nth) auto
      moreover have "before ps (vs ! j) p"
        using before_subseq [OF assms(3)] before_nth [OF j(1) k(1)] k(2) by simp
      ultimately show ?thesis using j(3) by blast
    qed
  qed
qed

lemma compare_all_candidates:
  assumes "insertable s w as fa ps" "set vs \<subseteq> {p \<in> set ps. live s p}"
  obtains cs v where
    "compare_all compare_vec (map (\<lambda>p. args (item s p)) vs) (length as, build_argv (length as) as) = Some (cs, v)"
    "linked_or_covered conflicts (map (\<lambda>p. args (item s p)) vs) as cs"
proof -
  have "\<forall>a \<in> set (map (\<lambda>p. args (item s p)) vs). comparison_ok a as"
    using assms by (auto simp: insertable_def)
  moreover have "vec_holds (length as, build_argv (length as) as) as"
    by (simp add: vec_holds_def build_argv_holds)
  ultimately show ?thesis
    using that args.compare_all_covers by blast
qed

lemma spawn_task_closed:
  assumes "insertable s w as fa ps"
  obtains b vs e D where
    "spawn_task w f as (int (length as)) fa s = Some (b, spawned w f as fa D e s)"
    "compared (being_inserted s w f as fa) w fa ps = (vs, e)"
    "dependency_set s as ps vs D" "w \<notin> set ps"
proof -
  let ?b = "being_inserted s w f as fa"
  let ?l = "\<lparr>n_args = length as, argv = build_argv (length as) as, ancestor = fa, nready = 0, nfillwait = 0\<rparr>"
  note ins = assms [unfolded insertable_def]
  have w: "heap s w = None" "length as \<le> 127" using ins by blast+
  have fa: "\<And>a. fa = Some a \<Longrightarrow> heap s a \<noteq> None" using ins liveD by blast
  have c: "chain (next_of s) (worklist s) ps None" using ins by blast
  obtain vs e where ve: "compared ?b w fa ps = (vs, e)" by fastforce
  have sc: "scannable ?b w fa ps" by (rule insertable_scannable [OF assms])
  have wps: "w \<notin> set ps" "distinct ps" using sc unfolding scannable_def by blast+
  have vs: "subseq vs ps" "distinct vs" "\<forall>p \<in> set vs. live ?b p \<and> p \<noteq> w"
    using compared_subseq [of ?b w fa ps] compared_distinct [OF wps(2), of ?b w fa]
      compared_live [of _ ?b w fa ps] ve by auto
  have other: "live ?b p \<longleftrightarrow> live s p" "heap s p \<noteq> None \<Longrightarrow> args (item ?b p) = args (item s p)"
    if "p \<noteq> w" for p
    using that by (cases "heap s p"; simp add: live_def heap_being_inserted)+
  have vs_live: "\<forall>p \<in> set vs. live s p" using vs(3) other by blast
  have vs_args: "map (\<lambda>p. args (item ?b p)) vs = map (\<lambda>p. args (item s p)) vs"
    using vs(3) vs_live other(2) liveD by (intro map_cong) auto
  have vs_sub: "set vs \<subseteq> {p \<in> set ps. live s p}"
    using vs_live subseq_set [OF vs(1)] by blast
  obtain cs v where cs:
    "compare_all compare_vec (map (\<lambda>p. args (item s p)) vs) (length as, build_argv (length as) as) = Some (cs, v)"
    "linked_or_covered conflicts (map (\<lambda>p. args (item s p)) vs) as cs"
    by (rule compare_all_candidates [OF assms vs_sub])
  let ?D = "selected vs cs"
  have ds: "dependency_set s as ps vs ?D"
    by (rule selected_dependency_set [OF cs(2) vs(2,1) vs_live])
  have wD: "w \<notin> set ?D" using selected_subset [of vs cs] vs(3) by blast
  have "scannable ?b w (ancestor ?l) ps" "set [] \<inter> set ps = {}"
    "compared ?b w (ancestor ?l) ps = (vs, e)"
    "compare_all compare_vec (map (\<lambda>p. args (item ?b p)) vs) (n_args ?l, argv ?l) = Some (cs, v)"
    unfolding vs_args using sc ve cs(1) by simp_all
  from scan_list_linked [OF this] obtain l' where
    sl: "scan_list w ps ?l ?b = Some (l', mark_escape w e (linked w ?D ?b))"
    by auto
  have scan: "scan_worklist w (worklist s) ?l ?b = Some (l', mark_escape w e (linked w ?D ?b))"
    using scan_worklist_list [OF being_inserted_next [OF w(1) c]] sl by simp
  obtain y s3 where fin: "heap (mark_escape w e (linked w ?D ?b)) w = Some y"
    "(if ndependencies y = 0 then post w (mark_escape w e (linked w ?D ?b))
      else upd w (\<lambda>t. t\<lparr>status := Waiting\<rparr>) (mark_escape w e (linked w ?D ?b))) = Some s3"
    "s3 = spawned w f as fa ?D e s"
    by (rule insert_end [OF w(1) wD refl])
  have "spawn_task w f as (int (length as)) fa s =
      Some (fast_start l' (mark_escape w e (linked w ?D ?b)), spawned w f as fa ?D e s)"
    using fin by (simp add: spawn_task_scan [OF w fa] scan)
  then show ?thesis
    using that ve ds wps(1) by blast
qed

text \<open>Without an enclosing task, every live node is compared.\<close>

lemma compared_no_father:
  assumes "w \<notin> set ps"
  shows "compared (being_inserted s w f as None) w None ps = (filter (live s) ps, False)"
proof -
  have "live (being_inserted s w f as None) p = live s p" if "p \<in> set ps" for p
    using that assms by (cases "heap s p") (auto simp: live_def heap_being_inserted)
  then show ?thesis
    using compared_flat [OF assms] by (simp cong: filter_cong)
qed

section \<open>Properties\<close>

definition empty_runtime :: runtime where
  "empty_runtime =
     \<lparr>heap = Map.empty, worklist = None, eraser_assigned = False, ObserversAtWork = 0,
      Nthreads = 4, FAST_THRESHOLD = 8, tqueue = []\<rparr>"

text \<open>
  C17: Spawning a task always succeeds in a state without a task being filled in. The new task is
  put first in the worklist and hangs behind a set \<open>D\<close> of active tasks, all in conflict with it,
  such that every other task it was compared with and conflicts with conflicts with a more recent
  task of \<open>D\<close>; it is queued for execution exactly when \<open>D\<close> is empty, the father gets one more
  child, and nothing else changes. A task of the main thread is compared with every active task.
\<close>

theorem spawn_effect:
  assumes "insertable s w as fa ps"
  shows "\<exists>b D e vs. spawn_task w f as (int (length as)) fa s = Some (b, spawned w f as fa D e s) \<and>
           dependency_set s as ps vs D \<and> (fa = None \<longrightarrow> vs = filter (live s) ps \<and> \<not> e)"
proof -
  obtain b vs e D where r:
    "spawn_task w f as (int (length as)) fa s = Some (b, spawned w f as fa D e s)"
    "compared (being_inserted s w f as fa) w fa ps = (vs, e)"
    "dependency_set s as ps vs D" "w \<notin> set ps"
    by (rule spawn_task_closed [OF assms])
  have "fa = None \<longrightarrow> vs = filter (live s) ps \<and> \<not> e"
    using compared_no_father [OF r(4), of s f as] r(2) by auto
  then show ?thesis using r(1,3) by blast
qed

lemma spawn_effect_witness:
  "\<exists>b D vs. spawn_task 2 7 [region 1002 4 False] (int (length [region 1002 4 False])) None
       (spawned 1 6 [region 1000 4 True] None [] False empty_runtime) =
         Some (b, spawned 2 7 [region 1002 4 False] None D False
                    (spawned 1 6 [region 1000 4 True] None [] False empty_runtime)) \<and>
     dependency_set (spawned 1 6 [region 1000 4 True] None [] False empty_runtime)
       [region 1002 4 False] [1] vs D"
proof -
  have "insertable (spawned 1 6 [region 1000 4 True] None [] False empty_runtime) 2 [region 1002 4 False] None [1]"
    by (auto simp: insertable_def spawned_def empty_runtime_def next_of_def live_def comparison_defs
        split: if_splits)
  then obtain b D e vs where r: "\<not> e"
    "spawn_task 2 7 [region 1002 4 False] (int (length [region 1002 4 False])) None
       (spawned 1 6 [region 1000 4 True] None [] False empty_runtime) =
         Some (b, spawned 2 7 [region 1002 4 False] None D e
                    (spawned 1 6 [region 1000 4 True] None [] False empty_runtime))"
    "dependency_set (spawned 1 6 [region 1000 4 True] None [] False empty_runtime)
       [region 1002 4 False] [1] vs D"
    using spawn_effect [of _ 2 "[region 1002 4 False]" None "[1]" 7] by blast
  have "e = False" using r(1) by blast
  then show ?thesis using r(2,3) by blast
qed

end
