(* ===== verification/Completion.thy ===== *)
theory Completion
  imports Insertion
begin

text \<open>
  What the completion of a task does to the state: \<open>finish_execution\<close> of
  \<open>src/src/workitem.cpp\<close> releases the tasks that depended on it and climbs to the father when
  its last child has finished, and \<open>Clean_worklist\<close> cuts finished tasks out of the list.
\<close>

section \<open>The release of the dependents\<close>

definition released :: "wid list \<Rightarrow> runtime \<Rightarrow> runtime" where
  "released ws s =
     s\<lparr>heap := (\<lambda>q. map_option
          (\<lambda>x. if q \<in> set ws
               then x\<lparr>ndependencies := ndependencies x - 1,
                      status := if ndependencies x = 1 then Ready else status x\<rparr>
               else x) (heap s q)),
       tqueue := tqueue s @
         map (\<lambda>q. the (task (item s q))) (filter (\<lambda>q. ndependencies (item s q) = 1) ws)\<rparr>"

lemma heap_released:
  "heap (released ws s) q = map_option
     (\<lambda>x. if q \<in> set ws
          then x\<lparr>ndependencies := ndependencies x - 1,
                 status := if ndependencies x = 1 then Ready else status x\<rparr>
          else x) (heap s q)"
  by (simp add: released_def)

lemma release_one:
  assumes "heap s w = Some x" "task x \<noteq> None"
  shows "release_deps (w # ws) s = release_deps ws (released [w] s)"
proof -
  obtain t where t: "task x = Some t" using assms(2) by blast
  show ?thesis
    using assms(1) t
    by (auto simp: released_def upd_def post_def fun_eq_iff option.map_ident
        intro!: arg_cong [where f = "release_deps ws"] arg_cong [where f = "\<lambda>h. s\<lparr>heap := h\<rparr>"]
          arg_cong [where f = "\<lambda>h. s\<lparr>heap := h, tqueue := q\<rparr>" for q])
qed

lemma released_Cons:
  assumes "w \<notin> set ws" "set ws \<subseteq> dom (heap s)"
  shows "released ws (released [w] s) = released (w # ws) s"
proof -
  have it: "task (item (released [w] s) q) = task (item s q)"
    "ndependencies (item (released [w] s) q) = ndependencies (item s q)" if "q \<in> set ws" for q
    using that assms by (auto simp: heap_released)
  have f: "filter (\<lambda>q. ndependencies (item (released [w] s) q) = 1) ws =
      filter (\<lambda>q. ndependencies (item s q) = 1) ws"
    using it by (intro filter_cong) auto
  have m: "map (\<lambda>q. the (task (item (released [w] s) q))) (filter (\<lambda>q. ndependencies (item s q) = 1) ws) =
      map (\<lambda>q. the (task (item s q))) (filter (\<lambda>q. ndependencies (item s q) = 1) ws)"
    using it by (intro map_cong) auto
  have q: "tqueue (released ws (released [w] s)) = tqueue (released (w # ws) s)"
    unfolding released_def [of ws] using f m by (simp add: released_def)
  have h: "heap (released ws (released [w] s)) = heap (released (w # ws) s)"
  proof (rule ext)
    fix q show "heap (released ws (released [w] s)) q = heap (released (w # ws) s) q"
      using assms(1) by (cases "heap s q") (auto simp: heap_released)
  qed
  have "released ws (released [w] s) =
      s\<lparr>heap := heap (released ws (released [w] s)), tqueue := tqueue (released ws (released [w] s))\<rparr>"
    by (simp add: released_def)
  also have "\<dots> = released (w # ws) s"
    unfolding h q by (simp add: released_def)
  finally show ?thesis .
qed

lemma released_Nil [simp]: "released [] s = s"
  by (simp add: released_def option.map_ident)

lemma release_deps_closed:
  assumes "distinct ws" "\<forall>w \<in> set ws. \<exists>x. heap s w = Some x \<and> task x \<noteq> None"
  shows "release_deps ws s = Some (released ws s)"
  using assms
proof (induction ws arbitrary: s)
  case Nil
  then show ?case by simp
next
  case (Cons w ws)
  obtain x where x: "heap s w = Some x" "task x \<noteq> None" using Cons.prems(2) by auto
  have "\<forall>q \<in> set ws. \<exists>y. heap (released [w] s) q = Some y \<and> task y \<noteq> None"
  proof
    fix q assume q: "q \<in> set ws"
    then obtain y where "heap s q = Some y" "task y \<noteq> None" using Cons.prems(2) by auto
    then show "\<exists>y. heap (released [w] s) q = Some y \<and> task y \<noteq> None"
      using q Cons.prems(1) by (auto simp: heap_released)
  qed
  then have "release_deps ws (released [w] s) = Some (released ws (released [w] s))"
    using Cons.IH Cons.prems(1) by simp
  also have "released ws (released [w] s) = released (w # ws) s"
    using Cons.prems by (intro released_Cons) auto
  finally show ?case
    using release_one [OF x] by simp
qed

section \<open>The wait for tasks being filled in\<close>

text \<open>
  When no task of the list is being filled in, the walk ends: a jump over the siblings of a
  node leads to a node further down the list.
\<close>

definition fillers_ok :: "runtime \<Rightarrow> wid list \<Rightarrow> bool" where
  "fillers_ok s ps \<longleftrightarrow>
     (\<forall>p \<in> set ps. \<exists>x. heap s p = Some x \<and> status x \<noteq> Filling \<and>
        (optFlags x AND FatherScape \<noteq> 0 \<and> status x < Done \<longrightarrow>
           (\<exists>f. father x = Some f \<and> before ps p f)))"

lemma wait_fillers_walk:
  assumes "chain (next_of s) p qs None" "fillers_ok s ps" "suffix qs ps" "distinct ps"
  shows "wait_fillers this p s = Some ()"
  using assms
proof (induction "length qs" arbitrary: p qs rule: less_induct)
  case less
  show ?case
  proof (cases qs)
    case Nil
    then show ?thesis using less.prems(1) by (simp add: wait_fillers.simps)
  next
    case (Cons q qs')
    obtain x where x: "heap s q = Some x" "p = Some q" "chain (next_of s) (nxt x) qs' None"
      using less.prems(1) Cons by (auto simp: next_of_def)
    have q: "q \<in> set ps" using less.prems(3) Cons set_mono_suffix by fastforce
    then have xq: "status x \<noteq> Filling"
      "optFlags x AND FatherScape \<noteq> 0 \<Longrightarrow> status x < Done \<Longrightarrow> \<exists>f. father x = Some f \<and> before ps q f"
      using less.prems(2) x(1) unfolding fillers_ok_def by fastforce+
    have suf: "suffix qs' ps" using less.prems(3) Cons by (auto simp: suffix_def)
    have next1: "wait_fillers this (nxt x) s = Some ()"
      using less.hyps [of qs' "nxt x"] x(3) suf less.prems(2,4) Cons by simp
    have jump: "wait_fillers this (nxt y) s = Some ()"
      if "father x = Some f" "heap s f = Some y" "before ps q f" for f y
    proof -
      obtain us where ps: "ps = us @ q # qs'" using less.prems(3) Cons by (auto simp: suffix_def)
      then have "f \<in> set qs'"
        using that(3) less.prems(4) before_split [of us q qs' f] by simp
      then obtain vs ws where v: "qs' = vs @ f # ws" by (auto dest: split_list)
      then have "chain (next_of s) (nxt y) ws None"
        using x(3) that(2) by (auto simp: chain_simps next_of_def)
      moreover have "suffix ws ps" using suf v by (auto simp: suffix_def)
      ultimately show ?thesis
        using less.hyps [of ws "nxt y"] less.prems(2,4) Cons v by simp
    qed
    show ?thesis
    proof (cases "optFlags x AND FatherScape \<noteq> 0 \<and> status x < Done")
      case True
      then obtain f where f: "father x = Some f" "before ps q f" using xq(2) by blast
      then obtain y where y: "heap s f = Some y"
        using less.prems(2) before_in_set [OF f(2)] unfolding fillers_ok_def by blast
      have "wait_fillers this (nxt y) s = Some ()" by (rule jump [OF f(1) y f(2)])
      then show ?thesis
        unfolding x(2) by (subst wait_fillers.simps) (use x(1) xq(1) next1 f(1) y True in simp)
    next
      case False
      then show ?thesis
        unfolding x(2) by (subst wait_fillers.simps) (use x(1) xq(1) next1 in auto)
    qed
  qed
qed

section \<open>One round of the loop of \<open>finish_execution\<close>\<close>

definition completed :: "wid \<Rightarrow> bool \<Rightarrow> runtime \<Rightarrow> runtime" where
  "completed p ea s =
     (let r = released (deps (item s p)) s
      in r\<lparr>eraser_assigned := ea,
           heap := (heap r)(p \<mapsto> (item s p)\<lparr>deps := [], args := [], status := Deallocatable\<rparr>)\<rparr>)"

lemma heap_completed:
  "heap (completed p ea s) q =
     (if q = p then Some ((item s p)\<lparr>deps := [], args := [], status := Deallocatable\<rparr>)
      else map_option
        (\<lambda>x. if q \<in> set (deps (item s p))
             then x\<lparr>ndependencies := ndependencies x - 1,
                    status := if ndependencies x = 1 then Ready else status x\<rparr>
             else x) (heap s q))"
  by (simp add: completed_def Let_def heap_released)

lemma completed_simps [simp]:
  "worklist (completed p ea s) = worklist s"
  "eraser_assigned (completed p ea s) = ea"
  "ObserversAtWork (completed p ea s) = ObserversAtWork s"
  "Nthreads (completed p ea s) = Nthreads s"
  "FAST_THRESHOLD (completed p ea s) = FAST_THRESHOLD s"
  "tqueue (completed p ea s) = tqueue s @
     map (\<lambda>q. the (task (item s q))) (filter (\<lambda>q. ndependencies (item s q) = 1) (deps (item s p)))"
  by (simp_all add: completed_def Let_def released_def)

definition erases :: "wid \<Rightarrow> bool \<Rightarrow> runtime \<Rightarrow> bool" where
  "erases p erase s \<longleftrightarrow>
     erase \<or> (erase_candidate p \<and> ObserversAtWork s = 0 \<and> \<not> eraser_assigned s)"

lemma try_eraser_closed:
  "eraser_assigned s = erase \<Longrightarrow>
     try_eraser p erase s = (erases p erase s, s\<lparr>eraser_assigned := erases p erase s\<rparr>)"
  by (auto simp: try_eraser_def erases_def)

lemma released_cong:
  assumes "p \<notin> set ws" "set ws \<subseteq> dom (heap s)"
  shows "released ws (s\<lparr>heap := (heap s)(p \<mapsto> y), eraser_assigned := ea\<rparr>) =
         (released ws s)\<lparr>heap := (heap (released ws s))(p \<mapsto> y), eraser_assigned := ea\<rparr>"
proof -
  let ?s = "s\<lparr>heap := (heap s)(p \<mapsto> y), eraser_assigned := ea\<rparr>"
  have h: "heap (released ws ?s) = (heap (released ws s))(p \<mapsto> y)"
    using assms(1) by (auto simp: heap_released fun_eq_iff)
  have "filter (\<lambda>q. ndependencies (item ?s q) = 1) ws = filter (\<lambda>q. ndependencies (item s q) = 1) ws"
    using assms(1) by (intro filter_cong) auto
  moreover have "map (\<lambda>q. the (task (item ?s q))) (filter (\<lambda>q. ndependencies (item s q) = 1) ws) =
      map (\<lambda>q. the (task (item s q))) (filter (\<lambda>q. ndependencies (item s q) = 1) ws)"
    using assms(1) by (intro map_cong) auto
  ultimately have q: "tqueue (released ws ?s) = tqueue (released ws s)"
    by (simp add: released_def)
  have "released ws ?s = ?s\<lparr>heap := heap (released ws ?s), tqueue := tqueue (released ws ?s)\<rparr>"
    by (simp add: released_def)
  then show ?thesis
    unfolding h q by (simp add: released_def)
qed

lemma finish_step_closed:
  assumes "heap s p = Some x" "p \<notin> set (deps x)" "distinct (deps x)"
    and "\<forall>w \<in> set (deps x). \<exists>y. heap s w = Some y \<and> task y \<noteq> None"
    and "chain (next_of s) (worklist s) ps None" "fillers_ok s ps" "eraser_assigned s = erase"
  shows "finish_step this p erase s =
     Some (father x, erases p erase s, worklist s, completed p (erases p erase s) s)"
proof -
  let ?ea = "erases p erase s"
  let ?s2 = "s\<lparr>heap := (heap s)(p \<mapsto> x\<lparr>status := Done\<rparr>), eraser_assigned := ?ea\<rparr>"
  have s1: "upd p (\<lambda>x. x\<lparr>status := Done\<rparr>) s = Some (s\<lparr>heap := (heap s)(p \<mapsto> x\<lparr>status := Done\<rparr>)\<rparr>)"
    using assms(1) by (simp add: upd_Some)
  have s2: "try_eraser p erase (s\<lparr>heap := (heap s)(p \<mapsto> x\<lparr>status := Done\<rparr>)\<rparr>) = (?ea, ?s2)"
    using assms(7) by (subst try_eraser_closed) (simp_all add: erases_def)
  have nx: "next_of ?s2 = next_of s"
    using assms(1) by (auto simp: next_of_def fun_eq_iff)
  have "fillers_ok ?s2 ps"
    using assms(1,6) unfolding fillers_ok_def by (auto simp: less_Done_iff)
  then have wf: "wait_fillers this (worklist s) ?s2 = Some ()"
    using wait_fillers_walk [of ?s2 "worklist s" ps ps this] assms(5) chain_null_distinct [OF assms(5)]
    by (simp add: nx)
  have dom: "set (deps x) \<subseteq> dom (heap s)" using assms(4) by auto
  have rel: "release_deps (deps x) ?s2 = Some (released (deps x) ?s2)"
    using assms(2-4) by (intro release_deps_closed) (auto dest: bspec)
  have s3: "released (deps x) ?s2 =
      (released (deps x) s)\<lparr>heap := (heap (released (deps x) s))(p \<mapsto> x\<lparr>status := Done\<rparr>), eraser_assigned := ?ea\<rparr>"
    by (rule released_cong [OF assms(2) dom])
  show ?thesis
    unfolding finish_step_def
    using s1 s2 wf rel s3 assms(1) by (simp add: upd_def completed_def Let_def)
qed

section \<open>Cutting finished tasks out of the list\<close>

text \<open>
  The effect of the scan on the list: \<open>k\<close> is the last node kept, \<open>ds\<close> the deletable nodes
  behind it. The result is what stays, and the runs that are cut out.
\<close>

fun clean_list :: "(wid \<Rightarrow> bool) \<Rightarrow> wid \<Rightarrow> wid list \<Rightarrow> wid list \<Rightarrow> wid list \<times> wid list list" where
  "clean_list gone k ds [] = ([k], if ds = [] then [] else [ds])"
| "clean_list gone k ds (q # qs) =
     (if gone q then clean_list gone k (ds @ [q]) qs
      else let (ks, rs) = clean_list gone q [] qs
           in if length ds > 4 then (k # ks, ds # rs) else (k # ds @ ks, rs))"

lemma clean_list_partition:
  "clean_list gone k ds qs = (ks, rs) \<Longrightarrow> mset ks + mset (concat rs) = mset (k # ds @ qs)"
  by (induction gone k ds qs arbitrary: ks rs rule: clean_list.induct)
    (auto simp: Let_def split: prod.splits if_splits)

lemma clean_list_subseq: "clean_list gone k ds qs = (ks, rs) \<Longrightarrow> subseq ks (k # ds @ qs)"
proof (induction gone k ds qs arbitrary: ks rs rule: clean_list.induct)
  case (2 gone k ds q qs)
  show ?case
  proof (cases "gone q")
    case True
    then show ?thesis using 2 by simp
  next
    case False
    obtain ks' rs' where r: "clean_list gone q [] qs = (ks', rs')" by fastforce
    then have "subseq ks' (q # qs)" using 2(2) False by simp
    then have "subseq (ds @ ks') (ds @ q # qs)" "subseq ks' (ds @ q # qs)"
      by (simp_all add: subseq_append' subseq_drop_many)
    then have "subseq (k # ds @ ks') (k # ds @ q # qs)" "subseq (k # ks') (k # ds @ q # qs)"
      by simp_all
    then show ?thesis
      using "2.prems" r False by (auto split: if_splits)
  qed
qed auto

lemma clean_list_gone:
  "clean_list gone k ds qs = (ks, rs) \<Longrightarrow> list_all gone ds \<Longrightarrow>
     list_all (\<lambda>r. r \<noteq> [] \<and> list_all gone r) rs"
proof (induction gone k ds qs arbitrary: ks rs rule: clean_list.induct)
  case (2 gone k ds q qs)
  show ?case
  proof (cases "gone q")
    case True
    show ?thesis
      by (rule "2.IH"(1) [OF True]) (use "2.prems" True in simp_all)
  next
    case False
    obtain ks' rs' where r: "clean_list gone q [] qs = (ks', rs')" by fastforce
    have "list_all (\<lambda>r. r \<noteq> [] \<and> list_all gone r) rs'"
      by (rule "2.IH"(2) [OF False r]) simp
    then show ?thesis
      using "2.prems" r False by (auto split: if_splits)
  qed
qed (auto split: if_splits)

lemma clean_list_hd: "clean_list gone k ds qs = (ks, rs) \<Longrightarrow> \<exists>ks'. ks = k # ks'"
  by (induction gone k ds qs arbitrary: ks rs rule: clean_list.induct)
    (auto simp: Let_def split: prod.splits if_splits)

text \<open>States that differ in the \<open>next\<close> fields of some nodes only.\<close>

definition relinked :: "wid set \<Rightarrow> runtime \<Rightarrow> runtime \<Rightarrow> bool" where
  "relinked A s s' \<longleftrightarrow>
     (\<exists>h. s' = s\<lparr>heap := h\<rparr> \<and>
        (\<forall>q. map_option (\<lambda>x. x\<lparr>nxt := None\<rparr>) (h q) = map_option (\<lambda>x. x\<lparr>nxt := None\<rparr>) (heap s q)) \<and>
        (\<forall>q. q \<notin> A \<longrightarrow> h q = heap s q))"

lemma relinked_refl: "relinked A s s"
  by (auto simp: relinked_def intro: exI [of _ "heap s"])

lemma relinked_trans: "relinked A s s1 \<Longrightarrow> relinked B s1 s2 \<Longrightarrow> relinked (A \<union> B) s s2"
  by (auto simp: relinked_def)

lemma relinked_mono: "relinked A s s' \<Longrightarrow> A \<subseteq> B \<Longrightarrow> relinked B s s'"
  unfolding relinked_def by blast

lemma relinked_upd:
  "heap s k = Some x \<Longrightarrow> relinked {k} s (s\<lparr>heap := (heap s)(k \<mapsto> x\<lparr>nxt := r\<rparr>)\<rparr>)"
  by (auto simp: relinked_def)

lemma relinked_outside: "relinked A s s' \<Longrightarrow> q \<notin> A \<Longrightarrow> heap s' q = heap s q"
  by (auto simp: relinked_def)

lemma relinked_item:
  assumes "relinked A s s'" "heap s q = Some x"
  obtains r where "heap s' q = Some (x\<lparr>nxt := r\<rparr>)"
proof -
  obtain y where y: "heap s' q = Some y" "y\<lparr>nxt := None\<rparr> = x\<lparr>nxt := None\<rparr>"
    using assms by (auto simp: relinked_def map_option_case split: option.splits)
      (metis option.distinct(1) option.sel)+
  then have "y = x\<lparr>nxt := nxt y\<rparr>"
    by (cases x; cases y) simp
  then show ?thesis using that [of "nxt y"] y(1) by metis
qed

lemma relinked_next_outside:
  "relinked A s s' \<Longrightarrow> set ps \<inter> A = {} \<Longrightarrow> chain (next_of s') p ps q \<longleftrightarrow> chain (next_of s) p ps q"
  by (rule chain_cong) (metis disjoint_iff next_of_def relinked_outside)

text \<open>The nodes the scan may meet: allocated, none of them in state \<open>Done\<close>.\<close>

definition cleanable :: "runtime \<Rightarrow> (wid \<Rightarrow> bool) \<Rightarrow> wid list \<Rightarrow> bool" where
  "cleanable s gone qs \<longleftrightarrow>
     (\<forall>q \<in> set qs. \<exists>x. heap s q = Some x \<and> status x \<noteq> Done \<and> (status x = Deallocatable \<longleftrightarrow> gone q))"

lemma cleanable_relinked: "cleanable s gone qs \<Longrightarrow> relinked A s s' \<Longrightarrow> cleanable s' gone qs"
  unfolding cleanable_def by (fastforce elim: relinked_item)

definition sublist_of :: "wid list \<Rightarrow> wid option \<times> wid option" where
  "sublist_of d = (Some (hd d), Some (last d))"

text \<open>What the scan and the cut of the tail leave: the list \<open>ks\<close>, and the runs \<open>rs\<close>, each still chained.\<close>

definition cut :: "runtime \<Rightarrow> wid list \<Rightarrow> (wid option \<times> wid option) list \<Rightarrow> wid list \<Rightarrow> wid list list \<Rightarrow>
    clean \<Rightarrow> runtime \<Rightarrow> bool"
where
  "cut s ps L ks rs c' s' \<longleftrightarrow>
     relinked (set ps) s s' \<and> chain (next_of s') (Some (hd ps)) ks None \<and>
     (\<forall>d \<in> set rs. \<exists>r. chain (next_of s') (Some (hd d)) d r) \<and>
     Dones c' = [] \<and> Deletable_Sublists c' = L @ map sublist_of rs"

lemma clean_tail_cut:
  assumes "chain (next_of s) (Some k) (k # ds) None" "Dones c = []"
    and "lastkeep c = k" "ds \<noteq> [] \<Longrightarrow> last_workitem c = Some (last ds)"
  shows "\<exists>c' s'. clean_tail c s = Some (c', s') \<and>
           cut s (k # ds) (Deletable_Sublists c) [k] (if ds = [] then [] else [ds]) c' s'"
proof -
  obtain x where x: "heap s k = Some x" "chain (next_of s) (nxt x) ds None"
    using assms(1) by (auto simp: next_of_def)
  show ?thesis
  proof (cases "ds = []")
    case True
    then have "clean_tail c s = Some (c, s)"
      using x assms(3) by (simp add: clean_tail_def)
    moreover have "cut s (k # ds) (Deletable_Sublists c) [k] [] c s"
      using assms(1,2) True by (simp add: cut_def relinked_refl)
    ultimately show ?thesis using True by auto
  next
    case False
    then have n: "nxt x = Some (hd ds)" using x(2) chain_hd [OF x(2)] by (cases ds) auto
    let ?s = "s\<lparr>heap := (heap s)(k \<mapsto> x\<lparr>nxt := None\<rparr>)\<rparr>"
    let ?c = "c\<lparr>Deletable_Sublists := Deletable_Sublists c @ [sublist_of ds]\<rparr>"
    have "clean_tail c s = Some (?c, ?s)"
      using x assms(3,4) False n by (simp add: clean_tail_def upd_def sublist_of_def)
    moreover have "cut s (k # ds) (Deletable_Sublists c) [k] [ds] ?c ?s"
    proof -
      have "k \<notin> set ds" using chain_null_distinct [OF assms(1)] by simp
      then have "chain (next_of ?s) (Some (hd ds)) ds None"
        using x(2) n relinked_next_outside [OF relinked_upd [OF x(1)], of ds] by simp
      moreover have "relinked (set (k # ds)) s ?s"
        by (rule relinked_mono [OF relinked_upd [OF x(1)]]) simp
      ultimately show ?thesis
        using assms(2) by (auto simp: cut_def next_of_def)
    qed
    ultimately show ?thesis using False by auto
  qed
qed

text \<open>Putting the node \<open>k\<close> and the run \<open>ds\<close> in front of what has been cut behind \<open>q\<close>.\<close>

lemma cut_keep:
  assumes "cut s (q # qs) L ks rs c' s'" "chain (next_of s) (Some k) (k # ds) (Some q)"
    and "set (k # ds) \<inter> set (q # qs) = {}"
  shows "cut s (k # ds @ q # qs) L (k # ds @ ks) rs c' s'"
proof -
  have "chain (next_of s') (Some k) (k # ds) (Some q)"
    using assms relinked_next_outside [of _ s s' "k # ds"] unfolding cut_def by metis
  then have "chain (next_of s') (Some k) ((k # ds) @ ks) None"
    using assms(1) unfolding chain_append cut_def by (metis list.sel(1))
  moreover have "relinked (set (k # ds @ q # qs)) s s'"
    using assms(1) by (auto simp: cut_def intro: relinked_mono)
  ultimately show ?thesis
    using assms(1) by (simp add: cut_def)
qed

lemma cut_drop:
  assumes "cut s1 (q # qs) (L @ [sublist_of ds]) ks rs c' s'"
    and "s1 = s\<lparr>heap := (heap s)(k \<mapsto> x\<lparr>nxt := Some q\<rparr>)\<rparr>" "heap s k = Some x"
    and "chain (next_of s) (Some k) (k # ds) (Some q)" "distinct (k # ds @ q # qs)" "ds \<noteq> []"
  shows "cut s (k # ds @ q # qs) L (k # ks) (ds # rs) c' s'"
proof -
  have r1: "relinked {k} s s1" unfolding assms(2) by (rule relinked_upd [OF assms(3)])
  have r2: "relinked (set (q # qs)) s1 s'" using assms(1) by (simp add: cut_def)
  have r: "relinked (set (k # ds @ q # qs)) s s'"
    by (rule relinked_mono [OF relinked_trans [OF r1 r2]]) auto
  have dj: "set ds \<inter> set (q # qs) = {}" "set ds \<inter> {k} = {}" "k \<notin> set (q # qs)"
    using assms(5) by auto
  have "nxt x = Some (hd ds)" "chain (next_of s) (nxt x) ds (Some q)"
    using assms(3,4,6) by (cases ds; auto simp: next_of_def)+
  then have d: "chain (next_of s') (Some (hd ds)) ds (Some q)"
    using relinked_next_outside [OF r2 dj(1)] relinked_next_outside [OF r1 dj(2)] by simp
  have "heap s' k = Some (x\<lparr>nxt := Some q\<rparr>)"
    using relinked_outside [OF r2 dj(3)] assms(2) by simp
  then have "chain (next_of s') (Some k) (k # ks) None"
    using assms(1) by (auto simp: cut_def next_of_def)
  then show ?thesis
    using assms(1) r d by (auto simp: cut_def)
qed

lemma keep_node_few:
  assumes "status x \<noteq> Done" "\<not> deletable_workitems c > 4"
  shows "keep_node q x c s =
     Some (c\<lparr>lastkeep := q, last_workitem := Some q, deletable_workitems := 0\<rparr>, s)"
  using assms by (simp add: keep_node_def Let_def)

lemma keep_node_many:
  assumes "status x \<noteq> Done" "deletable_workitems c > 4" "heap s (lastkeep c) = Some y"
  shows "keep_node q x c s =
     Some (c\<lparr>lastkeep := q, last_workitem := Some q, deletable_workitems := 0,
             Deletable_Sublists := Deletable_Sublists c @ [(nxt y, last_workitem c)]\<rparr>,
           s\<lparr>heap := (heap s)(lastkeep c \<mapsto> y\<lparr>nxt := Some q\<rparr>)\<rparr>)"
  using assms by (simp add: keep_node_def Let_def upd_def)

definition scan_state :: "clean \<Rightarrow> wid \<Rightarrow> wid list \<Rightarrow> bool" where
  "scan_state c k ds \<longleftrightarrow>
     lastkeep c = k \<and> deletable_workitems c = length ds \<and> Dones c = [] \<and>
     (ds \<noteq> [] \<longrightarrow> last_workitem c = Some (last ds))"

definition first_of :: "wid list \<Rightarrow> wid option" where
  "first_of qs = (case qs of [] \<Rightarrow> None | q # _ \<Rightarrow> Some q)"

lemma clean_scan_cut:
  assumes "chain (next_of s) (Some k) (k # ds @ qs) None" "cleanable s gone qs" "scan_state c k ds"
    and "clean_list gone k ds qs = (ks, rs)"
  shows "\<exists>c1 s1 c2 s2. clean_scan (first_of qs) c s = Some (c1, s1) \<and> clean_tail c1 s1 = Some (c2, s2) \<and>
           cut s (k # ds @ qs) (Deletable_Sublists c) ks rs c2 s2"
  using assms
proof (induction gone k ds qs arbitrary: c s ks rs rule: clean_list.induct)
  case (1 gone k ds)
  have "clean_scan (first_of []) c s = Some (c, s)"
    by (simp add: first_of_def clean_scan.simps)
  moreover have "\<exists>c2 s2. clean_tail c s = Some (c2, s2) \<and>
      cut s (k # ds) (Deletable_Sublists c) [k] (if ds = [] then [] else [ds]) c2 s2"
    by (rule clean_tail_cut) (use "1.prems" in \<open>auto simp: scan_state_def\<close>)
  ultimately show ?case
    using "1.prems"(4) by auto
next
  case (2 gone k ds q qs)
  obtain x where x: "heap s q = Some x" "status x \<noteq> Done" "status x = Deallocatable \<longleftrightarrow> gone q"
    using "2.prems"(2) by (auto simp: cleanable_def)
  have cl: "cleanable s gone qs" using "2.prems"(2) by (auto simp: cleanable_def)
  have dist: "distinct (k # ds @ q # qs)" by (rule chain_null_distinct [OF "2.prems"(1)])
  have ch: "chain (next_of s) (Some k) (k # ds) (Some q)" "chain (next_of s) (Some q) (q # qs) None"
    using "2.prems"(1) chain_append [of "next_of s" "Some k" "k # ds" "q # qs" None] by auto
  have nx: "nxt x = first_of qs"
    using ch(2) x(1) chain_hd [of "next_of s" "nxt x" qs] by (auto simp: first_of_def next_of_def)
  have unf: "clean_scan (first_of (q # qs)) c s =
      (if status x \<noteq> Deallocatable
       then do { (c1, s1) \<leftarrow> keep_node q x c s; clean_scan (first_of qs) c1 s1 }
       else clean_scan (first_of qs)
              (c\<lparr>deletable_workitems := deletable_workitems c + 1, last_workitem := Some q\<rparr>) s)"
    using x(1) nx by (simp add: first_of_def clean_scan.simps [of "Some q"])
  show ?case
  proof (cases "gone q")
    case True
    let ?c = "c\<lparr>deletable_workitems := deletable_workitems c + 1, last_workitem := Some q\<rparr>"
    have "scan_state ?c k (ds @ [q])" using "2.prems"(3) by (simp add: scan_state_def)
    then show ?thesis
      using "2.IH"(1) [OF True, of s ?c ks rs] "2.prems"(1,4) cl unf x(3) True by simp
  next
    case False
    obtain ks' rs' where r: "clean_list gone q [] qs = (ks', rs')" by fastforce
    show ?thesis
    proof (cases "deletable_workitems c > 4")
      case few: False
      let ?c = "c\<lparr>lastkeep := q, last_workitem := Some q, deletable_workitems := 0\<rparr>"
      have st: "scan_state ?c q []" using "2.prems"(3) by (simp add: scan_state_def)
      have ch': "chain (next_of s) (Some q) (q # [] @ qs) None" using ch(2) by simp
      obtain c1 s1 c2 s2 where i: "clean_scan (first_of qs) ?c s = Some (c1, s1)"
        "clean_tail c1 s1 = Some (c2, s2)" "cut s (q # qs) (Deletable_Sublists c) ks' rs' c2 s2"
        using "2.IH"(2) [OF False ch' cl st r] by auto
      have "cut s (k # ds @ q # qs) (Deletable_Sublists c) (k # ds @ ks') rs' c2 s2"
        by (rule cut_keep [OF i(3) ch(1)]) (use dist in auto)
      moreover have "ks = k # ds @ ks'" "rs = rs'"
        using "2.prems"(3,4) False r few by (auto simp: scan_state_def)
      ultimately show ?thesis
        using i(1,2) unf x False few keep_node_few [of x c q s] by auto
    next
      case many: True
      then have len: "length ds > 4" "lastkeep c = k" "ds \<noteq> []"
        using "2.prems"(3) by (auto simp: scan_state_def)
      obtain y where y: "heap s k = Some y" using ch(1) by (auto simp: next_of_def)
      let ?s = "s\<lparr>heap := (heap s)(k \<mapsto> y\<lparr>nxt := Some q\<rparr>)\<rparr>"
      let ?c = "c\<lparr>lastkeep := q, last_workitem := Some q, deletable_workitems := 0,
             Deletable_Sublists := Deletable_Sublists c @ [(nxt y, last_workitem c)]\<rparr>"
      have sub: "(nxt y, last_workitem c) = sublist_of ds"
        using "2.prems"(3) ch(1) y len(3)
        by (cases ds) (auto simp: scan_state_def sublist_of_def next_of_def)
      have rl: "relinked {k} s ?s" by (rule relinked_upd [OF y])
      have "set (q # qs) \<inter> {k} = {}" using dist by auto
      from relinked_next_outside [OF rl this] ch(2)
      have ch': "chain (next_of ?s) (Some q) (q # [] @ qs) None"
        by (simp only: append_Nil)
      have st: "scan_state ?c q []" using "2.prems"(3) by (simp add: scan_state_def)
      obtain c1 s1 c2 s2 where i: "clean_scan (first_of qs) ?c ?s = Some (c1, s1)"
        "clean_tail c1 s1 = Some (c2, s2)" "cut ?s (q # qs) (Deletable_Sublists ?c) ks' rs' c2 s2"
        using "2.IH"(2) [OF False ch' cleanable_relinked [OF cl rl] st r] by auto
      have "cut s (k # ds @ q # qs) (Deletable_Sublists c) (k # ks') (ds # rs') c2 s2"
        by (rule cut_drop [OF _ refl y ch(1) dist len(3)]) (use i(3) sub in simp)
      moreover have "ks = k # ks'" "rs = ds # rs'"
        using "2.prems"(4) False r len by auto
      ultimately show ?thesis
        using i(1,2) unf x False many len(2) y keep_node_many [of x c s y q] by auto
    qed
  qed
qed

definition freed :: "wid set \<Rightarrow> runtime \<Rightarrow> runtime" where
  "freed A s = s\<lparr>heap := (heap s) |` (- A)\<rparr>"

lemma freed_freed: "freed B (freed A s) = freed (A \<union> B) s"
  by (auto simp: freed_def restrict_map_def fun_eq_iff intro!: arg_cong [where f = "\<lambda>h. s\<lparr>heap := h\<rparr>"])

lemma freed_next: "set ps \<inter> A = {} \<Longrightarrow> chain (next_of (freed A s)) p ps q \<longleftrightarrow> chain (next_of s) p ps q"
  by (rule chain_cong) (auto simp: next_of_def freed_def restrict_map_def)

lemma free_sublist_closed:
  assumes "chain (next_of s) (Some (hd d)) d r" "d \<noteq> []" "distinct d"
  shows "free_sublist (Some (hd d)) (Some (last d)) s = Some (freed (set d) s)"
  using assms
proof (induction d arbitrary: s)
  case (Cons q d)
  obtain r' where r': "next_of s q = Some r'" "chain (next_of s) r' d r"
    using Cons.prems(1) by auto
  then obtain x where x: "heap s q = Some x" "chain (next_of s) (nxt x) d r"
    by (auto simp: next_of_def)
  have f: "s\<lparr>heap := (heap s)(q := None)\<rparr> = freed {q} s"
    by (auto simp: freed_def restrict_map_def fun_eq_iff intro!: arg_cong [where f = "\<lambda>h. s\<lparr>heap := h\<rparr>"])
  show ?case
  proof (cases "d = []")
    case True
    then show ?thesis
      using x f by (simp add: free_sublist.simps [of "Some q"])
  next
    case False
    then have n: "nxt x = Some (hd d)" using x(2) by (cases d) auto
    have "set d \<inter> {q} = {}" using Cons.prems(3) by auto
    then have "chain (next_of (freed {q} s)) (Some (hd d)) d r"
      using x(2) n freed_next by metis
    then have "free_sublist (Some (hd d)) (Some (last d)) (freed {q} s) = Some (freed (set d) (freed {q} s))"
      using Cons.IH False Cons.prems(3) by simp
    moreover have "q \<noteq> last d" using False Cons.prems(3) by auto
    ultimately show ?thesis
      using x(1) n f False freed_freed [of "set d" "{q}" s]
      by (simp add: free_sublist.simps [of "Some q"] Let_def)
  qed
qed simp

lemma free_sublists_closed:
  assumes "\<forall>d \<in> set rs. d \<noteq> [] \<and> (\<exists>r. chain (next_of s) (Some (hd d)) d r)" "distinct (concat rs)"
  shows "free_sublists (map sublist_of rs) s = Some (freed (set (concat rs)) s)"
  using assms
proof (induction rs arbitrary: s)
  case Nil
  have "(heap s) |` (- {}) = heap s" by (simp add: restrict_map_def)
  then show ?case by (simp add: freed_def)
next
  case (Cons d rs)
  have d: "free_sublist (Some (hd d)) (Some (last d)) s = Some (freed (set d) s)"
    using Cons.prems free_sublist_closed by auto
  have "\<forall>e \<in> set rs. e \<noteq> [] \<and> (\<exists>r. chain (next_of (freed (set d) s)) (Some (hd e)) e r)"
  proof
    fix e assume e: "e \<in> set rs"
    then have "set e \<inter> set d = {}" using Cons.prems(2) by auto
    then show "e \<noteq> [] \<and> (\<exists>r. chain (next_of (freed (set d) s)) (Some (hd e)) e r)"
      using Cons.prems(1) e freed_next by (metis list.set_intros(2))
  qed
  then have "free_sublists (map sublist_of rs) (freed (set d) s) =
      Some (freed (set (concat rs)) (freed (set d) s))"
    using Cons.IH Cons.prems(2) by simp
  then show ?case
    using d sublist_of_def [of d] by (simp add: freed_freed)
qed

text \<open>The whole operation on a list \<open>ps\<close> of which \<open>ks\<close> stays.\<close>

definition cleaned :: "runtime \<Rightarrow> wid list \<Rightarrow> wid list \<Rightarrow> runtime \<Rightarrow> bool" where
  "cleaned s ps ks s' \<longleftrightarrow>
     (\<exists>h. s' = s\<lparr>heap := h, eraser_assigned := False\<rparr>) \<and>
     chain (next_of s') (worklist s) ks None \<and> subseq ks ps \<and>
     (\<forall>p \<in> set ps - set ks. heap s' p = None \<and> status (item s p) = Deallocatable) \<and>
     (\<forall>p \<in> set ks. \<exists>r. heap s' p = Some ((item s p)\<lparr>nxt := r\<rparr>)) \<and>
     (\<forall>p. p \<notin> set ps \<longrightarrow> heap s' p = heap s p)"

lemma wait_newer_here: "wait_newer p p s = Some ()"
  by (simp add: wait_newer.simps)

lemma Clean_worklist_closed:
  assumes "chain (next_of s) (worklist s) (h # qs) None"
    and "\<forall>p \<in> set (h # qs). \<forall>x. heap s p = Some x \<longrightarrow> status x \<noteq> Done"
    and "clean_list (\<lambda>p. status (item s p) = Deallocatable) h [] qs = (ks, rs)"
  shows "\<exists>s'. Clean_worklist (worklist s) s = Some s' \<and> cleaned s (h # qs) ks s'"
proof -
  let ?gone = "\<lambda>p. status (item s p) = Deallocatable"
  let ?c = "\<lparr>lastkeep = h, last_workitem = None, deletable_workitems = 0, Dones = [], Deletable_Sublists = []\<rparr>"
  have w: "worklist s = Some h" using assms(1) by simp
  obtain x where x: "heap s h = Some x" "chain (next_of s) (nxt x) qs None"
    using assms(1) by (auto simp: next_of_def)
  have nx: "nxt x = first_of qs" using chain_hd [OF x(2)] by (simp add: first_of_def)
  have cl: "cleanable s ?gone qs"
    unfolding cleanable_def
  proof
    fix q assume q: "q \<in> set qs"
    then obtain y where "heap s q = Some y" using chain_allocated [OF x(2)] by blast
    then show "\<exists>x. heap s q = Some x \<and> status x \<noteq> Done \<and> (status x = Deallocatable \<longleftrightarrow> ?gone q)"
      using assms(2) q by auto
  qed
  have ch: "chain (next_of s) (Some h) (h # [] @ qs) None" using assms(1) w by simp
  obtain c1 s1 c2 s2 where r: "clean_scan (first_of qs) ?c s = Some (c1, s1)"
    "clean_tail c1 s1 = Some (c2, s2)" "cut s (h # [] @ qs) (Deletable_Sublists ?c) ks rs c2 s2"
    using clean_scan_cut [OF ch cl _ assms(3), of ?c] by (auto simp: scan_state_def)
  have dist: "distinct (h # qs)" by (rule chain_null_distinct [OF assms(1)])
  have part: "mset ks + mset (concat rs) = mset (h # qs)" using clean_list_partition [OF assms(3)] by simp
  then have dd: "distinct (ks @ concat rs)" "set ks \<union> set (concat rs) = set (h # qs)"
    using dist by (metis mset_append mset_eq_imp_distinct_iff, metis mset_append mset_eq_setD set_append)
  have rl: "relinked (set (h # qs)) s s2" and cks: "chain (next_of s2) (Some h) ks None"
    and rs: "\<forall>d \<in> set rs. d \<noteq> [] \<and> (\<exists>r. chain (next_of s2) (Some (hd d)) d r)"
    and L: "Dones c2 = []" "Deletable_Sublists c2 = map sublist_of rs"
    using r(3) clean_list_gone [OF assms(3)] by (auto simp: cut_def list_all_iff)
  have fr: "free_sublists (map sublist_of rs) s2 = Some (freed (set (concat rs)) s2)"
    using rs dd(1) by (intro free_sublists_closed) auto
  let ?s' = "(freed (set (concat rs)) s2)\<lparr>eraser_assigned := False\<rparr>"
  obtain hp where hp: "s2 = s\<lparr>heap := hp\<rparr>" using rl by (auto simp: relinked_def)
  have "Clean_worklist (worklist s) s = Some ?s'"
    using w x(1) nx r(1,2) L fr hp by (simp add: Clean_worklist_def wait_newer_here)
  moreover have "cleaned s (h # qs) ks ?s'"
    unfolding cleaned_def
  proof (intro conjI ballI allI impI)
    show "\<exists>h. ?s' = s\<lparr>heap := h, eraser_assigned := False\<rparr>" using hp by (auto simp: freed_def)
    show "subseq ks (h # qs)" using clean_list_subseq [OF assms(3)] by simp
    have "set ks \<inter> set (concat rs) = {}" using dd(1) by auto
    then have "chain (next_of (freed (set (concat rs)) s2)) (Some h) ks None"
      using freed_next cks by metis
    moreover have "next_of ?s' = next_of (freed (set (concat rs)) s2)"
      by (simp add: next_of_def fun_eq_iff)
    ultimately show "chain (next_of ?s') (worklist s) ks None"
      using w by simp
  next
    fix p assume p: "p \<in> set (h # qs) - set ks"
    then have "p \<in> set (concat rs)" using dd(2) by auto
    then show "heap ?s' p = None" "?gone p"
      using clean_list_gone [OF assms(3)] by (auto simp: freed_def list_all_iff)
  next
    fix p assume p: "p \<in> set ks"
    then have "p \<notin> set (concat rs)" "p \<in> set (h # qs)" using dd by auto
    moreover obtain y where "heap s p = Some y"
      using chain_allocated [OF assms(1)] calculation(2) by blast
    ultimately show "\<exists>r. heap ?s' p = Some ((item s p)\<lparr>nxt := r\<rparr>)"
      using relinked_item [OF rl] by (fastforce simp: freed_def restrict_map_def)
  next
    fix p assume "p \<notin> set (h # qs)"
    then show "heap ?s' p = heap s p"
      using relinked_outside [OF rl] dd(2) by (auto simp: freed_def restrict_map_def)
  qed
  ultimately show ?thesis by blast
qed

section \<open>Properties\<close>

text \<open>The last node that stays is the first of the list or has not finished.\<close>

lemma clean_list_last:
  "clean_list gone k ds qs = (ks, rs) \<Longrightarrow> ks \<noteq> [] \<and> (last ks = k \<or> \<not> gone (last ks))"
proof (induction gone k ds qs arbitrary: ks rs rule: clean_list.induct)
  case (2 gone k ds q qs)
  show ?case
  proof (cases "gone q")
    case True
    then show ?thesis using "2.IH"(1) [OF True] "2.prems" by simp
  next
    case False
    obtain ks' rs' where r: "clean_list gone q [] qs = (ks', rs')" by fastforce
    then have "ks' \<noteq> []" "last ks' = q \<or> \<not> gone (last ks')" using "2.IH"(2) [OF False r] by auto
    then show ?thesis using "2.prems" r False by (auto split: if_splits)
  qed
qed auto

text \<open>
  C18: \<open>Clean_worklist\<close> ends, cuts only tasks that are deallocatable out of the list and gives their
  nodes back; the nodes that stay keep their order and their contents, no node behind the last
  unfinished one stays except the first of the list, and the role of the eraser is free again.
\<close>

theorem Clean_worklist_right:
  assumes "chain (next_of s) (worklist s) ps None" "ps \<noteq> []" "\<forall>p \<in> set ps. status (item s p) \<noteq> Done"
  shows "\<exists>s' ks. Clean_worklist (worklist s) s = Some s' \<and> \<not> eraser_assigned s' \<and>
           chain (next_of s') (worklist s') ks None \<and> subseq ks ps \<and>
           (\<forall>p \<in> set ps - set ks. heap s' p = None \<and> status (item s p) = Deallocatable) \<and>
           (\<forall>p \<in> set ks. \<exists>r. heap s' p = Some ((item s p)\<lparr>nxt := r\<rparr>)) \<and>
           (last ks = hd ps \<or> status (item s (last ks)) \<noteq> Deallocatable)"
proof -
  obtain h qs where ps: "ps = h # qs" using assms(2) by (cases ps) auto
  obtain ks rs where cl: "clean_list (\<lambda>p. status (item s p) = Deallocatable) h [] qs = (ks, rs)"
    by fastforce
  have nd: "\<forall>p \<in> set (h # qs). \<forall>x. heap s p = Some x \<longrightarrow> status x \<noteq> Done"
    using assms(3) ps by fastforce
  obtain s' where s': "Clean_worklist (worklist s) s = Some s'" "cleaned s (h # qs) ks s'"
    using Clean_worklist_closed [OF _ nd cl] assms(1) ps by blast
  then have "worklist s' = worklist s" "\<not> eraser_assigned s'" by (auto simp: cleaned_def)
  then show ?thesis
    using s' ps clean_list_last [OF cl] by (intro exI [of _ s'] exI [of _ ks]) (auto simp: cleaned_def)
qed

text \<open>A list of one running task and two that have finished.\<close>

definition sample_item :: "status_t \<Rightarrow> wid option \<Rightarrow> workitem" where
  "sample_item st nx =
     \<lparr>status = st, optFlags = 0, guard = 0, nargs = 0, args = [], nxt = nx, father = None,
      ndependencies = 0, nchildren = 0, task = None, deps = []\<rparr>"

definition sample_list :: runtime where
  "sample_list = empty_runtime\<lparr>heap :=
     [1 \<mapsto> sample_item Running (Some 2), 2 \<mapsto> sample_item Deallocatable (Some 3),
      3 \<mapsto> sample_item Deallocatable None], worklist := Some 1, eraser_assigned := True\<rparr>"

lemma Clean_worklist_right_witness:
  "\<exists>s' ks. Clean_worklist (worklist sample_list) sample_list = Some s' \<and> \<not> eraser_assigned s' \<and>
     chain (next_of s') (worklist s') ks None \<and> subseq ks [1, 2, 3]"
proof -
  have c: "chain (next_of sample_list) (worklist sample_list) [1, 2, 3] None"
    by (simp add: sample_list_def sample_item_def next_of_def)
  have d: "\<forall>p \<in> set [1, 2, 3]. status (item sample_list p) \<noteq> Done"
    by (simp add: sample_list_def sample_item_def)
  show ?thesis using Clean_worklist_right [OF c _ d] by blast
qed

end
