(* ===== verification/Invariant.thy ===== *)
theory Invariant
  imports Completion
begin

text \<open>
  The invariant of the runtime between two operations, in parts: the worklist, the dependency
  edges and their counters, the families of tasks, and the queue of the thread pool. \<open>ps\<close> are
  the nodes of the worklist, newest first, \<open>E\<close> the tasks whose function is running, \<open>X\<close> the
  tasks that the finishing thread has taken down to no children and not completed yet.
\<close>

section \<open>The parts\<close>

definition shape :: "runtime \<Rightarrow> wid list \<Rightarrow> bool" where
  "shape s ps \<longleftrightarrow>
     chain (next_of s) (worklist s) ps None \<and> dom (heap s) = set ps \<and>
     (\<forall>p \<in> set ps. status (item s p) \<noteq> Filling \<and> status (item s p) \<noteq> Done)"

definition preds :: "runtime \<Rightarrow> wid \<Rightarrow> wid set" where
  "preds s q = {p. heap s p \<noteq> None \<and> q \<in> set (deps (item s p))}"

definition edges :: "runtime \<Rightarrow> wid list \<Rightarrow> bool" where
  "edges s ps \<longleftrightarrow>
     (\<forall>p \<in> set ps. distinct (deps (item s p)) \<and>
        (status (item s p) = Deallocatable \<longrightarrow> deps (item s p) = []) \<and>
        (\<forall>d \<in> set (deps (item s p)). before ps d p \<and> live s d \<and>
           conflicts (args (item s p)) (args (item s d)))) \<and>
     (\<forall>q. live s q \<longrightarrow> ndependencies (item s q) = int (card (preds s q)) \<and>
        (status (item s q) = Waiting \<longleftrightarrow> preds s q \<noteq> {}))"

definition kids :: "runtime \<Rightarrow> wid \<Rightarrow> wid set" where
  "kids s p = {c. live s c \<and> father (item s c) = Some p}"

definition member_ok :: "runtime \<Rightarrow> wid set \<Rightarrow> wid set \<Rightarrow> wid list \<Rightarrow> wid \<Rightarrow> bool" where
  "member_ok s E X ps p \<longleftrightarrow>
     (\<forall>a. father (item s p) = Some a \<longrightarrow> live s a \<and> status (item s a) = Running \<and> before ps p a) \<and>
     (optFlags (item s p) AND FatherScape \<noteq> 0 \<longrightarrow> father (item s p) \<noteq> None) \<and>
     nchildren (item s p) =
       (if status (item s p) = Running \<and> p \<notin> E then 0 else 1) + int (card (kids s p)) \<and>
     (status (item s p) = Running \<longrightarrow> p \<in> E \<or> p \<in> X \<or> kids s p \<noteq> {})"

definition family :: "runtime \<Rightarrow> wid set \<Rightarrow> wid set \<Rightarrow> wid list \<Rightarrow> bool" where
  "family s E X ps \<longleftrightarrow>
     (\<forall>p. live s p \<longrightarrow> member_ok s E X ps p) \<and>
     (\<forall>e \<in> E. live s e \<and> status (item s e) = Running)"

definition queued :: "runtime \<Rightarrow> bool" where
  "queued s \<longleftrightarrow>
     (\<forall>p. live s p \<longrightarrow> (\<exists>t. task (item s p) = Some t \<and> ctx t = Some p)) \<and>
     (\<exists>rs. distinct rs \<and> set rs = {p. live s p \<and> status (item s p) = Ready} \<and>
           tqueue s = map (\<lambda>p. the (task (item s p))) rs)"

definition args_in :: "arg_info list set \<Rightarrow> runtime \<Rightarrow> bool" where
  "args_in U s \<longleftrightarrow> (\<forall>p. live s p \<longrightarrow> args (item s p) \<in> U)"

definition coherent :: "arg_info list set \<Rightarrow> runtime \<Rightarrow> wid set \<Rightarrow> wid set \<Rightarrow> wid list \<Rightarrow> bool" where
  "coherent U s E X ps \<longleftrightarrow>
     shape s ps \<and> edges s ps \<and> family s E X ps \<and> queued s \<and> args_in U s"

text \<open>The argument lists that the tasks of a program may have.\<close>

definition universe :: "arg_info list set \<Rightarrow> bool" where
  "universe U \<longleftrightarrow> (\<forall>as \<in> U. length as \<le> 127 \<and> (\<forall>bs \<in> U. comparison_ok as bs))"

section \<open>Consequences\<close>

lemma live_alt: "live s p \<longleftrightarrow> heap s p \<noteq> None \<and> status (item s p) < Done"
  by (auto simp: live_def split: option.splits)

lemma shapeD:
  assumes "shape s ps"
  shows "chain (next_of s) (worklist s) ps None" "distinct ps"
    and "heap s p \<noteq> None \<longleftrightarrow> p \<in> set ps"
    and "live s p \<longleftrightarrow> p \<in> set ps \<and> status (item s p) \<noteq> Deallocatable"
  using assms chain_null_distinct [of "next_of s" "worklist s" ps]
  by (auto simp: shape_def live_alt less_Done_iff dom_def)

lemma finite_preds: "shape s ps \<Longrightarrow> finite (preds s q)"
  by (rule finite_subset [of _ "set ps"]) (auto simp: preds_def shapeD(3) [symmetric])

lemma finite_kids: "shape s ps \<Longrightarrow> finite (kids s q)"
  by (rule finite_subset [of _ "set ps"]) (auto simp: kids_def shapeD(4))

lemma inv_insertable:
  assumes "coherent U s E X ps" "universe U" "as \<in> U" "heap s w = None" "\<And>a. fa = Some a \<Longrightarrow> a \<in> E"
  shows "insertable s w as fa ps"
proof -
  have sh: "shape s ps" and fm: "family s E X ps" and ar: "args_in U s"
    using assms(1) by (auto simp: coherent_def)
  show ?thesis
    unfolding insertable_def
  proof (intro conjI allI ballI impI)
    show "length as \<le> 127" using assms(2,3) by (simp add: universe_def)
    show "chain (next_of s) (worklist s) ps None" by (rule shapeD(1) [OF sh])
  next
    fix p assume p: "p \<in> set ps"
    show "heap s p \<noteq> None" using p shapeD(3) [OF sh] by blast
    show "status (item s p) \<noteq> Filling" using p sh by (simp add: shape_def)
    fix a assume "live s p" "father (item s p) = Some a"
    then show "live s a" using fm unfolding family_def member_ok_def by blast
  next
    fix p assume "live s p"
    then show "comparison_ok (args (item s p)) as"
      using ar assms(2,3) by (auto simp: args_in_def universe_def)
  next
    fix a assume "fa = Some a"
    then show "live s a" using assms(5) fm unfolding family_def by blast
  qed (use assms in auto)
qed

section \<open>Spawning keeps the invariant\<close>

lemma heap_spawned_new:
  "heap (spawned w f as fa D e s) w =
     Some \<lparr>status = if D = [] then Ready else Waiting, optFlags = if e then FatherScape else 0,
           guard = 0, nargs = word_of_nat (length as), args = as, nxt = worklist s, father = fa,
           ndependencies = int (length D), nchildren = 1,
           task = Some \<lparr>func = f, ctx = Some w\<rparr>, deps = []\<rparr>"
  by (simp add: spawned_def)

lemma heap_spawned_old:
  "q \<noteq> w \<Longrightarrow> heap (spawned w f as fa D e s) q =
     map_option (\<lambda>x. x\<lparr>nchildren := nchildren x + (if fa = Some q then 1 else 0),
                       deps := deps x @ (if q \<in> set D then [w] else [])\<rparr>) (heap s q)"
  by (simp add: spawned_def)

lemma spawned_simps [simp]:
  "eraser_assigned (spawned w f as fa D e s) = eraser_assigned s"
  "worklist (spawned w f as fa D e s) = Some w"
  by (simp_all add: spawned_def)

lemma live_spawned: "live (spawned w f as fa D e s) q \<longleftrightarrow> q = w \<or> live s q"
  by (cases "q = w"; cases "heap s q")
    (auto simp: live_def heap_spawned_new heap_spawned_old less_Done_iff)

lemma item_spawned_old:
  assumes "q \<noteq> w" "heap s q \<noteq> None"
  shows "item (spawned w f as fa D e s) q =
     (item s q)\<lparr>nchildren := nchildren (item s q) + (if fa = Some q then 1 else 0),
                deps := deps (item s q) @ (if q \<in> set D then [w] else [])\<rparr>"
  using assms by (auto simp: heap_spawned_old)

lemma shape_spawned:
  assumes "shape s ps" "heap s w = None"
  shows "shape (spawned w f as fa D e s) (w # ps)"
proof -
  let ?s = "spawned w f as fa D e s"
  have w: "w \<notin> set ps" using shapeD(3) [OF assms(1)] assms(2) by blast
  have old: "heap ?s q \<noteq> None \<longleftrightarrow> heap s q \<noteq> None" "next_of ?s q = next_of s q"
    "heap s q \<noteq> None \<Longrightarrow> status (item ?s q) = status (item s q)" if "q \<noteq> w" for q
    using that by (cases "heap s q"; simp add: heap_spawned_old next_of_def)+
  have "chain (next_of ?s) (worklist s) ps None"
    using shapeD(1) [OF assms(1)] old(2) w by (metis chain_cong)
  moreover have "next_of ?s w = Some (worklist s)" "worklist ?s = Some w"
    by (simp_all add: next_of_def heap_spawned_new spawned_def)
  moreover have "p \<in> dom (heap ?s) \<longleftrightarrow> p \<in> set (w # ps)" for p
    using old(1) [of p] shapeD(3) [OF assms(1), of p]
    by (cases "p = w") (auto simp: heap_spawned_new)
  then have "dom (heap ?s) = set (w # ps)" by blast
  moreover have "status (item ?s p) \<noteq> Filling \<and> status (item ?s p) \<noteq> Done" if "p \<in> set (w # ps)" for p
  proof (cases "p = w")
    case False
    then have "p \<in> set ps" using that by simp
    then show ?thesis
      using old(3) [OF False] assms(1) shapeD(3) [OF assms(1)] unfolding shape_def by metis
  qed (simp add: heap_spawned_new)
  ultimately show ?thesis
    unfolding shape_def by simp
qed

lemma preds_spawned:
  assumes "edges s ps" "shape s ps" "heap s w = None" "\<forall>d \<in> set D. live s d"
  shows "preds (spawned w f as fa D e s) q = (if q = w then set D else preds s q)"
proof -
  let ?s = "spawned w f as fa D e s"
  have new: "w \<notin> set (deps (item s p))" if "heap s p \<noteq> None" for p
  proof -
    have "p \<in> set ps" using that shapeD(3) [OF assms(2)] by blast
    then have "\<forall>d \<in> set (deps (item s p)). live s d" using assms(1) by (auto simp: edges_def)
    then show ?thesis using assms(3) liveD by blast
  qed
  have "p \<in> preds ?s q \<longleftrightarrow> p \<in> (if q = w then set D else preds s q)" for p
  proof (cases "p = w")
    case True
    moreover have "w \<notin> set D" using assms(3,4) liveD by blast
    moreover have "w \<notin> preds s q" using assms(3) by (simp add: preds_def)
    ultimately show ?thesis
      by (simp add: preds_def heap_spawned_new)
  next
    case False
    show ?thesis
    proof (cases "heap s p")
      case None
      moreover have "p \<notin> set D" using None assms(4) liveD by blast
      ultimately show ?thesis
        using False by (simp add: preds_def heap_spawned_old)
    next
      case (Some x)
      then show ?thesis
        using False new [of p] by (auto simp: preds_def heap_spawned_old)
    qed
  qed
  then show ?thesis by blast
qed

lemma edges_spawned:
  assumes "edges s ps" "shape s ps" "heap s w = None" "\<forall>d \<in> set D. live s d" "distinct D"
    and "\<forall>d \<in> set D. conflicts (args (item s d)) as"
  shows "edges (spawned w f as fa D e s) (w # ps)"
proof -
  let ?s = "spawned w f as fa D e s"
  have w: "w \<notin> set ps" using shapeD(3) [OF assms(2)] assms(3) by blast
  note pr = preds_spawned [OF assms(1-4), of f as fa e]
  have alloc: "heap s p \<noteq> None" if "p \<in> set ps" for p using that shapeD(3) [OF assms(2)] by blast
  have one: "distinct (deps (item ?s p)) \<and> (status (item ?s p) = Deallocatable \<longrightarrow> deps (item ?s p) = []) \<and>
      (\<forall>d \<in> set (deps (item ?s p)). before (w # ps) d p \<and> live ?s d \<and>
         conflicts (args (item ?s p)) (args (item ?s d)))" if p: "p \<in> set ps" for p
  proof -
    have pw: "p \<noteq> w" using p w by blast
    have old: "distinct (deps (item s p))" "status (item s p) = Deallocatable \<longrightarrow> deps (item s p) = []"
      "\<forall>d \<in> set (deps (item s p)). before ps d p \<and> live s d \<and> conflicts (args (item s p)) (args (item s d))"
      using assms(1) p by (auto simp: edges_def)
    have "w \<notin> set (deps (item s p))" using old(3) assms(3) liveD by blast
    moreover have "args (item ?s d) = args (item s d)" if "d \<in> set (deps (item s p))" for d
    proof -
      have "d \<noteq> w" "heap s d \<noteq> None" using that old(3) assms(3) liveD by blast+
      then show ?thesis by (simp add: item_spawned_old)
    qed
    moreover have "p \<in> set D \<Longrightarrow> conflicts (args (item s p)) as" using assms(6) by blast
    moreover have "p \<in> set D \<Longrightarrow> status (item s p) \<noteq> Deallocatable"
      using assms(4) by (auto simp: live_iff)
    ultimately show ?thesis
      using old p
      by (auto simp: item_spawned_old [OF pw alloc [OF p]] live_spawned before_Cons heap_spawned_new)
  qed
  have two: "ndependencies (item ?s q) = int (card (preds ?s q)) \<and>
      (status (item ?s q) = Waiting \<longleftrightarrow> preds ?s q \<noteq> {})" if q: "live ?s q" for q
  proof (cases "q = w")
    case True
    then show ?thesis using pr assms(5) by (simp add: heap_spawned_new distinct_card)
  next
    case False
    then have "live s q" using q by (simp add: live_spawned)
    then show ?thesis
      using assms(1) pr False item_spawned_old [OF False liveD] by (simp add: edges_def)
  qed
  show ?thesis
    unfolding edges_def
  proof (intro conjI allI impI)
    show "\<forall>p \<in> set (w # ps). distinct (deps (item ?s p)) \<and>
        (status (item ?s p) = Deallocatable \<longrightarrow> deps (item ?s p) = []) \<and>
        (\<forall>d \<in> set (deps (item ?s p)). before (w # ps) d p \<and> live ?s d \<and>
           conflicts (args (item ?s p)) (args (item ?s d)))"
      using one by (simp add: heap_spawned_new)
  next
    fix q assume "live ?s q"
    from two [OF this] show "ndependencies (item ?s q) = int (card (preds ?s q))"
      "status (item ?s q) = Waiting \<longleftrightarrow> preds ?s q \<noteq> {}" by blast+
  qed
qed

lemma family_father:
  assumes "family s E X ps" "live s p" "father (item s p) = Some a"
  shows "live s a" "status (item s a) = Running" "before ps p a"
  using assms unfolding family_def member_ok_def by blast+

lemma kids_spawned:
  assumes "family s E X ps" "heap s w = None" "\<forall>a. fa = Some a \<longrightarrow> live s a"
  shows "kids (spawned w f as fa D e s) q = (if fa = Some q then insert w (kids s q) else kids s q)"
    and "w \<notin> kids s q" "kids s w = {}" "fa \<noteq> Some w"
proof -
  let ?s = "spawned w f as fa D e s"
  have wl: "\<not> live s w" using assms(2) by (simp add: live_def)
  then show "w \<notin> kids s q" by (simp add: kids_def)
  show "kids s w = {}" using family_father(1) [OF assms(1)] wl by (auto simp: kids_def)
  show "fa \<noteq> Some w" using assms(3) wl by blast
  have "c \<in> kids ?s q \<longleftrightarrow> c \<in> (if fa = Some q then insert w (kids s q) else kids s q)" for c
  proof (cases "c = w")
    case True
    then show ?thesis
      using wl by (simp add: kids_def live_spawned heap_spawned_new)
  next
    case False
    then show ?thesis
      using item_spawned_old [OF False liveD] by (auto simp: kids_def live_spawned)
  qed
  then show "kids ?s q = (if fa = Some q then insert w (kids s q) else kids s q)" by blast
qed

lemma family_spawned:
  assumes "family s E X ps" "shape s ps" "heap s w = None" "\<And>a. fa = Some a \<Longrightarrow> a \<in> E"
    and "e \<Longrightarrow> fa \<noteq> None"
  shows "family (spawned w f as fa D e s) E X (w # ps)"
proof -
  let ?s = "spawned w f as fa D e s"
  have E: "live s a \<and> status (item s a) = Running" if "a \<in> E" for a
    using assms(1) that by (simp add: family_def)
  have fa: "\<forall>a. fa = Some a \<longrightarrow> live s a" using assms(4) E by blast
  note kd = kids_spawned [OF assms(1,3) fa]
  have wl: "\<not> live s w" using assms(3) by (simp add: live_def)
  have wps: "w \<notin> set ps" using shapeD(3) [OF assms(2)] assms(3) by blast
  have wE: "w \<notin> E" using E wl by blast
  have old: "item ?s p = (item s p)\<lparr>nchildren := nchildren (item s p) + (if fa = Some p then 1 else 0),
                deps := deps (item s p) @ (if p \<in> set D then [w] else [])\<rparr>" if "live s p" for p
    using that wl liveD item_spawned_old by metis
  have new: "member_ok ?s E X (w # ps) w"
  proof -
    have "live ?s a \<and> status (item ?s a) = Running \<and> before (w # ps) w a" if "fa = Some a" for a
    proof -
      have "live s a" "status (item s a) = Running" using assms(4) E that by blast+
      moreover have "a \<in> set ps" using calculation(1) shapeD(4) [OF assms(2)] by blast
      ultimately show ?thesis by (simp add: live_spawned old before_Cons)
    qed
    then show ?thesis
      using kd assms(5) by (auto simp: member_ok_def heap_spawned_new)
  qed
  have others: "member_ok ?s E X (w # ps) p" if p: "live s p" for p
  proof -
    have "card (kids ?s p) = card (kids s p) + (if fa = Some p then 1 else 0)"
      using kd finite_kids [OF assms(2)] by simp
    moreover have "\<forall>a. father (item s p) = Some a \<longrightarrow> live s a \<and> status (item s a) = Running \<and> before ps p a"
      "optFlags (item s p) AND FatherScape \<noteq> 0 \<longrightarrow> father (item s p) \<noteq> None"
      "nchildren (item s p) = (if status (item s p) = Running \<and> p \<notin> E then 0 else 1) + int (card (kids s p))"
      "status (item s p) = Running \<longrightarrow> p \<in> E \<or> p \<in> X \<or> kids s p \<noteq> {}"
      using assms(1) p unfolding family_def member_ok_def by blast+
    ultimately show ?thesis
      using kd by (auto simp: member_ok_def old p live_spawned before_Cons)
  qed
  show ?thesis
    unfolding family_def
  proof (intro conjI allI impI ballI)
    fix a assume "a \<in> E"
    then show "live ?s a" "status (item ?s a) = Running" using E old by (simp_all add: live_spawned)
  next
    fix p assume "live ?s p"
    then show "member_ok ?s E X (w # ps) p" using new others by (auto simp: live_spawned)
  qed
qed

lemma queued_spawned:
  assumes "queued s" "heap s w = None"
  shows "queued (spawned w f as fa D e s)"
proof -
  let ?s = "spawned w f as fa D e s"
  have wl: "\<not> live s w" using assms(2) by (simp add: live_def)
  have old: "task (item ?s p) = task (item s p)" "status (item ?s p) = status (item s p)" if "live s p" for p
    using that wl item_spawned_old [OF _ liveD [OF that]] by (cases "p = w"; simp)+
  obtain rs where rs: "distinct rs" "set rs = {p. live s p \<and> status (item s p) = Ready}"
    "tqueue s = map (\<lambda>p. the (task (item s p))) rs"
    using assms(1) by (auto simp: queued_def)
  let ?rs = "rs @ (if D = [] then [w] else [])"
  have "distinct ?rs" using rs(1,2) wl by auto
  moreover have "set ?rs = {p. live ?s p \<and> status (item ?s p) = Ready}"
    using rs(2) old(2) wl by (auto simp: live_spawned heap_spawned_new)
  moreover have "map (\<lambda>p. the (task (item ?s p))) rs = map (\<lambda>p. the (task (item s p))) rs"
    using rs(2) old(1) by (intro map_cong) auto
  then have "tqueue ?s = map (\<lambda>p. the (task (item ?s p))) ?rs"
    using rs(3) by (simp add: spawned_def)
  moreover have "\<exists>t. task (item ?s p) = Some t \<and> ctx t = Some p" if "live ?s p" for p
    using that assms(1) old(1) by (auto simp: live_spawned queued_def heap_spawned_new)
  ultimately show ?thesis
    unfolding queued_def by blast
qed

lemma args_in_spawned:
  assumes "args_in U s" "heap s w = None" "as \<in> U"
  shows "args_in U (spawned w f as fa D e s)"
  unfolding args_in_def
proof (intro allI impI)
  fix p assume p: "live (spawned w f as fa D e s) p"
  show "args (item (spawned w f as fa D e s) p) \<in> U"
  proof (cases "p = w")
    case False
    then have "live s p" using p by (simp add: live_spawned)
    then show ?thesis
      using assms(1) item_spawned_old [OF False liveD] by (simp add: args_in_def)
  qed (use assms(3) in \<open>simp add: heap_spawned_new\<close>)
qed

lemma inv_spawned [inv_intros]:
  assumes "coherent U s E X ps" "heap s w = None" "\<And>a. fa = Some a \<Longrightarrow> a \<in> E" "e \<Longrightarrow> fa \<noteq> None"
    and "as \<in> U" "\<forall>d \<in> set D. live s d" "distinct D" "\<forall>d \<in> set D. conflicts (args (item s d)) as"
  shows "coherent U (spawned w f as fa D e s) E X (w # ps)"
  using assms unfolding coherent_def
  by (blast intro: shape_spawned edges_spawned family_spawned queued_spawned args_in_spawned)

section \<open>Starting a task keeps the invariant\<close>

definition begun :: "wid \<Rightarrow> task_t list \<Rightarrow> runtime \<Rightarrow> runtime" where
  "begun w ts s = s\<lparr>tqueue := ts, heap := (heap s)(w \<mapsto> (item s w)\<lparr>status := Running\<rparr>)\<rparr>"

lemma run_begin_closed:
  "ctx t = Some w \<Longrightarrow> heap s w \<noteq> None \<Longrightarrow> run_begin t (s\<lparr>tqueue := ts\<rparr>) = Some (begun w ts s)"
  by (auto simp: run_begin_def upd_def begun_def)

lemma heap_begun: "heap (begun w ts s) q = (if q = w then Some ((item s w)\<lparr>status := Running\<rparr>) else heap s q)"
  by (simp add: begun_def)

text \<open>A change of status and counters inside an active task leaves the lists and the links alone.\<close>

lemma begun_frame:
  assumes "live s w"
  shows "live (begun w ts s) q \<longleftrightarrow> live s q" "heap (begun w ts s) q \<noteq> None \<longleftrightarrow> heap s q \<noteq> None"
    and "next_of (begun w ts s) q = next_of s q" "preds (begun w ts s) q = preds s q"
    and "kids (begun w ts s) q = kids s q"
proof -
  obtain x where x: "heap s w = Some x" "status x < Done"
    using assms by (auto simp: live_def split: option.splits)
  show lv: "live (begun w ts s) q \<longleftrightarrow> live s q" for q
    using x by (auto simp: live_def heap_begun less_Done_iff)
  show "heap (begun w ts s) q \<noteq> None \<longleftrightarrow> heap s q \<noteq> None" "next_of (begun w ts s) q = next_of s q"
    using x by (auto simp: heap_begun next_of_def)
  show "preds (begun w ts s) q = preds s q"
    using x by (auto simp: preds_def heap_begun)
  show "kids (begun w ts s) q = kids s q"
    using x by (auto simp: kids_def lv heap_begun)
qed

lemma shape_begun:
  assumes "shape s ps" "live s w"
  shows "shape (begun w ts s) ps"
proof -
  have "chain (next_of (begun w ts s)) (worklist s) ps None"
    using shapeD(1) [OF assms(1)] begun_frame(3) [OF assms(2)] by (metis chain_cong)
  moreover have "dom (heap (begun w ts s)) = dom (heap s)"
    using begun_frame(2) [OF assms(2)] by (auto simp: dom_def)
  moreover have "worklist (begun w ts s) = worklist s" by (simp add: begun_def)
  ultimately show ?thesis
    using assms(1) by (auto simp: shape_def heap_begun)
qed

lemma edges_begun:
  assumes "edges s ps" "live s w" "status (item s w) = Ready"
  shows "edges (begun w ts s) ps"
  using assms begun_frame [OF assms(2)]
  by (auto simp: edges_def heap_begun)

lemma member_begun:
  assumes "member_ok s E X ps p" "live s w" "status (item s w) = Ready"
  shows "member_ok (begun w ts s) (insert w E) X ps p"
  using assms begun_frame [OF assms(2)]
  by (auto simp: member_ok_def heap_begun)

lemma queued_begun:
  assumes "queued s" "tqueue s = t # ts" "ctx t = Some w"
  shows "live s w" "status (item s w) = Ready" "queued (begun w ts s)"
proof -
  obtain rs where rs: "distinct rs" "set rs = {p. live s p \<and> status (item s p) = Ready}"
    "tqueue s = map (\<lambda>p. the (task (item s p))) rs"
    using assms(1) by (auto simp: queued_def)
  obtain p ps where p: "rs = p # ps" "t = the (task (item s p))" "ts = map (\<lambda>p. the (task (item s p))) ps"
    using rs(3) assms(2) by (cases rs) auto
  have lp: "live s p" "status (item s p) = Ready" using rs(2) p(1) by auto
  then have "ctx t = Some p" using assms(1) p(2) by (auto simp: queued_def)
  then have wp: "w = p" using assms(3) by simp
  then show lw: "live s w" and rw: "status (item s w) = Ready" using lp by simp_all
  have same: "task (item (begun w ts s) q) = task (item s q)" for q
    by (simp add: heap_begun)
  have "set ps = set rs - {w}" using rs(1) p(1) wp by simp
  also have "\<dots> = {q. live (begun w ts s) q \<and> status (item (begun w ts s) q) = Ready}"
    unfolding rs(2) begun_frame(1) [OF lw] heap_begun by auto
  finally have "set ps = {q. live (begun w ts s) q \<and> status (item (begun w ts s) q) = Ready}" .
  moreover have "tqueue (begun w ts s) = map (\<lambda>q. the (task (item (begun w ts s) q))) ps"
    using p(3) same by (simp add: begun_def)
  moreover have "distinct ps" using rs(1) p(1) by simp
  moreover have "\<forall>q. live (begun w ts s) q \<longrightarrow>
      (\<exists>t. task (item (begun w ts s) q) = Some t \<and> ctx t = Some q)"
    using assms(1) same begun_frame(1) [OF lw] by (simp add: queued_def)
  ultimately show "queued (begun w ts s)"
    unfolding queued_def by blast
qed

lemma inv_begun [inv_intros]:
  assumes "coherent U s E X ps" "tqueue s = t # ts" "ctx t = Some w"
  shows "coherent U (begun w ts s) (insert w E) X ps"
proof -
  have q: "queued s" using assms(1) by (simp add: coherent_def)
  note w = queued_begun(1,2) [OF q assms(2,3)]
  have "family (begun w ts s) (insert w E) X ps"
    using assms(1) w member_begun begun_frame(1) [OF w(1)]
    by (auto simp: coherent_def family_def heap_begun)
  moreover have "args_in U (begun w ts s)"
    using assms(1) begun_frame(1) [OF w(1)] by (auto simp: coherent_def args_in_def heap_begun)
  ultimately show ?thesis
    using assms(1) shape_begun edges_begun w queued_begun(3) [OF q assms(2,3)]
    unfolding coherent_def by blast
qed

section \<open>Completing a task keeps the invariant\<close>

text \<open>A completed task, and its father told of it.\<close>

definition parted :: "wid \<Rightarrow> bool \<Rightarrow> runtime \<Rightarrow> runtime" where
  "parted p ea s =
     (completed p ea s)\<lparr>heap := (\<lambda>q. map_option
        (\<lambda>x. x\<lparr>nchildren := nchildren x - (if father (item s p) = Some q then 1 else 0)\<rparr>)
        (heap (completed p ea s) q))\<rparr>"

lemma parted_simps [simp]:
  "worklist (parted p ea s) = worklist s" "eraser_assigned (parted p ea s) = ea"
  "tqueue (parted p ea s) = tqueue s @
     map (\<lambda>q. the (task (item s q))) (filter (\<lambda>q. ndependencies (item s q) = 1) (deps (item s p)))"
  by (simp_all add: parted_def)

text \<open>The tasks that may be completed.\<close>

definition completable :: "runtime \<Rightarrow> wid set \<Rightarrow> wid list \<Rightarrow> wid \<Rightarrow> bool" where
  "completable s E ps p \<longleftrightarrow>
     shape s ps \<and> edges s ps \<and> family s E {p} ps \<and> queued s \<and>
     live s p \<and> status (item s p) = Running \<and> p \<notin> E \<and> kids s p = {}"

lemma completableD:
  assumes "completable s E ps p"
  shows "p \<in> set ps" "heap s p \<noteq> None" "live s p" "father (item s p) \<noteq> Some p"
    and "distinct (deps (item s p))" "p \<notin> set (deps (item s p))"
    and "\<And>d. d \<in> set (deps (item s p)) \<Longrightarrow> live s d \<and> status (item s d) = Waiting"
    and "\<And>d. d \<in> set (deps (item s p)) \<Longrightarrow> p \<in> preds s d"
proof -
  note c = assms [unfolded completable_def]
  have sh: "shape s ps" and ed: "edges s ps" and fm: "family s E {p} ps" using c by blast+
  show p: "p \<in> set ps" "heap s p \<noteq> None" "live s p" using c shapeD(4) [OF sh] liveD by blast+
  show "distinct (deps (item s p))" using ed p(1) by (simp add: edges_def)
  have d: "before ps d p" "live s d" if "d \<in> set (deps (item s p))" for d
    using ed p(1) that unfolding edges_def by blast+
  show "p \<notin> set (deps (item s p))" using d(1) before_irrefl [OF shapeD(2) [OF sh]] by blast
  show pr: "p \<in> preds s d" if "d \<in> set (deps (item s p))" for d
    using that p(2) by (simp add: preds_def)
  then show "live s d \<and> status (item s d) = Waiting" if "d \<in> set (deps (item s p))" for d
    using ed d(2) that unfolding edges_def by blast
  show "father (item s p) \<noteq> Some p"
    using family_father(3) [OF fm p(3)] before_irrefl [OF shapeD(2) [OF sh]] by blast
qed

lemma heap_parted:
  assumes "completable s E ps p"
  shows "heap (parted p ea s) p = Some ((item s p)\<lparr>deps := [], args := [], status := Deallocatable\<rparr>)"
    and "q \<noteq> p \<Longrightarrow> heap (parted p ea s) q = map_option
       (\<lambda>x. (if q \<in> set (deps (item s p))
             then x\<lparr>ndependencies := ndependencies x - 1,
                    status := if ndependencies x = 1 then Ready else status x\<rparr>
             else x)\<lparr>nchildren := nchildren x - (if father (item s p) = Some q then 1 else 0)\<rparr>) (heap s q)"
proof -
  show "heap (parted p ea s) p = Some ((item s p)\<lparr>deps := [], args := [], status := Deallocatable\<rparr>)"
    using completableD(4) [OF assms] by (simp add: parted_def heap_completed)
  assume "q \<noteq> p"
  then show "heap (parted p ea s) q = map_option
       (\<lambda>x. (if q \<in> set (deps (item s p))
             then x\<lparr>ndependencies := ndependencies x - 1,
                    status := if ndependencies x = 1 then Ready else status x\<rparr>
             else x)\<lparr>nchildren := nchildren x - (if father (item s p) = Some q then 1 else 0)\<rparr>) (heap s q)"
    by (cases "heap s q") (auto simp: parted_def heap_completed)
qed

lemma item_parted:
  assumes "completable s E ps p" "q \<noteq> p" "heap s q \<noteq> None"
  shows "item (parted p ea s) q =
     (item s q)\<lparr>ndependencies := ndependencies (item s q) - (if q \<in> set (deps (item s p)) then 1 else 0),
                status := if q \<in> set (deps (item s p)) \<and> ndependencies (item s q) = 1 then Ready
                          else status (item s q),
                nchildren := nchildren (item s q) - (if father (item s p) = Some q then 1 else 0)\<rparr>"
  using assms by (auto simp: heap_parted(2) [OF assms(1)])

lemma parted_frame:
  assumes "completable s E ps p"
  shows "live (parted p ea s) q \<longleftrightarrow> live s q \<and> q \<noteq> p"
    and "heap (parted p ea s) q \<noteq> None \<longleftrightarrow> heap s q \<noteq> None"
    and "next_of (parted p ea s) q = next_of s q"
    and "preds (parted p ea s) q = preds s q - {p}"
    and "kids (parted p ea s) q = kids s q - {p}"
proof -
  note c = completableD [OF assms]
  note hp = heap_parted [OF assms]
  show lv: "live (parted p ea s) q \<longleftrightarrow> live s q \<and> q \<noteq> p" for q
  proof (cases "q = p")
    case False
    then show ?thesis
      using c(7) [of q] by (cases "heap s q") (auto simp: live_def hp(2) less_Done_iff)
  qed (simp add: live_def hp(1) less_Done_iff)
  show "heap (parted p ea s) q \<noteq> None \<longleftrightarrow> heap s q \<noteq> None"
    using c(2) by (cases "q = p") (simp_all add: hp)
  show "next_of (parted p ea s) q = next_of s q"
    using c(2) by (cases "q = p"; cases "heap s q") (auto simp: hp next_of_def)
  have "x \<in> preds (parted p ea s) q \<longleftrightarrow> x \<in> preds s q - {p}" for x
    by (cases "x = p"; cases "heap s x") (auto simp: preds_def hp)
  then show "preds (parted p ea s) q = preds s q - {p}" by blast
  have "x \<in> kids (parted p ea s) q \<longleftrightarrow> x \<in> kids s q - {p}" for x
    using item_parted [OF assms _ liveD, of x] lv [of x] by (auto simp: kids_def)
  then show "kids (parted p ea s) q = kids s q - {p}" by blast
qed

lemma shape_parted:
  assumes "completable s E ps p"
  shows "shape (parted p ea s) ps"
proof -
  have sh: "shape s ps" using assms by (simp add: completable_def)
  note fr = parted_frame [OF assms]
  have "chain (next_of (parted p ea s)) (worklist s) ps None"
    using shapeD(1) [OF sh] fr(3) by (metis chain_cong)
  moreover have "dom (heap (parted p ea s)) = set ps"
    using fr(2) shapeD(3) [OF sh] by (simp add: dom_def)
  moreover have "status (item (parted p ea s) q) \<noteq> Filling \<and> status (item (parted p ea s) q) \<noteq> Done"
    if "q \<in> set ps" for q
  proof (cases "q = p")
    case True
    then show ?thesis by (simp add: heap_parted(1) [OF assms])
  next
    case False
    have "heap s q \<noteq> None" using that shapeD(3) [OF sh] by blast
    then show ?thesis
      using sh that by (simp add: item_parted [OF assms False] shape_def)
  qed
  ultimately show ?thesis by (simp add: shape_def)
qed

lemma edges_parted:
  assumes "completable s E ps p"
  shows "edges (parted p ea s) ps"
proof -
  have sh: "shape s ps" and ed: "edges s ps" using assms by (auto simp: completable_def)
  note fr = parted_frame [OF assms] and c = completableD [OF assms]
  have node: "distinct (deps (item (parted p ea s) q)) \<and>
      (status (item (parted p ea s) q) = Deallocatable \<longrightarrow> deps (item (parted p ea s) q) = []) \<and>
      (\<forall>d \<in> set (deps (item (parted p ea s) q)). before ps d q \<and> live (parted p ea s) d \<and>
         conflicts (args (item (parted p ea s) q)) (args (item (parted p ea s) d)))"
    if q: "q \<in> set ps" for q
  proof (cases "q = p")
    case True
    then show ?thesis by (simp add: heap_parted(1) [OF assms])
  next
    case False
    have h: "heap s q \<noteq> None" using q shapeD(3) [OF sh] by blast
    have old: "distinct (deps (item s q))" "status (item s q) = Deallocatable \<longrightarrow> deps (item s q) = []"
      "\<forall>d \<in> set (deps (item s q)). before ps d q \<and> live s d \<and> conflicts (args (item s q)) (args (item s d))"
      using ed q by (auto simp: edges_def)
    have pn: "p \<notin> set (deps (item s q))"
    proof
      assume "p \<in> set (deps (item s q))"
      then have "q \<in> preds s p" using h by (simp add: preds_def)
      then have "status (item s p) = Waiting" using ed c(3) unfolding edges_def by blast
      then show False using assms by (simp add: completable_def)
    qed
    have "args (item (parted p ea s) d) = args (item s d)" if "d \<in> set (deps (item s q))" for d
    proof -
      have "d \<noteq> p" "heap s d \<noteq> None" using that old(3) pn liveD by blast+
      then show ?thesis by (simp add: item_parted [OF assms])
    qed
    then show ?thesis
      using pn old fr(1) by (auto simp: item_parted [OF assms False h])
  qed
  have counter: "ndependencies (item (parted p ea s) q) = int (card (preds (parted p ea s) q)) \<and>
      (status (item (parted p ea s) q) = Waiting \<longleftrightarrow> preds (parted p ea s) q \<noteq> {})"
    if q: "live s q" "q \<noteq> p" for q
  proof -
    have h: "heap s q \<noteq> None" by (rule liveD [OF q(1)])
    have old: "ndependencies (item s q) = int (card (preds s q))" "status (item s q) = Waiting \<longleftrightarrow> preds s q \<noteq> {}"
      using ed q(1) by (auto simp: edges_def)
    show ?thesis
    proof (cases "q \<in> set (deps (item s p))")
      case True
      then have p: "p \<in> preds s q" "status (item s q) = Waiting" using c(7,8) by blast+
      have "card (preds s q - {p}) = card (preds s q) - 1" "0 < card (preds s q)"
        using p(1) finite_preds [OF sh] by (auto simp: card_gt_0_iff)
      moreover have "preds s q - {p} = {} \<longleftrightarrow> card (preds s q - {p}) = 0"
        using finite_preds [OF sh] by simp
      ultimately show ?thesis
        using old(1) p(2) True by (simp add: item_parted [OF assms q(2) h] fr(4))
    next
      case False
      then have "preds s q - {p} = preds s q" by (auto simp: preds_def)
      then show ?thesis
        using old False by (simp add: item_parted [OF assms q(2) h] fr(4))
    qed
  qed
  show ?thesis
    unfolding edges_def using node counter fr(1) by blast
qed

definition emptied :: "runtime \<Rightarrow> wid \<Rightarrow> wid set" where
  "emptied s p = {a. father (item s p) = Some a \<and> nchildren (item s a) = 1}"

lemma member_parted:
  assumes "completable s E ps p" "live s q" "q \<noteq> p"
  shows "member_ok (parted p ea s) E (emptied s p) ps q"
proof -
  have sh: "shape s ps" and fm: "family s E {p} ps" and kp: "kids s p = {}"
    using assms(1) by (auto simp: completable_def)
  note fr = parted_frame [OF assms(1)] and c = completableD [OF assms(1)]
  note it = item_parted [OF assms(1,3) liveD [OF assms(2)]]
  have run: "status (item (parted p ea s) a) = Running \<longleftrightarrow> status (item s a) = Running"
    if "live s a" "a \<noteq> p" for a
    using c(7) [of a] by (auto simp: item_parted [OF assms(1) that(2) liveD [OF that(1)]])
  have old: "optFlags (item s q) AND FatherScape \<noteq> 0 \<longrightarrow> father (item s q) \<noteq> None"
    "nchildren (item s q) = (if status (item s q) = Running \<and> q \<notin> E then 0 else 1) + int (card (kids s q))"
    "status (item s q) = Running \<longrightarrow> q \<in> E \<or> kids s q \<noteq> {}"
    using fm assms(2,3) unfolding family_def member_ok_def by blast+
  have pk: "p \<in> kids s q \<longleftrightarrow> father (item s p) = Some q" using c(3) by (simp add: kids_def)
  have fin: "finite (kids s q)" by (rule finite_kids [OF sh])
  have card: "int (card (kids s q - {p})) = int (card (kids s q)) - (if father (item s p) = Some q then 1 else 0)"
  proof (cases "p \<in> kids s q")
    case True
    then have "0 < card (kids s q)" using fin by (auto simp: card_gt_0_iff)
    then show ?thesis using True pk by (simp add: card_Diff_singleton)
  qed (use pk in simp)
  have fathers: "live (parted p ea s) a \<and> status (item (parted p ea s) a) = Running \<and> before ps q a"
    if "father (item s q) = Some a" for a
  proof -
    have a: "live s a" "status (item s a) = Running" "before ps q a"
      using family_father [OF fm assms(2) that] by blast+
    have "a \<noteq> p" using that kp assms(2) by (auto simp: kids_def)
    then show ?thesis using a fr(1) run by blast
  qed
  have kids: "status (item s q) = Running \<longrightarrow> q \<in> E \<or> q \<in> emptied s p \<or> kids s q - {p} \<noteq> {}"
  proof (intro impI)
    assume r: "status (item s q) = Running"
    show "q \<in> E \<or> q \<in> emptied s p \<or> kids s q - {p} \<noteq> {}"
    proof (cases "q \<in> E \<or> kids s q - {p} \<noteq> {}")
      case False
      then have "kids s q = {p}" using old(3) r by blast
      then have "nchildren (item s q) = 1" "father (item s p) = Some q"
        using old(2) r False pk by auto
      then show ?thesis by (simp add: emptied_def)
    qed blast
  qed
  show ?thesis
    unfolding member_ok_def
  proof (intro conjI)
    show "\<forall>a. father (item (parted p ea s) q) = Some a \<longrightarrow>
        live (parted p ea s) a \<and> status (item (parted p ea s) a) = Running \<and> before ps q a"
      using fathers by (simp add: it)
    show "optFlags (item (parted p ea s) q) AND FatherScape \<noteq> 0 \<longrightarrow> father (item (parted p ea s) q) \<noteq> None"
      using old(1) by (simp add: it)
    show "nchildren (item (parted p ea s) q) =
        (if status (item (parted p ea s) q) = Running \<and> q \<notin> E then 0 else 1) + int (card (kids (parted p ea s) q))"
      using old(2) card by (simp only: run [OF assms(2,3)] fr(5)) (simp add: it)
    show "status (item (parted p ea s) q) = Running \<longrightarrow>
        q \<in> E \<or> q \<in> emptied s p \<or> kids (parted p ea s) q \<noteq> {}"
      using kids by (simp only: run [OF assms(2,3)] fr(5))
  qed
qed

lemma family_parted:
  assumes "completable s E ps p"
  shows "family (parted p ea s) E (emptied s p) ps"
proof -
  note fr = parted_frame [OF assms] and c = completableD [OF assms]
  have fm: "family s E {p} ps" and pE: "p \<notin> E" using assms by (auto simp: completable_def)
  have "live (parted p ea s) e \<and> status (item (parted p ea s) e) = Running" if "e \<in> E" for e
  proof -
    have e: "live s e" "status (item s e) = Running" "e \<noteq> p"
      using fm that pE unfolding family_def by blast+
    then show ?thesis
      using fr(1) c(7) [of e] by (auto simp: item_parted [OF assms e(3) liveD [OF e(1)]])
  qed
  then show ?thesis
    using member_parted [OF assms] fr(1) unfolding family_def by blast
qed

lemma queued_parted:
  assumes "completable s E ps p"
  shows "queued (parted p ea s)"
proof -
  note fr = parted_frame [OF assms] and c = completableD [OF assms]
  have q: "queued s" and rp: "status (item s p) = Running" and sh: "shape s ps" and ed: "edges s ps"
    using assms by (auto simp: completable_def)
  obtain rs where rs: "distinct rs" "set rs = {p. live s p \<and> status (item s p) = Ready}"
    "tqueue s = map (\<lambda>p. the (task (item s p))) rs"
    using q by (auto simp: queued_def)
  let ?new = "filter (\<lambda>q. ndependencies (item s q) = 1) (deps (item s p))"
  let ?s = "parted p ea s"
  have old: "task (item ?s x) = task (item s x)"
    "status (item ?s x) = (if x \<in> set ?new then Ready else status (item s x))"
    if "live s x" "x \<noteq> p" for x
    by (simp_all add: item_parted [OF assms that(2) liveD [OF that(1)]])
  have new: "live s x" "x \<noteq> p" "status (item s x) = Waiting" if "x \<in> set ?new" for x
    using that c(6,7) by auto
  have notp: "x \<noteq> p" if "x \<in> set rs" for x using that rs(2) rp by auto
  have "distinct (rs @ ?new)"
    using rs(1,2) c(5) new(3) by auto
  moreover have "set (rs @ ?new) = {x. live ?s x \<and> status (item ?s x) = Ready}"
  proof (intro set_eqI iffI)
    fix x assume x: "x \<in> set (rs @ ?new)"
    then have "live s x" "x \<noteq> p"
      by (cases "x \<in> set rs"; use rs(2) new notp in auto)+
    then show "x \<in> {x. live ?s x \<and> status (item ?s x) = Ready}"
      using x rs(2) old(2) fr(1) by auto
  next
    fix x assume "x \<in> {x. live ?s x \<and> status (item ?s x) = Ready}"
    then have x: "live s x" "x \<noteq> p" "status (item ?s x) = Ready" using fr(1) by auto
    then show "x \<in> set (rs @ ?new)"
      using old(2) [OF x(1,2)] rs(2) by (auto split: if_splits)
  qed
  moreover have "tqueue ?s = map (\<lambda>x. the (task (item ?s x))) (rs @ ?new)"
  proof -
    have "map (\<lambda>x. the (task (item ?s x))) rs = map (\<lambda>x. the (task (item s x))) rs"
      using rs(2) notp old(1) by (intro map_cong) auto
    moreover have "map (\<lambda>x. the (task (item ?s x))) ?new = map (\<lambda>x. the (task (item s x))) ?new"
      using new(1,2) old(1) by (intro map_cong) auto
    ultimately show ?thesis using rs(3) by simp
  qed
  moreover have "\<forall>x. live ?s x \<longrightarrow> (\<exists>t. task (item ?s x) = Some t \<and> ctx t = Some x)"
    using q old(1) fr(1) by (simp add: queued_def)
  ultimately show ?thesis
    unfolding queued_def by blast
qed

lemma inv_parted [inv_intros]:
  assumes "coherent U s E {p} ps" "live s p" "status (item s p) = Running" "p \<notin> E" "kids s p = {}"
  shows "coherent U (parted p ea s) E (emptied s p) ps"
proof -
  have c: "completable s E ps p" using assms by (simp add: completable_def coherent_def)
  have "args_in U (parted p ea s)"
    using assms(1) item_parted [OF c _ liveD] parted_frame(1) [OF c] by (simp add: coherent_def args_in_def)
  then show ?thesis
    using shape_parted [OF c] edges_parted [OF c] family_parted [OF c] queued_parted [OF c]
    by (simp add: coherent_def)
qed

section \<open>The loop of \<open>finish_execution\<close>\<close>

lemma inv_fillers_ok: "coherent U s E X ps \<Longrightarrow> fillers_ok s ps"
proof -
  assume i: "coherent U s E X ps"
  then have sh: "shape s ps" and fm: "family s E X ps" by (auto simp: coherent_def)
  show "fillers_ok s ps"
    unfolding fillers_ok_def
  proof
    fix p assume p: "p \<in> set ps"
    then obtain x where x: "heap s p = Some x" using shapeD(3) [OF sh] by blast
    have "status x \<noteq> Filling" using sh p x unfolding shape_def by fastforce
    moreover have "\<exists>f. father x = Some f \<and> before ps p f"
      if "optFlags x AND FatherScape \<noteq> 0" "status x < Done"
    proof -
      have "live s p" using x that(2) by (simp add: live_def)
      then have "member_ok s E X ps p" using fm by (simp add: family_def)
      then show ?thesis using x that(1) by (auto simp: member_ok_def)
    qed
    ultimately show "\<exists>x. heap s p = Some x \<and> status x \<noteq> Filling \<and>
        (optFlags x AND FatherScape \<noteq> 0 \<and> status x < Done \<longrightarrow> (\<exists>f. father x = Some f \<and> before ps p f))"
      using x by blast
  qed
qed

lemma parted_no_father: "father (item s p) = None \<Longrightarrow> parted p ea s = completed p ea s"
  by (simp add: parted_def option.map_ident)

lemma parted_father:
  assumes "father (item s p) = Some a" "heap (completed p ea s) a = Some y"
  shows "upd a (\<lambda>x. x\<lparr>nchildren := nchildren x - 1\<rparr>) (completed p ea s) = Some (parted p ea s)"
  using assms
  by (auto simp: upd_def parted_def fun_eq_iff option.map_ident
      intro!: arg_cong [where f = "\<lambda>h. (completed p ea s)\<lparr>heap := h\<rparr>"])

lemma finish_step_inv:
  assumes "coherent U s E {p} ps" "completable s E ps p" "eraser_assigned s = erase"
  shows "finish_step this p erase s =
     Some (father (item s p), erases p erase s, worklist s, completed p (erases p erase s) s)"
proof -
  note c = completableD [OF assms(2)]
  obtain x where x: "heap s p = Some x" using c(2) by blast
  have sh: "shape s ps" and q: "queued s" using assms(1) by (auto simp: coherent_def)
  have "\<exists>y. heap s w = Some y \<and> task y \<noteq> None" if "w \<in> set (deps x)" for w
  proof -
    have w: "live s w" using c(7) [of w] that x by simp
    then obtain y where "heap s w = Some y" using liveD by blast
    then show ?thesis using q w by (auto simp: queued_def)
  qed
  then show ?thesis
    using finish_step_closed [OF x _ _ _ shapeD(1) [OF sh] inv_fillers_ok [OF assms(1)] assms(3)] c(5,6) x
    by simp
qed

text \<open>The loop without and with one more turn.\<close>

lemma finish_loop_round:
  assumes "coherent U s E {p} ps" "completable s E ps p" "eraser_assigned s = erase"
  defines "e \<equiv> erases p erase s"
  shows "father (item s p) = None \<Longrightarrow> finish_loop this p erase s = Some (e, worklist s, parted p e s)"
    and "father (item s p) = Some a \<Longrightarrow> nchildren (item s a) \<noteq> 1 \<Longrightarrow>
           finish_loop this p erase s = Some (e, worklist s, parted p e s)"
    and "father (item s p) = Some a \<Longrightarrow> nchildren (item s a) = 1 \<Longrightarrow>
           finish_loop this p erase s = finish_loop this a e (parted p e s)"
proof -
  have st: "finish_step this p erase s = Some (father (item s p), e, worklist s, completed p e s)"
    unfolding e_def by (rule finish_step_inv [OF assms(1-3)])
  have fm: "family s E {p} ps" using assms(1) by (simp add: coherent_def)
  show "father (item s p) = None \<Longrightarrow> finish_loop this p erase s = Some (e, worklist s, parted p e s)"
    using st by (simp add: finish_loop.simps [of this p] parted_no_father)
  assume f: "father (item s p) = Some a"
  then have "live s a" "a \<noteq> p"
    using family_father(1) [OF fm] completableD(3,4) [OF assms(2)] by auto
  then obtain y where y: "heap (completed p e s) a = Some y" "nchildren y = nchildren (item s a)"
    using liveD [of s a] by (auto simp: heap_completed)
  note u = parted_father [OF f y(1)]
  have unf: "finish_loop this p erase s =
      (if nchildren y = 1 then finish_loop this a e (parted p e s) else Some (e, worklist s, parted p e s))"
    using st f y(1) u by (simp add: finish_loop.simps [of this p])
  show "nchildren (item s a) \<noteq> 1 \<Longrightarrow> finish_loop this p erase s = Some (e, worklist s, parted p e s)"
    "nchildren (item s a) = 1 \<Longrightarrow> finish_loop this p erase s = finish_loop this a e (parted p e s)"
    using unf y(2) by simp_all
qed

lemma emptied_completable:
  assumes "coherent U s E X ps" "nchildren (item s a) = 0" "live s a" "status (item s a) = Running"
  shows "a \<notin> E" "kids s a = {}"
proof -
  have "family s E X ps" "shape s ps" using assms(1) by (auto simp: coherent_def)
  then have "nchildren (item s a) = (if status (item s a) = Running \<and> a \<notin> E then 0 else 1) + int (card (kids s a))"
    "finite (kids s a)"
    using assms(3) finite_kids unfolding family_def member_ok_def by blast+
  then show "a \<notin> E" "kids s a = {}"
    using assms(2,4) by (auto split: if_splits)
qed

lemma inv_mono: "coherent U s E X ps \<Longrightarrow> X \<subseteq> Y \<Longrightarrow> coherent U s E Y ps"
  unfolding coherent_def family_def member_ok_def by blast

text \<open>
  What an operation that frees no task leaves as it was: the tasks stay in the heap, with their
  links and fathers, and a finished task stays finished.
\<close>

definition kept :: "runtime \<Rightarrow> runtime \<Rightarrow> bool" where
  "kept s s' \<longleftrightarrow>
     ObserversAtWork s' = ObserversAtWork s \<and>
     (\<forall>q x. heap s q = Some x \<longrightarrow>
        (\<exists>y. heap s' q = Some y \<and> nxt y = nxt x \<and> father y = father x \<and> (live s' q \<longrightarrow> live s q)))"

lemma kept_refl: "kept s s"
  by (simp add: kept_def)

lemma kept_trans: "kept s s' \<Longrightarrow> kept s' s'' \<Longrightarrow> kept s s''"
  unfolding kept_def by (metis (no_types))

lemma keptD:
  assumes "kept s s'" "heap s q \<noteq> None"
  shows "heap s' q \<noteq> None" "nxt (item s' q) = nxt (item s q)" "father (item s' q) = father (item s q)"
    and "live s' q \<Longrightarrow> live s q"
  using assms unfolding kept_def by fastforce+

lemma kept_parted:
  assumes "completable s E ps p"
  shows "kept s (parted p ea s)"
proof -
  have "\<exists>y. heap (parted p ea s) q = Some y \<and> nxt y = nxt x \<and> father y = father x" if "heap s q = Some x" for q x
    using that by (cases "q = p") (auto simp: heap_parted [OF assms])
  then show ?thesis
    using parted_frame(1) [OF assms] by (auto simp: kept_def parted_def)
qed

lemma kept_begun: "live s w \<Longrightarrow> kept s (begun w ts s)"
  using begun_frame(1) [of s w] by (auto simp: kept_def begun_def dest: liveD)

lemma kept_spawned: "heap s w = None \<Longrightarrow> kept s (spawned w f as fa D e s)"
  unfolding kept_def
  by (auto simp: spawned_def live_def less_Done_iff split: option.splits)

lemma finish_loop_inv:
  assumes "coherent U s E {p} ps" "live s p" "status (item s p) = Running" "p \<notin> E" "kids s p = {}"
    and "eraser_assigned s = erase"
  shows "\<exists>e s'. finish_loop this p erase s = Some (e, worklist s, s') \<and> coherent U s' E {} ps \<and>
           worklist s' = worklist s \<and> eraser_assigned s' = e \<and> kept s s' \<and>
           (ObserversAtWork s \<noteq> 0 \<longrightarrow> e = erase)"
  using assms
proof (induction "card {q. live s q}" arbitrary: s p erase rule: less_induct)
  case less
  have sh: "shape s ps" and fm: "family s E {p} ps" using less.prems(1) by (auto simp: coherent_def)
  have c: "completable s E ps p" using less.prems by (simp add: completable_def coherent_def)
  let ?e = "erases p erase s"
  let ?s = "parted p ?e s"
  note round = finish_loop_round [OF less.prems(1) c less.prems(6), where this = this]
  have i: "coherent U ?s E (emptied s p) ps" by (rule inv_parted [OF less.prems(1-5)])
  have kp: "kept s ?s" by (rule kept_parted [OF c])
  have e: "ObserversAtWork s \<noteq> 0 \<Longrightarrow> ?e = erase" by (simp add: erases_def)
  show ?case
  proof (cases "\<exists>a. father (item s p) = Some a \<and> nchildren (item s a) = 1")
    case True
    then obtain a where a: "father (item s p) = Some a" "nchildren (item s a) = 1" by blast
    then have em: "emptied s p = {a}" by (auto simp: emptied_def)
    have la: "live s a" "status (item s a) = Running" "a \<noteq> p"
      using family_father [OF fm less.prems(2) a(1)] completableD(4) [OF c] a(1) by auto
    have "a \<notin> set (deps (item s p))" using completableD(7) [OF c, of a] la(2) by auto
    then have ia: "item ?s a = (item s a)\<lparr>nchildren := 0\<rparr>"
      using item_parted [OF c la(3) liveD [OF la(1)], of ?e] a by simp
    have la': "live ?s a" using la parted_frame(1) [OF c] by simp
    have ra: "status (item ?s a) = Running" "nchildren (item ?s a) = 0" using ia la(2) by simp_all
    note ke = emptied_completable [OF i ra(2) la' ra(1)]
    have "{q. live ?s q} = {q. live s q} - {p}" using parted_frame(1) [OF c] by auto
    moreover have "finite {q. live s q}"
      by (rule finite_subset [of _ "set ps"]) (auto simp: shapeD(4) [OF sh])
    ultimately have "card {q. live ?s q} < card {q. live s q}"
      using less.prems(2) by (metis card_Diff1_less mem_Collect_eq)
    then obtain e s' where r: "finish_loop this a ?e ?s = Some (e, worklist ?s, s')"
      "coherent U s' E {} ps" "worklist s' = worklist ?s" "eraser_assigned s' = e" "kept ?s s'"
      "ObserversAtWork ?s \<noteq> 0 \<Longrightarrow> e = ?e"
      using less.hyps [of ?s a ?e] i la' ra(1) ke by (auto simp: em)
    have "ObserversAtWork ?s = ObserversAtWork s" by (simp add: parted_def)
    then show ?thesis
      using round(3) [OF a] r(1-4,6) e kept_trans [OF kp r(5)] by auto
  next
    case False
    then have "emptied s p = {}" by (auto simp: emptied_def)
    moreover have "finish_loop this p erase s = Some (?e, worklist s, ?s)"
      using False round(1,2) by (cases "father (item s p)") auto
    ultimately show ?thesis using i kp e by simp
  qed
qed

section \<open>The end of a task's function\<close>

definition body_left :: "wid \<Rightarrow> runtime \<Rightarrow> runtime" where
  "body_left w s = s\<lparr>heap := (heap s)(w \<mapsto> (item s w)\<lparr>nchildren := nchildren (item s w) - 1\<rparr>)\<rparr>"

lemma heap_body_left:
  "heap (body_left w s) q =
     (if q = w then Some ((item s w)\<lparr>nchildren := nchildren (item s w) - 1\<rparr>) else heap s q)"
  by (simp add: body_left_def)

lemma body_left_frame:
  assumes "live s w"
  shows "live (body_left w s) q \<longleftrightarrow> live s q" "heap (body_left w s) q \<noteq> None \<longleftrightarrow> heap s q \<noteq> None"
    and "next_of (body_left w s) q = next_of s q" "preds (body_left w s) q = preds s q"
    and "kids (body_left w s) q = kids s q"
proof -
  obtain x where x: "heap s w = Some x" "status x < Done"
    using assms by (auto simp: live_def split: option.splits)
  show lv: "live (body_left w s) q \<longleftrightarrow> live s q" for q
    using x by (auto simp: live_def heap_body_left)
  show "heap (body_left w s) q \<noteq> None \<longleftrightarrow> heap s q \<noteq> None" "next_of (body_left w s) q = next_of s q"
    using x by (auto simp: heap_body_left next_of_def)
  show "preds (body_left w s) q = preds s q"
    using x by (auto simp: preds_def heap_body_left)
  show "kids (body_left w s) q = kids s q"
    using x by (auto simp: kids_def lv heap_body_left)
qed

lemma kept_body_left: "live s w \<Longrightarrow> kept s (body_left w s)"
  using body_left_frame(1) [of s w] by (auto simp: kept_def body_left_def dest: liveD)

lemma inv_body_left [inv_intros]:
  assumes "coherent U s E {} ps" "w \<in> E"
  shows "coherent U (body_left w s) (E - {w}) (if nchildren (item s w) = 1 then {w} else {}) ps"
    and "live (body_left w s) w" "status (item (body_left w s) w) = Running"
    and "nchildren (item s w) = 1 \<Longrightarrow> kids (body_left w s) w = {}"
proof -
  let ?s = "body_left w s"
  let ?X = "if nchildren (item s w) = 1 then {w} else {}"
  have sh: "shape s ps" and ed: "edges s ps" and fm: "family s E {} ps" and q: "queued s" and ar: "args_in U s"
    using assms(1) by (auto simp: coherent_def)
  have w: "live s w" "status (item s w) = Running" using fm assms(2) by (auto simp: family_def)
  note fr = body_left_frame [OF w(1)]
  show "live ?s w" "status (item ?s w) = Running" using w fr(1) by (simp_all add: heap_body_left)
  have count: "nchildren (item s w) = 1 + int (card (kids s w))" "finite (kids s w)"
    using fm w assms(2) finite_kids [OF sh] by (auto simp: family_def member_ok_def)
  then show "nchildren (item s w) = 1 \<Longrightarrow> kids ?s w = {}" using fr(5) by simp
  have it: "item ?s p = (if p = w then (item s w)\<lparr>nchildren := nchildren (item s w) - 1\<rparr> else item s p)" for p
    by (simp add: heap_body_left)
  have "chain (next_of ?s) (worklist s) ps None"
    using shapeD(1) [OF sh] fr(3) by (metis chain_cong)
  moreover have "dom (heap ?s) = dom (heap s)" using fr(2) by (auto simp: dom_def)
  moreover have "worklist ?s = worklist s" "tqueue ?s = tqueue s" by (simp_all add: body_left_def)
  ultimately have "shape ?s ps" "queued ?s"
    using sh q fr(1) by (auto simp: shape_def queued_def it)
  moreover have "edges ?s ps" using ed fr(1,4) by (auto simp: edges_def it)
  moreover have "args_in U ?s" using ar fr(1) by (auto simp: args_in_def it)
  moreover have "family ?s (E - {w}) ?X ps"
  proof -
    have "member_ok ?s (E - {w}) ?X ps p" if "live s p" for p
    proof -
      have "member_ok s E {} ps p" using fm that by (simp add: family_def)
      then show ?thesis
        using count fr(1,5) w(2) assms(2) by (auto simp: member_ok_def it)
    qed
    then show ?thesis
      using fm fr(1) by (auto simp: family_def it)
  qed
  ultimately show "coherent U ?s (E - {w}) ?X ps" by (simp add: coherent_def)
qed

section \<open>Cleaning keeps the invariant\<close>

lemma before_subseq_back:
  assumes "subseq ks ps" "distinct ps" "before ps x y" "x \<in> set ks" "y \<in> set ks"
  shows "before ks x y"
proof (rule ccontr)
  assume n: "\<not> before ks x y"
  have "x \<noteq> y" using assms(3) before_irrefl [OF assms(2), of x] by auto
  then have "before ks y x" using n before_total assms(4,5) by metis
  then show False using before_subseq [OF assms(1)] before_asym assms(2,3) by metis
qed

lemma cleaned_frame:
  assumes "cleaned s ps ks s'" "shape s ps"
  shows "live s' q \<longleftrightarrow> live s q" "q \<in> set ks \<longleftrightarrow> heap s' q \<noteq> None"
    and "q \<in> set ks \<Longrightarrow> \<exists>r. item s' q = (item s q)\<lparr>nxt := r\<rparr>"
    and "live s q \<Longrightarrow> q \<in> set ks"
proof -
  note cd = assms(1) [unfolded cleaned_def]
  have sub: "set ks \<subseteq> set ps" using cd subseq_set by blast
  show k: "q \<in> set ks \<Longrightarrow> \<exists>r. item s' q = (item s q)\<lparr>nxt := r\<rparr>" for q
    using cd by fastforce
  show lk: "live s q \<Longrightarrow> q \<in> set ks" for q
    using cd shapeD(4) [OF assms(2)] by blast
  show al: "q \<in> set ks \<longleftrightarrow> heap s' q \<noteq> None"
  proof (cases "q \<in> set ps")
    case True
    show ?thesis
    proof (cases "q \<in> set ks")
      case True
      then have "\<exists>r. heap s' q = Some ((item s q)\<lparr>nxt := r\<rparr>)" using cd by blast
      then show ?thesis using True by auto
    next
      case out: False
      then have "heap s' q = None" using cd True by simp
      then show ?thesis using out by simp
    qed
  next
    case False
    then have "heap s' q = heap s q" "q \<notin> set ks" using cd sub by blast+
    then show ?thesis using shapeD(3) [OF assms(2), of q] False by simp
  qed
  show "live s' q \<longleftrightarrow> live s q"
  proof (cases "q \<in> set ks")
    case True
    then obtain r where "heap s' q = Some ((item s q)\<lparr>nxt := r\<rparr>)" using cd by blast
    moreover obtain x where "heap s q = Some x" using True sub shapeD(3) [OF assms(2)] by blast
    ultimately show ?thesis by (simp add: live_def)
  next
    case False
    then show ?thesis using al lk liveD by blast
  qed
qed

lemma inv_cleaned [inv_intros]:
  assumes "coherent U s E X ps" "cleaned s ps ks s'"
  shows "coherent U s' E X ks" "eraser_assigned s' = False"
proof -
  have sh: "shape s ps" and ed: "edges s ps" and fm: "family s E X ps" and q: "queued s" and ar: "args_in U s"
    using assms(1) by (auto simp: coherent_def)
  note fr = cleaned_frame [OF assms(2) sh] and cd = assms(2) [unfolded cleaned_def]
  have same: "status (item s' p) = status (item s p)" "deps (item s' p) = deps (item s p)"
    "father (item s' p) = father (item s p)" "args (item s' p) = args (item s p)"
    "task (item s' p) = task (item s p)" "ndependencies (item s' p) = ndependencies (item s p)"
    "nchildren (item s' p) = nchildren (item s p)" "optFlags (item s' p) = optFlags (item s p)"
    if "p \<in> set ks" for p
    using fr(3) [OF that] by auto
  have sub: "subseq ks ps" and subset: "set ks \<subseteq> set ps" using cd subseq_set by blast+
  have dist: "distinct ps" by (rule shapeD(2) [OF sh])
  obtain h where s': "s' = s\<lparr>heap := h, eraser_assigned := False\<rparr>" using cd by blast
  then show "eraser_assigned s' = False" by simp
  have wl: "worklist s' = worklist s" "tqueue s' = tqueue s" using s' by simp_all
  have gone: "status (item s p) = Deallocatable" if "p \<in> set ps" "p \<notin> set ks" for p
    using cd that by blast
  have pr: "preds s' p = preds s p" for p
  proof -
    have "x \<in> preds s p \<Longrightarrow> x \<in> set ks" for x
    proof -
      assume x: "x \<in> preds s p"
      then have xp: "x \<in> set ps" using shapeD(3) [OF sh] by (auto simp: preds_def)
      then have "status (item s x) \<noteq> Deallocatable"
        using x ed by (force simp: edges_def preds_def)
      then show "x \<in> set ks" using gone xp by blast
    qed
    moreover have "x \<in> preds s' p \<longleftrightarrow> x \<in> set ks \<and> p \<in> set (deps (item s x))" for x
      using same(2) [of x] fr(2) [of x] by (auto simp: preds_def)
    moreover have "x \<in> preds s p \<longleftrightarrow> x \<in> set ps \<and> p \<in> set (deps (item s x))" for x
      using shapeD(3) [OF sh, of x] by (auto simp: preds_def)
    ultimately show ?thesis using subset by blast
  qed
  have kd: "kids s' p = kids s p" for p
    using fr(1,4) same(3) by (auto simp: kids_def)
  have "shape s' ks"
    using cd sh subset same(1) fr(2) wl unfolding shape_def dom_def by auto
  moreover have "edges s' ks"
    unfolding edges_def
  proof (intro conjI allI impI ballI)
    fix p assume p: "p \<in> set ks"
    then have pp: "p \<in> set ps" using subset by blast
    show "distinct (deps (item s' p))" using ed pp same(2) [OF p] by (simp add: edges_def)
    show "status (item s' p) = Deallocatable \<Longrightarrow> deps (item s' p) = []"
      using ed pp same(1,2) [OF p] by (simp add: edges_def)
    fix d assume "d \<in> set (deps (item s' p))"
    then have d: "before ps d p" "live s d" "conflicts (args (item s p)) (args (item s d))"
      using ed pp same(2) [OF p] by (auto simp: edges_def)
    then show "live s' d" "before ks d p"
      using fr(1,4) before_subseq_back [OF sub dist d(1) _ p] by auto
    show "conflicts (args (item s' p)) (args (item s' d))"
      using d(3) same(4) p fr(4) [OF d(2)] by simp
  next
    fix p assume "live s' p"
    then have p: "live s p" "p \<in> set ks" using fr(1,4) by auto
    show "ndependencies (item s' p) = int (card (preds s' p))"
      "status (item s' p) = Waiting \<longleftrightarrow> preds s' p \<noteq> {}"
      using ed p(1) same [OF p(2)] pr by (simp_all add: edges_def)
  qed
  moreover have "family s' E X ks"
    unfolding family_def
  proof (intro conjI allI impI ballI)
    fix p assume "live s' p"
    then have p: "live s p" "p \<in> set ks" using fr(1,4) by auto
    have m: "member_ok s E X ps p" using fm p(1) by (simp add: family_def)
    have "live s' a \<and> status (item s' a) = Running \<and> before ks p a" if "father (item s p) = Some a" for a
    proof -
      have a: "live s a" "status (item s a) = Running" "before ps p a"
        using family_father [OF fm p(1) that] by blast+
      then show ?thesis
        using fr(1,4) same(1) before_subseq_back [OF sub dist a(3) p(2)] by auto
    qed
    then show "member_ok s' E X ks p"
      using m same [OF p(2)] kd by (simp add: member_ok_def)
  next
    fix e assume "e \<in> E"
    then have "live s e" "status (item s e) = Running" using fm by (auto simp: family_def)
    then show "live s' e" "status (item s' e) = Running" using fr(1,4) same(1) by auto
  qed
  moreover have "queued s'"
  proof -
    obtain rs where rs: "distinct rs" "set rs = {p. live s p \<and> status (item s p) = Ready}"
      "tqueue s = map (\<lambda>p. the (task (item s p))) rs"
      using q by (auto simp: queued_def)
    have "set rs = {p. live s' p \<and> status (item s' p) = Ready}"
      using rs(2) fr(1,4) same(1) by auto
    moreover have "tqueue s' = map (\<lambda>p. the (task (item s' p))) rs"
      using rs(2,3) fr(4) same(5) wl by auto
    moreover have "\<forall>p. live s' p \<longrightarrow> (\<exists>t. task (item s' p) = Some t \<and> ctx t = Some p)"
      using q fr(1,4) same(5) by (simp add: queued_def)
    ultimately show ?thesis using rs(1) unfolding queued_def by blast
  qed
  moreover have "args_in U s'" using ar fr(1,4) same(4) by (simp add: args_in_def)
  ultimately show "coherent U s' E X ks" by (simp add: coherent_def)
qed

end
