(* ===== verification/Scheduler.thy ===== *)
theory Scheduler
  imports Invariant
begin

text \<open>
  A program that runs on the library, as a step relation: threads spawn tasks, the pool starts
  the tasks of its queue, and the functions of tasks end. Each step is one operation of the
  library run to its end. \<open>nested\<close> says whether tasks may spawn tasks themselves.
\<close>

section \<open>The end of a task's function, whole\<close>

lemma Clean_worklist_inv:
  assumes "coherent U s E {} ps" "ps \<noteq> []"
  shows "\<exists>ks s'. Clean_worklist (worklist s) s = Some s' \<and> cleaned s ps ks s' \<and> coherent U s' E {} ks"
proof -
  obtain h qs where ps: "ps = h # qs" using assms(2) by (cases ps) auto
  have sh: "shape s ps" using assms(1) by (simp add: coherent_def)
  have nd: "\<forall>p \<in> set (h # qs). \<forall>x. heap s p = Some x \<longrightarrow> status x \<noteq> Done"
    using sh ps unfolding shape_def by force
  obtain ks rs where "clean_list (\<lambda>p. status (item s p) = Deallocatable) h [] qs = (ks, rs)"
    by fastforce
  then obtain s' where "Clean_worklist (worklist s) s = Some s'" "cleaned s ps ks s'"
    using Clean_worklist_closed [OF _ nd] shapeD(1) [OF sh] ps by blast
  then show ?thesis using inv_cleaned(1) [OF assms(1)] by blast
qed

lemma finish_execution_inv:
  assumes "coherent U s E {} ps" "w \<in> E" "\<not> eraser_assigned s"
  shows "\<exists>s' qs. finish_execution w s = Some s' \<and> coherent U s' (E - {w}) {} qs \<and> \<not> eraser_assigned s' \<and>
           (ObserversAtWork s \<noteq> 0 \<longrightarrow> kept s s' \<and> qs = ps)"
proof -
  let ?s = "body_left w s"
  have fm: "family s E {} ps" using assms(1) by (simp add: coherent_def)
  have "live s w" using fm assms(2) by (simp add: family_def)
  then obtain x where x: "heap s w = Some x" using liveD by blast
  have upd: "upd w (\<lambda>x. x\<lparr>nchildren := nchildren x - 1\<rparr>) s = Some ?s"
    using x by (simp add: upd_def body_left_def)
  have ea: "eraser_assigned ?s = False" using assms(3) by (simp add: body_left_def)
  have kb: "kept s ?s" by (rule kept_body_left [OF \<open>live s w\<close>])
  have ob: "ObserversAtWork ?s = ObserversAtWork s" by (simp add: body_left_def)
  note bl = inv_body_left [OF assms(1,2)]
  show ?thesis
  proof (cases "nchildren x = 1")
    case False
    then have "finish_execution w s = Some ?s"
      using x upd by (simp add: finish_execution_def)
    then show ?thesis using bl(1) x False ea kb by auto
  next
    case True
    then have i: "coherent U ?s (E - {w}) {w} ps" using bl(1) x by simp
    have "kids ?s w = {}" using bl(4) x True by simp
    then obtain e s' where f: "finish_loop w w False ?s = Some (e, worklist ?s, s')"
      "coherent U s' (E - {w}) {} ps" "worklist s' = worklist ?s" "eraser_assigned s' = e"
      "kept ?s s'" "ObserversAtWork s \<noteq> 0 \<Longrightarrow> \<not> e"
      using finish_loop_inv [OF i bl(2,3) _ _ ea, of w] ob by auto
    have fe: "finish_execution w s = (if e then Clean_worklist (worklist s') s' else Some s')"
      using x upd True f by (simp add: finish_execution_def)
    show ?thesis
    proof (cases e)
      case False
      then show ?thesis using fe f kept_trans [OF kb f(5)] by auto
    next
      case e: True
      have "ps \<noteq> []" using bl(2) shapeD(4) [of ?s ps w] i by (auto simp: coherent_def)
      then obtain ks s'' where "Clean_worklist (worklist s') s' = Some s''" "cleaned s' ps ks s''"
        "coherent U s'' (E - {w}) {} ks"
        using Clean_worklist_inv [OF f(2)] by blast
      then show ?thesis using fe e f(6) inv_cleaned(2) [OF f(2)] by auto
    qed
  qed
qed

section \<open>Steps\<close>

record sys =
  rts :: runtime
  executing :: "wid set"

datatype event = Spawned wid nat "arg_info list" "wid option" | Began wid | Ended wid

inductive step :: "arg_info list set \<Rightarrow> bool \<Rightarrow> sys \<Rightarrow> event \<Rightarrow> sys \<Rightarrow> bool"
  for U nested
where
  spawn: "as \<in> U \<Longrightarrow> heap (rts S) w = None \<Longrightarrow> fa = None \<or> (nested \<and> fa \<in> Some ` executing S) \<Longrightarrow>
    spawn_task w f as (int (length as)) fa (rts S) = Some (b, r) \<Longrightarrow>
    step U nested S (Spawned w f as fa) (S\<lparr>rts := r\<rparr>)"
| start: "tqueue (rts S) = t # ts \<Longrightarrow> ctx t = Some w \<Longrightarrow>
    run_begin t ((rts S)\<lparr>tqueue := ts\<rparr>) = Some r \<Longrightarrow>
    step U nested S (Began w) \<lparr>rts = r, executing = insert w (executing S)\<rparr>"
| finish: "w \<in> executing S \<Longrightarrow> ctx t = Some w \<Longrightarrow> run_end t (rts S) = Some r \<Longrightarrow>
    step U nested S (Ended w) \<lparr>rts = r, executing = executing S - {w}\<rparr>"

inductive_cases step_spawnE: "step U nested S (Spawned w f as fa) S'"
inductive_cases step_startE: "step U nested S (Began w) S'"
inductive_cases step_finishE: "step U nested S (Ended w) S'"

text \<open>The library before the first task, in any configuration of the pool.\<close>

definition initial :: "sys \<Rightarrow> bool" where
  "initial S \<longleftrightarrow>
     heap (rts S) = (\<lambda>_. None) \<and> worklist (rts S) = None \<and> \<not> eraser_assigned (rts S) \<and>
     tqueue (rts S) = [] \<and> executing S = {}"

inductive reachable :: "arg_info list set \<Rightarrow> bool \<Rightarrow> sys \<Rightarrow> bool" for U nested where
  init: "initial S \<Longrightarrow> reachable U nested S"
| step: "reachable U nested S \<Longrightarrow> step U nested S ev S' \<Longrightarrow> reachable U nested S'"

section \<open>The invariant holds in every reachable state\<close>

definition sys_inv :: "arg_info list set \<Rightarrow> sys \<Rightarrow> bool" where
  "sys_inv U S \<longleftrightarrow> (\<exists>ps. coherent U (rts S) (executing S) {} ps) \<and> \<not> eraser_assigned (rts S)"

lemma initial_inv: "initial S \<Longrightarrow> sys_inv U S"
  unfolding sys_inv_def
  by (intro conjI exI [of _ "[]"])
    (auto simp: initial_def coherent_def shape_def edges_def family_def queued_def args_in_def live_def)

lemma spawn_inv:
  assumes "coherent U s E {} ps" "universe U" "as \<in> U" "heap s w = None" "\<forall>a. fa = Some a \<longrightarrow> a \<in> E"
  obtains b D e vs where "spawn_task w f as (int (length as)) fa s = Some (b, spawned w f as fa D e s)"
    "coherent U (spawned w f as fa D e s) E {} (w # ps)" "dependency_set s as ps vs D"
    "compared (being_inserted s w f as fa) w fa ps = (vs, e)"
proof -
  have ins: "insertable s w as fa ps" using inv_insertable [OF assms(1-4)] assms(5) by blast
  obtain b vs e D where r: "spawn_task w f as (int (length as)) fa s = Some (b, spawned w f as fa D e s)"
    "compared (being_inserted s w f as fa) w fa ps = (vs, e)"
    "dependency_set s as ps vs D" "w \<notin> set ps"
    by (rule spawn_task_closed [OF ins])
  have e: "fa \<noteq> None" if e: e
  proof
    assume "fa = None"
    then show False using r(2,4) e compared_no_father [of w ps s f as] by simp
  qed
  have D: "\<forall>d \<in> set D. live s d" "distinct D" "\<forall>d \<in> set D. conflicts (args (item s d)) as"
    using r(3) by (auto simp: dependency_set_def)
  have fa: "\<And>a. fa = Some a \<Longrightarrow> a \<in> E" using assms(5) by blast
  show ?thesis
    by (rule that [OF r(1) inv_spawned [OF assms(1,4) fa e assms(3) D] r(3,2)])
qed

lemma step_inv:
  assumes "sys_inv U S" "universe U" "step U nested S ev S'"
  shows "sys_inv U S'"
  using assms(3)
proof cases
  case (spawn as w fa f b r)
  obtain ps where i: "coherent U (rts S) (executing S) {} ps" using assms(1) by (auto simp: sys_inv_def)
  have fa: "\<forall>a. fa = Some a \<longrightarrow> a \<in> executing S" using spawn(5) by auto
  obtain D e where "r = spawned w f as fa D e (rts S)" "coherent U r (executing S) {} (w # ps)"
    using spawn_inv [OF i assms(2) spawn(3,4) fa] spawn(6) by (metis Pair_inject option.inject)
  then show ?thesis
    using assms(1) spawn(2) by (auto simp: sys_inv_def)
next
  case (start t ts w r)
  obtain ps where i: "coherent U (rts S) (executing S) {} ps" using assms(1) by (auto simp: sys_inv_def)
  then have "live (rts S) w" using queued_begun(1) [OF _ start(3,4)] by (simp add: coherent_def)
  then have "r = begun w ts (rts S)"
    using run_begin_closed [OF start(4) liveD] start(5) by simp
  then show ?thesis
    using inv_begun [OF i start(3,4)] assms(1) start(2) by (auto simp: sys_inv_def begun_def)
next
  case (finish w t r)
  obtain ps where i: "coherent U (rts S) (executing S) {} ps" using assms(1) by (auto simp: sys_inv_def)
  have "finish_execution w (rts S) = Some r" using finish(4,5) by (simp add: run_end_def)
  then show ?thesis
    using finish_execution_inv [OF i finish(3)] assms(1) finish(2) by (auto simp: sys_inv_def)
qed

lemma reachable_inv:
  assumes "reachable U nested S" "universe U"
  shows "sys_inv U S"
  using assms(1) by induction (auto intro: initial_inv step_inv assms(2))

section \<open>Running a list of events\<close>

text \<open>
  The operation behind an event, as a function; what the program and the pool have to provide
  for it is the guard of the step.
\<close>

fun perform :: "event \<Rightarrow> sys \<Rightarrow> sys option" where
  "perform (Spawned w f as fa) S =
     do {
       (b, r) \<leftarrow> spawn_task w f as (int (length as)) fa (rts S);
       Some (S\<lparr>rts := r\<rparr>)
     }"
| "perform (Began w) S =
     (case tqueue (rts S) of
        [] \<Rightarrow> None
      | t # ts \<Rightarrow>
          if ctx t = Some w
          then do {
            r \<leftarrow> run_begin t ((rts S)\<lparr>tqueue := ts\<rparr>);
            Some \<lparr>rts = r, executing = insert w (executing S)\<rparr>
          }
          else None)"
| "perform (Ended w) S =
     do {
       r \<leftarrow> finish_execution w (rts S);
       Some \<lparr>rts = r, executing = executing S - {w}\<rparr>
     }"

definition allowed :: "arg_info list set \<Rightarrow> bool \<Rightarrow> event \<Rightarrow> sys \<Rightarrow> bool" where
  "allowed U nested ev S =
     (case ev of
        Spawned w f as fa \<Rightarrow>
          as \<in> U \<and> heap (rts S) w = None \<and> (fa = None \<or> nested \<and> fa \<in> Some ` executing S)
      | Began w \<Rightarrow> True
      | Ended w \<Rightarrow> w \<in> executing S)"

fun perform_all :: "arg_info list set \<Rightarrow> bool \<Rightarrow> event list \<Rightarrow> sys \<Rightarrow> sys option" where
  "perform_all U nested [] S = Some S"
| "perform_all U nested (ev # evs) S =
     (if allowed U nested ev S
      then do { S1 \<leftarrow> perform ev S; perform_all U nested evs S1 }
      else None)"

lemma perform_step:
  assumes "allowed U nested ev S" "perform ev S = Some S'"
  shows "step U nested S ev S'"
proof (cases ev)
  case (Spawned w f as fa)
  then show ?thesis
    using assms by (auto simp: allowed_def bind_eq_Some_conv intro!: step.spawn)
next
  case (Began w)
  then obtain t ts r where "tqueue (rts S) = t # ts" "ctx t = Some w"
    "run_begin t ((rts S)\<lparr>tqueue := ts\<rparr>) = Some r"
    "S' = \<lparr>rts = r, executing = insert w (executing S)\<rparr>"
    using assms(2) by (auto simp: bind_eq_Some_conv split: list.splits if_splits)
  then show ?thesis using Began step.start by simp
next
  case (Ended w)
  then obtain r where "finish_execution w (rts S) = Some r" "S' = \<lparr>rts = r, executing = executing S - {w}\<rparr>"
    using assms(2) by (auto simp: bind_eq_Some_conv)
  moreover have "w \<in> executing S" using assms(1) Ended by (simp add: allowed_def)
  ultimately show ?thesis
    using step.finish [of w S "\<lparr>func = 0, ctx = Some w\<rparr>" r] Ended by (simp add: run_end_def)
qed

lemma perform_all_reachable:
  "reachable U nested S \<Longrightarrow> perform_all U nested evs S = Some S' \<Longrightarrow> reachable U nested S'"
proof (induction evs arbitrary: S)
  case (Cons ev evs)
  then obtain S1 where "allowed U nested ev S" "perform ev S = Some S1" "perform_all U nested evs S1 = Some S'"
    by (auto simp: bind_eq_Some_conv split: if_splits)
  then show ?case using Cons perform_step reachable.step by blast
qed simp

lemma perform_total:
  assumes "sys_inv U S" "universe U"
  shows "allowed U nested (Spawned w f as fa) S \<Longrightarrow> perform (Spawned w f as fa) S \<noteq> None"
    and "tqueue (rts S) = t # ts \<Longrightarrow> \<exists>w. ctx t = Some w \<and> perform (Began w) S \<noteq> None"
    and "w \<in> executing S \<Longrightarrow> perform (Ended w) S \<noteq> None"
proof -
  obtain ps where i: "coherent U (rts S) (executing S) {} ps" and ea: "\<not> eraser_assigned (rts S)"
    using assms(1) by (auto simp: sys_inv_def)
  show "perform (Spawned w f as fa) S \<noteq> None" if "allowed U nested (Spawned w f as fa) S"
  proof -
    have a: "as \<in> U" "heap (rts S) w = None" "\<forall>a. fa = Some a \<longrightarrow> a \<in> executing S"
      using that by (auto simp: allowed_def)
    obtain b D e where "spawn_task w f as (int (length as)) fa (rts S) = Some (b, spawned w f as fa D e (rts S))"
      by (rule spawn_inv [OF i assms(2) a(1,2,3)])
    then show ?thesis by simp
  qed
  show "\<exists>w. ctx t = Some w \<and> perform (Began w) S \<noteq> None" if tq: "tqueue (rts S) = t # ts"
  proof -
    obtain rs where rs: "set rs = {p. live (rts S) p \<and> status (item (rts S) p) = Ready}"
      "tqueue (rts S) = map (\<lambda>p. the (task (item (rts S) p))) rs"
      using i by (auto simp: coherent_def queued_def)
    obtain p where "p \<in> set rs" "t = the (task (item (rts S) p))" using rs(2) tq by (cases rs) auto
    moreover then have "live (rts S) p" using rs(1) by blast
    ultimately have w: "ctx t = Some p" "live (rts S) p"
      using i by (auto simp: coherent_def queued_def)
    then have "run_begin t ((rts S)\<lparr>tqueue := ts\<rparr>) = Some (begun p ts (rts S))"
      using run_begin_closed [OF w(1) liveD] by blast
    then show ?thesis using tq w(1) by simp
  qed
  show "perform (Ended w) S \<noteq> None" if "w \<in> executing S"
    using finish_execution_inv [OF i that ea] by auto
qed

section \<open>The invariant, read out\<close>

lemma sys_inv_queue:
  assumes "sys_inv U S"
  shows "distinct (map ctx (tqueue (rts S)))"
    and "ctx ` set (tqueue (rts S)) = Some ` {p. live (rts S) p \<and> status (item (rts S) p) = Ready}"
proof -
  have q: "queued (rts S)" using assms by (auto simp: sys_inv_def coherent_def)
  then obtain rs where rs: "distinct rs" "set rs = {p. live (rts S) p \<and> status (item (rts S) p) = Ready}"
    "tqueue (rts S) = map (\<lambda>p. the (task (item (rts S) p))) rs"
    by (auto simp: queued_def)
  have "ctx (the (task (item (rts S) p))) = Some p" if "p \<in> set rs" for p
  proof -
    have "live (rts S) p" using that rs(2) by blast
    then show ?thesis using q by (auto simp: queued_def)
  qed
  then have m: "map ctx (tqueue (rts S)) = map Some rs" using rs(3) by simp
  then show "distinct (map ctx (tqueue (rts S)))" using rs(1) by (simp add: distinct_map)
  have "ctx ` set (tqueue (rts S)) = set (map ctx (tqueue (rts S)))" by simp
  also have "\<dots> = Some ` set rs" unfolding m by simp
  finally show "ctx ` set (tqueue (rts S)) = Some ` {p. live (rts S) p \<and> status (item (rts S) p) = Ready}"
    using rs(2) by simp
qed

lemma sys_inv_executing:
  "sys_inv U S \<Longrightarrow> \<forall>w \<in> executing S. live (rts S) w \<and> status (item (rts S) w) = Running"
  by (auto simp: sys_inv_def coherent_def family_def)

lemma sys_inv_member:
  assumes "sys_inv U S" "live (rts S) p"
  shows "\<forall>a. father (item (rts S) p) = Some a \<longrightarrow> live (rts S) a \<and> status (item (rts S) a) = Running"
    and "nchildren (item (rts S) p) = int (card (kids (rts S) p)) +
           (if status (item (rts S) p) = Running \<and> p \<notin> executing S then 0 else 1)"
  using assms by (auto simp: sys_inv_def coherent_def family_def member_ok_def)

lemma sys_inv_preds:
  assumes "sys_inv U S" "live (rts S) q"
  shows "ndependencies (item (rts S) q) = int (card (preds (rts S) q))"
    and "status (item (rts S) q) = Waiting \<longleftrightarrow> preds (rts S) q \<noteq> {}"
    and "\<forall>p \<in> preds (rts S) q. live (rts S) p \<and> conflicts (args (item (rts S) p)) (args (item (rts S) q))"
proof -
  obtain ps where sh: "shape (rts S) ps" and ed: "edges (rts S) ps"
    using assms(1) by (auto simp: sys_inv_def coherent_def)
  show "ndependencies (item (rts S) q) = int (card (preds (rts S) q))"
    "status (item (rts S) q) = Waiting \<longleftrightarrow> preds (rts S) q \<noteq> {}"
    using ed assms(2) by (auto simp: edges_def)
  show "\<forall>p \<in> preds (rts S) q. live (rts S) p \<and> conflicts (args (item (rts S) p)) (args (item (rts S) q))"
  proof
    fix p assume p: "p \<in> preds (rts S) q"
    then have pp: "p \<in> set ps" "q \<in> set (deps (item (rts S) p))"
      using shapeD(3) [OF sh] by (auto simp: preds_def)
    then have "status (item (rts S) p) \<noteq> Deallocatable" "conflicts (args (item (rts S) p)) (args (item (rts S) q))"
      using ed unfolding edges_def by fastforce+
    then show "live (rts S) p \<and> conflicts (args (item (rts S) p)) (args (item (rts S) q))"
      using pp(1) shapeD(4) [OF sh] by blast
  qed
qed

end
