(* ===== verification/Ordering.thy ===== *)
theory Ordering
  imports Scheduler
begin

text \<open>
  Programs in which only the main thread spawns tasks. In every reachable state two active
  tasks that conflict are connected by dependency edges from the older to the newer one; so a
  task that may run has no older active task it conflicts with, and there is no deadlock.
\<close>

section \<open>Tasks without subtasks\<close>

definition fatherless :: "runtime \<Rightarrow> bool" where
  "fatherless s \<longleftrightarrow> (\<forall>p. live s p \<longrightarrow> father (item s p) = None)"

definition dep_edge :: "runtime \<Rightarrow> (wid \<times> wid) set" where
  "dep_edge s = {(p, q). p \<in> preds s q}"

text \<open>The older of two conflicting tasks reaches the newer one.\<close>

definition ordered :: "runtime \<Rightarrow> wid list \<Rightarrow> bool" where
  "ordered s ps \<longleftrightarrow>
     (\<forall>p q. live s p \<and> live s q \<and> before ps q p \<and> conflicts (args (item s p)) (args (item s q)) \<longrightarrow>
        (p, q) \<in> (dep_edge s)\<^sup>+)"

definition flat_ok :: "arg_info list set \<Rightarrow> runtime \<Rightarrow> wid set \<Rightarrow> wid list \<Rightarrow> bool" where
  "flat_ok U s E ps \<longleftrightarrow> coherent U s E {} ps \<and> fatherless s \<and> ordered s ps \<and> \<not> eraser_assigned s"

lemma trancl_no_pred: "(p, q) \<in> (dep_edge s)\<^sup>+ \<Longrightarrow> preds s q \<noteq> {}"
  by (auto simp: dep_edge_def elim: tranclE)

text \<open>A task that may run has no older active task in conflict with it.\<close>

lemma flat_ready:
  assumes "flat_ok U s E ps" "live s q" "status (item s q) \<noteq> Waiting"
    and "live s p" "before ps q p"
  shows "\<not> conflicts (args (item s p)) (args (item s q))"
proof
  assume c: "conflicts (args (item s p)) (args (item s q))"
  then have "(p, q) \<in> (dep_edge s)\<^sup>+" using assms unfolding flat_ok_def ordered_def by blast
  then have "preds s q \<noteq> {}" by (rule trancl_no_pred)
  moreover have "edges s ps" using assms(1) by (simp add: flat_ok_def coherent_def)
  ultimately show False using assms(2,3) by (simp add: edges_def)
qed

section \<open>Each operation keeps the order\<close>

lemma ordered_spawned:
  assumes "coherent U s E {} ps" "ordered s ps" "heap s w = None"
    and "dependency_set s as ps (filter (live s) ps) D"
  shows "ordered (spawned w f as None D e s) (w # ps)"
proof -
  let ?s = "spawned w f as None D e s"
  have sh: "shape s ps" and ed: "edges s ps" using assms(1) by (auto simp: coherent_def)
  have D: "\<forall>d \<in> set D. live s d" using assms(4) by (auto simp: dependency_set_def)
  note pr = preds_spawned [OF ed sh assms(3) D, of f as None e]
  have wl: "\<not> live s w" "w \<notin> set ps" using assms(3) shapeD(3) [OF sh, of w] by (auto simp: live_def)
  have new: "(d, w) \<in> dep_edge ?s" if "d \<in> set D" for d using that pr by (simp add: dep_edge_def)
  have "w \<notin> preds s q" for q using assms(3) by (simp add: preds_def)
  moreover have "preds s w = {}"
    using ed shapeD(3) [OF sh] wl(1) by (fastforce simp: edges_def preds_def)
  ultimately have sub: "dep_edge s \<subseteq> dep_edge ?s" using pr by (auto simp: dep_edge_def)
  have args_old: "args (item ?s p) = args (item s p)" if "live s p" for p
  proof -
    have "p \<noteq> w" using that wl by blast
    then show ?thesis using item_spawned_old [OF _ liveD [OF that]] by simp
  qed
  show ?thesis
    unfolding ordered_def
  proof (intro allI impI)
    fix p q
    assume a: "live ?s p \<and> live ?s q \<and> before (w # ps) q p \<and> conflicts (args (item ?s p)) (args (item ?s q))"
    show "(p, q) \<in> (dep_edge ?s)\<^sup>+"
    proof (cases "q = w")
      case True
      then have pps: "p \<in> set ps" using a wl(2) by (auto simp: before_Cons dest: before_in_set)
      then have lp: "live s p" using a wl(2) by (auto simp: live_spawned)
      then have "conflicts (args (item s p)) as" "p \<in> set (filter (live s) ps)"
        using a True args_old pps by (auto simp: heap_spawned_new)
      then consider "p \<in> set D" | d where "d \<in> set D" "before ps d p" "conflicts (args (item s p)) (args (item s d))"
        using assms(4) unfolding dependency_set_def by blast
      then show ?thesis
      proof cases
        case 1
        then show ?thesis using new True by auto
      next
        case 2
        then have "(p, d) \<in> (dep_edge s)\<^sup>+" using assms(2) D lp unfolding ordered_def by blast
        then have "(p, d) \<in> (dep_edge ?s)\<^sup>+" using trancl_mono sub by blast
        then show ?thesis using new [OF 2(1)] True by (meson trancl.trancl_into_trancl)
      qed
    next
      case False
      then have b: "before ps q p" using a by (auto simp: before_Cons)
      then have "p \<noteq> w" using wl(2) before_in_set by metis
      then have "live s p" "live s q" using a False by (auto simp: live_spawned)
      then have "(p, q) \<in> (dep_edge s)\<^sup>+"
        using assms(2) a b args_old unfolding ordered_def by metis
      then show ?thesis using trancl_mono sub by blast
    qed
  qed
qed

lemma ordered_begun:
  assumes "ordered s ps" "live s w"
  shows "ordered (begun w ts s) ps"
  using assms begun_frame [OF assms(2)]
  by (auto simp: ordered_def dep_edge_def heap_begun split: if_splits)

lemma ordered_body_left:
  assumes "ordered s ps" "live s w"
  shows "ordered (body_left w s) ps"
  using assms body_left_frame [OF assms(2)]
  by (auto simp: ordered_def dep_edge_def heap_body_left split: if_splits)

text \<open>A finished task was on no path between two others.\<close>

lemma trancl_avoid:
  assumes "(x, y) \<in> r\<^sup>+" "\<And>z. (z, p) \<notin> r" "x \<noteq> p"
  shows "(x, y) \<in> {(a, b). (a, b) \<in> r \<and> a \<noteq> p}\<^sup>+"
  using assms(1)
proof induction
  case (base y)
  then show ?case using assms(3) by blast
next
  case (step y z)
  have "y \<noteq> p" using step(1) assms(2) by (metis tranclE)
  then have "(y, z) \<in> {(a, b). (a, b) \<in> r \<and> a \<noteq> p}" using step(2) by blast
  then show ?case using step(3) by (rule trancl_into_trancl [rotated])
qed

lemma ordered_parted:
  assumes "completable s E ps p" "ordered s ps"
  shows "ordered (parted p ea s) ps"
proof -
  note fr = parted_frame [OF assms(1)]
  have "edges s ps" "live s p" "status (item s p) = Running" using assms(1) by (auto simp: completable_def)
  then have np: "(z, p) \<notin> dep_edge s" for z by (auto simp: edges_def dep_edge_def)
  have de: "{(a, b). (a, b) \<in> dep_edge s \<and> a \<noteq> p} = dep_edge (parted p ea s)"
    using fr(4) by (auto simp: dep_edge_def)
  have ag: "args (item (parted p ea s) q) = args (item s q)" if "live s q" "q \<noteq> p" for q
    by (simp add: item_parted [OF assms(1) that(2) liveD [OF that(1)]])
  show ?thesis
    unfolding ordered_def
  proof (intro allI impI)
    fix x y
    assume a: "live (parted p ea s) x \<and> live (parted p ea s) y \<and> before ps y x \<and>
      conflicts (args (item (parted p ea s) x)) (args (item (parted p ea s) y))"
    then have l: "live s x" "live s y" "x \<noteq> p" "y \<noteq> p" using fr(1) by blast+
    then have "(x, y) \<in> (dep_edge s)\<^sup>+" using a assms(2) ag unfolding ordered_def by metis
    then show "(x, y) \<in> (dep_edge (parted p ea s))\<^sup>+"
      using trancl_avoid [OF _ np l(3)] de by simp
  qed
qed

lemma dep_edge_cleaned:
  assumes "coherent U s E X ps" "cleaned s ps ks s'"
  shows "dep_edge s' = dep_edge s"
proof -
  have sh: "shape s ps" and ed: "edges s ps" using assms(1) by (auto simp: coherent_def)
  note fr = cleaned_frame [OF assms(2) sh]
  have "p \<in> preds s' q \<longleftrightarrow> p \<in> preds s q" for p q
  proof (cases "p \<in> set ks")
    case True
    have "set ks \<subseteq> set ps" using assms(2) subseq_set unfolding cleaned_def by blast
    then have "heap s p \<noteq> None" using True shapeD(3) [OF sh] by blast
    moreover have "deps (item s' p) = deps (item s p)" using fr(3) [OF True] by auto
    moreover have "heap s' p \<noteq> None" using fr(2) True by blast
    ultimately show ?thesis by (simp add: preds_def)
  next
    case False
    then have n: "p \<notin> preds s' q" using fr(2) by (auto simp: preds_def)
    have "\<not> live s p" using False fr(4) by blast
    then have "p \<notin> preds s q"
      using ed shapeD(3,4) [OF sh, of p] by (auto simp: preds_def edges_def)
    then show ?thesis using n by blast
  qed
  then show ?thesis by (auto simp: dep_edge_def)
qed

lemma ordered_cleaned:
  assumes "coherent U s E X ps" "cleaned s ps ks s'" "ordered s ps"
  shows "ordered s' ks"
proof -
  have sh: "shape s ps" using assms(1) by (simp add: coherent_def)
  note fr = cleaned_frame [OF assms(2) sh]
  have sub: "subseq ks ps" using assms(2) by (simp add: cleaned_def)
  have "args (item s' p) = args (item s p)" if "live s p" for p
    using fr(3) [OF fr(4) [OF that]] by auto
  then show ?thesis
    using assms(3) fr(1) before_subseq [OF sub]
    unfolding ordered_def dep_edge_cleaned [OF assms(1,2)] by metis
qed

section \<open>The steps of such a program\<close>

lemma fatherless_spawned:
  assumes "fatherless s"
  shows "fatherless (spawned w f as None D e s)"
  unfolding fatherless_def
proof (intro allI impI)
  fix p assume p: "live (spawned w f as None D e s) p"
  show "father (item (spawned w f as None D e s) p) = None"
  proof (cases "p = w")
    case False
    then have "live s p" using p by (simp add: live_spawned)
    then show ?thesis
      using assms item_spawned_old [OF False liveD] by (simp add: fatherless_def)
  qed (simp add: heap_spawned_new)
qed

lemma flat_spawn:
  assumes "flat_ok U s E ps" "universe U" "as \<in> U" "heap s w = None"
  obtains b D where "spawn_task w f as (int (length as)) None s = Some (b, spawned w f as None D False s)"
    "flat_ok U (spawned w f as None D False s) E (w # ps)"
proof -
  have c: "coherent U s E {} ps" using assms(1) by (simp add: flat_ok_def)
  obtain b D e vs where r: "spawn_task w f as (int (length as)) None s = Some (b, spawned w f as None D e s)"
    "coherent U (spawned w f as None D e s) E {} (w # ps)" "dependency_set s as ps vs D"
    "compared (being_inserted s w f as None) w None ps = (vs, e)"
    by (rule spawn_inv [OF c assms(2-4), of None f]) auto
  have "w \<notin> set ps" using shapeD(3) [of s ps w] c assms(4) by (auto simp: coherent_def)
  then have ve: "vs = filter (live s) ps" "e = False" using r(4) compared_no_father by simp_all
  have "ordered (spawned w f as None D e s) (w # ps)"
    using ordered_spawned [OF c _ assms(4)] assms(1) r(3) ve by (simp add: flat_ok_def)
  then show ?thesis
    using that r(1,2) ve(2) fatherless_spawned assms(1) by (auto simp: flat_ok_def)
qed

lemma flat_start:
  assumes "flat_ok U s E ps" "tqueue s = t # ts" "ctx t = Some w"
  shows "live s w" "status (item s w) = Ready"
    and "run_begin t (s\<lparr>tqueue := ts\<rparr>) = Some (begun w ts s)" "flat_ok U (begun w ts s) (insert w E) ps"
proof -
  have c: "coherent U s E {} ps" using assms(1) by (simp add: flat_ok_def)
  then have "queued s" by (simp add: coherent_def)
  note w = queued_begun(1,2) [OF this assms(2,3)]
  show "live s w" "status (item s w) = Ready" by (rule w)+
  show "run_begin t (s\<lparr>tqueue := ts\<rparr>) = Some (begun w ts s)"
    by (rule run_begin_closed [OF assms(3) liveD [OF w(1)]])
  have "fatherless (begun w ts s)"
    using assms(1) begun_frame(1) [OF w(1)] by (auto simp: flat_ok_def fatherless_def heap_begun)
  then show "flat_ok U (begun w ts s) (insert w E) ps"
    using inv_begun [OF c assms(2,3)] ordered_begun [OF _ w(1)] assms(1)
    by (simp add: flat_ok_def) (simp add: begun_def)
qed

text \<open>What the end of a task changes, as far as the other active tasks are concerned.\<close>

definition ended_in :: "runtime \<Rightarrow> wid list \<Rightarrow> wid \<Rightarrow> runtime \<Rightarrow> wid list \<Rightarrow> bool" where
  "ended_in s ps w s' qs \<longleftrightarrow>
     subseq qs ps \<and>
     (\<forall>q. live s' q \<longleftrightarrow> live s q \<and> q \<noteq> w) \<and>
     (\<forall>q. live s' q \<longrightarrow> args (item s' q) = args (item s q) \<and> task (item s' q) = task (item s q) \<and>
        (status (item s' q) = Running \<longleftrightarrow> status (item s q) = Running))"

lemma flat_finish:
  assumes "flat_ok U s E ps" "w \<in> E"
  obtains s' qs where "finish_execution w s = Some s'" "flat_ok U s' (E - {w}) qs" "ended_in s ps w s' qs"
proof -
  have c: "coherent U s E {} ps" and fl: "fatherless s" and od: "ordered s ps" and ea: "\<not> eraser_assigned s"
    using assms(1) by (auto simp: flat_ok_def)
  let ?s = "body_left w s"
  have fm: "family s E {} ps" using c by (simp add: coherent_def)
  have w: "live s w" "status (item s w) = Running" using fm assms(2) by (auto simp: family_def)
  have "kids s w = {}" using fl by (auto simp: kids_def fatherless_def)
  then have n1: "nchildren (item s w) = 1"
    using fm w assms(2) by (auto simp: family_def member_ok_def)
  note bl = inv_body_left [OF c assms(2)] and bf = body_left_frame [OF w(1)]
  have i: "coherent U ?s (E - {w}) {w} ps" using bl(1) n1 by simp
  have comp: "completable ?s (E - {w}) ps w"
    using i bl(2-4) n1 by (simp add: completable_def coherent_def)
  have ea': "eraser_assigned ?s = False" using ea by (simp add: body_left_def)
  have nofa: "father (item ?s w) = None" using fl w(1) by (simp add: fatherless_def heap_body_left)
  define e where "e = erases w False ?s"
  let ?p = "parted w e ?s"
  have fin: "finish_loop w w False ?s = Some (e, worklist ?s, ?p)"
    unfolding e_def by (rule finish_loop_round(1) [OF i comp ea' nofa])
  have "emptied ?s w = {}" using nofa by (simp add: emptied_def)
  then have ip: "coherent U ?p (E - {w}) {} ps"
    using inv_parted [OF i bl(2,3) _ bl(4) [OF n1], of e] by simp
  note pf = parted_frame [OF comp]
  have same: "args (item ?p q) = args (item s q)" "father (item ?p q) = father (item s q)"
    "task (item ?p q) = task (item s q)"
    "status (item ?p q) = Running \<longleftrightarrow> status (item s q) = Running"
    if "live s q" "q \<noteq> w" for q
  proof -
    have lq: "live ?s q" using bf(1) that(1) by blast
    have "q \<in> set (deps (item ?s w)) \<Longrightarrow> status (item ?s q) = Waiting" using completableD(7) [OF comp] by blast
    then show "args (item ?p q) = args (item s q)" "father (item ?p q) = father (item s q)"
      "task (item ?p q) = task (item s q)"
      "status (item ?p q) = Running \<longleftrightarrow> status (item s q) = Running"
      using that(2) by (auto simp: item_parted [OF comp that(2) liveD [OF lq]] heap_body_left)
  qed
  have fp: "fatherless ?p" using fl same(2) pf(1) bf(1) by (simp add: fatherless_def)
  have op: "ordered ?p ps" by (rule ordered_parted [OF comp ordered_body_left [OF od w(1)]])
  have ended: "ended_in s ps w ?p ps"
    using same pf(1) bf(1) by (auto simp: ended_in_def)
  obtain x where x: "heap s w = Some x" using liveD [OF w(1)] by blast
  then have upd: "upd w (\<lambda>x. x\<lparr>nchildren := nchildren x - 1\<rparr>) s = Some ?s"
    by (simp add: upd_def body_left_def)
  have fe: "finish_execution w s = (if e then Clean_worklist (worklist ?p) ?p else Some ?p)"
    using x upd n1 fin by (simp add: finish_execution_def)
  show ?thesis
  proof (cases e)
    case False
    have "eraser_assigned ?p = e" by simp
    then have "flat_ok U ?p (E - {w}) ps" using ip fp op False unfolding flat_ok_def by blast
    then show ?thesis using that fe ended False by simp
  next
    case True
    have "shape s ps" using c by (simp add: coherent_def)
    then have "ps \<noteq> []" using w(1) shapeD(4) by fastforce
    then obtain ks s' where cl: "Clean_worklist (worklist ?p) ?p = Some s'" "cleaned ?p ps ks s'"
      "coherent U s' (E - {w}) {} ks"
      using Clean_worklist_inv [OF ip] by blast
    have shp: "shape ?p ps" using ip by (simp add: coherent_def)
    note cf = cleaned_frame [OF cl(2) shp]
    have it: "\<exists>r. item s' q = (item ?p q)\<lparr>nxt := r\<rparr>" if "live s' q" for q
      using that cf by blast
    have fs: "fatherless s'" unfolding fatherless_def
    proof (intro allI impI)
      fix q assume q: "live s' q"
      obtain r where "item s' q = (item ?p q)\<lparr>nxt := r\<rparr>" using it [OF q] by blast
      then show "father (item s' q) = None" using fp cf(1) q by (simp add: fatherless_def)
    qed
    have "ended_in s ps w s' ks"
      unfolding ended_in_def
    proof (intro conjI allI impI)
      show "subseq ks ps" using cl(2) by (simp add: cleaned_def)
      fix q
      show "live s' q \<longleftrightarrow> live s q \<and> q \<noteq> w" using cf(1) pf(1) bf(1) by simp
      assume q: "live s' q"
      obtain r where r: "item s' q = (item ?p q)\<lparr>nxt := r\<rparr>" using it [OF q] by blast
      have "live s q" "q \<noteq> w" using q cf(1) pf(1) bf(1) by simp_all
      then show "args (item s' q) = args (item s q)" "task (item s' q) = task (item s q)"
        "status (item s' q) = Running \<longleftrightarrow> status (item s q) = Running"
        using same r by simp_all
    qed
    moreover have "flat_ok U s' (E - {w}) ks"
      using cl(3) fs ordered_cleaned [OF ip cl(2) op] inv_cleaned(2) [OF ip cl(2)] by (simp add: flat_ok_def)
    ultimately show ?thesis using that fe cl(1) True by simp
  qed
qed

section \<open>There is no deadlock\<close>

lemma oldest_active:
  assumes "live s p" "p \<in> set ps" "distinct ps"
  shows "\<exists>q \<in> set ps. live s q \<and> (\<forall>x. live s x \<longrightarrow> \<not> before ps q x)"
  using assms
proof (induction ps arbitrary: p)
  case (Cons a ps)
  show ?case
  proof (cases "\<exists>x \<in> set ps. live s x")
    case True
    then obtain q where "q \<in> set ps" "live s q" "\<forall>x. live s x \<longrightarrow> \<not> before ps q x"
      using Cons.IH Cons.prems(3) by auto
    then show ?thesis using Cons.prems(3) by (auto simp: before_Cons)
  next
    case False
    then have "p = a" using Cons.prems(1,2) by auto
    then have "\<forall>x. live s x \<longrightarrow> \<not> before (a # ps) a x"
      using False before_in_set [of ps] by (auto simp: before_Cons)
    then show ?thesis using Cons.prems(1) \<open>p = a\<close> by auto
  qed
qed simp

lemma flat_progress:
  assumes "flat_ok U s E ps" "live s p"
  shows "(\<exists>t ts w. tqueue s = t # ts \<and> ctx t = Some w) \<or> E \<noteq> {}"
proof -
  have c: "coherent U s E {} ps" and fl: "fatherless s" using assms(1) by (auto simp: flat_ok_def)
  then have sh: "shape s ps" and ed: "edges s ps" and fm: "family s E {} ps" and qd: "queued s"
    by (auto simp: coherent_def)
  have "p \<in> set ps" using shapeD(4) [OF sh] assms(2) by blast
  then obtain q where q: "live s q" "\<forall>x. live s x \<longrightarrow> \<not> before ps q x"
    using oldest_active [OF assms(2) _ shapeD(2) [OF sh]] by blast
  have "x \<notin> preds s q" for x
  proof
    assume x: "x \<in> preds s q"
    then have xp: "x \<in> set ps" using shapeD(3) [OF sh] by (auto simp: preds_def)
    then have "before ps q x" using x ed by (auto simp: edges_def preds_def)
    moreover have "status (item s x) \<noteq> Deallocatable" using x xp ed by (force simp: edges_def preds_def)
    ultimately show False using q(2) xp shapeD(4) [OF sh] by blast
  qed
  then have nw: "status (item s q) \<noteq> Waiting" using ed q(1) by (auto simp: edges_def)
  have nf: "status (item s q) \<noteq> Filling" "status (item s q) \<noteq> Done" "status (item s q) \<noteq> Deallocatable"
    using q(1) sh shapeD(4) [OF sh] by (auto simp: shape_def)
  then consider "status (item s q) = Ready" | "status (item s q) = Running"
    using nw by (cases "status (item s q)") auto
  then show ?thesis
  proof cases
    case 1
    obtain rs where rs: "set rs = {p. live s p \<and> status (item s p) = Ready}"
      "tqueue s = map (\<lambda>p. the (task (item s p))) rs"
      using qd by (auto simp: queued_def)
    then have "rs \<noteq> []" using 1 q(1) by auto
    then obtain r rs' where r: "rs = r # rs'" by (cases rs) auto
    then have "live s r" using rs(1) by auto
    then show ?thesis using qd rs(2) r unfolding queued_def by fastforce
  next
    case 2
    have "kids s q = {}" using fl by (auto simp: kids_def fatherless_def)
    then show ?thesis using fm q(1) 2 by (auto simp: family_def member_ok_def)
  qed
qed

end
