(* ===== verification/Dataflow.thy ===== *)
theory Dataflow
  imports Prelude
begin

text \<open>
  The contract of the library for a program that spawns tasks from one thread, free of any data
  structure: tasks are submitted in an order; a task may start when every task submitted before
  it that clashes with it has finished. And what follows from the contract alone: the effects
  of the tasks, applied in the order in which they finish, are those of the sequential program.
\<close>

section \<open>The abstract machine\<close>

datatype phase = Pending | Active | Finished

datatype 'a flow_event = Submit 'a | Start nat | Finish nat

type_synonym 'a flow = "('a \<times> phase) list"

definition startable :: "('a \<Rightarrow> 'a \<Rightarrow> bool) \<Rightarrow> 'a flow \<Rightarrow> nat \<Rightarrow> bool" where
  "startable clash fl i \<longleftrightarrow>
     i < length fl \<and> snd (fl ! i) = Pending \<and>
     (\<forall>j < i. clash (fst (fl ! j)) (fst (fl ! i)) \<longrightarrow> snd (fl ! j) = Finished)"

inductive flow_step :: "('a \<Rightarrow> 'a \<Rightarrow> bool) \<Rightarrow> 'a flow \<Rightarrow> 'a flow_event \<Rightarrow> 'a flow \<Rightarrow> bool"
  for clash
where
  submit: "flow_step clash fl (Submit a) (fl @ [(a, Pending)])"
| start: "startable clash fl i \<Longrightarrow> flow_step clash fl (Start i) (fl[i := (fst (fl ! i), Active)])"
| finish: "i < length fl \<Longrightarrow> snd (fl ! i) = Active \<Longrightarrow>
    flow_step clash fl (Finish i) (fl[i := (fst (fl ! i), Finished)])"

inductive flow_runs :: "('a \<Rightarrow> 'a \<Rightarrow> bool) \<Rightarrow> 'a flow_event list \<Rightarrow> 'a flow \<Rightarrow> bool"
  for clash
where
  nil: "flow_runs clash [] []"
| snoc: "flow_runs clash evs fl \<Longrightarrow> flow_step clash fl ev fl' \<Longrightarrow> flow_runs clash (evs @ [ev]) fl'"

inductive_cases flow_submitE: "flow_step clash fl (Submit a) fl'"
inductive_cases flow_startE: "flow_step clash fl (Start i) fl'"
inductive_cases flow_finishE: "flow_step clash fl (Finish i) fl'"

text \<open>A task that has started was preceded by everything it clashes with.\<close>

definition respected :: "('a \<Rightarrow> 'a \<Rightarrow> bool) \<Rightarrow> 'a flow \<Rightarrow> bool" where
  "respected clash fl \<longleftrightarrow>
     (\<forall>j < length fl. snd (fl ! j) \<noteq> Pending \<longrightarrow>
        (\<forall>i < j. clash (fst (fl ! i)) (fst (fl ! j)) \<longrightarrow> snd (fl ! i) = Finished))"

lemma respected_step:
  assumes "flow_step clash fl ev fl'" "respected clash fl"
  shows "respected clash fl'"
  using assms
  by cases (auto simp: respected_def startable_def nth_append nth_list_update)

lemma flow_runs_respected: "flow_runs clash evs fl \<Longrightarrow> respected clash fl"
proof (induction rule: flow_runs.induct)
  case nil
  then show ?case by (simp add: respected_def)
next
  case (snoc evs fl ev fl')
  then show ?case by (blast intro: respected_step)
qed

section \<open>Effects\<close>

text \<open>The tasks in the order of their submission, and those of them that have finished.\<close>

definition finished_tasks :: "'a flow \<Rightarrow> 'a list" where
  "finished_tasks fl = map fst (filter (\<lambda>(a, ph). ph = Finished) fl)"

text \<open>The memory after a run: the effect of a task is applied when it finishes.\<close>

fun flow_effect :: "('a \<Rightarrow> 'm \<Rightarrow> 'm) \<Rightarrow> 'a flow_event \<Rightarrow> 'a flow \<Rightarrow> 'm \<Rightarrow> 'm" where
  "flow_effect eff (Finish i) fl m = eff (fst (fl ! i)) m"
| "flow_effect eff (Submit a) fl m = m"
| "flow_effect eff (Start i) fl m = m"

locale independence =
  fixes eff :: "'a \<Rightarrow> 'm \<Rightarrow> 'm" and clash :: "'a \<Rightarrow> 'a \<Rightarrow> bool"
  assumes commute: "\<not> clash a b \<Longrightarrow> eff a (eff b m) = eff b (eff a m)"
begin

lemma fold_move:
  "\<forall>b \<in> set bs. \<not> clash a b \<Longrightarrow> fold eff bs (eff a m) = eff a (fold eff bs m)"
proof (induction bs arbitrary: m)
  case (Cons b bs)
  then have "eff b (eff a m) = eff a (eff b m)" using commute [of a b m] by simp
  then show ?case using Cons by simp
qed simp

text \<open>The finish of one more task, in the order of submission.\<close>

lemma finished_tasks_finish:
  assumes "i < length fl" "snd (fl ! i) = Active" "respected clash fl"
  shows "fold eff (finished_tasks (fl[i := (fst (fl ! i), Finished)])) m =
         eff (fst (fl ! i)) (fold eff (finished_tasks fl) m)"
proof -
  let ?a = "fst (fl ! i)"
  let ?post = "filter (\<lambda>(a, ph). ph = Finished) (drop (Suc i) fl)"
  let ?pre = "filter (\<lambda>(a, ph). ph = Finished) (take i fl)"
  have fl: "fl = take i fl @ (?a, Active) # drop (Suc i) fl"
    using assms(1,2) by (metis id_take_nth_drop surjective_pairing)
  have fl': "fl[i := (?a, Finished)] = take i fl @ (?a, Finished) # drop (Suc i) fl"
    using assms(1) by (simp add: upd_conv_take_nth_drop)
  have ft: "finished_tasks fl = map fst ?pre @ map fst ?post"
    unfolding finished_tasks_def by (subst fl) simp
  have ft': "finished_tasks (fl[i := (?a, Finished)]) = map fst ?pre @ ?a # map fst ?post"
    unfolding finished_tasks_def by (subst fl') simp
  have "\<not> clash ?a b" if "b \<in> set (map fst ?post)" for b
  proof
    assume c: "clash ?a b"
    have "(b, Finished) \<in> set (drop (Suc i) fl)" using that by auto
    then obtain k where k: "k < length (drop (Suc i) fl)" "drop (Suc i) fl ! k = (b, Finished)"
      by (auto simp: in_set_conv_nth)
    then have j: "Suc i + k < length fl" "fl ! (Suc i + k) = (b, Finished)" by simp_all
    then have "snd (fl ! i) = Finished"
      using assms(3) c unfolding respected_def
      by (metis fst_conv less_add_Suc1 add_Suc phase.distinct(3) snd_conv)
    then show False using assms(2) by simp
  qed
  then show ?thesis
    using fold_move [of "map fst ?post" ?a] by (simp add: ft ft')
qed

lemma finished_tasks_step:
  assumes "flow_step clash fl ev fl'" "respected clash fl"
  shows "fold eff (finished_tasks fl') m = flow_effect eff ev fl (fold eff (finished_tasks fl) m)"
  using assms(1)
proof cases
  case (submit a)
  then show ?thesis by (simp add: finished_tasks_def)
next
  case (start i)
  then have i: "i < length fl" "snd (fl ! i) = Pending" by (auto simp: startable_def)
  have "filter (\<lambda>(a, ph). ph = Finished) (fl[i := (fst (fl ! i), Active)]) =
      filter (\<lambda>(a, ph). ph = Finished) fl"
    using i by (subst (2) id_take_nth_drop [OF i(1)])
      (auto simp: upd_conv_take_nth_drop split: prod.splits)
  then show ?thesis using start by (simp add: finished_tasks_def)
next
  case (finish i)
  then show ?thesis using finished_tasks_finish assms(2) by simp
qed

end

section \<open>The length of a run\<close>

fun weight :: "phase \<Rightarrow> nat" where
  "weight Pending = 1"
| "weight Active = 2"
| "weight Finished = 3"

definition flow_weight :: "'a flow \<Rightarrow> nat" where
  "flow_weight fl = sum_list (map (\<lambda>x. weight (snd x)) fl)"

lemma flow_weight_step: "flow_step clash fl ev fl' \<Longrightarrow> flow_weight fl' = Suc (flow_weight fl)"
proof (induction rule: flow_step.cases)
  case (start fl i)
  then have i: "i < length fl" "snd (fl ! i) = Pending" by (auto simp: startable_def)
  then show ?case
    using start elem_le_sum_list [of i "map (\<lambda>x. weight (snd x)) fl"]
    by (simp add: flow_weight_def map_update sum_list_update)
next
  case (finish i fl)
  then show ?case
    using elem_le_sum_list [of i "map (\<lambda>x. weight (snd x)) fl"]
    by (simp add: flow_weight_def map_update sum_list_update)
qed (simp add: flow_weight_def)

lemma flow_runs_weight: "flow_runs clash evs fl \<Longrightarrow> length evs = flow_weight fl"
  by (induction rule: flow_runs.induct) (auto simp: flow_weight_step, simp add: flow_weight_def)

lemma flow_weight_bound:
  "flow_weight fl \<le> 3 * length fl"
  "flow_weight fl = 3 * length fl \<longleftrightarrow> (\<forall>x \<in> set fl. snd x = Finished)"
proof -
  have w: "weight ph \<le> 3" "weight ph = 3 \<longleftrightarrow> ph = Finished" for ph by (cases ph; simp)+
  show b: "flow_weight fl \<le> 3 * length fl" for fl :: "'a flow"
  proof (induction fl)
    case (Cons x fl)
    then show ?case using w(1) [of "snd x"] by (simp add: flow_weight_def)
  qed (simp add: flow_weight_def)
  show "flow_weight fl = 3 * length fl \<longleftrightarrow> (\<forall>x \<in> set fl. snd x = Finished)"
  proof (induction fl)
    case (Cons x fl)
    have "flow_weight (x # fl) = weight (snd x) + flow_weight fl" by (simp add: flow_weight_def)
    then show ?case using Cons w [of "snd x"] b [of fl] by auto
  qed (simp add: flow_weight_def)
qed

end
