(* ===== verification/Refinement.thy ===== *)
theory Refinement
  imports Ordering Dataflow
begin

text \<open>
  The runtime of a program whose main thread spawns all the tasks implements the abstract
  machine of \<open>Dataflow\<close>: every step of the library is a step of the machine. So the memory a
  parallel run leaves is the one of the sequential program.
\<close>

section \<open>Runs\<close>

inductive runs :: "arg_info list set \<Rightarrow> bool \<Rightarrow> event list \<Rightarrow> sys \<Rightarrow> bool" for U nested where
  start: "initial S \<Longrightarrow> runs U nested [] S"
| snoc: "runs U nested evs S \<Longrightarrow> step U nested S ev S' \<Longrightarrow> runs U nested (evs @ [ev]) S'"

lemma runs_reachable: "runs U nested evs S \<Longrightarrow> reachable U nested S"
  by (induction rule: runs.induct) (auto intro: reachable.intros)

lemma reachable_runs: "reachable U nested S \<Longrightarrow> \<exists>evs. runs U nested evs S"
  by (induction rule: reachable.induct) (blast intro: runs.intros)+

section \<open>The relation between the runtime and the abstract machine\<close>

definition phase_of :: "status_t \<Rightarrow> phase" where
  "phase_of st = (if st = Running then Active else Pending)"

type_synonym job = "nat \<times> arg_info list"

definition job_of :: "runtime \<Rightarrow> wid \<Rightarrow> job" where
  "job_of s p = (func (the (task (item s p))), args (item s p))"

definition clashes :: "job \<Rightarrow> job \<Rightarrow> bool" where
  "clashes a b = conflicts (snd a) (snd b)"

text \<open>\<open>idx p\<close> is the position of the active task \<open>p\<close> in the order of submission.\<close>

definition represents :: "runtime \<Rightarrow> wid list \<Rightarrow> (wid \<Rightarrow> nat) \<Rightarrow> job flow \<Rightarrow> bool" where
  "represents s ps idx fl \<longleftrightarrow>
     (\<forall>p. live s p \<longrightarrow> idx p < length fl \<and> fl ! idx p = (job_of s p, phase_of (status (item s p)))) \<and>
     (\<forall>p q. live s p \<longrightarrow> live s q \<longrightarrow> before ps q p \<longrightarrow> idx p < idx q) \<and>
     (\<forall>i < length fl. snd (fl ! i) \<noteq> Finished \<longrightarrow> (\<exists>p. live s p \<and> idx p = i))"

lemma represents_inj:
  assumes "represents s ps idx fl" "shape s ps" "live s p" "live s q" "idx p = idx q"
  shows "p = q"
proof (rule ccontr)
  assume "p \<noteq> q"
  then have "before ps p q \<or> before ps q p"
    using before_total shapeD(4) [OF assms(2)] assms(3,4) by metis
  then show False using assms(1,3-5) unfolding represents_def by (metis less_irrefl)
qed

lemma represents_older:
  assumes "represents s ps idx fl" "shape s ps" "live s p" "live s q" "idx p < idx q"
  shows "before ps q p"
proof (rule ccontr)
  assume n: "\<not> before ps q p"
  have "p \<noteq> q" using assms(5) by blast
  then have "before ps p q"
    using n before_total [of p ps q] shapeD(4) [OF assms(2)] assms(3,4) by blast
  then have "idx q < idx p" using assms(1,3,4) unfolding represents_def by blast
  then show False using assms(5) by simp
qed

lemma represents_spawned:
  assumes "represents s ps idx fl" "heap s w = None" "shape s ps"
  shows "represents (spawned w f as fa D e s) (w # ps) (idx(w := length fl)) (fl @ [((f, as), Pending)])"
proof -
  let ?s = "spawned w f as fa D e s" and ?idx = "idx(w := length fl)" and ?fl = "fl @ [((f, as), Pending)]"
  note rep = assms(1) [unfolded represents_def]
  have wl: "\<not> live s w" "w \<notin> set ps"
    using assms(2) shapeD(3) [OF assms(3), of w] by (auto simp: live_def)
  have old: "p \<noteq> w" "job_of ?s p = job_of s p" "status (item ?s p) = status (item s p)" if "live s p" for p
  proof -
    show "p \<noteq> w" using that wl by blast
    then show "job_of ?s p = job_of s p" "status (item ?s p) = status (item s p)"
      using item_spawned_old [OF _ liveD [OF that]] by (simp_all add: job_of_def)
  qed
  have new: "job_of ?s w = (f, as)" "phase_of (status (item ?s w)) = Pending"
    by (simp_all add: job_of_def heap_spawned_new phase_of_def)
  show ?thesis
    unfolding represents_def
  proof (intro conjI allI impI)
    fix p assume "live ?s p"
    then have p: "p = w \<or> live s p" by (simp add: live_spawned)
    show "?idx p < length ?fl"
      using p rep old(1) by (cases "p = w") auto
    show "?fl ! ?idx p = (job_of ?s p, phase_of (status (item ?s p)))"
      using p rep old [of p] new by (cases "p = w") (auto simp: nth_append)
  next
    fix p q assume "live ?s p" "live ?s q" and b: "before (w # ps) q p"
    then have p: "p = w \<or> live s p" "q = w \<or> live s q" by (simp_all add: live_spawned)
    have "p \<in> set ps" using b before_in_set [of ps q p] by (auto simp: before_Cons)
    then have "p \<noteq> w" using wl(2) by blast
    then show "?idx p < ?idx q"
      using p b rep wl by (cases "q = w") (auto simp: before_Cons)
  next
    fix i assume i: "i < length ?fl" "snd (?fl ! i) \<noteq> Finished"
    show "\<exists>p. live ?s p \<and> ?idx p = i"
    proof (cases "i = length fl")
      case True
      then show ?thesis using live_spawned by (intro exI [of _ w]) auto
    next
      case False
      then have "i < length fl" "snd (fl ! i) \<noteq> Finished" using i by (auto simp: nth_append split: if_splits)
      then obtain p where "live s p" "idx p = i" using rep by blast
      then show ?thesis using live_spawned old(1) by (intro exI [of _ p]) auto
    qed
  qed
qed

lemma represents_begun:
  assumes "represents s ps idx fl" "shape s ps" "live s w"
  shows "represents (begun w ts s) ps idx (fl[idx w := (fst (fl ! idx w), Active)])"
proof -
  let ?s = "begun w ts s" and ?fl = "fl[idx w := (fst (fl ! idx w), Active)]"
  note rep = assms(1) [unfolded represents_def] and fr = begun_frame [OF assms(3)]
  have job: "job_of ?s p = job_of s p" for p by (simp add: job_of_def heap_begun)
  have st: "phase_of (status (item ?s p)) = (if p = w then Active else phase_of (status (item s p)))" for p
    by (simp add: heap_begun phase_of_def)
  have neq: "idx p \<noteq> idx w" if "live s p" "p \<noteq> w" for p
    using represents_inj [OF assms(1,2) that(1) assms(3)] that(2) by blast
  show ?thesis
    unfolding represents_def fr(1)
  proof (intro conjI allI impI)
    fix p assume p: "live s p"
    show "idx p < length ?fl" using rep p by simp
    show "?fl ! idx p = (job_of ?s p, phase_of (status (item ?s p)))"
    proof (cases "p = w")
      case True
      then show ?thesis using rep p by (simp add: job st)
    next
      case False
      then have "idx w \<noteq> idx p" using neq [OF p] by simp
      then show ?thesis using rep p False by (simp add: job st)
    qed
  next
    fix p q assume "live s p" "live s q" "before ps q p"
    then show "idx p < idx q" using rep by blast
  next
    fix i assume i: "i < length ?fl" "snd (?fl ! i) \<noteq> Finished"
    show "\<exists>p. live s p \<and> idx p = i"
    proof (cases "i = idx w")
      case False
      then show ?thesis using i rep by (auto simp: nth_list_update)
    qed (use assms(3) in blast)
  qed
qed

lemma represents_ended:
  assumes "represents s ps idx fl" "shape s ps" "live s w" "ended_in s ps w s' qs"
  shows "represents s' qs idx (fl[idx w := (fst (fl ! idx w), Finished)])"
proof -
  let ?fl = "fl[idx w := (fst (fl ! idx w), Finished)]"
  note rep = assms(1) [unfolded represents_def] and en = assms(4) [unfolded ended_in_def]
  have lv: "live s' p \<longleftrightarrow> live s p \<and> p \<noteq> w" for p using en by blast
  have neq: "idx p \<noteq> idx w" if "live s' p" for p
    using represents_inj [OF assms(1,2) _ assms(3)] that lv by blast
  have sub: "subseq qs ps" using en by blast
  show ?thesis
    unfolding represents_def
  proof (intro conjI allI impI)
    fix p assume p: "live s' p"
    then have "live s p" using lv by blast
    then show "idx p < length ?fl" using rep by simp
    have "job_of s' p = job_of s p" "phase_of (status (item s' p)) = phase_of (status (item s p))"
      using en p by (auto simp: job_of_def phase_of_def)
    then show "?fl ! idx p = (job_of s' p, phase_of (status (item s' p)))"
      using rep \<open>live s p\<close> neq [OF p] by simp
  next
    fix p q assume "live s' p" "live s' q" "before qs q p"
    then show "idx p < idx q" using rep lv before_subseq [OF sub] by blast
  next
    fix i assume i: "i < length ?fl" "snd (?fl ! i) \<noteq> Finished"
    then have "i \<noteq> idx w" by (cases "i = idx w") auto
    then have "i < length fl" "snd (fl ! i) \<noteq> Finished" using i by simp_all
    then obtain p where "live s p" "idx p = i" using rep by blast
    then show "\<exists>p. live s' p \<and> idx p = i" using lv \<open>i \<noteq> idx w\<close> by blast
  qed
qed

section \<open>Every step is a step of the abstract machine\<close>

definition matches :: "(wid \<Rightarrow> nat) \<Rightarrow> (wid \<Rightarrow> nat) \<Rightarrow> job flow \<Rightarrow> event \<Rightarrow> job flow_event \<Rightarrow> bool" where
  "matches idx idx' fl ev fe \<longleftrightarrow>
     (case ev of
        Spawned w f as fa \<Rightarrow> fe = Submit (f, as) \<and> idx' = idx(w := length fl)
      | Began w \<Rightarrow> fe = Start (idx w) \<and> idx' = idx
      | Ended w \<Rightarrow> fe = Finish (idx w) \<and> idx' = idx)"

definition simulated :: "arg_info list set \<Rightarrow> sys \<Rightarrow> wid list \<Rightarrow> (wid \<Rightarrow> nat) \<Rightarrow> job flow \<Rightarrow> bool" where
  "simulated U S ps idx fl \<longleftrightarrow>
     flat_ok U (rts S) (executing S) ps \<and> represents (rts S) ps idx fl"

lemma ready_startable:
  assumes "simulated U S ps idx fl" "live (rts S) w" "status (item (rts S) w) = Ready"
  shows "startable clashes fl (idx w)"
proof -
  have ok: "flat_ok U (rts S) (executing S) ps" and rep: "represents (rts S) ps idx fl"
    using assms(1) by (auto simp: simulated_def)
  have sh: "shape (rts S) ps" using ok by (simp add: flat_ok_def coherent_def)
  note r = rep [unfolded represents_def]
  have w: "idx w < length fl" "fl ! idx w = (job_of (rts S) w, Pending)"
    using r assms(2,3) by (auto simp: phase_of_def)
  have "snd (fl ! j) = Finished" if j: "j < idx w" "clashes (fst (fl ! j)) (fst (fl ! idx w))" for j
  proof (rule ccontr)
    assume "snd (fl ! j) \<noteq> Finished"
    moreover have jl: "j < length fl" using j(1) w(1) by simp
    ultimately obtain p where p: "live (rts S) p" "idx p = j" using r by blast
    then have b: "before ps w p" using represents_older [OF rep sh p(1) assms(2)] j(1) by simp
    have "fl ! idx p = (job_of (rts S) p, phase_of (status (item (rts S) p)))" using r p(1) by blast
    then have "conflicts (args (item (rts S) p)) (args (item (rts S) w))"
      using j(2) p(2) w(2) by (simp add: clashes_def job_of_def)
    then show False using flat_ready [OF ok assms(2) _ p(1) b] assms(3) by simp
  qed
  then show ?thesis using w by (simp add: startable_def)
qed

lemma simulation_step:
  assumes "simulated U S ps idx fl" "universe U" "step U False S ev S'"
  obtains qs idx' fl' fe where "simulated U S' qs idx' fl'" "flow_step clashes fl fe fl'"
    "matches idx idx' fl ev fe" "\<And>w. ev = Ended w \<Longrightarrow> live (rts S) w"
    "\<And>p. live (rts S') p \<Longrightarrow> live (rts S) p \<or> (\<exists>f as fa. ev = Spawned p f as fa)"
proof -
  have ok: "flat_ok U (rts S) (executing S) ps" and rep: "represents (rts S) ps idx fl"
    using assms(1) by (auto simp: simulated_def)
  have sh: "shape (rts S) ps" using ok by (simp add: flat_ok_def coherent_def)
  show ?thesis
    using assms(3)
  proof cases
    case (spawn as w fa f b r)
    have fa: "fa = None" using spawn(5) by simp
    obtain b' D where r: "spawn_task w f as (int (length as)) None (rts S) =
        Some (b', spawned w f as None D False (rts S))"
      "flat_ok U (spawned w f as None D False (rts S)) (executing S) (w # ps)"
      by (rule flat_spawn [OF ok assms(2) spawn(3,4)])
    then have r': "r = spawned w f as None D False (rts S)" using spawn(6) fa by simp
    have "simulated U S' (w # ps) (idx(w := length fl)) (fl @ [((f, as), Pending)])"
      using r(2) r' spawn(2) represents_spawned [OF rep spawn(4) sh] by (simp add: simulated_def)
    moreover have "flow_step clashes fl (Submit (f, as)) (fl @ [((f, as), Pending)])"
      by (rule flow_step.submit)
    ultimately show ?thesis
      using that spawn(1,2) r' by (auto simp: matches_def live_spawned)
  next
    case (start t ts w r)
    note st = flat_start [OF ok start(3,4)]
    have r: "r = begun w ts (rts S)" using start(5) st(3) by simp
    have "simulated U S' ps idx (fl[idx w := (fst (fl ! idx w), Active)])"
      using r start(2) st(4) represents_begun [OF rep sh st(1)] by (simp add: simulated_def)
    moreover have "flow_step clashes fl (Start (idx w)) (fl[idx w := (fst (fl ! idx w), Active)])"
      by (rule flow_step.start [OF ready_startable [OF assms(1) st(1,2)]])
    ultimately show ?thesis
      using that start(1,2) r begun_frame(1) [OF st(1)] by (auto simp: matches_def)
  next
    case (finish w t r)
    obtain s' qs where fin: "finish_execution w (rts S) = Some s'" "flat_ok U s' (executing S - {w}) qs"
      "ended_in (rts S) ps w s' qs"
      by (rule flat_finish [OF ok finish(3)])
    have r: "r = s'" using finish(4,5) fin(1) by (simp add: run_end_def)
    have w: "live (rts S) w" "status (item (rts S) w) = Running"
      using ok finish(3) by (auto simp: flat_ok_def coherent_def family_def)
    then have i: "idx w < length fl" "snd (fl ! idx w) = Active"
      using rep by (auto simp: represents_def phase_of_def)
    have "simulated U S' qs idx (fl[idx w := (fst (fl ! idx w), Finished)])"
      using r finish(2) fin(2) represents_ended [OF rep sh w(1) fin(3)] by (simp add: simulated_def)
    moreover have "flow_step clashes fl (Finish (idx w)) (fl[idx w := (fst (fl ! idx w), Finished)])"
      by (rule flow_step.finish [OF i])
    ultimately show ?thesis
      using that finish(1,2) w(1) r fin(3) by (auto simp: matches_def ended_in_def)
  qed
qed

lemma initial_simulated: "initial S \<Longrightarrow> simulated U S [] idx []"
  using initial_inv [of S U]
  by (auto simp: simulated_def flat_ok_def initial_def coherent_def shape_def edges_def family_def queued_def
      args_in_def fatherless_def ordered_def represents_def live_def)

section \<open>Effects on memory\<close>

text \<open>
  A task reads only the locations of its arguments and writes only those of its arguments it
  may write; which values it writes is arbitrary. The memory is changed when the task ends.
\<close>

definition task_effect ::
  "(nat \<Rightarrow> (location \<Rightarrow> 'v option) \<Rightarrow> location \<Rightarrow> 'v) \<Rightarrow> job \<Rightarrow> (location \<Rightarrow> 'v) \<Rightarrow> location \<Rightarrow> 'v"
where
  "task_effect body j m =
     (\<lambda>l. if l \<in> writes (snd j)
          then body (fst j) (\<lambda>k. if k \<in> accesses (snd j) then Some (m k) else None) l
          else m l)"

lemma task_effect_commute:
  assumes "\<not> clashes a b"
  shows "task_effect body a (task_effect body b m) = task_effect body b (task_effect body a m)"
proof -
  have dj: "writes (snd a) \<inter> accesses (snd b) = {}" "accesses (snd a) \<inter> writes (snd b) = {}"
    using assms by (simp_all add: clashes_def conflicts_iff)
  have "(\<lambda>k. if k \<in> accesses (snd a) then Some (task_effect body b m k) else None) =
      (\<lambda>k. if k \<in> accesses (snd a) then Some (m k) else None)"
    using dj(2) by (auto simp: task_effect_def fun_eq_iff)
  moreover have "(\<lambda>k. if k \<in> accesses (snd b) then Some (task_effect body a m k) else None) =
      (\<lambda>k. if k \<in> accesses (snd b) then Some (m k) else None)"
    using dj(1) by (auto simp: task_effect_def fun_eq_iff)
  moreover have "writes (snd a) \<inter> writes (snd b) = {}"
    using dj(1) writes_subset_accesses by blast
  ultimately show ?thesis
    unfolding task_effect_def [of body a "task_effect body b m"] task_effect_def [of body b "task_effect body a m"]
    by (auto simp: task_effect_def fun_eq_iff)
qed

interpretation jobs: independence "task_effect body" clashes
  for body :: "nat \<Rightarrow> (location \<Rightarrow> 'v option) \<Rightarrow> location \<Rightarrow> 'v"
  by unfold_locales (rule task_effect_commute)

text \<open>The memory after the events of a run, and after the same program without \<open>spawn\<close>.\<close>

fun apply_event ::
  "(job \<Rightarrow> 'm \<Rightarrow> 'm) \<Rightarrow> event \<Rightarrow> (wid \<Rightarrow> job option) \<times> 'm \<Rightarrow> (wid \<Rightarrow> job option) \<times> 'm"
where
  "apply_event eff (Spawned w f as fa) (mu, m) = (mu(w \<mapsto> (f, as)), m)"
| "apply_event eff (Began w) (mu, m) = (mu, m)"
| "apply_event eff (Ended w) (mu, m) = (mu, case mu w of None \<Rightarrow> m | Some j \<Rightarrow> eff j m)"

definition parallel_memory :: "(job \<Rightarrow> 'm \<Rightarrow> 'm) \<Rightarrow> event list \<Rightarrow> 'm \<Rightarrow> 'm" where
  "parallel_memory eff evs m = snd (fold (apply_event eff) evs (Map.empty, m))"

fun spawn_list :: "event list \<Rightarrow> job list" where
  "spawn_list [] = []"
| "spawn_list (Spawned w f as fa # evs) = (f, as) # spawn_list evs"
| "spawn_list (Began w # evs) = spawn_list evs"
| "spawn_list (Ended w # evs) = spawn_list evs"

definition sequential_memory :: "(job \<Rightarrow> 'm \<Rightarrow> 'm) \<Rightarrow> event list \<Rightarrow> 'm \<Rightarrow> 'm" where
  "sequential_memory eff evs m = fold eff (spawn_list evs) m"

lemma spawn_list_append: "spawn_list (xs @ ys) = spawn_list xs @ spawn_list ys"
  by (induction xs rule: spawn_list.induct) auto

lemma flow_step_jobs:
  "flow_step clash fl fe fl' \<Longrightarrow> map fst fl' = map fst fl @ (case fe of Submit a \<Rightarrow> [a] | _ \<Rightarrow> [])"
proof (induction rule: flow_step.cases)
  case (start fl i)
  then show ?case by (simp add: map_update) (metis list_update_id nth_map startable_def)
next
  case (finish i fl)
  then show ?case by (simp add: map_update) (metis list_update_id nth_map)
qed simp

definition traced ::
  "(job \<Rightarrow> 'm \<Rightarrow> 'm) \<Rightarrow> 'm \<Rightarrow> event list \<Rightarrow> runtime \<Rightarrow> (wid \<Rightarrow> nat) \<Rightarrow> job flow \<Rightarrow> bool"
where
  "traced eff m evs s idx fl \<longleftrightarrow>
     (\<forall>p. live s p \<longrightarrow> fst (fold (apply_event eff) evs (Map.empty, m)) p = Some (fst (fl ! idx p))) \<and>
     parallel_memory eff evs m = fold eff (finished_tasks fl) m \<and> map fst fl = spawn_list evs"

lemma flow_step_job_nth:
  "flow_step clash fl fe fl' \<Longrightarrow> i < length fl \<Longrightarrow> fst (fl' ! i) = fst (fl ! i)"
  by (induction rule: flow_step.cases) (auto simp: nth_append nth_list_update startable_def)

lemma traced_step:
  assumes "traced (task_effect body) m evs (rts S) idx fl" "respected clashes fl"
    and "simulated U S ps idx fl" "simulated U S' qs idx' fl'"
    and "flow_step clashes fl fe fl'" "matches idx idx' fl ev fe"
    and "\<And>w. ev = Ended w \<Longrightarrow> live (rts S) w"
    and "\<And>p. live (rts S') p \<Longrightarrow> live (rts S) p \<or> (\<exists>f as fa. ev = Spawned p f as fa)"
  shows "traced (task_effect body) m (evs @ [ev]) (rts S') idx' fl'"
proof -
  let ?eff = "task_effect body"
  obtain mu mm where acc: "fold (apply_event ?eff) evs (Map.empty, m) = (mu, mm)" by fastforce
  have mu: "mu p = Some (fst (fl ! idx p))" if "live (rts S) p" for p
    using assms(1) that acc by (simp add: traced_def)
  have mm: "mm = fold ?eff (finished_tasks fl) m" and jobs: "map fst fl = spawn_list evs"
    using assms(1) acc by (simp_all add: traced_def parallel_memory_def)
  have len: "idx p < length fl" if "live (rts S) p" for p
    using assms(3) that by (simp add: simulated_def represents_def)
  have seq: "fold ?eff (finished_tasks fl') m = flow_effect ?eff fe fl mm"
    using jobs.finished_tasks_step [OF assms(5,2)] mm by simp
  have jobs': "map fst fl' = spawn_list evs @ (case fe of Submit a \<Rightarrow> [a] | _ \<Rightarrow> [])"
    using flow_step_jobs [OF assms(5)] jobs by simp
  show ?thesis
  proof (cases ev)
    case (Spawned w f as fa)
    then have fe: "fe = Submit (f, as)" "idx' = idx(w := length fl)"
      using assms(6) by (simp_all add: matches_def)
    have fl': "fl' = fl @ [((f, as), Pending)]"
      using assms(5) fe(1) by (auto elim: flow_submitE)
    have "(mu(w \<mapsto> (f, as))) p = Some (fst (fl' ! idx' p))" if "live (rts S') p" for p
    proof (cases "p = w")
      case False
      then have "live (rts S) p" using assms(8) [OF that] Spawned by auto
      then show ?thesis using mu len False fl' fe(2) by (simp add: nth_append)
    qed (simp add: fl' fe(2))
    then show ?thesis
      using acc seq jobs' fe Spawned
      by (simp add: traced_def parallel_memory_def spawn_list_append)
  next
    case (Began w)
    then have fe: "fe = Start (idx w)" "idx' = idx" using assms(6) by (simp_all add: matches_def)
    have "mu p = Some (fst (fl' ! idx' p))" if "live (rts S') p" for p
      using assms(8) [OF that] Began mu len flow_step_job_nth [OF assms(5)] fe(2) by auto
    then show ?thesis
      using acc seq jobs' fe Began
      by (simp add: traced_def parallel_memory_def spawn_list_append)
  next
    case (Ended w)
    then have fe: "fe = Finish (idx w)" "idx' = idx" using assms(6) by (simp_all add: matches_def)
    have w: "mu w = Some (fst (fl ! idx w))" using mu assms(7) Ended by blast
    have "mu p = Some (fst (fl' ! idx' p))" if "live (rts S') p" for p
      using assms(8) [OF that] Ended mu len flow_step_job_nth [OF assms(5)] fe(2) by auto
    then show ?thesis
      using acc seq jobs' fe Ended w
      by (simp add: traced_def parallel_memory_def spawn_list_append)
  qed
qed

text \<open>The whole run: a run of the abstract machine with the same submissions, and its memory.\<close>

lemma run_simulated:
  assumes "runs U False evs S" "universe U"
  shows "\<exists>ps idx fl tr. simulated U S ps idx fl \<and> flow_runs clashes tr fl \<and> length tr = length evs \<and>
           traced (task_effect body) m evs (rts S) idx fl"
  using assms(1)
proof induction
  case (start S)
  have "simulated U S [] (\<lambda>_. 0) []" by (rule initial_simulated [OF start])
  moreover have "traced (task_effect body) m [] (rts S) (\<lambda>_. 0) []"
    using start by (simp add: traced_def parallel_memory_def finished_tasks_def initial_def live_def)
  ultimately show ?case
    using flow_runs.nil by (intro exI [of _ "[]"] exI [of _ "\<lambda>_. 0"]) simp
next
  case (snoc evs S ev S')
  obtain ps idx fl tr where old: "simulated U S ps idx fl" "flow_runs clashes tr fl" "length tr = length evs"
    "traced (task_effect body) m evs (rts S) idx fl"
    using snoc.IH by blast
  obtain qs idx' fl' fe where new: "simulated U S' qs idx' fl'" "flow_step clashes fl fe fl'"
    "matches idx idx' fl ev fe" "\<And>w. ev = Ended w \<Longrightarrow> live (rts S) w"
    "\<And>p. live (rts S') p \<Longrightarrow> live (rts S) p \<or> (\<exists>f as fa. ev = Spawned p f as fa)"
    by (rule simulation_step [OF old(1) assms(2) snoc.hyps(2)]) blast
  have "traced (task_effect body) m (evs @ [ev]) (rts S') idx' fl'"
    by (rule traced_step [OF old(4) flow_runs_respected [OF old(2)] old(1) new(1-3)]) (use new(4,5) in blast)+
  moreover have "flow_runs clashes (tr @ [fe]) fl'" by (rule flow_runs.snoc [OF old(2) new(2)])
  ultimately show ?case
    using new(1) old(3) by (intro exI [of _ qs] exI [of _ idx'] exI [of _ fl'] exI [of _ "tr @ [fe]"]) simp
qed

lemma all_finished_memory:
  assumes "runs U False evs S" "universe U" "\<forall>p. \<not> live (rts S) p"
  shows "parallel_memory (task_effect body) evs m = sequential_memory (task_effect body) evs m"
proof -
  obtain ps idx fl tr where r: "simulated U S ps idx fl" "traced (task_effect body) m evs (rts S) idx fl"
    using run_simulated [OF assms(1,2)] by blast
  have "\<forall>i < length fl. snd (fl ! i) = Finished"
    using r(1) assms(3) unfolding simulated_def represents_def by blast
  then have "filter (\<lambda>(a, ph). ph = Finished) fl = fl"
    by (intro filter_True) (auto simp: in_set_conv_nth split: prod.splits, metis snd_conv)
  then have "finished_tasks fl = spawn_list evs"
    using r(2) by (simp add: finished_tasks_def traced_def)
  then show ?thesis
    using r(2) by (simp add: traced_def sequential_memory_def)
qed

section \<open>Every program comes to its end\<close>

lemma flat_continue:
  assumes "simulated U S ps idx fl" "live (rts S) p"
  shows "\<exists>ev S'. step U False S ev S' \<and> spawn_list [ev] = []"
proof -
  have ok: "flat_ok U (rts S) (executing S) ps" using assms(1) by (simp add: simulated_def)
  consider t ts w where "tqueue (rts S) = t # ts" "ctx t = Some w" | w where "w \<in> executing S"
    using flat_progress [OF ok assms(2)] by blast
  then show ?thesis
  proof cases
    case 1
    have "step U False S (Began w) \<lparr>rts = begun w ts (rts S), executing = insert w (executing S)\<rparr>"
      by (rule step.start [OF 1 flat_start(3) [OF ok 1]])
    moreover have "spawn_list [Began w] = []" by simp
    ultimately show ?thesis by blast
  next
    case 2
    obtain s' qs where "finish_execution w (rts S) = Some s'" by (rule flat_finish [OF ok 2])
    then have "run_end \<lparr>func = 0, ctx = Some w\<rparr> (rts S) = Some s'" by (simp add: run_end_def)
    then have "step U False S (Ended w) \<lparr>rts = s', executing = executing S - {w}\<rparr>"
      by (intro step.finish [OF 2]) auto
    moreover have "spawn_list [Ended w] = []" by simp
    ultimately show ?thesis by blast
  qed
qed

lemma run_length:
  assumes "runs U False evs S" "universe U"
  shows "length evs \<le> 3 * length (spawn_list evs)"
    and "length evs = 3 * length (spawn_list evs) \<longleftrightarrow> (\<forall>p. \<not> live (rts S) p)"
proof -
  obtain ps idx fl tr where r: "simulated U S ps idx fl" "flow_runs clashes tr fl" "length tr = length evs"
    "traced (task_effect (\<lambda>_ _ _. ())) (\<lambda>_. ()) evs (rts S) idx fl"
    using run_simulated [OF assms] by blast
  have n: "length (spawn_list evs) = length fl"
    using r(4) unfolding traced_def by (metis length_map)
  have l: "length evs = flow_weight fl" using flow_runs_weight [OF r(2)] r(3) by simp
  show "length evs \<le> 3 * length (spawn_list evs)" using flow_weight_bound(1) n l by simp
  have rep: "represents (rts S) ps idx fl" using r(1) by (simp add: simulated_def)
  have "(\<forall>x \<in> set fl. snd x = Finished) \<longleftrightarrow> (\<forall>p. \<not> live (rts S) p)"
  proof
    assume a: "\<forall>x \<in> set fl. snd x = Finished"
    show "\<forall>p. \<not> live (rts S) p"
    proof (intro allI notI)
      fix p assume "live (rts S) p"
      then have "idx p < length fl" "snd (fl ! idx p) \<noteq> Finished"
        using rep by (auto simp: represents_def phase_of_def)
      then show False using a nth_mem by blast
    qed
  next
    assume "\<forall>p. \<not> live (rts S) p"
    then have "\<forall>i < length fl. snd (fl ! i) = Finished" using rep by (auto simp: represents_def)
    then show "\<forall>x \<in> set fl. snd x = Finished" by (metis in_set_conv_nth)
  qed
  then show "length evs = 3 * length (spawn_list evs) \<longleftrightarrow> (\<forall>p. \<not> live (rts S) p)"
    using flow_weight_bound(2) [of fl] n l by simp
qed

lemma run_drains:
  assumes "runs U False evs S" "universe U"
  shows "\<exists>evs' S'. runs U False (evs @ evs') S' \<and> spawn_list evs' = [] \<and> (\<forall>p. \<not> live (rts S') p)"
  using assms(1)
proof (induction "3 * length (spawn_list evs) - length evs" arbitrary: evs S rule: less_induct)
  case less
  show ?case
  proof (cases "\<exists>p. live (rts S) p")
    case False
    then show ?thesis using less.prems by (intro exI [of _ "[]"] exI [of _ S]) simp
  next
    case True
    obtain ps idx fl where "simulated U S ps idx fl"
      using run_simulated [OF less.prems assms(2)] by blast
    then obtain ev S1 where ev: "step U False S ev S1" "spawn_list [ev] = []"
      using flat_continue True by blast
    have r: "runs U False (evs @ [ev]) S1" by (rule runs.snoc [OF less.prems ev(1)])
    have sl: "spawn_list (evs @ [ev]) = spawn_list evs" using ev(2) by (simp add: spawn_list_append)
    have "length evs < 3 * length (spawn_list evs)"
      using run_length [OF less.prems assms(2)] True by auto
    then have "3 * length (spawn_list (evs @ [ev])) - length (evs @ [ev]) < 3 * length (spawn_list evs) - length evs"
      using sl by simp
    from less.hyps [OF this r] obtain evs' S' where
      "runs U False ((evs @ [ev]) @ evs') S'" "spawn_list evs' = []" "\<forall>p. \<not> live (rts S') p"
      by blast
    then show ?thesis
      using ev(2) spawn_list_append [of "[ev]" evs'] by (intro exI [of _ "ev # evs'"] exI [of _ S']) simp
  qed
qed

section \<open>Runs by execution\<close>

lemma perform_all_runs:
  "runs U nested evs0 S \<Longrightarrow> perform_all U nested evs S = Some S' \<Longrightarrow> runs U nested (evs0 @ evs) S'"
proof (induction evs arbitrary: evs0 S)
  case (Cons ev evs)
  then obtain S1 where "allowed U nested ev S" "perform ev S = Some S1" "perform_all U nested evs S1 = Some S'"
    by (auto simp: bind_eq_Some_conv split: if_splits)
  then have "runs U nested ((evs0 @ [ev]) @ evs) S'"
    using Cons.IH Cons.prems(1) perform_step runs.snoc by blast
  then show ?case by simp
qed simp

section \<open>The order of two tasks\<close>

text \<open>\<open>p\<close> was spawned before \<open>q\<close>: it stands behind it in the worklist.\<close>

definition older :: "runtime \<Rightarrow> wid \<Rightarrow> wid \<Rightarrow> bool" where
  "older s p q \<longleftrightarrow> (\<exists>ps. chain (next_of s) (worklist s) ps None \<and> before ps q p)"

lemma reachable_simulated:
  assumes "reachable U False S" "universe U"
  obtains ps idx fl where "simulated U S ps idx fl"
proof -
  obtain evs where "runs U False evs S" using reachable_runs [OF assms(1)] by blast
  then show ?thesis using that run_simulated [OF _ assms(2)] by blast
qed

lemma reachable_flat_order:
  assumes "reachable U False S" "universe U" "live (rts S) q" "status (item (rts S) q) \<noteq> Waiting"
    and "live (rts S) p" "older (rts S) p q"
  shows "\<not> conflicts (args (item (rts S) p)) (args (item (rts S) q))"
proof -
  obtain ps idx fl where "simulated U S ps idx fl"
    by (rule reachable_simulated [OF assms(1,2)])
  then have ok: "flat_ok U (rts S) (executing S) ps" by (simp add: simulated_def)
  then have "shape (rts S) ps" by (simp add: flat_ok_def coherent_def)
  then have "before ps q p"
    using assms(6) chain_null_unique shapeD(1) unfolding older_def by metis
  then show ?thesis using flat_ready [OF ok assms(3,4,5)] by blast
qed

lemma reachable_flat_progress:
  assumes "reachable U False S" "universe U" "live (rts S) p"
  shows "tqueue (rts S) \<noteq> [] \<or> executing S \<noteq> {}"
proof -
  obtain ps idx fl where "simulated U S ps idx fl"
    by (rule reachable_simulated [OF assms(1,2)])
  then have "flat_ok U (rts S) (executing S) ps" by (simp add: simulated_def)
  from flat_progress [OF this assms(3)] show ?thesis by auto
qed

end
