(* ===== verification/Waiting.thy ===== *)
theory Waiting
  imports Scheduler
begin

text \<open>
  Start and end of a parallel session, and the waits: \<open>start_master\<close>, \<open>common_wait_for\<close>,
  \<open>wait_for_all\<close>, \<open>wait_for_subtasks\<close> and the class \<open>Observer\<close> of \<open>src/src/depspawn.cpp\<close>, with
  \<open>spawn\<close> and \<open>wait_for\<close> of \<open>src/include/depspawn/depspawn.h\<close>, which start the session.

  The destructor of an \<open>Observer\<close> walks the worklist while the program goes on, so it is a step
  relation: a step of the destructor looks at one node, or an operation of the program runs.
\<close>

section \<open>Sessions\<close>

text \<open>The global \<open>TP\<close>: no pool yet, a pool whose threads are not running, a running pool.\<close>

datatype tp_state = No_pool | Stopped_pool | Running_pool

record library =
  runtime_of :: runtime
  TP :: tp_state
  thr_father :: "wid option"      \<comment> \<open>\<open>enum_thr_spec_father\<close> of the calling thread\<close>

definition start_master :: "library \<Rightarrow> library option" where
  "start_master l =
     (let r = (runtime_of l)\<lparr>worklist := None, eraser_assigned := False, ObserversAtWork := 0\<rparr>;
          l1 = l\<lparr>runtime_of := r, thr_father := None\<rparr>
      in case TP l of
           No_pool \<Rightarrow> Some (l1\<lparr>TP := Running_pool\<rparr>)
         | Stopped_pool \<Rightarrow> Some (l1\<lparr>TP := Running_pool\<rparr>)
         | Running_pool \<Rightarrow> None)"

text \<open>The storage \<open>w\<close> of the new task is what the memory pool hands out.\<close>

definition spawn :: "wid \<Rightarrow> nat \<Rightarrow> arg_info list \<Rightarrow> int \<Rightarrow> library \<Rightarrow> library option" where
  "spawn w f pargs n l =
     do {
       l1 \<leftarrow> (if TP l \<noteq> Running_pool then start_master l else Some l);
       (b, r) \<leftarrow> spawn_task w f pargs n (thr_father l1) (runtime_of l1);
       Some (l1\<lparr>runtime_of := r\<rparr>)
     }"

text \<open>
  \<open>wait_for\<close> inserts a task whose function \<open>f\<close> only sets a flag; the caller then runs tasks of
  the pool until the flag is set. Without a running pool there is nothing to wait for.
\<close>

definition common_wait_for :: "wid \<Rightarrow> nat \<Rightarrow> arg_info list \<Rightarrow> int \<Rightarrow> library \<Rightarrow> library option" where
  "common_wait_for w f pargs n l =
     do {
       (b, r) \<leftarrow> spawn_task w f pargs n (thr_father l) (runtime_of l);
       Some (l\<lparr>runtime_of := r\<rparr>)
     }"

definition wait_for :: "wid \<Rightarrow> nat \<Rightarrow> arg_info list \<Rightarrow> int \<Rightarrow> library \<Rightarrow> library option" where
  "wait_for w f pargs n l =
     (if TP l \<noteq> Running_pool then Some l else common_wait_for w f pargs n l)"

text \<open>The last node of the worklist.\<close>

partial_function (option) last_node :: "wid option \<Rightarrow> wid option \<Rightarrow> runtime \<Rightarrow> wid option option" where
  [code]: "last_node p dp s =
     (case p of
        None \<Rightarrow> Some dp
      | Some q \<Rightarrow> Option.bind (heap s q) (\<lambda>x. last_node (nxt x) (Some q) s))"

text \<open>
  \<open>wait_for_all\<close> while the tasks \<open>E\<close> run: \<open>TP->wait(false)\<close> returns when the queue is empty and
  no task runs, and leaves the threads stopped.
\<close>

definition wait_for_all :: "wid set \<Rightarrow> library \<Rightarrow> library option" where
  "wait_for_all E l =
     (if TP l = No_pool then Some l
      else if tqueue (runtime_of l) \<noteq> [] \<or> E \<noteq> {} then None
      else
        let s = runtime_of l
        in do {
          s1 \<leftarrow> (if worklist s \<noteq> None
                then do { dp \<leftarrow> last_node (worklist s) None s; free_sublist (worklist s) dp s }
                else Some s);
          Some (l\<lparr>runtime_of := s1\<lparr>worklist := None\<rparr>, TP := Stopped_pool\<rparr>)
        })"

section \<open>Observers\<close>

record observer =
  limit_field :: "wid option"
  cur_father :: "wid option"
  prio_field :: bool

text \<open>The two constructors; \<open>fa\<close> is the task that runs on the thread.\<close>

definition new_observer :: "bool \<Rightarrow> wid option \<Rightarrow> runtime \<Rightarrow> observer" where
  "new_observer pr fa s = \<lparr>limit_field = worklist s, cur_father = fa, prio_field = pr\<rparr>"

definition task_observer :: "bool \<Rightarrow> wid \<Rightarrow> observer" where
  "task_observer pr w = \<lparr>limit_field = Some w, cur_father = Some w, prio_field = pr\<rparr>"

datatype subtask_wait = Wait_for_all | Observe observer

definition wait_for_subtasks :: "bool \<Rightarrow> wid option \<Rightarrow> subtask_wait" where
  "wait_for_subtasks pr fa =
     (case fa of None \<Rightarrow> Wait_for_all | Some w \<Rightarrow> Observe (task_observer pr w))"

definition safe_end :: "observer \<Rightarrow> wid option" where
  "safe_end ob = (if cur_father ob \<noteq> None then limit_field ob else None)"

text \<open>The local variables of the destructor; \<open>at\<close> is \<open>p\<close>.\<close>

record look =
  fathers :: "wid option set"
  at :: "wid option"
  must_reiterate :: bool
  helped :: bool
  priority :: bool

text \<open>
  Where the destructor is: before its loop, in the middle of a pass, in the call of
  \<open>try_to_run\<close> (for a task of the critical path or not), or at its end.
\<close>

datatype observing = Spinning | Looking look | Helping look bool | Over

definition new_pass :: "bool \<Rightarrow> wid option set \<Rightarrow> runtime \<Rightarrow> observing" where
  "new_pass pr fs s =
     Looking \<lparr>fathers = fs, at = worklist s, must_reiterate = False, helped = False, priority = pr\<rparr>"

text \<open>The body of the loop up to \<open>try_to_run\<close>, and after it.\<close>

definition look_at :: "look \<Rightarrow> runtime \<Rightarrow> observing option" where
  "look_at l s =
     do {
       p \<leftarrow> at l;
       x \<leftarrow> heap s p;
       if father x \<in> fathers l
       then
         let l1 = l\<lparr>fathers := insert (Some p) (fathers l)\<rparr>
         in if status x < Done then Some (Helping (l1\<lparr>must_reiterate := True\<rparr>) True)
            else Some (Looking (l1\<lparr>at := nxt x\<rparr>))
       else if \<not> priority l then Some (Helping l False)
       else Some (Looking (l\<lparr>at := nxt x\<rparr>))
     }"

definition after_help :: "bool \<Rightarrow> bool \<Rightarrow> look \<Rightarrow> runtime \<Rightarrow> observing option" where
  "after_help done_work critical l s =
     do {
       p \<leftarrow> at l;
       x \<leftarrow> heap s p;
       Some (Looking (l\<lparr>helped := helped l \<or> critical \<and> done_work, at := nxt x\<rparr>))
     }"

definition end_pass :: "observer \<Rightarrow> look \<Rightarrow> runtime \<Rightarrow> observing \<times> runtime" where
  "end_pass ob l s =
     (if must_reiterate l
      then (new_pass (if helped l then priority l else prio_field ob) (fathers l) s, s)
      else (Over, s\<lparr>ObserversAtWork := ObserversAtWork s - 1\<rparr>))"

definition enter_destructor :: "sys \<Rightarrow> observing \<times> sys" where
  "enter_destructor S =
     (Spinning, S\<lparr>rts := (rts S)\<lparr>ObserversAtWork := ObserversAtWork (rts S) + 1\<rparr>\<rparr>)"

text \<open>
  What the program may do meanwhile: anything but a spawn by the task that waits, which does not
  end either. Other observers come and go; this one is counted as long as it is at work. The task
  that \<open>try_to_run\<close> runs is one of the events of the program.
\<close>

definition concurrent :: "observer \<Rightarrow> event \<Rightarrow> bool" where
  "concurrent ob ev \<longleftrightarrow>
     (case ev of
        Spawned w f as fa \<Rightarrow> fa \<noteq> cur_father ob
      | Began w \<Rightarrow> True
      | Ended w \<Rightarrow> cur_father ob \<noteq> Some w)"

inductive observe ::
  "arg_info list set \<Rightarrow> bool \<Rightarrow> observer \<Rightarrow> observing \<times> sys \<Rightarrow> observing \<times> sys \<Rightarrow> bool"
  for U nested ob
where
  spin: "\<not> eraser_assigned (rts S) \<Longrightarrow>
    observe U nested ob (Spinning, S) (new_pass True {cur_father ob} (rts S), S)"
| look: "at l \<noteq> safe_end ob \<Longrightarrow> look_at l (rts S) = Some pc \<Longrightarrow>
    observe U nested ob (Looking l, S) (pc, S)"
| assist: "after_help b c l (rts S) = Some pc \<Longrightarrow> observe U nested ob (Helping l c, S) (pc, S)"
| pass: "at l = safe_end ob \<Longrightarrow> end_pass ob l (rts S) = (pc, r) \<Longrightarrow>
    observe U nested ob (Looking l, S) (pc, S\<lparr>rts := r\<rparr>)"
| prog: "pc \<noteq> Over \<Longrightarrow> step U nested S ev S' \<Longrightarrow> concurrent ob ev \<Longrightarrow>
    observe U nested ob (pc, S) (pc, S')"
| others: "pc \<noteq> Over \<Longrightarrow> 0 < n \<Longrightarrow>
    observe U nested ob (pc, S) (pc, S\<lparr>rts := (rts S)\<lparr>ObserversAtWork := n\<rparr>\<rparr>)"

inductive observes ::
  "arg_info list set \<Rightarrow> bool \<Rightarrow> observer \<Rightarrow> observing \<times> sys \<Rightarrow> observing \<times> sys \<Rightarrow> bool"
  for U nested ob c
where
  here: "observes U nested ob c c"
| more: "observes U nested ob c c' \<Longrightarrow> observe U nested ob c' c'' \<Longrightarrow> observes U nested ob c c''"

lemma before_append_back: "before ps x y \<Longrightarrow> before (us @ ps) x y"
  by (induction us) (auto simp: before_Cons)

lemma before_append_iff:
  assumes "distinct (us @ ps)" "x \<in> set ps"
  shows "before (us @ ps) x y \<longleftrightarrow> before ps x y"
  using assms by (induction us) (auto simp: before_Cons dest: before_in_set)

section \<open>What an observer waits for\<close>

text \<open>
  The tasks that the observer must see finished: the unfinished subtasks of its father that are
  newer than its limit, and all that these tasks spawned.
\<close>

definition newer :: "wid list \<Rightarrow> wid option \<Rightarrow> wid \<Rightarrow> bool" where
  "newer ps e q \<longleftrightarrow> q \<in> set ps \<and> (\<forall>l. e = Some l \<longrightarrow> before ps q l)"

definition direct_targets :: "observer \<Rightarrow> runtime \<Rightarrow> wid list \<Rightarrow> wid set" where
  "direct_targets ob s ps = {q. live s q \<and> father (item s q) = cur_father ob \<and> newer ps (safe_end ob) q}"

definition subtask :: "runtime \<Rightarrow> (wid \<times> wid) set" where
  "subtask s = {(p, a). live s p \<and> father (item s p) = Some a}"

definition targets :: "observer \<Rightarrow> runtime \<Rightarrow> wid set" where
  "targets ob s =
     {p. live s p \<and> (\<exists>ps q. chain (next_of s) (worklist s) ps None \<and> q \<in> direct_targets ob s ps \<and>
                        (p, q) \<in> (subtask s)\<^sup>*)}"

text \<open>A descendant of a task keeps all its ancestors unfinished.\<close>

lemma subtask_live:
  assumes "coherent U s E {} ps" "(p, q) \<in> (subtask s)\<^sup>*" "live s p"
  shows "live s q"
  using assms(2,3)
proof (induction rule: converse_rtrancl_induct)
  case (step p a)
  then have "father (item s p) = Some a" by (simp add: subtask_def)
  then have "live s a" using assms(1) step.prems by (auto simp: coherent_def family_def member_ok_def)
  then show ?case by (rule step.IH)
qed

text \<open>A task has an ancestor that the main thread spawned.\<close>

lemma root_task:
  assumes "coherent U s E {} ps" "live s p"
  shows "\<exists>q. (p, q) \<in> (subtask s)\<^sup>* \<and> live s q \<and> father (item s q) = None"
proof -
  have sh: "shape s ps" and fm: "family s E {} ps" using assms(1) by (auto simp: coherent_def)
  have "\<exists>q. (p, q) \<in> (subtask s)\<^sup>* \<and> live s q \<and> father (item s q) = None"
    if "live s p" "ps = us @ p # vs" for us vs p
    using that
  proof (induction "length vs" arbitrary: p us vs rule: less_induct)
    case less
    show ?case
    proof (cases "father (item s p)")
      case None
      then show ?thesis using less.prems(1) by blast
    next
      case (Some a)
      then have a: "live s a" "before ps p a" using family_father [OF fm less.prems(1)] by blast+
      have "a \<in> set vs"
        using a(2) before_append_iff [of us "p # vs" p a] less.prems(2) shapeD(2) [OF sh] before_in_set [of vs p a]
        by (auto simp: before_Cons)
      then obtain ys zs where vs: "vs = ys @ a # zs" by (meson split_list)
      have "\<exists>q. (a, q) \<in> (subtask s)\<^sup>* \<and> live s q \<and> father (item s q) = None"
        by (rule less.hyps [OF _ a(1), of zs "us @ p # ys"]) (simp_all add: vs less.prems(2))
      moreover have "(p, a) \<in> subtask s" using less.prems(1) Some by (simp add: subtask_def)
      ultimately show ?thesis by (meson converse_rtrancl_into_rtrancl)
    qed
  qed
  moreover have "p \<in> set ps" using assms(2) shapeD(4) [OF sh] by blast
  ultimately show ?thesis using assms(2) by (meson split_list)
qed

lemma targets_main:
  assumes "coherent U s E {} ps" "cur_father ob = None"
  shows "targets ob s = {p. live s p}"
proof -
  have sh: "shape s ps" using assms(1) by (simp add: coherent_def)
  have "p \<in> targets ob s" if lp: "live s p" for p
  proof -
    obtain q where q: "(p, q) \<in> (subtask s)\<^sup>*" "live s q" "father (item s q) = None"
      using root_task [OF assms(1) lp] by blast
    then have "q \<in> direct_targets ob s ps"
      using assms(2) shapeD(4) [OF sh] by (auto simp: direct_targets_def newer_def safe_end_def)
    then show ?thesis using lp q(1) shapeD(1) [OF sh] unfolding targets_def by blast
  qed
  then show ?thesis by (auto simp: targets_def)
qed

text \<open>For \<open>wait_for_subtasks\<close> they are all the descendants of the task.\<close>

lemma targets_task:
  assumes "coherent U s E {} ps"
  shows "targets (task_observer pr w) s = {p. live s p \<and> (p, w) \<in> (subtask s)\<^sup>+}"
proof -
  have sh: "shape s ps" and fm: "family s E {} ps" using assms by (auto simp: coherent_def)
  have d: "q \<in> direct_targets (task_observer pr w) s ps \<longleftrightarrow> (q, w) \<in> subtask s" for q
    using family_father(3) [OF fm] before_in_set [of ps]
    by (auto simp: direct_targets_def task_observer_def safe_end_def newer_def subtask_def)
  have c: "chain (next_of s) (worklist s) xs None \<longleftrightarrow> xs = ps" for xs
    using chain_null_unique shapeD(1) [OF sh] by metis
  show ?thesis
    by (auto simp: targets_def c d intro: rtrancl_into_trancl1 dest: tranclD2)
qed

lemma no_targets:
  assumes "coherent U s E {} ps" "direct_targets ob s ps = {}"
  shows "targets ob s = {}"
proof -
  have "chain (next_of s) (worklist s) xs None \<Longrightarrow> xs = ps" for xs
    using assms(1) chain_null_unique [OF _ shapeD(1)] by (auto simp: coherent_def)
  then show ?thesis using assms(2) unfolding targets_def by blast
qed

section \<open>A step of the program while an observer is at work\<close>

lemma coherent_observers:
  "coherent U (s\<lparr>ObserversAtWork := n\<rparr>) E X ps \<longleftrightarrow> coherent U s E X ps"
proof -
  let ?s = "s\<lparr>ObserversAtWork := n\<rparr>"
  have "live ?s = live s" "preds ?s = preds s" "kids ?s = kids s" "next_of ?s = next_of s"
    by (simp_all add: fun_eq_iff live_def preds_def kids_def next_of_def)
  then show ?thesis
    by (simp add: coherent_def shape_def edges_def family_def member_ok_def queued_def args_in_def)
qed

lemma step_kept:
  assumes "coherent U (rts S) (executing S) {} ps" "\<not> eraser_assigned (rts S)"
    and "ObserversAtWork (rts S) \<noteq> 0" "universe U" "step U nested S ev S'" "concurrent ob ev"
  obtains us where "coherent U (rts S') (executing S') {} (us @ ps)" "\<not> eraser_assigned (rts S')"
    "kept (rts S) (rts S')" "\<forall>q \<in> set us. father (item (rts S') q) \<noteq> cur_father ob"
proof -
  note i = assms(1)
  show ?thesis
    using assms(5)
  proof cases
    case (spawn as w fa f b r)
    have fa: "\<forall>a. fa = Some a \<longrightarrow> a \<in> executing S" using spawn(5) by auto
    obtain D e where r: "r = spawned w f as fa D e (rts S)" "coherent U r (executing S) {} (w # ps)"
      using spawn_inv [OF i assms(4) spawn(3,4) fa] spawn(6) by (metis Pair_inject option.inject)
    have "father (item r w) \<noteq> cur_father ob"
      using assms(6) spawn(1) r(1) by (simp add: concurrent_def heap_spawned_new)
    then show ?thesis
      using that [of "[w]"] spawn(2) r assms(2) kept_spawned [OF spawn(4)] by simp
  next
    case (start t ts w r)
    then have w: "live (rts S) w" using i queued_begun(1) [OF _ start(3,4)] by (simp add: coherent_def)
    then have "r = begun w ts (rts S)"
      using run_begin_closed [OF start(4) liveD] start(5) by simp
    then show ?thesis
      using that [of "[]"] inv_begun [OF i start(3,4)] assms(2) start(2) kept_begun [OF w]
      by (simp add: begun_def)
  next
    case (finish w t r)
    have "finish_execution w (rts S) = Some r" using finish(4,5) by (simp add: run_end_def)
    then show ?thesis
      using that [of "[]"] finish_execution_inv [OF i finish(3) assms(2)] assms(3) finish(2) by auto
  qed
qed

lemma direct_targets_kept:
  assumes "coherent U s E {} ps" "coherent U s' E' {} (us @ ps)" "kept s s'"
    and "\<forall>q \<in> set us. father (item s' q) \<noteq> cur_father ob"
  shows "direct_targets ob s' (us @ ps) \<subseteq> direct_targets ob s ps"
proof
  fix q assume q: "q \<in> direct_targets ob s' (us @ ps)"
  have sh: "shape s ps" "shape s' (us @ ps)" using assms(1,2) by (simp_all add: coherent_def)
  have qp: "q \<in> set ps"
    using q assms(4) by (auto simp: direct_targets_def newer_def)
  then have h: "heap s q \<noteq> None" using shapeD(3) [OF sh(1)] by blast
  have "before ps q l" if "safe_end ob = Some l" for l
    using q that before_append_iff [OF shapeD(2) [OF sh(2)] qp] by (simp add: direct_targets_def newer_def)
  then show "q \<in> direct_targets ob s ps"
    using q qp keptD(3,4) [OF assms(3) h] by (simp add: direct_targets_def newer_def)
qed
section \<open>The pass over the worklist\<close>

lemma next_in_list:
  assumes "shape s ps" "p \<in> set ps"
  shows "case nxt (item s p) of
           None \<Rightarrow> \<forall>q. \<not> before ps p q
         | Some r \<Rightarrow> r \<in> set ps \<and> before ps p r \<and> (\<forall>q. before ps p q \<longrightarrow> q = r \<or> before ps r q)"
proof -
  obtain us vs where ps: "ps = us @ p # vs" using assms(2) by (meson split_list)
  have d: "distinct (us @ p # vs)" using shapeD(2) [OF assms(1)] ps by simp
  obtain r where r: "next_of s p = Some r" "chain (next_of s) r vs None"
    using shapeD(1) [OF assms(1)] by (auto simp: ps chain_append)
  have b: "before ps p q \<longleftrightarrow> q \<in> set vs" for q
    using before_append_iff [OF d, of p q] d by (auto simp: ps before_Cons dest: before_in_set)
  have n: "nxt (item s p) = r" using r(1) by (auto simp: next_of_def)
  show ?thesis
  proof (cases vs)
    case Nil
    then show ?thesis using r(2) b n by simp
  next
    case (Cons v vs')
    have "before ps v q" if "q \<in> set vs'" for q
      using before_append_back [of "v # vs'" v q "us @ [p]"] that by (simp add: ps Cons before_Cons)
    then show ?thesis using r(2) b n ps Cons by auto
  qed
qed

definition at_ok :: "observer \<Rightarrow> wid list \<Rightarrow> wid option \<Rightarrow> bool" where
  "at_ok ob ps p \<longleftrightarrow> p = safe_end ob \<or> (\<exists>q. p = Some q \<and> newer ps (safe_end ob) q)"

definition unseen :: "wid set \<Rightarrow> wid list \<Rightarrow> wid option \<Rightarrow> bool" where
  "unseen T ps p \<longleftrightarrow> (\<forall>q \<in> T. \<exists>r. p = Some r \<and> (r = q \<or> before ps r q))"

definition looking_ok :: "observer \<Rightarrow> wid set \<Rightarrow> wid list \<Rightarrow> look \<Rightarrow> bool" where
  "looking_ok ob T ps l \<longleftrightarrow>
     cur_father ob \<in> fathers l \<and> at_ok ob ps (at l) \<and> (must_reiterate l \<or> unseen T ps (at l))"

text \<open>\<open>T\<close> are the direct targets.\<close>

fun observing_ok :: "observer \<Rightarrow> wid set \<Rightarrow> wid list \<Rightarrow> observing \<Rightarrow> bool" where
  "observing_ok ob T ps Spinning = True"
| "observing_ok ob T ps (Looking l) = looking_ok ob T ps l"
| "observing_ok ob T ps (Helping l c) =
     (looking_ok ob T ps l \<and> at l \<noteq> safe_end ob \<and> (must_reiterate l \<or> at l \<notin> Some ` T))"
| "observing_ok ob T ps Over = (T = {})"

lemma advance:
  assumes "shape s ps" "at_ok ob ps (Some p)" "Some p \<noteq> safe_end ob"
  shows "at_ok ob ps (nxt (item s p))"
    and "unseen T ps (Some p) \<Longrightarrow> p \<notin> T \<Longrightarrow> unseen T ps (nxt (item s p))"
proof -
  have n: "newer ps (safe_end ob) p" using assms(2,3) by (auto simp: at_ok_def)
  then have "p \<in> set ps" by (simp add: newer_def)
  note nx = next_in_list [OF assms(1) this]
  show "at_ok ob ps (nxt (item s p))"
  proof (cases "nxt (item s p)")
    case None
    then show ?thesis using n nx by (auto simp: at_ok_def newer_def)
  next
    case (Some r)
    then show ?thesis
      using n nx by (cases "safe_end ob = Some r") (auto simp: at_ok_def newer_def)
  qed
  assume u: "unseen T ps (Some p)" "p \<notin> T"
  then have "\<forall>q \<in> T. before ps p q" by (auto simp: unseen_def)
  then show "unseen T ps (nxt (item s p))"
    using nx by (auto simp: unseen_def split: option.splits)
qed

lemma observing_ok_grown:
  assumes "observing_ok ob T ps pc" "T' \<subseteq> T"
  shows "observing_ok ob T' (us @ ps) pc"
proof -
  have n: "newer (us @ ps) e q" if "newer ps e q" for e q
    using that by (simp add: newer_def before_append_back)
  have a: "at_ok ob (us @ ps) p" if "at_ok ob ps p" for p
    using that n unfolding at_ok_def by blast
  have u: "unseen T' (us @ ps) p" if "unseen T ps p" for p
    unfolding unseen_def
  proof
    fix q assume "q \<in> T'"
    then have "q \<in> T" using assms(2) by blast
    then obtain r where "p = Some r" "r = q \<or> before ps r q"
      using \<open>unseen T ps p\<close> unfolding unseen_def by blast
    then show "\<exists>r. p = Some r \<and> (r = q \<or> before (us @ ps) r q)"
      by (blast intro: before_append_back)
  qed
  have "looking_ok ob T' (us @ ps) l" if "looking_ok ob T ps l" for l
    using that a u by (auto simp: looking_ok_def)
  then show ?thesis using assms by (cases pc) auto
qed

lemma new_pass_ok:
  assumes "shape s ps" "cur_father ob \<in> fs" "\<forall>e. safe_end ob = Some e \<longrightarrow> e \<in> set ps"
    and "\<forall>q \<in> T. newer ps (safe_end ob) q"
  shows "observing_ok ob T ps (new_pass pr fs s)"
proof -
  have wl: "worklist s = (case ps of [] \<Rightarrow> None | x # _ \<Rightarrow> Some x)"
    by (rule chain_hd [OF shapeD(1) [OF assms(1)]])
  have "at_ok ob ps (worklist s) \<and> unseen T ps (worklist s)"
  proof (cases ps)
    case Nil
    then show ?thesis using wl assms(3,4) by (cases "safe_end ob") (auto simp: at_ok_def unseen_def newer_def)
  next
    case (Cons x xs)
    then have "at_ok ob ps (Some x)"
      using assms(3) by (cases "safe_end ob") (auto simp: at_ok_def newer_def before_Cons)
    moreover have "unseen T ps (Some x)"
      using assms(4) Cons by (auto simp: unseen_def newer_def before_Cons)
    ultimately show ?thesis using wl Cons by simp
  qed
  then show ?thesis using assms(2) by (simp add: new_pass_def looking_ok_def)
qed

section \<open>The invariant of the destructor\<close>

definition destructor_inv ::
  "arg_info list set \<Rightarrow> observer \<Rightarrow> observing \<times> sys \<Rightarrow> bool"
where
  "destructor_inv U ob c \<longleftrightarrow>
     (case c of (pc, S) \<Rightarrow>
        (pc \<noteq> Over \<longrightarrow> ObserversAtWork (rts S) \<noteq> 0) \<and> \<not> eraser_assigned (rts S) \<and>
        (\<exists>ps. coherent U (rts S) (executing S) {} ps \<and>
              (\<forall>e. safe_end ob = Some e \<longrightarrow> e \<in> set ps) \<and>
              observing_ok ob (direct_targets ob (rts S) ps) ps pc))"

lemma destructor_invI:
  "coherent U (rts S) (executing S) {} ps \<Longrightarrow> \<not> eraser_assigned (rts S) \<Longrightarrow>
   (pc \<noteq> Over \<Longrightarrow> ObserversAtWork (rts S) \<noteq> 0) \<Longrightarrow> (\<And>e. safe_end ob = Some e \<Longrightarrow> e \<in> set ps) \<Longrightarrow>
   observing_ok ob (direct_targets ob (rts S) ps) ps pc \<Longrightarrow> destructor_inv U ob (pc, S)"
  by (auto simp: destructor_inv_def)

lemma targets_newer: "\<forall>q \<in> direct_targets ob s ps. newer ps (safe_end ob) q"
  by (simp add: direct_targets_def)

lemma look_at_ok:
  assumes "shape s ps" "looking_ok ob T ps l" "at l \<noteq> safe_end ob" "look_at l s = Some pc"
    and "T = direct_targets ob s ps"
  shows "observing_ok ob T ps pc \<and> pc \<noteq> Over"
proof -
  obtain p x where p: "at l = Some p" "heap s p = Some x"
    using assms(4) by (auto simp: look_at_def bind_eq_Some_conv)
  have a: "at_ok ob ps (Some p)" "Some p \<noteq> safe_end ob" using assms(2,3) p by (auto simp: looking_ok_def)
  note ad = advance [OF assms(1) a]
  have t: "p \<in> T \<Longrightarrow> father x \<in> fathers l" "p \<in> T \<Longrightarrow> status x < Done"
    using assms(2,5) p by (auto simp: direct_targets_def looking_ok_def live_def)
  consider (act) "father x \<in> fathers l" "status x < Done"
      "pc = Helping (l\<lparr>fathers := insert (Some p) (fathers l), must_reiterate := True\<rparr>) True"
    | (over) "p \<notin> T" "pc = Looking (l\<lparr>fathers := insert (Some p) (fathers l), at := nxt x\<rparr>)"
    | (aside) "p \<notin> T" "pc = Helping l False"
    | (skip) "p \<notin> T" "pc = Looking (l\<lparr>at := nxt x\<rparr>)"
    using assms(4) p t by (auto simp: look_at_def Let_def split: if_splits)
  then show ?thesis
    by cases (use assms(2) p a ad in \<open>auto simp: looking_ok_def\<close>)
qed

lemma after_help_ok:
  assumes "shape s ps" "observing_ok ob T ps (Helping l c)" "after_help b c l s = Some pc"
  shows "observing_ok ob T ps pc \<and> pc \<noteq> Over"
proof -
  obtain p x where p: "at l = Some p" "heap s p = Some x"
    and pc: "pc = Looking (l\<lparr>helped := helped l \<or> c \<and> b, at := nxt x\<rparr>)"
    using assms(3) by (auto simp: after_help_def bind_eq_Some_conv)
  have a: "at_ok ob ps (Some p)" "Some p \<noteq> safe_end ob" using assms(2) p by (auto simp: looking_ok_def)
  note ad = advance [OF assms(1) a]
  have "x = item s p" using p by simp
  then show ?thesis using assms(2) p(1) pc ad by (auto simp: looking_ok_def)
qed

lemma seen_all:
  assumes "distinct ps" "unseen T ps (safe_end ob)" "\<forall>q \<in> T. newer ps (safe_end ob) q"
  shows "T = {}"
proof -
  have "q \<notin> T" for q
  proof
    assume "q \<in> T"
    then obtain r where r: "safe_end ob = Some r" "r = q \<or> before ps r q" "before ps q r"
      using assms(2,3) by (fastforce simp: unseen_def newer_def)
    then show False using before_irrefl before_asym assms(1) by metis
  qed
  then show ?thesis by blast
qed

lemma direct_targets_observers [simp]:
  "direct_targets ob (s\<lparr>ObserversAtWork := n\<rparr>) ps = direct_targets ob s ps"
  by (simp add: direct_targets_def live_def)

lemma observe_inv:
  assumes "destructor_inv U ob c" "universe U" "observe U nested ob c c'"
  shows "destructor_inv U ob c'"
proof -
  obtain pc S ps where c: "c = (pc, S)" and ea: "\<not> eraser_assigned (rts S)"
    and i: "coherent U (rts S) (executing S) {} ps" and e: "\<And>e. safe_end ob = Some e \<Longrightarrow> e \<in> set ps"
    and ok: "observing_ok ob (direct_targets ob (rts S) ps) ps pc"
    and n: "pc \<noteq> Over \<Longrightarrow> ObserversAtWork (rts S) \<noteq> 0"
    using assms(1) by (cases c) (auto simp: destructor_inv_def)
  have sh: "shape (rts S) ps" using i by (simp add: coherent_def)
  note I = destructor_invI
  show ?thesis
    using assms(3) unfolding c
  proof cases
    case spin
    then show ?thesis
      using I [OF i ea] n e new_pass_ok [OF sh _ _ targets_newer] by auto
  next
    case (look l pc')
    then show ?thesis
      using I [OF i ea] n e look_at_ok [OF sh _ look(3,4) refl] ok by auto
  next
    case (assist b c l pc')
    then show ?thesis
      using I [OF i ea] n e after_help_ok [OF sh _ assist(3)] ok by auto
  next
    case (pass l pc' r)
    show ?thesis
    proof (cases "must_reiterate l")
      case True
      then show ?thesis
        using pass I [OF i ea] n e ok new_pass_ok [OF sh _ _ targets_newer]
        by (auto simp: end_pass_def looking_ok_def)
    next
      case False
      have "direct_targets ob (rts S) ps = {}"
        using seen_all [OF shapeD(2) [OF sh] _ targets_newer] ok pass(1,3) False
        by (auto simp: looking_ok_def)
      then show ?thesis
        using pass False i ea e by (auto intro!: I [of U _ ps] simp: end_pass_def coherent_observers)
    qed
  next
    case (prog ev S')
    obtain us where us: "coherent U (rts S') (executing S') {} (us @ ps)" "\<not> eraser_assigned (rts S')"
      "kept (rts S) (rts S')" "\<forall>q \<in> set us. father (item (rts S') q) \<noteq> cur_father ob"
      by (rule step_kept [OF i ea n [OF prog(2)] assms(2) prog(3,4)])
    have "observing_ok ob (direct_targets ob (rts S') (us @ ps)) (us @ ps) pc"
      by (rule observing_ok_grown [OF ok direct_targets_kept [OF i us(1,3,4)]])
    moreover have "ObserversAtWork (rts S') \<noteq> 0" using us(3) n [OF prog(2)] by (simp add: kept_def)
    ultimately show ?thesis using prog(1) I [OF us(1,2)] e by simp
  next
    case (others k)
    then show ?thesis
      using i ea e ok by (auto intro!: I [of U _ ps] simp: coherent_observers)
  qed
qed

lemma observes_inv:
  assumes "observes U nested ob c c'" "destructor_inv U ob c" "universe U"
  shows "destructor_inv U ob c'"
  using assms(1) by induction (auto intro: assms observe_inv)

lemma enter_inv:
  assumes "reachable U nested S" "universe U" "0 \<le> ObserversAtWork (rts S)"
    and "\<And>e. safe_end ob = Some e \<Longrightarrow> heap (rts S) e \<noteq> None"
  shows "destructor_inv U ob (enter_destructor S)"
proof -
  obtain ps where i: "coherent U (rts S) (executing S) {} ps" and ea: "\<not> eraser_assigned (rts S)"
    using reachable_inv [OF assms(1,2)] by (auto simp: sys_inv_def)
  have "e \<in> set ps" if "safe_end ob = Some e" for e
    using i assms(4) [OF that] shapeD(3) by (auto simp: coherent_def)
  then show ?thesis
    using i ea assms(3) unfolding enter_destructor_def
    by (intro destructor_invI [of U _ ps]) (simp_all add: coherent_observers)
qed

text \<open>The destructor can take its next step: no null pointer is read and no one is waited for.\<close>

definition moves :: "observer \<Rightarrow> observing \<Rightarrow> runtime \<Rightarrow> bool" where
  "moves ob pc s =
     (case pc of
        Spinning \<Rightarrow> \<not> eraser_assigned s
      | Looking l \<Rightarrow> at l = safe_end ob \<or> look_at l s \<noteq> None
      | Helping l c \<Rightarrow> after_help True c l s \<noteq> None
      | Over \<Rightarrow> True)"

lemma destructor_moves:
  assumes "destructor_inv U ob (pc, S)"
  shows "moves ob pc (rts S)"
proof -
  obtain ps where i: "coherent U (rts S) (executing S) {} ps" and ea: "\<not> eraser_assigned (rts S)"
    and ok: "observing_ok ob (direct_targets ob (rts S) ps) ps pc"
    using assms by (auto simp: destructor_inv_def)
  have sh: "shape (rts S) ps" using i by (simp add: coherent_def)
  have here: "\<exists>p x. at l = Some p \<and> heap (rts S) p = Some x"
    if "at_ok ob ps (at l)" "at l \<noteq> safe_end ob" for l
    using that shapeD(3) [OF sh] by (auto simp: at_ok_def newer_def)
  show ?thesis
  proof (cases pc)
    case (Looking l)
    then show ?thesis
      using ok here [of l]
      by (cases "at l = safe_end ob") (auto simp: moves_def look_at_def looking_ok_def Let_def)
  next
    case (Helping l c)
    then show ?thesis
      using ok here [of l] by (auto simp: moves_def after_help_def looking_ok_def)
  qed (use ea in \<open>simp_all add: moves_def\<close>)
qed

lemma destructor_over:
  assumes "destructor_inv U ob (Over, S)"
  shows "targets ob (rts S) = {}"
  using assms no_targets by (auto simp: destructor_inv_def)

section \<open>The end of a session\<close>

lemma last_node_closed:
  "chain (next_of s) p ps None \<Longrightarrow> last_node p dp s = Some (if ps = [] then dp else Some (last ps))"
proof (induction ps arbitrary: p dp)
  case Nil
  then show ?case by (simp add: last_node.simps)
next
  case (Cons q ps)
  then obtain r where "p = Some q" "next_of s q = Some r" "chain (next_of s) r ps None" by auto
  then obtain x where "p = Some q" "heap s q = Some x" "chain (next_of s) (nxt x) ps None"
    by (auto simp: next_of_def [of s q])
  then show ?case using Cons.IH by (simp add: last_node.simps [of "Some q"])
qed

lemma wait_for_all_closed:
  assumes "shape (runtime_of l) ps" "tqueue (runtime_of l) = []" "TP l \<noteq> No_pool"
  shows "wait_for_all {} l =
     Some (l\<lparr>runtime_of := (freed (set ps) (runtime_of l))\<lparr>worklist := None\<rparr>, TP := Stopped_pool\<rparr>)"
proof (cases ps)
  case Nil
  then have "worklist (runtime_of l) = None" "freed (set ps) (runtime_of l) = runtime_of l"
    using shapeD(1) [OF assms(1)] by (simp_all add: freed_def restrict_map_def)
  then show ?thesis using assms(2,3) by (simp add: wait_for_all_def Let_def)
next
  case (Cons x xs)
  have c: "chain (next_of (runtime_of l)) (worklist (runtime_of l)) ps None" by (rule shapeD(1) [OF assms(1)])
  then have w: "worklist (runtime_of l) = Some (hd ps)" using Cons by simp
  have "free_sublist (Some (hd ps)) (Some (last ps)) (runtime_of l) = Some (freed (set ps) (runtime_of l))"
    using free_sublist_closed [of "runtime_of l" ps] c w Cons shapeD(2) [OF assms(1)] by auto
  then show ?thesis
    using assms(2,3) last_node_closed [OF c, where dp = None] w Cons by (simp add: wait_for_all_def Let_def)
qed

lemma wait_for_all_initial:
  assumes "reachable U nested S" "universe U" "tqueue (rts S) = []"
    and "l = \<lparr>runtime_of = rts S, TP = Running_pool, thr_father = None\<rparr>"
  shows "\<exists>l'. wait_for_all {} l = Some l' \<and> TP l' = Stopped_pool \<and>
           initial \<lparr>rts = runtime_of l', executing = {}\<rparr> \<and>
           (\<exists>l''. start_master l' = Some l'' \<and> TP l'' = Running_pool \<and>
                  initial \<lparr>rts = runtime_of l'', executing = {}\<rparr>)"
proof -
  obtain ps where i: "coherent U (rts S) (executing S) {} ps" and ea: "\<not> eraser_assigned (rts S)"
    using reachable_inv [OF assms(1,2)] by (auto simp: sys_inv_def)
  have sh: "shape (rts S) ps" using i by (simp add: coherent_def)
  have h: "(heap (rts S)) |` (- set ps) = (\<lambda>_. None)"
    using shapeD(3) [OF sh] by (fastforce simp: restrict_map_def fun_eq_iff)
  show ?thesis
    using wait_for_all_closed [of l ps] sh assms(3,4) ea
    by (simp add: freed_def h initial_def start_master_def)
qed

end
