(* ===== verification/Handshake.thy ===== *)
theory Handshake
  imports Scheduler
begin

text \<open>
  How threads that insert tasks and threads that complete tasks work on the list at the same time:
  \<open>insert_in_worklist\<close> and \<open>finish_execution\<close> of \<open>src/src/workitem.cpp\<close>, one access to shared
  memory at a time and in any interleaving. A thread that completes a task sets its status to
  \<open>Done\<close> and then waits for the tasks in state \<open>Filling\<close> that stand between the head of the list
  and the task, so that nobody links a dependency to it, or reads its arguments, once it
  releases its dependents.

  The accesses are taken in program order (the code relies on atomics and fences for that).
  One step takes together: the comparison of two argument lists with the count of the dependency, the
  reads of a node at the end of an iteration, the status and the queue in \<open>post\<close> and at the start of a
  task, and the writes that free the two lists of a task.
  Nobody erases: this is the code while an \<open>Observer\<close> exists (\<open>ObserversAtWork\<close> is not 0).
  The run of a ready task that an insertion may end with (\<open>TP->try_run\<close>) is a start of a task
  like any other.
\<close>

section \<open>The points between the accesses\<close>

text \<open>A thread in \<open>insert_in_worklist\<close>; \<open>p\<close> is the pointer of the main loop.\<close>

datatype ins_pc =
    Outside
  | Entering task_t           \<comment> \<open>the task is built and \<open>argv\<close> filled\<close>
  | Visiting "wid option" locals
  | Comparing wid locals      \<comment> \<open>the status of \<open>p\<close> was less than \<open>Done\<close>\<close>
  | Linking wid locals        \<comment> \<open>counted the dependency, about to take \<open>deps_mutex_\<close> of \<open>p\<close>\<close>
  | Flagging wid locals       \<comment> \<open>about to look at the status of \<open>p\<close> again\<close>
  | Deciding locals           \<comment> \<open>the loop has ended\<close>
  | Launching locals          \<comment> \<open>\<open>ndependencies\<close> was 0\<close>
  | Parking locals            \<comment> \<open>\<open>ndependencies\<close> was not 0\<close>
  | Inside bool               \<comment> \<open>returned; the flag is \<open>steal_work\<close>\<close>

text \<open>A thread in \<open>finish_execution\<close> of a task (\<open>this\<close>), for the task \<open>current\<close>.\<close>

datatype fin_pc =
    Active                    \<comment> \<open>the function of the task has not ended\<close>
  | Marking wid
  | Loading wid
  | Walking wid "wid option"  \<comment> \<open>the pointer of the loop that waits\<close>
  | Releasing wid nat         \<comment> \<open>position in the list of dependents\<close>
  | Posting wid nat
  | Freeing wid
  | Retiring wid
  | Climbing wid              \<comment> \<open>about to tell this father\<close>
  | Returned

record hs =
  rt :: runtime
  ins :: "wid \<Rightarrow> ins_pc"
  fin :: "wid \<Rightarrow> fin_pc"

definition at_ins :: "wid \<Rightarrow> ins_pc \<Rightarrow> runtime \<Rightarrow> hs \<Rightarrow> hs" where
  "at_ins w pc r s = s\<lparr>rt := r, ins := (ins s)(w := pc)\<rparr>"

definition at_fin :: "wid \<Rightarrow> fin_pc \<Rightarrow> runtime \<Rightarrow> hs \<Rightarrow> hs" where
  "at_fin w pc r s = s\<lparr>rt := r, fin := (fin s)(w := pc)\<rparr>"

section \<open>Insertion, access by access\<close>

text \<open>The compare-and-swap on \<open>worklist\<close> that succeeds.\<close>

definition push_node :: "wid \<Rightarrow> task_t \<Rightarrow> runtime \<Rightarrow> (ins_pc \<times> runtime) option" where
  "push_node w t s =
     do {
       x \<leftarrow> heap s w;
       (if sint (nargs x) < int (length (args x)) then None else Some ());
       let n = nat (sint (nargs x));
       s1 \<leftarrow> upd w (\<lambda>y. y\<lparr>task := Some t, nxt := worklist s\<rparr>) s;
       Some (Visiting (worklist s)
               \<lparr>n_args = n, argv = build_argv n (args x), ancestor = father x, nready = 0, nfillwait = 0\<rparr>,
             s1\<lparr>worklist := Some w\<rparr>)
     }"

text \<open>The head of an iteration: an ancestor, or the first look at the status.\<close>

definition look_node :: "wid \<Rightarrow> wid \<Rightarrow> locals \<Rightarrow> runtime \<Rightarrow> (ins_pc \<times> runtime) option" where
  "look_node w p l s =
     do {
       x \<leftarrow> heap s p;
       if p = w then Some (Visiting (nxt x) l, s)
       else if ancestor l = Some p then
         do {
           escapes \<leftarrow> (case father x of None \<Rightarrow> Some False | Some a \<Rightarrow> is_contained w a s);
           (let l1 = l\<lparr>ancestor := father x\<rparr> in
              if escapes
              then do {
                s1 \<leftarrow> upd w (\<lambda>t. t\<lparr>optFlags := optFlags t OR FatherScape\<rparr>) s;
                Some (Deciding l1, s1)
              }
              else Some (Visiting (nxt x) l1, s))
         }
       else Some (if status x < Done then Comparing p l else Visiting (nxt x) l, s)
     }"

definition compare_node :: "wid \<Rightarrow> wid \<Rightarrow> locals \<Rightarrow> runtime \<Rightarrow> (ins_pc \<times> runtime) option" where
  "compare_node w p l s =
     do {
       x \<leftarrow> heap s p;
       (found, n, av) \<leftarrow> compare_args (args x) (n_args l) (argv l);
       (let l1 = l\<lparr>n_args := n, argv := av\<rparr> in
          if found
          then do {
            s1 \<leftarrow> upd w (\<lambda>t. t\<lparr>ndependencies := ndependencies t + 1\<rparr>) s;
            Some (Linking p l1, s1)
          }
          else Some (Flagging p l1, s))
     }"

definition append_dep :: "wid \<Rightarrow> wid \<Rightarrow> locals \<Rightarrow> runtime \<Rightarrow> (ins_pc \<times> runtime) option" where
  "append_dep w p l s =
     do {
       s1 \<leftarrow> upd p (\<lambda>x. x\<lparr>deps := deps x @ [w]\<rparr>) s;
       Some (Flagging p l, s1)
     }"

definition flag_fills :: "wid \<Rightarrow> wid \<Rightarrow> locals \<Rightarrow> runtime \<Rightarrow> (ins_pc \<times> runtime) option" where
  "flag_fills w p l s =
     do {
       y \<leftarrow> heap s p;
       s1 \<leftarrow> (if status y = Filling
              then upd w (\<lambda>t. t\<lparr>optFlags := optFlags t OR PendingFills\<rparr>) s
              else Some s);
       Some (Visiting (nxt y)
               (l\<lparr>nfillwait := nfillwait l + (if status y < Ready then 1 else 0),
                  nready := nready l + (if status y = Ready then 1 else 0)\<rparr>), s1)
     }"

definition decide :: "wid \<Rightarrow> locals \<Rightarrow> runtime \<Rightarrow> (ins_pc \<times> runtime) option" where
  "decide w l s =
     do { x \<leftarrow> heap s w; Some (if ndependencies x = 0 then Launching l else Parking l, s) }"

definition ins_step :: "wid \<Rightarrow> hs \<Rightarrow> hs option" where
  "ins_step w S =
     do {
       (pc, r) \<leftarrow>
         (case ins S w of
            Entering t \<Rightarrow> push_node w t (rt S)
          | Visiting p l \<Rightarrow>
              (case p of None \<Rightarrow> Some (Deciding l, rt S) | Some q \<Rightarrow> look_node w q l (rt S))
          | Comparing p l \<Rightarrow> compare_node w p l (rt S)
          | Linking p l \<Rightarrow> append_dep w p l (rt S)
          | Flagging p l \<Rightarrow> flag_fills w p l (rt S)
          | Deciding l \<Rightarrow> decide w l (rt S)
          | Launching l \<Rightarrow>
              do { s1 \<leftarrow> post w (rt S); Some (Inside (fast_start l (rt S)), s1) }
          | Parking l \<Rightarrow>
              do {
                s1 \<leftarrow> upd w (\<lambda>t. t\<lparr>status := Waiting\<rparr>) (rt S);
                Some (Inside (fast_start l (rt S)), s1)
              }
          | _ \<Rightarrow> None);
       Some (at_ins w pc r S)
     }"

section \<open>Completion, access by access\<close>

text \<open>An iteration of the loop that waits; it spins while the node is being filled in.\<close>

definition walk_on :: "wid \<Rightarrow> wid \<Rightarrow> wid option \<Rightarrow> runtime \<Rightarrow> fin_pc option" where
  "walk_on this c p s =
     (case p of
        None \<Rightarrow> Some (Releasing c 0)
      | Some q \<Rightarrow>
          if q = this then Some (Releasing c 0)
          else
            do {
              x \<leftarrow> heap s q;
              if status x = Filling then None
              else if optFlags x AND PendingFills = 0 then
                (if optFlags x AND FatherScape \<noteq> 0 then
                   (if status x < Done
                    then do { f \<leftarrow> father x; y \<leftarrow> heap s f; Some (Walking c (nxt y)) }
                    else Some (Walking c (nxt x)))
                 else Some (Releasing c 0))
              else Some (Walking c (nxt x))
            })"

definition release_next :: "wid \<Rightarrow> nat \<Rightarrow> runtime \<Rightarrow> (fin_pc \<times> runtime) option" where
  "release_next c k s =
     do {
       x \<leftarrow> heap s c;
       if k < length (deps x)
       then do {
         y \<leftarrow> heap s (deps x ! k);
         s1 \<leftarrow> upd (deps x ! k) (\<lambda>y. y\<lparr>ndependencies := ndependencies y - 1\<rparr>) s;
         Some (if ndependencies y = 1 then Posting c k else Releasing c (Suc k), s1)
       }
       else Some (Freeing c, s)
     }"

definition post_next :: "wid \<Rightarrow> nat \<Rightarrow> runtime \<Rightarrow> (fin_pc \<times> runtime) option" where
  "post_next c k s =
     do { x \<leftarrow> heap s c; s1 \<leftarrow> post (deps x ! k) s; Some (Releasing c (Suc k), s1) }"

definition retire :: "wid \<Rightarrow> runtime \<Rightarrow> (fin_pc \<times> runtime) option" where
  "retire c s =
     do {
       x \<leftarrow> heap s c;
       s1 \<leftarrow> upd c (\<lambda>x. x\<lparr>status := Deallocatable\<rparr>) s;
       Some (case father x of None \<Rightarrow> Returned | Some f \<Rightarrow> Climbing f, s1)
     }"

text \<open>The decrement of \<open>nchildren\<close>, by the task itself or for its father.\<close>

definition count_child :: "wid \<Rightarrow> runtime \<Rightarrow> (fin_pc \<times> runtime) option" where
  "count_child f s =
     do {
       y \<leftarrow> heap s f;
       s1 \<leftarrow> upd f (\<lambda>x. x\<lparr>nchildren := nchildren x - 1\<rparr>) s;
       Some (if nchildren y = 1 then Marking f else Returned, s1)
     }"

definition fin_step :: "wid \<Rightarrow> hs \<Rightarrow> hs option" where
  "fin_step w S =
     do {
       (pc, r) \<leftarrow>
         (case fin S w of
            Marking c \<Rightarrow>
              do { s1 \<leftarrow> upd c (\<lambda>x. x\<lparr>status := Done\<rparr>) (rt S); Some (Loading c, s1) }
          | Loading c \<Rightarrow> Some (Walking c (worklist (rt S)), rt S)
          | Walking c p \<Rightarrow> do { pc \<leftarrow> walk_on w c p (rt S); Some (pc, rt S) }
          | Releasing c k \<Rightarrow> release_next c k (rt S)
          | Posting c k \<Rightarrow> post_next c k (rt S)
          | Freeing c \<Rightarrow>
              do { s1 \<leftarrow> upd c (\<lambda>x. x\<lparr>deps := [], args := []\<rparr>) (rt S); Some (Retiring c, s1) }
          | Retiring c \<Rightarrow> retire c (rt S)
          | Climbing f \<Rightarrow> count_child f (rt S)
          | _ \<Rightarrow> None);
       Some (at_fin w pc r S)
     }"

section \<open>All the threads\<close>

text \<open>The function of a task does not end while a task that it spawns is being inserted.\<close>

definition between_spawns :: "wid \<Rightarrow> hs \<Rightarrow> bool" where
  "between_spawns w S \<longleftrightarrow>
     (\<forall>v x. heap (rt S) v = Some x \<longrightarrow> father x = Some w \<longrightarrow> (\<exists>b. ins S v = Inside b))"

definition in_function :: "wid \<Rightarrow> hs \<Rightarrow> bool" where
  "in_function w S \<longleftrightarrow>
     (case heap (rt S) w of None \<Rightarrow> False | Some x \<Rightarrow> status x = Running \<and> fin S w = Active)"

text \<open>The last subtask to end finishes its father too.\<close>

definition climbs :: "wid \<Rightarrow> hs \<Rightarrow> bool" where
  "climbs w S \<longleftrightarrow>
     (case fin S w of Climbing f \<Rightarrow> map_option nchildren (heap (rt S) f) = Some 1 | _ \<Rightarrow> False)"

text \<open>
  A step of some thread. Without \<open>climb\<close> the runs end where a subtask would finish its father.
\<close>

inductive hs_step :: "arg_info list set \<Rightarrow> bool \<Rightarrow> hs \<Rightarrow> hs \<Rightarrow> bool" for U climb where
  spawn: "as \<in> U \<Longrightarrow> heap (rt S) w = None \<Longrightarrow> \<forall>a. fa = Some a \<longrightarrow> in_function a S \<and> between_spawns a S \<Longrightarrow>
    new_workitem w as (int (length as)) fa (rt S) = Some r \<Longrightarrow>
    hs_step U climb S (at_ins w (Entering \<lparr>func = f, ctx = Some w\<rparr>) r S)"
| insert: "ins_step w S = Some S' \<Longrightarrow> hs_step U climb S S'"
| start: "tqueue (rt S) = t # ts \<Longrightarrow> run_begin t (rt S\<lparr>tqueue := ts\<rparr>) = Some r \<Longrightarrow>
    hs_step U climb S (S\<lparr>rt := r\<rparr>)"
| finish: "in_function w S \<Longrightarrow> between_spawns w S \<Longrightarrow> count_child w (rt S) = Some (pc, r) \<Longrightarrow>
    hs_step U climb S (at_fin w pc r S)"
| complete: "fin_step w S = Some S' \<Longrightarrow> climb \<or> \<not> climbs w S \<Longrightarrow> hs_step U climb S S'"

definition hs_initial :: "hs \<Rightarrow> bool" where
  "hs_initial S \<longleftrightarrow>
     heap (rt S) = (\<lambda>_. None) \<and> worklist (rt S) = None \<and> tqueue (rt S) = [] \<and>
     ins S = (\<lambda>_. Outside) \<and> fin S = (\<lambda>_. Active)"

inductive hs_reachable :: "arg_info list set \<Rightarrow> bool \<Rightarrow> hs \<Rightarrow> bool" for U climb where
  init: "hs_initial S \<Longrightarrow> hs_reachable U climb S"
| step: "hs_reachable U climb S \<Longrightarrow> hs_step U climb S S' \<Longrightarrow> hs_reachable U climb S'"

inductive_cases hs_stepE: "hs_step U climb S S'"

section \<open>The steps of a thread, by cases\<close>

lemma ins_step_cases:
  assumes "ins_step w S = Some S'"
  obtains (push) t pc r where "ins S w = Entering t" "push_node w t (rt S) = Some (pc, r)" "S' = at_ins w pc r S"
  | (last_seen) l where "ins S w = Visiting None l" "S' = at_ins w (Deciding l) (rt S) S"
  | (look) p l pc r where "ins S w = Visiting (Some p) l" "look_node w p l (rt S) = Some (pc, r)"
      "S' = at_ins w pc r S"
  | (compare) p l pc r where "ins S w = Comparing p l" "compare_node w p l (rt S) = Some (pc, r)"
      "S' = at_ins w pc r S"
  | (link) p l pc r where "ins S w = Linking p l" "append_dep w p l (rt S) = Some (pc, r)"
      "S' = at_ins w pc r S"
  | (flag) p l pc r where "ins S w = Flagging p l" "flag_fills w p l (rt S) = Some (pc, r)"
      "S' = at_ins w pc r S"
  | (decided) l pc r where "ins S w = Deciding l" "decide w l (rt S) = Some (pc, r)" "S' = at_ins w pc r S"
  | (launch) l r where "ins S w = Launching l" "post w (rt S) = Some r"
      "S' = at_ins w (Inside (fast_start l (rt S))) r S"
  | (park) l r where "ins S w = Parking l" "upd w (\<lambda>t. t\<lparr>status := Waiting\<rparr>) (rt S) = Some r"
      "S' = at_ins w (Inside (fast_start l (rt S))) r S"
proof (cases "ins S w")
  case (Visiting p l)
  then show ?thesis
    using assms last_seen look by (cases p) (auto simp: ins_step_def bind_eq_Some_conv)
qed (use assms push compare link flag decided launch park in \<open>auto simp: ins_step_def bind_eq_Some_conv\<close>)

lemma fin_step_cases:
  assumes "fin_step w S = Some S'"
  obtains (mark) c r where "fin S w = Marking c" "upd c (\<lambda>x. x\<lparr>status := Done\<rparr>) (rt S) = Some r"
      "S' = at_fin w (Loading c) r S"
  | (load) c where "fin S w = Loading c" "S' = at_fin w (Walking c (worklist (rt S))) (rt S) S"
  | (walk) c p pc where "fin S w = Walking c p" "walk_on w c p (rt S) = Some pc" "S' = at_fin w pc (rt S) S"
  | (release) c k pc r where "fin S w = Releasing c k" "release_next c k (rt S) = Some (pc, r)"
      "S' = at_fin w pc r S"
  | (post_dep) c k pc r where "fin S w = Posting c k" "post_next c k (rt S) = Some (pc, r)"
      "S' = at_fin w pc r S"
  | (free) c r where "fin S w = Freeing c" "upd c (\<lambda>x. x\<lparr>deps := [], args := []\<rparr>) (rt S) = Some r"
      "S' = at_fin w (Retiring c) r S"
  | (retired) c pc r where "fin S w = Retiring c" "retire c (rt S) = Some (pc, r)" "S' = at_fin w pc r S"
  | (climb) f pc r where "fin S w = Climbing f" "count_child f (rt S) = Some (pc, r)" "S' = at_fin w pc r S"
  using assms that
  by (cases "fin S w") (auto simp: fin_step_def bind_eq_Some_conv)

text \<open>The branches of the operations.\<close>

lemma look_node_cases:
  assumes "look_node w p l s = Some (pc, r)"
  obtains (self) x where "p = w" "heap s p = Some x" "pc = Visiting (nxt x) l" "r = s"
  | (escape) x a where "p \<noteq> w" "ancestor l = Some p" "heap s p = Some x" "father x = Some a"
      "upd w (\<lambda>t. t\<lparr>optFlags := optFlags t OR FatherScape\<rparr>) s = Some r"
      "pc = Deciding (l\<lparr>ancestor := father x\<rparr>)"
  | (ancestor) x where "p \<noteq> w" "ancestor l = Some p" "heap s p = Some x"
      "pc = Visiting (nxt x) (l\<lparr>ancestor := father x\<rparr>)" "r = s"
  | (active) x where "p \<noteq> w" "ancestor l \<noteq> Some p" "heap s p = Some x" "status x < Done"
      "pc = Comparing p l" "r = s"
  | (gone) x where "p \<noteq> w" "ancestor l \<noteq> Some p" "heap s p = Some x" "\<not> status x < Done"
      "pc = Visiting (nxt x) l" "r = s"
proof -
  obtain x where x: "heap s p = Some x" using assms by (auto simp: look_node_def bind_eq_Some_conv)
  note u = assms [unfolded look_node_def x Option.bind.simps]
  consider "p = w" | "p \<noteq> w" "ancestor l = Some p" | "p \<noteq> w" "ancestor l \<noteq> Some p" by blast
  then show thesis
  proof cases
    case 1
    then show ?thesis using self [OF _ x] u by simp
  next
    case 2
    obtain e where e: "(case father x of None \<Rightarrow> Some False | Some a \<Rightarrow> is_contained w a s) = Some e"
      using u 2 by (auto simp: bind_eq_Some_conv)
    show ?thesis
    proof (cases e)
      case True
      then obtain a where a: "father x = Some a" using e by (auto split: option.splits)
      obtain r' where "upd w (\<lambda>t. t\<lparr>optFlags := optFlags t OR FatherScape\<rparr>) s = Some r'"
        "pc = Deciding (l\<lparr>ancestor := father x\<rparr>)" "r = r'"
        using u 2 e True by (auto simp: Let_def bind_eq_Some_conv)
      then show ?thesis using escape [OF 2 x a] by simp
    next
      case False
      then show ?thesis using ancestor [OF 2 x] u e 2 by simp
    qed
  next
    case 3
    then have "pc = (if status x < Done then Comparing p l else Visiting (nxt x) l)" "r = s"
      using u by auto
    then show ?thesis using active [OF 3 x] gone [OF 3 x] by (cases "status x < Done") simp_all
  qed
qed

lemma compare_node_cases:
  assumes "compare_node w p l s = Some (pc, r)"
  obtains (found) x n av where "heap s p = Some x" "compare_args (args x) (n_args l) (argv l) = Some (True, n, av)"
      "upd w (\<lambda>t. t\<lparr>ndependencies := ndependencies t + 1\<rparr>) s = Some r"
      "pc = Linking p (l\<lparr>n_args := n, argv := av\<rparr>)"
  | (none) x n av where "heap s p = Some x" "compare_args (args x) (n_args l) (argv l) = Some (False, n, av)"
      "pc = Flagging p (l\<lparr>n_args := n, argv := av\<rparr>)" "r = s"
proof -
  obtain x c n av where x: "heap s p = Some x" "compare_args (args x) (n_args l) (argv l) = Some (c, n, av)"
    using assms by (auto simp: compare_node_def bind_eq_Some_conv)
  note u = assms [unfolded compare_node_def x Option.bind.simps prod.case Let_def]
  show thesis
  proof (cases c)
    case True
    then obtain r' where "upd w (\<lambda>t. t\<lparr>ndependencies := ndependencies t + 1\<rparr>) s = Some r'"
      "pc = Linking p (l\<lparr>n_args := n, argv := av\<rparr>)" "r = r'"
      using u by (auto simp: x bind_eq_Some_conv)
    moreover have "compare_args (args x) (n_args l) (argv l) = Some (True, n, av)" using x(2) True by simp
    ultimately show ?thesis using found [OF x(1)] by simp
  next
    case False
    then show ?thesis using none [OF x(1)] x(2) u by simp
  qed
qed

lemma flag_fills_cases:
  assumes "flag_fills w p l s = Some (pc, r)"
  obtains (fill) x l' where "heap s p = Some x" "status x = Filling"
      "upd w (\<lambda>t. t\<lparr>optFlags := optFlags t OR PendingFills\<rparr>) s = Some r" "pc = Visiting (nxt x) l'"
      "n_args l' = n_args l" "argv l' = argv l" "ancestor l' = ancestor l"
  | (none) x l' where "heap s p = Some x" "status x \<noteq> Filling" "r = s" "pc = Visiting (nxt x) l'"
      "n_args l' = n_args l" "argv l' = argv l" "ancestor l' = ancestor l"
proof -
  obtain x where x: "heap s p = Some x" using assms by (auto simp: flag_fills_def bind_eq_Some_conv)
  note u = assms [unfolded flag_fills_def x Option.bind.simps]
  show thesis
  proof (cases "status x = Filling")
    case True
    then obtain r' l' where "upd w (\<lambda>t. t\<lparr>optFlags := optFlags t OR PendingFills\<rparr>) s = Some r'" "r = r'"
      "pc = Visiting (nxt x) l'" "n_args l' = n_args l" "argv l' = argv l" "ancestor l' = ancestor l"
      using u by (auto simp: bind_eq_Some_conv)
    then show ?thesis using fill [OF x True] by simp
  next
    case False
    then show ?thesis using none [OF x False] u by auto
  qed
qed

lemma release_next_cases:
  assumes "release_next c k s = Some (pc, r)"
  obtains (dec) x y where "heap s c = Some x" "k < length (deps x)" "heap s (deps x ! k) = Some y"
      "upd (deps x ! k) (\<lambda>y. y\<lparr>ndependencies := ndependencies y - 1\<rparr>) s = Some r"
      "pc = (if ndependencies y = 1 then Posting c k else Releasing c (Suc k))"
  | (finished) x where "heap s c = Some x" "\<not> k < length (deps x)" "pc = Freeing c" "r = s"
proof -
  obtain x where x: "heap s c = Some x" using assms by (auto simp: release_next_def bind_eq_Some_conv)
  note u = assms [unfolded release_next_def x Option.bind.simps]
  show thesis
  proof (cases "k < length (deps x)")
    case True
    then obtain y r' where "heap s (deps x ! k) = Some y"
      "upd (deps x ! k) (\<lambda>y. y\<lparr>ndependencies := ndependencies y - 1\<rparr>) s = Some r'" "r = r'"
      "pc = (if ndependencies y = 1 then Posting c k else Releasing c (Suc k))"
      using u by (auto simp: bind_eq_Some_conv)
    then show ?thesis using dec [OF x True] by simp
  next
    case False
    then show ?thesis using finished [OF x False] u by simp
  qed
qed

end
