(* ===== verification/HandshakeRuns.thy ===== *)
theory HandshakeRuns
  imports Handshake
begin

text \<open>
  Runs of the interleaved protocol as schedules that can be evaluated: two in which a subtask that
  finishes its father breaks the protocol, and some without subtasks.
\<close>

section \<open>Schedules\<close>

datatype hs_event = Spawn wid "arg_info list" "wid option" | Insert wid | Start | End wid | Complete wid

definition inside_pc :: "ins_pc \<Rightarrow> bool" where
  "inside_pc pc = (case pc of Inside _ \<Rightarrow> True | _ \<Rightarrow> False)"

text \<open>\<open>between_spawns\<close>, when the tasks are numbered below \<open>n\<close>.\<close>

definition subtasks_inside :: "nat \<Rightarrow> wid \<Rightarrow> hs \<Rightarrow> bool" where
  "subtasks_inside n w S \<longleftrightarrow>
     list_all (\<lambda>v. case heap (rt S) v of None \<Rightarrow> True
        | Some x \<Rightarrow> father x = Some w \<longrightarrow> inside_pc (ins S v)) [0..<n]"

fun happen :: "bool \<Rightarrow> nat \<Rightarrow> hs_event \<Rightarrow> hs \<Rightarrow> hs option" where
  "happen climb n (Spawn w as fa) S =
     (if w < n \<and> heap (rt S) w = None \<and>
         (case fa of None \<Rightarrow> True | Some a \<Rightarrow> in_function a S \<and> subtasks_inside n a S)
      then do {
        r \<leftarrow> new_workitem w as (int (length as)) fa (rt S);
        Some (at_ins w (Entering \<lparr>func = w, ctx = Some w\<rparr>) r S)
      }
      else None)"
| "happen climb n (Insert w) S = ins_step w S"
| "happen climb n Start S =
     (case tqueue (rt S) of [] \<Rightarrow> None
      | t # ts \<Rightarrow> do { r \<leftarrow> run_begin t (rt S\<lparr>tqueue := ts\<rparr>); Some (S\<lparr>rt := r\<rparr>) })"
| "happen climb n (End w) S =
     (if in_function w S \<and> subtasks_inside n w S
      then do { (pc, r) \<leftarrow> count_child w (rt S); Some (at_fin w pc r S) }
      else None)"
| "happen climb n (Complete w) S = (if climb \<or> \<not> climbs w S then fin_step w S else None)"

fun happens :: "bool \<Rightarrow> nat \<Rightarrow> hs_event list \<Rightarrow> hs \<Rightarrow> hs option" where
  "happens climb n [] S = Some S"
| "happens climb n (e # es) S = do { S1 \<leftarrow> happen climb n e S; happens climb n es S1 }"

definition allocated :: "runtime \<Rightarrow> wid set" where
  "allocated s = dom (heap s)"

definition below :: "nat \<Rightarrow> hs \<Rightarrow> bool" where
  "below n S \<longleftrightarrow>
     allocated (rt S) \<subseteq> {..<n} \<and> (\<forall>v. n \<le> v \<longrightarrow> ins S v = Outside \<and> fin S v = Active)"

lemma allocated_queue [simp]: "allocated (s\<lparr>tqueue := q\<rparr>) = allocated s"
  by (simp add: allocated_def)

lemma allocated_worklist [simp]: "allocated (s\<lparr>worklist := q\<rparr>) = allocated s"
  by (simp add: allocated_def)

lemma allocated_upd:
  assumes "upd w f s = Some s'"
  shows "allocated s' = allocated s"
proof -
  obtain x where "heap s w = Some x" "s' = s\<lparr>heap := (heap s)(w \<mapsto> f x)\<rparr>"
    using assms by (auto simp: upd_eq_Some)
  then show ?thesis by (simp add: allocated_def insert_absorb domI)
qed

lemma allocated_post: "post w s = Some s' \<Longrightarrow> allocated s' = allocated s"
  by (clarsimp simp: post_def bind_eq_Some_conv) (drule allocated_upd, simp)

lemma allocated_new_workitem:
  "new_workitem w as n fa s = Some s' \<Longrightarrow> allocated s' = insert w (allocated s)"
proof (cases fa)
  case (Some a)
  moreover assume "new_workitem w as n fa s = Some s'"
  ultimately show ?thesis
    by (clarsimp simp: new_workitem_def Let_def) (drule allocated_upd, simp add: allocated_def)
qed (simp add: new_workitem_def allocated_def, force)

lemma allocated_run_begin: "run_begin t s = Some s' \<Longrightarrow> allocated s' = allocated s"
  by (auto simp: run_begin_def split: option.splits) (drule allocated_upd, simp)+

lemma allocated_count_child: "count_child f s = Some (pc, s') \<Longrightarrow> allocated s' = allocated s"
  by (clarsimp simp: count_child_def bind_eq_Some_conv) (drule allocated_upd, simp)

lemma allocated_ins_step:
  assumes "ins_step w S = Some S'"
  shows "allocated (rt S') = allocated (rt S)"
  using assms
proof (cases rule: ins_step_cases)
  case (push t pc r)
  then show ?thesis
    by (clarsimp simp: push_node_def Let_def bind_eq_Some_conv at_ins_def) (drule allocated_upd, simp)
next
  case (look p l pc r)
  then show ?thesis
    by (auto simp: at_ins_def allocated_upd elim!: look_node_cases)
next
  case (compare p l pc r)
  then show ?thesis
    by (auto simp: at_ins_def allocated_upd elim!: compare_node_cases)
next
  case (link p l pc r)
  then show ?thesis
    by (clarsimp simp: append_dep_def bind_eq_Some_conv at_ins_def) (drule allocated_upd, simp)
next
  case (flag p l pc r)
  then show ?thesis
    by (auto simp: at_ins_def allocated_upd elim!: flag_fills_cases)
qed (auto simp: decide_def at_ins_def bind_eq_Some_conv allocated_upd allocated_post)

lemma allocated_fin_step:
  assumes "fin_step w S = Some S'"
  shows "allocated (rt S') = allocated (rt S)"
  using assms
proof (cases rule: fin_step_cases)
  case (release c k pc r)
  then show ?thesis
    by (auto simp: at_fin_def allocated_upd elim!: release_next_cases)
next
  case (post_dep c k pc r)
  then show ?thesis
    by (clarsimp simp: post_next_def bind_eq_Some_conv at_fin_def) (drule allocated_post, simp)
next
  case (retired c pc r)
  then show ?thesis
    by (clarsimp simp: retire_def bind_eq_Some_conv at_fin_def) (drule allocated_upd, simp)
qed (auto simp: at_fin_def allocated_upd allocated_count_child)

lemma ins_step_frame:
  assumes "ins_step w S = Some S'"
  shows "fin S' = fin S" "ins S w \<noteq> Outside" "v \<noteq> w \<Longrightarrow> ins S' v = ins S v"
  using assms by (auto simp: ins_step_def bind_eq_Some_conv at_ins_def)

lemma fin_step_frame:
  assumes "fin_step w S = Some S'"
  shows "ins S' = ins S" "fin S w \<noteq> Active" "v \<noteq> w \<Longrightarrow> fin S' v = fin S v"
  using assms by (auto simp: fin_step_def bind_eq_Some_conv at_fin_def)

lemma below_ins_step:
  assumes "below n S" "ins_step w S = Some S'"
  shows "below n S'"
proof -
  have "w < n" using assms(1) ins_step_frame(2) [OF assms(2)] by (auto simp: below_def not_less [symmetric])
  then show ?thesis
    using assms(1) allocated_ins_step [OF assms(2)] ins_step_frame(1) [OF assms(2)]
      ins_step_frame(3) [OF assms(2)] by (auto simp: below_def)
qed

lemma below_fin_step:
  assumes "below n S" "fin_step w S = Some S'"
  shows "below n S'"
proof -
  have "w < n" using assms(1) fin_step_frame(2) [OF assms(2)] by (auto simp: below_def not_less [symmetric])
  then show ?thesis
    using assms(1) allocated_fin_step [OF assms(2)] fin_step_frame(1) [OF assms(2)]
      fin_step_frame(3) [OF assms(2)] by (auto simp: below_def)
qed

lemma below_between:
  assumes "below n S" "subtasks_inside n w S"
  shows "between_spawns w S"
  unfolding between_spawns_def
proof (intro allI impI)
  fix v x assume x: "heap (rt S) v = Some x" "father x = Some w"
  then have "v \<in> set [0..<n]" using assms(1) by (auto simp: below_def allocated_def)
  then have "case heap (rt S) v of None \<Rightarrow> True | Some x \<Rightarrow> father x = Some w \<longrightarrow> inside_pc (ins S v)"
    using assms(2) unfolding subtasks_inside_def list_all_iff by (rule bspec [rotated])
  then have "inside_pc (ins S v)" using x by simp
  then show "\<exists>b. ins S v = Inside b" by (auto simp: inside_pc_def split: ins_pc.splits)
qed

lemma happen_step:
  assumes "below n S" "happen climb n e S = Some S'" "\<And>w as fa. e = Spawn w as fa \<Longrightarrow> as \<in> U"
  shows "hs_step U climb S S' \<and> below n S'"
proof (cases e)
  case (Spawn w as fa)
  then obtain r where r: "w < n" "heap (rt S) w = None"
    "new_workitem w as (int (length as)) fa (rt S) = Some r"
    "case fa of None \<Rightarrow> True | Some a \<Rightarrow> in_function a S \<and> subtasks_inside n a S"
    "S' = at_ins w (Entering \<lparr>func = w, ctx = Some w\<rparr>) r S"
    using assms(2) by (auto simp: bind_eq_Some_conv split: if_splits)
  have "\<forall>a. fa = Some a \<longrightarrow> in_function a S \<and> between_spawns a S"
    using r(4) below_between [OF assms(1)] by auto
  then have "hs_step U climb S S'"
    unfolding r(5) by (intro hs_step.spawn) (use assms(3) Spawn r in auto)
  moreover have "below n S'"
    using assms(1) r(1,5) allocated_new_workitem [OF r(3)] by (simp add: below_def at_ins_def)
  ultimately show ?thesis ..
next
  case (Insert w)
  then show ?thesis
    using assms below_ins_step hs_step.insert by simp
next
  case Start
  then obtain t ts r where r: "tqueue (rt S) = t # ts" "run_begin t (rt S\<lparr>tqueue := ts\<rparr>) = Some r"
    "S' = S\<lparr>rt := r\<rparr>"
    using assms(2) by (auto simp: bind_eq_Some_conv split: list.splits)
  then show ?thesis
    using assms(1) allocated_run_begin [OF r(2)] by (auto simp: below_def intro: hs_step.start)
next
  case (End w)
  then obtain pc r where r: "in_function w S" "subtasks_inside n w S" "count_child w (rt S) = Some (pc, r)"
    "S' = at_fin w pc r S"
    using assms(2) by (auto simp: bind_eq_Some_conv split: if_splits)
  have "hs_step U climb S S'"
    unfolding r(4) by (rule hs_step.finish [OF r(1) below_between [OF assms(1) r(2)] r(3)])
  moreover have "w < n"
    using r(1) assms(1) by (auto simp: in_function_def below_def allocated_def split: option.splits)
  ultimately show ?thesis
    using assms(1) r(4) allocated_count_child [OF r(3)] by (simp add: below_def at_fin_def)
next
  case (Complete w)
  then show ?thesis
    using assms below_fin_step hs_step.complete by (simp split: if_splits)
qed

lemma happens_reachable:
  "hs_reachable U climb S \<Longrightarrow> below n S \<Longrightarrow> happens climb n es S = Some S' \<Longrightarrow>
   \<forall>w as fa. Spawn w as fa \<in> set es \<longrightarrow> as \<in> U \<Longrightarrow> hs_reachable U climb S' \<and> below n S'"
proof (induction es arbitrary: S)
  case (Cons e es)
  obtain S1 where S1: "happen climb n e S = Some S1" "happens climb n es S1 = Some S'"
    using Cons.prems(3) by (auto simp: bind_eq_Some_conv)
  have s: "hs_step U climb S S1 \<and> below n S1"
    by (rule happen_step [OF Cons.prems(2) S1(1)]) (use Cons.prems(4) in auto)
  show ?case
    by (rule Cons.IH [of S1]) (use s S1 Cons.prems hs_reachable.step in auto)
qed simp

section \<open>A subtask that finishes its father\<close>

text \<open>
  The library before the first task, while an \<open>Observer\<close> exists; then task 0 is inserted and runs,
  task 1, which conflicts with it, is on its way in, and task 0 spawns task 2, which runs and is the
  last to end. The loop that waits stops at task 2 also when the father of task 2 is the task that is
  completed, so nobody waits for task 1, which stands behind task 2 in the list.
\<close>

definition idle_hs :: hs where
  "idle_hs =
     \<lparr>rt = \<lparr>heap = (\<lambda>_. None), worklist = None, eraser_assigned = False, ObserversAtWork = 1,
        Nthreads = 2, FAST_THRESHOLD = 4, tqueue = []\<rparr>, ins = (\<lambda>_. Outside), fin = (\<lambda>_. Active)\<rparr>"

definition race_to :: "nat \<Rightarrow> hs_event list" where
  "race_to k =
     [Spawn 0 [region 1000 8 True] None] @ replicate 4 (Insert 0) @ [Start,
      Spawn 1 [region 1000 4 True] None] @ replicate k (Insert 1) @
     [Spawn 2 [region 1004 4 True] (Some 0)] @ replicate 8 (Insert 2) @ [Start, End 0, End 2] @
     replicate 7 (Complete 2)"

text \<open>Task 1 has counted its dependency on task 0, but links it only after task 0 released its dependents.\<close>

definition lost_run :: "hs_event list" where
  "lost_run = race_to 3 @ replicate 6 (Complete 2) @ replicate 5 (Insert 1)"

text \<open>
  Task 1 is linked to task 0 and released while it is still being filled in. It is run to its end, and
  then its insertion finds that it has no dependencies.
\<close>

definition twice_run :: "hs_event list" where
  "twice_run = race_to 4 @ replicate 6 (Complete 2) @ [Start, End 1] @ replicate 4 (Insert 1)"

definition race_args :: "arg_info list set" where
  "race_args = {[region 1000 8 True], [region 1000 4 True], [region 1004 4 True]}"

lemma race_universe: "universe race_args"
  by (auto simp: universe_def race_args_def comparison_defs)

lemma idle_reachable: "hs_reachable U climb idle_hs" "below n idle_hs"
  by (auto simp: idle_hs_def hs_initial_def below_def allocated_def intro!: hs_reachable.init)

lemma race_reachable:
  assumes "happens True 3 es idle_hs = Some S" "es \<in> {lost_run, twice_run}"
  shows "hs_reachable race_args True S" "below 3 S"
proof -
  have "\<forall>w as fa. Spawn w as fa \<in> set es \<longrightarrow> as \<in> race_args"
    using assms(2) by (auto simp: lost_run_def twice_run_def race_to_def race_args_def)
  then have "hs_reachable race_args True S \<and> below 3 S"
    by (rule happens_reachable [OF idle_reachable assms(1)])
  then show "hs_reachable race_args True S" "below 3 S" by simp_all
qed

text \<open>No thread can do anything, except spawn more tasks.\<close>

definition at_rest :: "hs \<Rightarrow> bool" where
  "at_rest S \<longleftrightarrow>
     tqueue (rt S) = [] \<and> (\<forall>w. \<not> in_function w S \<and> ins_step w S = None \<and> fin_step w S = None)"

definition tasks_at_rest :: "nat \<Rightarrow> hs \<Rightarrow> bool" where
  "tasks_at_rest n S \<longleftrightarrow>
     tqueue (rt S) = [] \<and>
     list_all (\<lambda>w. \<not> in_function w S \<and> inside_pc (ins S w) \<and>
       (case fin S w of Active \<Rightarrow> True | Returned \<Rightarrow> True | _ \<Rightarrow> False)) [0..<n]"

lemma tasks_at_rest:
  assumes "below n S" "tasks_at_rest n S"
  shows "at_rest S"
proof -
  have "\<not> in_function w S \<and> ins_step w S = None \<and> fin_step w S = None" for w
  proof (cases "w < n")
    case True
    then have "\<not> in_function w S" "inside_pc (ins S w)"
      "case fin S w of Active \<Rightarrow> True | Returned \<Rightarrow> True | _ \<Rightarrow> False"
      using assms(2) by (auto simp: tasks_at_rest_def list_all_iff)
    then show ?thesis
      by (auto simp: ins_step_def fin_step_def inside_pc_def split: ins_pc.splits fin_pc.splits)
  next
    case False
    then have "heap (rt S) w = None" "ins S w = Outside" "fin S w = Active"
      using assms(1) by (auto simp: below_def allocated_def)
    then show ?thesis
      by (simp add: in_function_def ins_step_def fin_step_def)
  qed
  then show ?thesis using assms(2) by (simp add: at_rest_def tasks_at_rest_def)
qed

definition states :: "hs \<Rightarrow> (status_t \<times> int) option list" where
  "states S = map (\<lambda>v. map_option (\<lambda>x. (status x, ndependencies x)) (heap (rt S) v)) [0, 1, 2]"

lemma lost_end:
  obtains S where "happens True 3 lost_run idle_hs = Some S" "tasks_at_rest 3 S"
    "states S = [Some (Deallocatable, 0), Some (Waiting, 1), Some (Deallocatable, 0)]"
proof -
  have "map_option (\<lambda>S. (states S, tasks_at_rest 3 S)) (happens True 3 lost_run idle_hs) =
      Some ([Some (Deallocatable, 0), Some (Waiting, 1), Some (Deallocatable, 0)], True)"
    by code_simp
  then show thesis using that by auto
qed

lemma twice_end:
  obtains S where "happens True 3 twice_run idle_hs = Some S" "fin S 1 = Marking 1"
    "map ctx (tqueue (rt S)) = [Some 1]"
proof -
  have "map_option (\<lambda>S. (fin S 1, map ctx (tqueue (rt S)))) (happens True 3 twice_run idle_hs) =
      Some (Marking 1, [Some 1])"
    by code_simp
  then show thesis using that by auto
qed

text \<open>
  C26: When the last subtask to end finishes its father, the thread does not wait for the tasks that
  stand behind the subtask in the list and are still being filled in. One of them can be linked to the
  father after the father has released its dependents, and waits for ever when all the others are
  finished; or it is released in the middle of its insertion and goes to the queue twice, the second
  time when its function has already run.
\<close>

theorem subtask_completion_races:
  "(\<exists>S x. hs_reachable race_args True S \<and> at_rest S \<and> heap (rt S) 1 = Some x \<and> status x = Waiting \<and>
      {v \<in> allocated (rt S). status (item (rt S) v) \<noteq> Deallocatable} = {1}) \<and>
   (\<exists>S t. hs_reachable race_args True S \<and> fin S 1 = Marking 1 \<and> t \<in> set (tqueue (rt S)) \<and> ctx t = Some 1)"
proof
  obtain S where S: "happens True 3 lost_run idle_hs = Some S" "tasks_at_rest 3 S"
    "states S = [Some (Deallocatable, 0), Some (Waiting, 1), Some (Deallocatable, 0)]"
    by (rule lost_end)
  note r = race_reachable [OF S(1), simplified]
  have v: "v = 0 \<or> v = 1 \<or> v = 2" if "heap (rt S) v = Some y" for v y
    using r(2) that by (force simp: below_def allocated_def)
  obtain x y z where x: "heap (rt S) 0 = Some x" "heap (rt S) 1 = Some y" "heap (rt S) 2 = Some z"
    "status x = Deallocatable" "status y = Waiting" "status z = Deallocatable"
    using S(3) by (auto simp: states_def)
  have "{v \<in> allocated (rt S). status (item (rt S) v) \<noteq> Deallocatable} = {1}"
  proof (intro equalityI subsetI)
    fix w assume w: "w \<in> {v \<in> allocated (rt S). status (item (rt S) v) \<noteq> Deallocatable}"
    then obtain y where "heap (rt S) w = Some y" by (auto simp: allocated_def)
    then have "w = 0 \<or> w = 1 \<or> w = 2" by (rule v)
    then show "w \<in> {1}" using w x by (elim disjE) simp_all
  next
    fix w :: wid assume "w \<in> {1}"
    then show "w \<in> {v \<in> allocated (rt S). status (item (rt S) v) \<noteq> Deallocatable}"
      using x by (simp add: allocated_def domI)
  qed
  then show "\<exists>S x. hs_reachable race_args True S \<and> at_rest S \<and> heap (rt S) 1 = Some x \<and> status x = Waiting \<and>
      {v \<in> allocated (rt S). status (item (rt S) v) \<noteq> Deallocatable} = {1}"
    using r(1) tasks_at_rest [OF r(2) S(2)] x(2,5) by blast
next
  obtain S where S: "happens True 3 twice_run idle_hs = Some S" "fin S 1 = Marking 1"
    "map ctx (tqueue (rt S)) = [Some 1]"
    by (rule twice_end)
  then show "\<exists>S t. hs_reachable race_args True S \<and> fin S 1 = Marking 1 \<and> t \<in> set (tqueue (rt S)) \<and> ctx t = Some 1"
    using race_reachable(1) [OF S(1)] by fastforce
qed

section \<open>Runs without subtasks\<close>

text \<open>Two tasks that work on different halves of a region are inserted at the same time.\<close>

definition apart_run :: "hs_event list" where
  "apart_run =
     [Spawn 0 [region 1000 4 True] None, Spawn 1 [region 1004 4 True] None, Insert 0] @ replicate 4 (Insert 1) @
     replicate 3 (Insert 0) @ replicate 3 (Insert 1) @ [Start, Start]"

text \<open>
  Two tasks that conflict; the first ends while the second is on its way in, waits for it, and is about
  to release it; then all goes on to the end.
\<close>

definition meeting_run :: "hs_event list" where
  "meeting_run =
     [Spawn 0 [region 1000 8 True] None] @ replicate 4 (Insert 0) @
     [Start, Spawn 1 [region 1000 4 True] None] @ replicate 3 (Insert 1) @ [End 0] @ replicate 2 (Complete 0) @
     replicate 5 (Insert 1) @ [Complete 0]"

definition meeting_end :: "hs_event list" where
  "meeting_end = meeting_run @ replicate 5 (Complete 0) @ [Start, End 1] @ replicate 6 (Complete 1)"

text \<open>A task enters while another is about to release its dependents.\<close>

definition late_run :: "hs_event list" where
  "late_run =
     [Spawn 0 [region 1000 8 True] None] @ replicate 4 (Insert 0) @ [Start, End 0] @ replicate 3 (Complete 0) @
     [Spawn 1 [region 1000 4 True] None, Insert 1]"

lemma sample_hs:
  assumes "happens False 2 es idle_hs = Some S" "es \<in> {apart_run, meeting_run, meeting_end, late_run}"
  shows "hs_reachable race_args False S" "below 2 S"
proof -
  have "\<forall>w as fa. Spawn w as fa \<in> set es \<longrightarrow> as \<in> race_args"
    using assms(2) by (auto simp: apart_run_def meeting_end_def meeting_run_def late_run_def race_args_def)
  then have "hs_reachable race_args False S \<and> below 2 S"
    by (rule happens_reachable [OF idle_reachable assms(1)])
  then show "hs_reachable race_args False S" "below 2 S" by simp_all
qed

end
