(* ===== verification/HandshakeWhole.thy ===== *)
theory HandshakeWhole
  imports HandshakeRuns
begin

text \<open>
  The interleaved protocol and the operations of \<open>Workitem\<close> agree: a thread that nobody
  interrupts does, access by access, what \<open>insert_in_worklist\<close> and \<open>finish_execution\<close> do as a whole.
\<close>

section \<open>Runs of one thread\<close>

definition ins_moves :: "wid \<Rightarrow> hs \<Rightarrow> hs \<Rightarrow> bool" where
  "ins_moves w = (\<lambda>S S'. ins_step w S = Some S')\<^sup>*\<^sup>*"

text \<open>Likewise for a thread that completes a task.\<close>

definition fin_moves :: "wid \<Rightarrow> hs \<Rightarrow> hs \<Rightarrow> bool" where
  "fin_moves w = (\<lambda>S S'. fin_step w S = Some S')\<^sup>*\<^sup>*"

lemma ins_moves_refl [simp]: "ins_moves w S S"
  by (simp add: ins_moves_def)

lemma ins_moves_step: "ins_step w S = Some S1 \<Longrightarrow> ins_moves w S1 S2 \<Longrightarrow> ins_moves w S S2"
  unfolding ins_moves_def by (rule converse_rtranclp_into_rtranclp)

lemma ins_moves_trans: "ins_moves w S S1 \<Longrightarrow> ins_moves w S1 S2 \<Longrightarrow> ins_moves w S S2"
  unfolding ins_moves_def by (rule rtranclp_trans)

lemma fin_moves_refl [simp]: "fin_moves w S S"
  by (simp add: fin_moves_def)

lemma fin_moves_step: "fin_step w S = Some S1 \<Longrightarrow> fin_moves w S1 S2 \<Longrightarrow> fin_moves w S S2"
  unfolding fin_moves_def by (rule converse_rtranclp_into_rtranclp)

lemma fin_moves_trans: "fin_moves w S S1 \<Longrightarrow> fin_moves w S1 S2 \<Longrightarrow> fin_moves w S S2"
  unfolding fin_moves_def by (rule rtranclp_trans)

lemma at_simps [simp]:
  "rt (at_ins w pc r S) = r" "ins (at_ins w pc r S) w = pc" "fin (at_ins w pc r S) = fin S"
  "at_ins w pc' r' (at_ins w pc r S) = at_ins w pc' r' S"
  "rt (at_fin w fc r S) = r" "fin (at_fin w fc r S) w = fc" "ins (at_fin w fc r S) = ins S"
  "at_fin w fc' r' (at_fin w fc r S) = at_fin w fc' r' S"
  by (simp_all add: at_ins_def at_fin_def)

lemma compare_with_run:
  assumes "compare_with w q l s = Some (l1, s2)" "heap s2 q = Some x" "q \<noteq> w"
  shows "ins_moves w (at_ins w (Comparing q l) s S) (at_ins w (Visiting (nxt x) l1) s2 S)"
proof -
  obtain z c n av s1 y where a: "heap s q = Some z" "compare_args (args z) (n_args l) (argv l) = Some (c, n, av)"
    "(if c then link_dep w q s else Some s) = Some s1" "heap s1 q = Some y"
    "(if status y = Filling then upd w (\<lambda>t. t\<lparr>optFlags := optFlags t OR PendingFills\<rparr>) s1 else Some s1) = Some s2"
    "l1 = l\<lparr>n_args := n, argv := av, nfillwait := nfillwait l + (if status y < Ready then 1 else 0),
       nready := nready l + (if status y = Ready then 1 else 0)\<rparr>"
    using assms(1) by (auto simp: compare_with_def bind_eq_Some_conv)
  let ?l = "l\<lparr>n_args := n, argv := av\<rparr>"
  have "nxt y = nxt x"
    using a(4,5) assms(2,3) by (auto simp: upd_eq_Some split: if_splits)
  then have f: "ins_moves w (at_ins w (Flagging q ?l) s1 S) (at_ins w (Visiting (nxt x) l1) s2 S)"
    by (intro ins_moves_step [OF _ ins_moves_refl]) (simp add: ins_step_def flag_fills_def a(4-6))
  show ?thesis
  proof (cases c)
    case False
    then have "ins_step w (at_ins w (Comparing q l) s S) = Some (at_ins w (Flagging q ?l) s1 S)"
      using a(1-3) by (simp add: ins_step_def compare_node_def)
    then show ?thesis using f by (rule ins_moves_step)
  next
    case True
    then obtain s0 where s0: "upd w (\<lambda>x. x\<lparr>ndependencies := ndependencies x + 1\<rparr>) s = Some s0"
      "upd q (\<lambda>x. x\<lparr>deps := deps x @ [w]\<rparr>) s0 = Some s1"
      using a(3) by (auto simp: link_dep_def bind_eq_Some_conv)
    have "ins_step w (at_ins w (Comparing q l) s S) = Some (at_ins w (Linking q ?l) s0 S)"
      using a(1,2) s0(1) True by (simp add: ins_step_def compare_node_def)
    moreover have "ins_step w (at_ins w (Linking q ?l) s0 S) = Some (at_ins w (Flagging q ?l) s1 S)"
      using s0(2) by (simp add: ins_step_def append_dep_def)
    ultimately show ?thesis using f by (blast intro: ins_moves_step)
  qed
qed

lemma visit_run:
  assumes "visit w q l s = Some (stop, l1, s1)" "heap s1 q = Some x"
  shows "ins_moves w (at_ins w (Visiting (Some q) l) s S)
           (at_ins w (if stop then Deciding l1 else Visiting (nxt x) l1) s1 S)"
proof -
  consider (self) "q = w" | (anc) "q \<noteq> w" "ancestor l = Some q" | (other) "q \<noteq> w" "ancestor l \<noteq> Some q" by blast
  then show ?thesis
  proof cases
    case self
    then show ?thesis
      using assms by (intro ins_moves_step [OF _ ins_moves_refl]) (auto simp: visit_def ins_step_def look_node_def)
  next
    case anc
    then obtain z e where z: "heap s q = Some z"
      "(case father z of None \<Rightarrow> Some False | Some a \<Rightarrow> is_contained w a s) = Some e" "stop = e"
      "(if e then upd w (\<lambda>t. t\<lparr>optFlags := optFlags t OR FatherScape\<rparr>) s else Some s) = Some s1"
      "l1 = l\<lparr>ancestor := father z\<rparr>"
      using assms(1) by (auto simp: visit_def bind_eq_Some_conv)
    have "nxt z = nxt x" using z(1,4) assms(2) anc(1) by (auto simp: upd_eq_Some split: if_splits)
    then show ?thesis
      using anc z by (intro ins_moves_step [OF _ ins_moves_refl]) (auto simp: ins_step_def look_node_def)
  next
    case other
    obtain z where z: "heap s q = Some z" using assms(1) other by (auto simp: visit_def bind_eq_Some_conv)
    show ?thesis
    proof (cases "status z < Done")
      case True
      then have c: "compare_with w q l s = Some (l1, s1)" "\<not> stop"
        using assms(1) other z by (auto simp: visit_def bind_eq_Some_conv)
      have "ins_step w (at_ins w (Visiting (Some q) l) s S) = Some (at_ins w (Comparing q l) s S)"
        using other z True by (simp add: ins_step_def look_node_def)
      then show ?thesis
        using compare_with_run [OF c(1) assms(2) other(1)] c(2) by (auto intro: ins_moves_step)
    next
      case False
      then show ?thesis
        using assms other z by (intro ins_moves_step [OF _ ins_moves_refl]) (auto simp: visit_def ins_step_def look_node_def)
    qed
  qed
qed

lemma visit_node:
  assumes "visit w q l s = Some (True, l1, s1)"
  shows "\<exists>x. heap s1 q = Some x"
  using assms by (auto simp: visit_def bind_eq_Some_conv upd_eq_Some split: if_splits)

lemma scan_run:
  assumes "scan_worklist w p l s = Some y"
  shows "ins_moves w (at_ins w (Visiting p l) s S) (at_ins w (Deciding (fst y)) (snd y) S)"
proof (rule scan_worklist.raw_induct [where P = "\<lambda>w p l s y.
    ins_moves w (at_ins w (Visiting p l) s S) (at_ins w (Deciding (fst y)) (snd y) S)", OF _ assms])
  fix R w p l s y
  assume IH: "\<And>w p l s y. R w p l s = Some y \<Longrightarrow>
      ins_moves w (at_ins w (Visiting p l) s S) (at_ins w (Deciding (fst y)) (snd y) S)"
    and b: "(case p of None \<Rightarrow> Some (l, s)
      | Some q \<Rightarrow>
          do {
            (stop, l1, s1) \<leftarrow> visit w q l s;
            if stop then Some (l1, s1) else do { x \<leftarrow> heap s1 q; R w (nxt x) l1 s1 }
          }) = Some y"
  show "ins_moves w (at_ins w (Visiting p l) s S) (at_ins w (Deciding (fst y)) (snd y) S)"
  proof (cases p)
    case None
    then show ?thesis
      using b by (intro ins_moves_step [OF _ ins_moves_refl]) (auto simp: ins_step_def)
  next
    case (Some q)
    then obtain stop l1 s1 where v: "visit w q l s = Some (stop, l1, s1)"
      "(if stop then Some (l1, s1) else do { x \<leftarrow> heap s1 q; R w (nxt x) l1 s1 }) = Some y"
      using b by (auto simp: bind_eq_Some_conv)
    obtain x where x: "heap s1 q = Some x"
    proof (cases stop)
      case True
      then show thesis using visit_node v(1) that by fastforce
    next
      case False
      then show thesis using v(2) that by (auto simp: bind_eq_Some_conv)
    qed
    note r = visit_run [OF v(1) x, of S]
    show ?thesis
    proof (cases stop)
      case True
      then show ?thesis using r v(2) Some by auto
    next
      case False
      then have "R w (nxt x) l1 s1 = Some y" using v(2) x by simp
      from ins_moves_trans [OF _ IH [OF this]] show ?thesis using r False Some by simp
    qed
  qed
qed

section \<open>Insertion\<close>

lemma insertion_uninterrupted:
  assumes "insert_in_worklist w t (rt S) = Some (b, r)" "ins S w = Entering t"
  shows "ins_moves w S (at_ins w (Inside b) r S)"
proof -
  obtain x s1 l s2 y s3 where a: "heap (rt S) w = Some x" "\<not> sint (nargs x) < int (length (args x))"
    "upd w (\<lambda>y. y\<lparr>task := Some t, nxt := worklist (rt S)\<rparr>) (rt S) = Some s1"
    "scan_worklist w (worklist (rt S)) \<lparr>n_args = nat (sint (nargs x)),
        argv = build_argv (nat (sint (nargs x))) (args x), ancestor = father x, nready = 0, nfillwait = 0\<rparr>
        (s1\<lparr>worklist := Some w\<rparr>) = Some (l, s2)"
    "heap s2 w = Some y" "b = fast_start l s2"
    "(if ndependencies y = 0 then post w s2 else upd w (\<lambda>t. t\<lparr>status := Waiting\<rparr>) s2) = Some r"
    using assms(1) by (auto simp: insert_in_worklist_def Let_def bind_eq_Some_conv split: if_splits)
  let ?l = "\<lparr>n_args = nat (sint (nargs x)), argv = build_argv (nat (sint (nargs x))) (args x),
      ancestor = father x, nready = 0, nfillwait = 0\<rparr>"
  have 1: "ins_step w S = Some (at_ins w (Visiting (worklist (rt S)) ?l) (s1\<lparr>worklist := Some w\<rparr>) S)"
    using assms(2) a(1-3) by (simp add: ins_step_def push_node_def Let_def)
  have 2: "ins_moves w (at_ins w (Visiting (worklist (rt S)) ?l) (s1\<lparr>worklist := Some w\<rparr>) S)
      (at_ins w (Deciding l) s2 S)"
    using scan_run [OF a(4), of S] by simp
  have 3: "ins_moves w (at_ins w (Deciding l) s2 S) (at_ins w (Inside b) r S)"
  proof (cases "ndependencies y = 0")
    case True
    then have "ins_step w (at_ins w (Deciding l) s2 S) = Some (at_ins w (Launching l) s2 S)"
      "ins_step w (at_ins w (Launching l) s2 S) = Some (at_ins w (Inside b) r S)"
      using a(5-7) by (simp_all add: ins_step_def decide_def)
    then show ?thesis by (blast intro: ins_moves_step ins_moves_refl)
  next
    case False
    then have "ins_step w (at_ins w (Deciding l) s2 S) = Some (at_ins w (Parking l) s2 S)"
      "ins_step w (at_ins w (Parking l) s2 S) = Some (at_ins w (Inside b) r S)"
      using a(5-7) by (simp_all add: ins_step_def decide_def)
    then show ?thesis by (blast intro: ins_moves_step ins_moves_refl)
  qed
  show ?thesis
    by (rule ins_moves_step [OF 1 ins_moves_trans [OF 2 3]])
qed

section \<open>Completion\<close>

lemma walk_run:
  assumes "wait_fillers this p s = Some ()"
  shows "fin_moves this (at_fin this (Walking c p) s S) (at_fin this (Releasing c 0) s S)"
proof (rule wait_fillers.raw_induct [where P = "\<lambda>this p s y.
    fin_moves this (at_fin this (Walking c p) s S) (at_fin this (Releasing c 0) s S)", OF _ assms])
  fix R this p s y
  assume IH: "\<And>this p s y. R this p s = Some y \<Longrightarrow>
      fin_moves this (at_fin this (Walking c p) s S) (at_fin this (Releasing c 0) s S)"
    and step: "(case p of
        None \<Rightarrow> Some ()
      | Some q \<Rightarrow>
          if q = this then Some ()
          else
            do {
              x \<leftarrow> heap s q;
              if status x = Filling then None
              else if optFlags x AND PendingFills = 0 then
                (if optFlags x AND FatherScape \<noteq> 0 then
                   (if status x < Done
                    then do { f \<leftarrow> father x; y \<leftarrow> heap s f; R this (nxt y) s }
                    else R this (nxt x) s)
                 else Some ())
              else R this (nxt x) s
            }) = Some y"
    have go: "fin_moves this (at_fin this (Walking c p) s S) (at_fin this (Releasing c 0) s S)"
      if "walk_on this c p s = Some (Walking c p')" "R this p' s = Some y" for p'
      by (rule fin_moves_step [OF _ IH [OF that(2)]]) (simp add: fin_step_def that(1))
    have stop: "fin_moves this (at_fin this (Walking c p) s S) (at_fin this (Releasing c 0) s S)"
      if "walk_on this c p s = Some (Releasing c 0)"
      by (rule fin_moves_step [OF _ fin_moves_refl]) (simp add: fin_step_def that)
    show "fin_moves this (at_fin this (Walking c p) s S) (at_fin this (Releasing c 0) s S)"
    proof (cases p)
      case None
      then show ?thesis using stop by (simp add: walk_on_def)
    next
      case (Some q)
      show ?thesis
      proof (cases "q = this")
        case True
        then show ?thesis using stop Some by (simp add: walk_on_def)
      next
        case False
        then obtain x where x: "heap s q = Some x" "status x \<noteq> Filling"
          using step Some by (auto simp: bind_eq_Some_conv split: if_splits)
        note b = step [unfolded Some option.case x(1) Option.bind.simps if_not_P [OF False] if_not_P [OF x(2)]]
        consider (pend) "optFlags x AND PendingFills \<noteq> 0"
          | (plain) "optFlags x AND PendingFills = 0" "optFlags x AND FatherScape = 0"
          | (over) "optFlags x AND PendingFills = 0" "optFlags x AND FatherScape \<noteq> 0" "\<not> status x < Done"
          | (jump) "optFlags x AND PendingFills = 0" "optFlags x AND FatherScape \<noteq> 0" "status x < Done"
          by blast
        then show ?thesis
        proof cases
          case pend
          then show ?thesis using go b x Some False by (simp add: walk_on_def)
        next
          case plain
          then show ?thesis using stop x Some False by (simp add: walk_on_def)
        next
          case over
          then show ?thesis using go b x Some False by (simp add: walk_on_def)
        next
          case jump
          then obtain f z where "father x = Some f" "heap s f = Some z" "R this (nxt z) s = Some y"
            using b by (auto simp: bind_eq_Some_conv)
          then show ?thesis using go jump x Some False by (simp add: walk_on_def)
        qed
      qed
    qed
qed

text \<open>What the steps of a release leave as it was.\<close>

definition same_links :: "wid \<Rightarrow> runtime \<Rightarrow> runtime \<Rightarrow> bool" where
  "same_links c s s' \<longleftrightarrow>
     ObserversAtWork s' = ObserversAtWork s \<and>
     map_option (\<lambda>x. (deps x, father x)) (heap s' c) = map_option (\<lambda>x. (deps x, father x)) (heap s c)"

lemma same_links_trans: "same_links c s s1 \<Longrightarrow> same_links c s1 s2 \<Longrightarrow> same_links c s s2"
  by (simp add: same_links_def)

lemma same_links_upd:
  assumes "upd v f s = Some s'" "\<And>x. deps (f x) = deps x \<and> father (f x) = father x"
  shows "same_links c s s'"
proof -
  obtain x where "heap s v = Some x" "s' = s\<lparr>heap := (heap s)(v \<mapsto> f x)\<rparr>"
    using assms(1) by (auto simp: upd_eq_Some)
  then show ?thesis using assms(2) by (simp add: same_links_def)
qed

lemma same_links_post:
  assumes "post v s = Some s'"
  shows "same_links c s s'"
proof -
  obtain s1 t where s1: "upd v (\<lambda>x. x\<lparr>status := Ready\<rparr>) s = Some s1" "s' = s1\<lparr>tqueue := tqueue s1 @ [t]\<rparr>"
    using assms by (auto simp: post_def bind_eq_Some_conv)
  have "same_links c s s1" by (rule same_links_upd [OF s1(1)]) simp
  then show ?thesis by (simp add: same_links_def s1(2))
qed

lemma same_linksD:
  assumes "same_links c s s'" "heap s c = Some x"
  obtains y where "heap s' c = Some y" "deps y = deps x" "father y = father x"
  using assms by (auto simp: same_links_def)

lemma release_run:
  assumes "release_deps ds s = Some s'" "heap s c = Some x" "deps x = pre @ ds"
  shows "fin_moves this (at_fin this (Releasing c (length pre)) s S) (at_fin this (Freeing c) s' S) \<and>
         same_links c s s'"
  using assms
proof (induction ds arbitrary: s x pre)
  case Nil
  then show ?case
    by (auto simp: fin_step_def release_next_def same_links_def intro!: fin_moves_step [OF _ fin_moves_refl])
next
  case (Cons d ds)
  obtain y s1 s2 where a: "heap s d = Some y"
    "upd d (\<lambda>x. x\<lparr>ndependencies := ndependencies x - 1\<rparr>) s = Some s1"
    "(if ndependencies y = 1 then post d s1 else Some s1) = Some s2" "release_deps ds s2 = Some s'"
    using Cons.prems(1) by (auto simp: bind_eq_Some_conv)
  have l1: "same_links c s s1" by (rule same_links_upd [OF a(2)]) simp
  have l2: "same_links c s1 s2" using a(3) same_links_post by (auto simp: same_links_def split: if_splits)
  obtain x1 where x1: "heap s1 c = Some x1" "deps x1 = deps x" by (rule same_linksD [OF l1 Cons.prems(2)])
  obtain x2 where x2: "heap s2 c = Some x2" "deps x2 = (pre @ [d]) @ ds"
    by (rule same_linksD [OF l2 x1(1)]) (simp add: x1(2) Cons.prems(3))
  note ih = Cons.IH [OF a(4) x2]
  have k: "length pre < length (deps x)" "deps x ! length pre = d" using Cons.prems(3) by simp_all
  have "fin_moves this (at_fin this (Releasing c (length pre)) s S)
      (at_fin this (Releasing c (length (pre @ [d]))) s2 S)"
  proof (cases "ndependencies y = 1")
    case True
    then have "fin_step this (at_fin this (Releasing c (length pre)) s S) =
        Some (at_fin this (Posting c (length pre)) s1 S)"
      using a(1,2) Cons.prems(2) k by (simp add: fin_step_def release_next_def)
    moreover have "fin_step this (at_fin this (Posting c (length pre)) s1 S) =
        Some (at_fin this (Releasing c (length (pre @ [d]))) s2 S)"
      using a(3) True x1 k by (simp add: fin_step_def post_next_def)
    ultimately show ?thesis by (blast intro: fin_moves_step fin_moves_refl)
  next
    case False
    then show ?thesis
      using a(1-3) Cons.prems(2) k
      by (intro fin_moves_step [OF _ fin_moves_refl]) (simp add: fin_step_def release_next_def)
  qed
  then show ?case
    using ih fin_moves_trans same_links_trans [OF same_links_trans [OF l1 l2]] by blast
qed

lemma finish_step_run:
  assumes "finish_step this c False s = Some (p, e, hint, s')" "ObserversAtWork s \<noteq> 0"
  shows "fin_moves this (at_fin this (Marking c) s S)
           (at_fin this (case p of None \<Rightarrow> Returned | Some f \<Rightarrow> Climbing f) s' S) \<and>
         \<not> e \<and> ObserversAtWork s' \<noteq> 0"
proof -
  obtain s1 x s3 s4 where a: "upd c (\<lambda>x. x\<lparr>status := Done\<rparr>) s = Some s1"
    "wait_fillers this (worklist s1) s1 = Some ()" "heap s1 c = Some x" "release_deps (deps x) s1 = Some s3"
    "upd c (\<lambda>x. x\<lparr>deps := [], args := [], status := Deallocatable\<rparr>) s3 = Some s4"
    "p = father x" "\<not> e" "s' = s4"
    using assms by (auto simp: finish_step_def try_eraser_def Let_def bind_eq_Some_conv upd_eq_Some)
  note rel = release_run [OF a(4,3), of "[]" this S, simplified]
  obtain x3 where x3: "heap s3 c = Some x3" "father x3 = p"
    using same_linksD [OF conjunct2 [OF rel] a(3)] a(6) by metis
  let ?m = "s3\<lparr>heap := (heap s3)(c \<mapsto> x3\<lparr>deps := [], args := []\<rparr>)\<rparr>"
  have s4: "s4 = ?m\<lparr>heap := (heap ?m)(c \<mapsto> x3\<lparr>deps := [], args := [], status := Deallocatable\<rparr>)\<rparr>"
    using a(5) x3(1) by (simp add: upd_def)
  have 1: "fin_step this (at_fin this (Marking c) s S) = Some (at_fin this (Loading c) s1 S)"
    using a(1) by (simp add: fin_step_def)
  have 2: "fin_step this (at_fin this (Loading c) s1 S) = Some (at_fin this (Walking c (worklist s1)) s1 S)"
    by (simp add: fin_step_def)
  have 3: "fin_step this (at_fin this (Freeing c) s3 S) = Some (at_fin this (Retiring c) ?m S)"
    using x3(1) by (simp add: fin_step_def upd_def)
  have 4: "fin_step this (at_fin this (Retiring c) ?m S) =
      Some (at_fin this (case p of None \<Rightarrow> Returned | Some f \<Rightarrow> Climbing f) s4 S)"
    using x3(2) s4 by (simp add: fin_step_def retire_def upd_def)
  have "ObserversAtWork s' \<noteq> 0"
    using assms(2) rel a(1,8) s4 by (auto simp: same_links_def upd_eq_Some)
  then show ?thesis
    using fin_moves_step [OF 1 fin_moves_step [OF 2 fin_moves_trans [OF walk_run [OF a(2)] fin_moves_trans
        [OF conjunct1 [OF rel] fin_moves_step [OF 3 fin_moves_step [OF 4 fin_moves_refl]]]]]] a(7,8)
    by blast
qed

lemma finish_loop_run:
  assumes "finish_loop this c False s = Some y" "ObserversAtWork s \<noteq> 0"
  shows "fin_moves this (at_fin this (Marking c) s S) (at_fin this Returned (snd (snd y)) S) \<and> \<not> fst y"
proof -
  let ?P = "\<lambda>this c e s y. \<not> e \<longrightarrow> ObserversAtWork s \<noteq> 0 \<longrightarrow>
    fin_moves this (at_fin this (Marking c) s S) (at_fin this Returned (snd (snd y)) S) \<and> \<not> fst y"
  have "?P this c False s y"
  proof (rule finish_loop.raw_induct [where P = ?P, OF _ assms(1)])
    fix R this c e s y
    assume IH: "\<And>this c e s y. R this c e s = Some y \<Longrightarrow> ?P this c e s y"
      and b: "do {
         (p, erase', hint, s1) \<leftarrow> finish_step this c e s;
         (case p of
            None \<Rightarrow> Some (erase', hint, s1)
          | Some f \<Rightarrow>
              do {
                y \<leftarrow> heap s1 f;
                s2 \<leftarrow> upd f (\<lambda>x. x\<lparr>nchildren := nchildren x - 1\<rparr>) s1;
                if nchildren y = 1 then R this f erase' s2 else Some (erase', hint, s2)
              })
       } = Some y"
    show "?P this c e s y"
    proof (intro impI)
      assume e: "\<not> e" and ob: "ObserversAtWork s \<noteq> 0"
      obtain p e' hint s1 where f: "finish_step this c False s = Some (p, e', hint, s1)"
        using b e by (auto simp: bind_eq_Some_conv)
      note st = finish_step_run [OF f ob, of S]
      show "fin_moves this (at_fin this (Marking c) s S) (at_fin this Returned (snd (snd y)) S) \<and> \<not> fst y"
      proof (cases p)
        case None
        then show ?thesis using st b f e by auto
      next
        case (Some f')
        obtain z s2 where z: "heap s1 f' = Some z" "upd f' (\<lambda>x. x\<lparr>nchildren := nchildren x - 1\<rparr>) s1 = Some s2"
          "(if nchildren z = 1 then R this f' e' s2 else Some (e', hint, s2)) = Some y"
          using b f e Some by (auto simp: bind_eq_Some_conv)
        have ob2: "ObserversAtWork s2 \<noteq> 0" using st z(2) by (auto simp: upd_eq_Some)
        have 1: "fin_step this (at_fin this (Climbing f') s1 S) =
            Some (at_fin this (if nchildren z = 1 then Marking f' else Returned) s2 S)"
          using z(1,2) by (simp add: fin_step_def count_child_def)
        show ?thesis
        proof (cases "nchildren z = 1")
          case True
          then have "R this f' e' s2 = Some y" using z(3) by simp
          from IH [OF this] have "fin_moves this (at_fin this (Marking f') s2 S) (at_fin this Returned (snd (snd y)) S) \<and> \<not> fst y"
            using st ob2 by blast
          then show ?thesis
            using st Some True fin_moves_trans fin_moves_step [OF 1] by simp blast
        next
          case False
          then have "y = (e', hint, s2)" using z(3) by simp
          then show ?thesis
            using st Some False fin_moves_trans fin_moves_step [OF 1 fin_moves_refl] by auto
        qed
      qed
    qed
  qed
  then show ?thesis using assms(2) by simp
qed

lemma completion_uninterrupted:
  assumes "finish_execution w (rt S) = Some r" "ObserversAtWork (rt S) \<noteq> 0"
  shows "\<exists>pc r0. count_child w (rt S) = Some (pc, r0) \<and>
           fin_moves w (at_fin w pc r0 S) (at_fin w Returned r S)"
proof -
  obtain x s1 where a: "heap (rt S) w = Some x"
    "upd w (\<lambda>x. x\<lparr>nchildren := nchildren x - 1\<rparr>) (rt S) = Some s1"
    "(if nchildren x \<noteq> 1 then Some s1
      else do {
        (erase, hint, s2) \<leftarrow> finish_loop w w False s1;
        if erase then Clean_worklist hint s2 else Some s2
      }) = Some r"
    using assms(1) by (auto simp: finish_execution_def bind_eq_Some_conv)
  have c: "count_child w (rt S) = Some (if nchildren x = 1 then Marking w else Returned, s1)"
    using a(1,2) by (simp add: count_child_def)
  have ob: "ObserversAtWork s1 \<noteq> 0" using assms(2) a(2) by (auto simp: upd_eq_Some)
  show ?thesis
  proof (cases "nchildren x = 1")
    case True
    then obtain e h s2 where y: "finish_loop w w False s1 = Some (e, h, s2)"
      "(if e then Clean_worklist h s2 else Some s2) = Some r"
      using a(3) by (auto simp: bind_eq_Some_conv)
    note l = finish_loop_run [OF y(1) ob, of S]
    then have "s2 = r" using y(2) by simp
    then show ?thesis using c True l by auto
  next
    case False
    then have "s1 = r" using a(3) by simp
    then show ?thesis using c False by auto
  qed
qed

section \<open>Property\<close>

text \<open>
  C9: A thread that is not interrupted by others does access by access what the operation does as a
  whole: the insertion of a task ends in the state of \<open>insert_in_worklist\<close>, and after the count of
  the children the completion ends in the state of \<open>finish_execution\<close>, when nobody erases.
\<close>

theorem uninterrupted_threads:
  assumes "ins S w = Entering t" "insert_in_worklist w t (rt S) = Some (b, r)"
    and "finish_execution v (rt S') = Some r'" "ObserversAtWork (rt S') \<noteq> 0"
  shows "ins_moves w S (at_ins w (Inside b) r S) \<and>
         (\<exists>pc r0. count_child v (rt S') = Some (pc, r0) \<and>
            fin_moves v (at_fin v pc r0 S') (at_fin v Returned r' S'))"
  using insertion_uninterrupted [OF assms(2,1)] completion_uninterrupted [OF assms(3,4)] by blast

definition entering :: hs where
  "entering = the (happens True 1 [Spawn 0 [region 1000 8 True] None] idle_hs)"

definition running :: hs where
  "running = the (happens True 1 ([Spawn 0 [region 1000 8 True] None] @ replicate 4 (Insert 0) @ [Start]) idle_hs)"

lemma uninterrupted_threads_witness:
  "\<exists>b r r' pc r0. ins_moves 0 entering (at_ins 0 (Inside b) r entering) \<and>
     count_child 0 (rt running) = Some (pc, r0) \<and>
     fin_moves 0 (at_fin 0 pc r0 running) (at_fin 0 Returned r' running)"
proof -
  have 1: "ins entering 0 = Entering \<lparr>func = 0, ctx = Some 0\<rparr>" by code_simp
  have "insert_in_worklist 0 \<lparr>func = 0, ctx = Some 0\<rparr> (rt entering) \<noteq> None \<longleftrightarrow> True"
    by code_simp
  then obtain b r where 2: "insert_in_worklist 0 \<lparr>func = 0, ctx = Some 0\<rparr> (rt entering) = Some (b, r)" by auto
  have "finish_execution 0 (rt running) \<noteq> None \<longleftrightarrow> True" by code_simp
  then obtain r' where 3: "finish_execution 0 (rt running) = Some r'" by auto
  have 4: "ObserversAtWork (rt running) \<noteq> 0 \<longleftrightarrow> True" by code_simp
  show ?thesis
    using uninterrupted_threads [OF 1 2 3] 4 by blast
qed

end
