(* ===== verification/HandshakeOrder.thy ===== *)
theory HandshakeOrder
  imports HandshakeRuns
begin

text \<open>
  Why the interleaved protocol is safe as long as no subtask finishes its father: the positions of the
  threads in the list, what the flags of a task promise about the older ones, and who may still be
  linked to a task that is completed.
\<close>

declare not_None_eq [simp del]

section \<open>Updates of one task\<close>

definition put :: "wid \<Rightarrow> (workitem \<Rightarrow> workitem) \<Rightarrow> runtime \<Rightarrow> runtime" where
  "put w f s = s\<lparr>heap := (heap s)(w \<mapsto> f (item s w))\<rparr>"

lemma upd_put: "upd w f s = Some s' \<longleftrightarrow> heap s w \<noteq> None \<and> s' = put w f s"
  by (auto simp: upd_eq_Some put_def)

lemma put_simps [simp]:
  "worklist (put w f s) = worklist s" "tqueue (put w f s) = tqueue s"
  "heap (put w f s) v = (if v = w then Some (f (item s w)) else heap s v)"
  by (simp_all add: put_def)

lemma item_put: "item (put w f s) v = (if v = w then f (item s w) else item s v)"
  by (simp add: put_def)

lemma next_of_put:
  assumes "heap s w \<noteq> None" "nxt (f (item s w)) = nxt (item s w)"
  shows "next_of (put w f s) = next_of s"
  using assms by (auto simp: next_of_def fun_eq_iff)

lemma heap_item: "heap s v = Some x \<Longrightarrow> item s v = x"
  by simp

lemma flag_bits [simp]:
  fixes f :: "16 word"
  shows "(f OR PendingFills) AND PendingFills \<noteq> 0" "(f OR PendingFills) AND FatherScape = f AND FatherScape"
    "(f OR FatherScape) AND FatherScape \<noteq> 0" "(f OR FatherScape) AND PendingFills = f AND PendingFills"
proof -
  have z: "PendingFills AND FatherScape = 0" "FatherScape AND PendingFills = 0"
    by (simp_all add: PendingFills_def FatherScape_def)
  show "(f OR PendingFills) AND FatherScape = f AND FatherScape"
    "(f OR FatherScape) AND PendingFills = f AND PendingFills"
    by (simp_all add: bit.conj_disj_distrib2 z)
  have "(f OR PendingFills) AND PendingFills = PendingFills" "(f OR FatherScape) AND FatherScape = FatherScape"
    by (simp_all add: bit.conj_disj_distrib2 and.commute)
  then show "(f OR PendingFills) AND PendingFills \<noteq> 0" "(f OR FatherScape) AND FatherScape \<noteq> 0"
    by (simp_all add: PendingFills_def FatherScape_def)
qed

lemma flags_nonzero [simp]: "PendingFills \<noteq> 0" "FatherScape \<noteq> 0"
  by (simp_all add: PendingFills_def FatherScape_def)

definition pending :: "workitem \<Rightarrow> bool" where
  "pending x \<longleftrightarrow> optFlags x AND PendingFills \<noteq> 0"

definition escaped :: "workitem \<Rightarrow> bool" where
  "escaped x \<longleftrightarrow> optFlags x AND FatherScape \<noteq> 0"

section \<open>Positions in the list\<close>

definition behind :: "wid list \<Rightarrow> wid \<Rightarrow> wid set" where
  "behind ps p = {q. before ps p q}"

definition from_ptr :: "wid list \<Rightarrow> wid option \<Rightarrow> wid set" where
  "from_ptr ps p = (case p of None \<Rightarrow> {} | Some q \<Rightarrow> insert q (behind ps q))"

lemma from_ptr_simps [simp]: "from_ptr ps None = {}" "from_ptr ps (Some q) = insert q (behind ps q)"
  by (simp_all add: from_ptr_def)

lemma behind_push: "w \<notin> set ps \<Longrightarrow> behind (w # ps) v = (if v = w then set ps else behind ps v)"
  by (auto simp: behind_def before_Cons dest: before_in_set)

lemma behind_set: "behind ps p \<subseteq> set ps"
  by (auto simp: behind_def dest: before_in_set)

lemma behind_outside: "p \<notin> set ps \<Longrightarrow> behind ps p = {}"
  by (auto simp: behind_def dest: before_in_set)

lemma behind_irrefl: "distinct ps \<Longrightarrow> p \<notin> behind ps p"
  by (simp add: behind_def before_irrefl)

lemma behind_trans: "distinct ps \<Longrightarrow> q \<in> behind ps p \<Longrightarrow> behind ps q \<subseteq> behind ps p"
  by (auto simp: behind_def intro: before_trans)

lemma behind_asym: "distinct ps \<Longrightarrow> q \<in> behind ps p \<Longrightarrow> p \<notin> behind ps q"
  by (simp add: behind_def before_asym)

lemma behind_total: "p \<in> set ps \<Longrightarrow> q \<in> set ps \<Longrightarrow> p \<noteq> q \<Longrightarrow> p \<in> behind ps q \<or> q \<in> behind ps p"
  using before_total [of p ps q] by (auto simp: behind_def)

lemma from_ptr_next:
  assumes "chain nx r ps None" "p \<in> set ps" "nx p = Some n"
  shows "from_ptr ps n = behind ps p"
proof -
  obtain us vs where ps: "ps = us @ p # vs" using assms(2) by (auto dest: split_list)
  have d: "distinct ps" by (rule chain_null_distinct [OF assms(1)])
  have c: "chain nx n vs None" using assms(1,3) by (auto simp: ps chain_simps)
  have b: "behind ps p = set vs" using before_split [of us p vs] d by (auto simp: behind_def ps)
  show ?thesis
  proof (cases vs)
    case Nil
    then show ?thesis using c b by simp
  next
    case (Cons q ws)
    have "behind ps q = set ws"
      using before_split [of "us @ [p]" q ws] d by (auto simp: behind_def ps Cons)
    then show ?thesis using c b Cons by simp
  qed
qed

lemma from_ptr_head:
  assumes "chain nx r ps None"
  shows "from_ptr ps r = set ps"
proof (cases ps)
  case (Cons q ws)
  have "behind ps q = set ws"
    using before_split [of "[]" q ws] chain_null_distinct [OF assms] by (auto simp: behind_def Cons)
  then show ?thesis using assms Cons by simp
qed (use assms in simp)

section \<open>A thread that inserts\<close>

fun entered :: "ins_pc \<Rightarrow> bool" where
  "entered Outside = False"
| "entered (Entering _) = False"
| "entered _ = True"

fun rest :: "wid list \<Rightarrow> ins_pc \<Rightarrow> wid set" where
  "rest ps (Visiting p _) = from_ptr ps p"
| "rest ps (Comparing p _) = from_ptr ps (Some p)"
| "rest ps (Linking p _) = from_ptr ps (Some p)"
| "rest ps (Flagging p _) = from_ptr ps (Some p)"
| "rest ps _ = {}"

fun locals_of :: "ins_pc \<Rightarrow> locals option" where
  "locals_of (Visiting _ l) = Some l"
| "locals_of (Comparing _ l) = Some l"
| "locals_of (Linking _ l) = Some l"
| "locals_of (Flagging _ l) = Some l"
| "locals_of _ = None"

fun past_loop :: "ins_pc \<Rightarrow> bool" where
  "past_loop (Deciding _) = True"
| "past_loop (Launching _) = True"
| "past_loop (Parking _) = True"
| "past_loop (Inside _) = True"
| "past_loop _ = False"

text \<open>In the loop: the tasks passed so far that are being filled in have left their mark.\<close>

definition loop_ok :: "wid list \<Rightarrow> runtime \<Rightarrow> wid \<Rightarrow> wid set \<Rightarrow> locals \<Rightarrow> bool" where
  "loop_ok ps s v R l \<longleftrightarrow>
     R \<subseteq> behind ps v \<and> \<not> escaped (item s v) \<and>
     (\<forall>q \<in> behind ps v - R. status (item s q) = Filling \<longrightarrow> pending (item s v)) \<and>
     (\<forall>a. ancestor l = Some a \<longrightarrow> heap s a \<noteq> None \<and> status (item s a) \<noteq> Filling) \<and>
     (ancestor l = father (item s v) \<or> (\<exists>f. father (item s v) = Some f \<and> f \<in> behind ps v - R))"

text \<open>
  After the loop: without the mark \<open>PendingFills\<close> no older task is being filled in, or, if the task
  escaped to its father, none between the two.
\<close>

definition flags_ok :: "wid list \<Rightarrow> runtime \<Rightarrow> wid \<Rightarrow> bool" where
  "flags_ok ps s v \<longleftrightarrow>
     (escaped (item s v) \<longrightarrow> (\<exists>f. father (item s v) = Some f \<and> f \<in> behind ps v)) \<and>
     (\<not> pending (item s v) \<longrightarrow>
        (\<forall>q \<in> behind ps v. status (item s q) = Filling \<longrightarrow>
           escaped (item s v) \<and> (\<forall>f. father (item s v) = Some f \<longrightarrow> q \<in> behind ps f)))"

definition ins_ok :: "wid list \<Rightarrow> runtime \<Rightarrow> wid \<Rightarrow> ins_pc \<Rightarrow> bool" where
  "ins_ok ps s v pc \<longleftrightarrow>
     (pc = Outside \<longleftrightarrow> heap s v = None) \<and> (entered pc \<longleftrightarrow> v \<in> set ps) \<and>
     (\<forall>l. locals_of pc = Some l \<longrightarrow> loop_ok ps s v (rest ps pc) l) \<and>
     (past_loop pc \<longrightarrow> flags_ok ps s v) \<and>
     (\<forall>t. pc = Entering t \<longrightarrow> optFlags (item s v) = 0) \<and>
     (\<forall>b. pc = Inside b \<longrightarrow> status (item s v) \<noteq> Filling) \<and>
     (\<forall>f. heap s v \<noteq> None \<longrightarrow> father (item s v) = Some f \<longrightarrow> heap s f \<noteq> None \<and> status (item s f) \<noteq> Filling) \<and>
     (\<forall>c. heap s c \<noteq> None \<longrightarrow> v \<in> set (deps (item s c)) \<longrightarrow>
        c \<in> behind ps v \<and> (c \<in> rest ps pc \<longrightarrow> (\<exists>l. pc = Flagging c l)))"

definition order_ok :: "wid list \<Rightarrow> hs \<Rightarrow> bool" where
  "order_ok ps S \<longleftrightarrow>
     chain (next_of (rt S)) (worklist (rt S)) ps None \<and>
     (\<forall>v. ins_ok ps (rt S) v (ins S v)) \<and>
     (\<forall>c. heap (rt S) c \<noteq> None \<longrightarrow> distinct (deps (item (rt S) c)))"

section \<open>Steps that leave the order alone\<close>

text \<open>The tasks of \<open>W\<close> may change their flags and be linked to others.\<close>

definition steady :: "wid set \<Rightarrow> runtime \<Rightarrow> runtime \<Rightarrow> bool" where
  "steady W s s' \<longleftrightarrow>
     (\<forall>u. heap s' u = None \<longleftrightarrow> heap s u = None) \<and>
     (\<forall>u. father (item s' u) = father (item s u)) \<and>
     (\<forall>u. u \<notin> W \<longrightarrow> optFlags (item s' u) = optFlags (item s u)) \<and>
     (\<forall>u. status (item s' u) = Filling \<longrightarrow> status (item s u) = Filling) \<and>
     (\<forall>c v. v \<notin> W \<longrightarrow> v \<in> set (deps (item s' c)) \<longrightarrow> v \<in> set (deps (item s c)))"

lemma steady_refl [simp]: "steady W s s"
  by (simp add: steady_def)

lemma steadyD:
  assumes "steady W s s'"
  shows "heap s' u = None \<longleftrightarrow> heap s u = None" "father (item s' u) = father (item s u)"
    "u \<notin> W \<Longrightarrow> optFlags (item s' u) = optFlags (item s u)"
    "status (item s' u) = Filling \<Longrightarrow> status (item s u) = Filling"
    "v \<notin> W \<Longrightarrow> v \<in> set (deps (item s' c)) \<Longrightarrow> v \<in> set (deps (item s c))"
  using assms unfolding steady_def by blast+

lemma steady_put:
  assumes "heap s u \<noteq> None" "father (f (item s u)) = father (item s u)"
    and "u \<in> W \<or> optFlags (f (item s u)) = optFlags (item s u)"
    and "status (f (item s u)) = Filling \<Longrightarrow> status (item s u) = Filling"
    and "\<And>v. v \<in> set (deps (f (item s u))) \<Longrightarrow> v \<notin> W \<Longrightarrow> v \<in> set (deps (item s u))"
  shows "steady W s (put u f s)"
  using assms by (auto simp: steady_def item_put)

lemma steady_queue: "steady W s s' \<Longrightarrow> steady W s (s'\<lparr>tqueue := q\<rparr>)"
  by (simp add: steady_def)

lemma post_put:
  assumes "post w s = Some s'"
  obtains t where "heap s w \<noteq> None" "task (item s w) = Some t"
    "s' = (put w (\<lambda>x. x\<lparr>status := Ready\<rparr>) s)\<lparr>tqueue := tqueue s @ [t]\<rparr>"
  using assms by (auto simp: post_def bind_eq_Some_conv upd_put)

lemma ins_okD:
  assumes "ins_ok ps s v pc"
  shows "pc = Outside \<longleftrightarrow> heap s v = None" "entered pc \<longleftrightarrow> v \<in> set ps"
    "locals_of pc = Some l \<Longrightarrow> loop_ok ps s v (rest ps pc) l" "past_loop pc \<Longrightarrow> flags_ok ps s v"
    "pc = Entering t \<Longrightarrow> optFlags (item s v) = 0" "pc = Inside b \<Longrightarrow> status (item s v) \<noteq> Filling"
    "heap s v \<noteq> None \<Longrightarrow> father (item s v) = Some f \<Longrightarrow> heap s f \<noteq> None \<and> status (item s f) \<noteq> Filling"
    "heap s c \<noteq> None \<Longrightarrow> v \<in> set (deps (item s c)) \<Longrightarrow>
       c \<in> behind ps v \<and> (c \<in> rest ps pc \<longrightarrow> (\<exists>l. pc = Flagging c l))"
  using assms by (simp_all add: ins_ok_def)

lemma ins_ok_frame:
  assumes "ins_ok ps s v pc" "heap s' v = None \<longleftrightarrow> heap s v = None" "\<And>u. heap s u \<noteq> None \<Longrightarrow> heap s' u \<noteq> None"
    and "heap s v \<noteq> None \<Longrightarrow> father (item s' v) = father (item s v)"
    and "heap s v \<noteq> None \<Longrightarrow> optFlags (item s' v) = optFlags (item s v)"
    and "\<And>u. u \<in> set ps \<or> heap s u \<noteq> None \<Longrightarrow> status (item s' u) = Filling \<Longrightarrow> status (item s u) = Filling"
    and "\<And>c. heap s' c \<noteq> None \<Longrightarrow> v \<in> set (deps (item s' c)) \<Longrightarrow> heap s c \<noteq> None \<and> v \<in> set (deps (item s c))"
  shows "ins_ok ps s' v pc"
proof (cases "heap s v = None")
  case True
  then have "pc = Outside" using assms(1) by (simp add: ins_ok_def)
  then show ?thesis using assms(1,2,7) True by (simp add: ins_ok_def)
next
  case False
  note f = assms(4,5) [OF False]
  have e: "escaped (item s' v) = escaped (item s v)" "pending (item s' v) = pending (item s v)"
    by (simp_all add: escaped_def pending_def f)
  have b: "q \<in> set ps" if "q \<in> behind ps v" for q using that behind_set by blast
  have l: "loop_ok ps s' v R l" if "loop_ok ps s v R l" for R l
    using that assms(3,6) b unfolding loop_ok_def e f by blast
  have g: "flags_ok ps s' v" if "flags_ok ps s v"
    using that assms(6) b unfolding flags_ok_def e f by blast
  note i = ins_okD [OF assms(1)]
  have fa: "heap s' f \<noteq> None \<and> status (item s' f) \<noteq> Filling" if "father (item s v) = Some f" for f
    using i(7) [OF False that] assms(3,6) by blast
  have in_: "status (item s' v) \<noteq> Filling" if "pc = Inside b" for b
    using i(6) [OF that] False assms(6) by blast
  have dp: "c \<in> behind ps v \<and> (c \<in> rest ps pc \<longrightarrow> (\<exists>l. pc = Flagging c l))"
    if "heap s' c \<noteq> None" "v \<in> set (deps (item s' c))" for c
    using i(8) assms(7) [OF that] by blast
  show ?thesis
    unfolding ins_ok_def f assms(2)
  proof (intro conjI allI impI)
    fix l assume "locals_of pc = Some l"
    then show "loop_ok ps s' v (rest ps pc) l" by (rule l [OF i(3)])
  next
    assume "past_loop pc"
    then show "flags_ok ps s' v" by (rule g [OF i(4)])
  qed (use i(1,2,5) fa in_ dp in simp_all)
qed

lemma ins_ok_steady:
  assumes "ins_ok ps s v pc" "steady W s s'" "v \<notin> W"
  shows "ins_ok ps s' v pc"
proof (rule ins_ok_frame [OF assms(1)])
  note k = steadyD [OF assms(2)]
  show "heap s' c \<noteq> None \<Longrightarrow> v \<in> set (deps (item s' c)) \<Longrightarrow> heap s c \<noteq> None \<and> v \<in> set (deps (item s c))" for c
    using k(1) [of c] k(5) [of v c] assms(3) by (simp del: not_None_eq)
qed (simp_all add: steadyD [OF assms(2)] assms(3))

lemma order_fin:
  assumes "order_ok ps S" "steady {} (rt S) r" "next_of r = next_of (rt S)" "worklist r = worklist (rt S)"
    and "\<And>c. heap (rt S) c \<noteq> None \<Longrightarrow> distinct (deps (item (rt S) c)) \<Longrightarrow> distinct (deps (item r c))"
    and "rt S' = r" "ins S' = ins S"
  shows "order_ok ps S'"
proof -
  have "\<And>c. heap r c \<noteq> None \<Longrightarrow> heap (rt S) c \<noteq> None" by (simp add: steadyD(1) [OF assms(2)])
  then show ?thesis
    using assms ins_ok_steady [OF _ assms(2)] by (simp add: order_ok_def)
qed

lemma order_ins:
  assumes "order_ok ps S" "steady {w} (rt S) r" "next_of r = next_of (rt S)" "worklist r = worklist (rt S)"
    and "\<And>c. heap (rt S) c \<noteq> None \<Longrightarrow> distinct (deps (item (rt S) c)) \<Longrightarrow> distinct (deps (item r c))"
    and "ins_ok ps r w pc"
  shows "order_ok ps (at_ins w pc r S)"
proof -
  have "\<And>c. heap r c \<noteq> None \<Longrightarrow> heap (rt S) c \<noteq> None" by (simp add: steadyD(1) [OF assms(2)])
  then show ?thesis
    using assms ins_ok_steady [OF _ assms(2)] by (simp add: order_ok_def at_ins_def)
qed

section \<open>Insertion keeps the order\<close>

lemma order_simps:
  assumes "order_ok ps S"
  shows "chain (next_of (rt S)) (worklist (rt S)) ps None" "distinct ps" "ins_ok ps (rt S) v (ins S v)"
  using assms chain_null_distinct unfolding order_ok_def by blast+

text \<open>How a thread moves on from the node \<open>p\<close>: what becomes true of the tasks it has passed.\<close>

lemma loop_ok_next:
  assumes "loop_ok ps s v (insert p (behind ps p)) l" "distinct ps"
    and "status (item s' p) = Filling \<Longrightarrow> pending (item s' v)"
    and "father (item s' v) = father (item s v)" "\<not> escaped (item s' v)"
    and "pending (item s v) \<Longrightarrow> pending (item s' v)"
    and "\<And>u. status (item s' u) = Filling \<Longrightarrow> status (item s u) = Filling"
    and "\<And>u. heap s u \<noteq> None \<Longrightarrow> heap s' u \<noteq> None"
    and "ancestor l' = ancestor l \<and> p \<notin> {a. ancestor l = Some a} \<or>
         ancestor l = Some p \<and> (\<forall>a. ancestor l' = Some a \<longrightarrow> heap s' a \<noteq> None \<and> status (item s' a) \<noteq> Filling)"
  shows "loop_ok ps s' v (behind ps p) l'"
proof -
  have p: "p \<in> behind ps v" "p \<notin> behind ps p"
    using assms(1) behind_irrefl [OF assms(2)] by (auto simp: loop_ok_def)
  have fill: "pending (item s' v)" if "q \<in> behind ps v - behind ps p" "status (item s' q) = Filling" for q
  proof (cases "q = p")
    case False
    then show ?thesis using that assms(1,6,7) unfolding loop_ok_def by blast
  qed (use that assms(3) in simp)
  have anc: "\<forall>a. ancestor l' = Some a \<longrightarrow> heap s' a \<noteq> None \<and> status (item s' a) \<noteq> Filling"
    using assms(1,7,8,9) unfolding loop_ok_def by metis
  have fa: "ancestor l' = father (item s' v) \<or>
      (\<exists>f. father (item s' v) = Some f \<and> f \<in> behind ps v - behind ps p)"
    using assms(1,4,9) p unfolding loop_ok_def by (metis Diff_iff insert_iff)
  show ?thesis
    using assms(1,5) fill anc fa unfolding loop_ok_def by blast
qed

lemma ins_okI:
  assumes "ins_ok ps s v pc" "steady {v} s s'"
    and "pc' \<noteq> Outside" "pc \<noteq> Outside" "entered pc'" "entered pc"
    and "\<And>l. locals_of pc' = Some l \<Longrightarrow> loop_ok ps s' v (rest ps pc') l"
    and "past_loop pc' \<Longrightarrow> flags_ok ps s' v"
    and "\<And>b. pc' = Inside b \<Longrightarrow> status (item s' v) \<noteq> Filling"
    and "\<And>c. heap s' c \<noteq> None \<Longrightarrow> v \<in> set (deps (item s' c)) \<Longrightarrow>
        c \<in> behind ps v \<and> (c \<in> rest ps pc' \<longrightarrow> (\<exists>l. pc' = Flagging c l))"
  shows "ins_ok ps s' v pc'"
proof -
  note k = steadyD [OF assms(2)]
  have "heap s' f \<noteq> None \<and> status (item s' f) \<noteq> Filling"
    if "heap s' v \<noteq> None" "father (item s' v) = Some f" for f
    using assms(1) that k(1) k(2) [of v] k(4) [of f] unfolding ins_ok_def by metis
  moreover have "pc' \<noteq> Entering t" for t using assms(5) by auto
  moreover have "heap s v \<noteq> None" "v \<in> set ps"
    using assms(1,4,6) by (simp_all add: ins_ok_def)
  ultimately show ?thesis
    unfolding ins_ok_def
    by (intro conjI allI impI) (use assms(3,5,7-10) k(1) in simp_all)
qed

lemma loop_ok_steady:
  assumes "loop_ok ps s v R l" "steady {v} s s'" "ancestor l' = ancestor l"
    and "\<not> escaped (item s' v)" "pending (item s v) \<Longrightarrow> pending (item s' v)"
  shows "loop_ok ps s' v R l'"
proof -
  note k = steadyD [OF assms(2)]
  show ?thesis
    using assms(1,3,4,5) k(1,4) k(2) [of v] unfolding loop_ok_def by metis
qed

lemma deps_of_self:
  assumes "ins_ok ps s v pc" "steady {} s s'" "heap s' c \<noteq> None" "v \<in> set (deps (item s' c))"
  shows "c \<in> behind ps v \<and> (c \<in> rest ps pc \<longrightarrow> (\<exists>l. pc = Flagging c l))"
  using assms(1,3,4) steadyD(1) [OF assms(2)] steadyD(5) [OF assms(2), of v c] unfolding ins_ok_def by simp

lemma next_rest:
  assumes "order_ok ps S" "heap (rt S) p = Some x" "p \<in> set ps"
  shows "from_ptr ps (nxt x) = behind ps p"
  by (rule from_ptr_next [OF order_simps(1) [OF assms(1)] assms(3)]) (simp add: next_of_def assms(2))

text \<open>A new node at the head.\<close>

lemma behind_push_mono: "behind ps v \<subseteq> behind (w # ps) v"
  by (auto simp: behind_def before_Cons)

lemma rest_push:
  assumes "w \<notin> set ps" "rest ps pc \<subseteq> set ps"
  shows "rest (w # ps) pc = rest ps pc"
proof -
  have f: "from_ptr (w # ps) p = from_ptr ps p" if "from_ptr ps p \<subseteq> set ps" for p
    using that assms(1) by (cases p) (auto simp: behind_push split: if_splits)
  show ?thesis
    using assms(2) f by (cases pc) (simp_all del: from_ptr_simps)
qed

lemma ins_ok_push_other:
  assumes "ins_ok ps s v pc" "w \<notin> set ps" "v \<noteq> w"
  shows "ins_ok (w # ps) s v pc"
proof -
  have b: "behind (w # ps) v = behind ps v" by (simp add: behind_push [OF assms(2)] assms(3))
  have r: "rest (w # ps) pc = rest ps pc"
  proof (cases "locals_of pc")
    case None
    then show ?thesis by (cases pc) simp_all
  next
    case (Some l)
    then have "rest ps pc \<subseteq> behind ps v" using assms(1) by (simp add: ins_ok_def loop_ok_def)
    then show ?thesis using rest_push [OF assms(2)] behind_set by blast
  qed
  have l: "loop_ok (w # ps) s v R l" if "loop_ok ps s v R l" for R l
    using that by (simp add: loop_ok_def b)
  have g: "flags_ok (w # ps) s v" if "flags_ok ps s v"
    using that behind_push_mono unfolding flags_ok_def b by blast
  show ?thesis
    using assms(1,3) l g unfolding ins_ok_def b r by simp
qed

lemma order_push:
  assumes "order_ok ps S" "ins S w = Entering t" "push_node w t (rt S) = Some (pc, r)"
  shows "order_ok (w # ps) (at_ins w pc r S)"
proof -
  let ?s = "rt S"
  note o = order_simps [OF assms(1)]
  have w: "w \<notin> set ps" "heap ?s w \<noteq> None" using o(3) [of w] by (simp_all add: ins_ok_def assms(2))
  let ?p = "put w (\<lambda>y. y\<lparr>task := Some t, nxt := worklist ?s\<rparr>) ?s"
  obtain l where r: "r = ?p\<lparr>worklist := Some w\<rparr>" "pc = Visiting (worklist ?s) l"
    "ancestor l = father (item ?s w)"
    using assms(3) by (auto simp: push_node_def Let_def bind_eq_Some_conv upd_put split: if_splits)
  have k: "steady {} ?s r"
  proof -
    have "steady {} ?s ?p" by (rule steady_put) (use w in simp_all)
    then show ?thesis by (simp add: steady_def r(1))
  qed
  have nx: "next_of r = (next_of ?s)(w := Some (worklist ?s))"
    by (auto simp: next_of_def r(1) fun_eq_iff)
  have wl: "worklist r = Some w" by (simp add: r(1))
  have ch: "chain (next_of r) (worklist r) (w # ps) None"
    unfolding nx wl using o(1) w(1) by (simp add: chain_upd)
  have others: "ins_ok (w # ps) r v (ins S v)" if "v \<noteq> w" for v
    by (rule ins_ok_steady [OF ins_ok_push_other [OF o(3) w(1) that] k]) simp
  have self: "ins_ok (w # ps) r w pc"
  proof -
    have fh: "from_ptr (w # ps) (worklist ?s) = set ps"
      using from_ptr_head [OF o(1)] rest_push [OF w(1), of "Visiting (worklist ?s) l"] by simp
    note i = o(3) [of w, unfolded ins_ok_def assms(2)]
    have it: "item r w = (item ?s w)\<lparr>task := Some t, nxt := worklist ?s\<rparr>" by (simp add: r(1) item_put)
    have "loop_ok (w # ps) r w (set ps) l"
      using i w(2) r(3) steadyD(1) [OF k] steadyD(4) [OF k]
      by (auto simp: loop_ok_def it behind_push [OF w(1)] escaped_def)
    moreover have "w \<notin> set (deps (item r c))" if "heap r c \<noteq> None" for c
      using i that behind_outside [OF w(1)] steadyD(1) [OF k] steadyD(5) [OF k, of w c] by auto
    moreover have "heap r f \<noteq> None \<and> status (item r f) \<noteq> Filling" if "father (item r w) = Some f" for f
      using i that w(2) steadyD(1) [OF k] steadyD(2) [OF k] steadyD(4) [OF k] by metis
    ultimately show ?thesis
      using w(2) steadyD(1) [OF k] by (simp add: ins_ok_def r(2) fh)
  qed
  have "distinct (deps (item r c))" if "heap r c \<noteq> None" for c
  proof -
    have "deps (item r c) = deps (item ?s c)" by (simp add: r(1) item_put)
    then show ?thesis using assms(1) that steadyD(1) [OF k] by (simp add: order_ok_def)
  qed
  then show ?thesis
    using ch others self by (simp add: order_ok_def at_ins_def)
qed

text \<open>The other accesses of an inserting thread.\<close>

lemma engaged_node:
  assumes "order_ok ps S" "locals_of (ins S w) = Some l" "rest ps (ins S w) = insert p (behind ps p)"
  shows "p \<in> behind ps w" "p \<in> set ps" "p \<noteq> w" "heap (rt S) w \<noteq> None" "entered (ins S w)" "w \<in> set ps"
    "loop_ok ps (rt S) w (insert p (behind ps p)) l"
proof -
  note i = ins_okD [OF order_simps(3) [OF assms(1), of w]]
  show l: "loop_ok ps (rt S) w (insert p (behind ps p)) l"
    using i(3) [OF assms(2)] by (simp add: assms(3))
  then show p: "p \<in> behind ps w" by (auto simp: loop_ok_def)
  then show "p \<in> set ps" using behind_set by blast
  show "p \<noteq> w" using p behind_irrefl [OF order_simps(2) [OF assms(1)]] by blast
  show e: "entered (ins S w)" using assms(2) by (cases "ins S w") simp_all
  then show "w \<in> set ps" using i(2) by simp
  show "heap (rt S) w \<noteq> None" using i(1) e by (cases "ins S w") auto
qed

text \<open>A thread whose node stays as it is, but for flags and counters.\<close>

lemma order_self:
  assumes "order_ok ps S" "r = put w f (rt S)" "heap (rt S) w \<noteq> None"
    and f: "\<And>x. father (f x) = father x \<and> deps (f x) = deps x \<and> nxt (f x) = nxt x \<and> (status (f x) = Filling \<longrightarrow> status x = Filling)"
    and "entered pc" "entered (ins S w)"
    and "\<And>l. locals_of pc = Some l \<Longrightarrow> loop_ok ps r w (rest ps pc) l"
    and "past_loop pc \<Longrightarrow> flags_ok ps r w"
    and "\<And>b. pc = Inside b \<Longrightarrow> status (item r w) \<noteq> Filling"
    and "\<And>c. c \<in> rest ps pc \<Longrightarrow> heap (rt S) c \<noteq> None \<Longrightarrow> w \<in> set (deps (item (rt S) c)) \<Longrightarrow> \<exists>l. pc = Flagging c l"
  shows "order_ok ps (at_ins w pc r S)"
proof (rule order_ins [OF assms(1)])
  show k: "steady {w} (rt S) r" unfolding assms(2) by (rule steady_put) (use assms(3) f in simp_all)
  show "next_of r = next_of (rt S)" unfolding assms(2) by (rule next_of_put) (use assms(3) f in simp_all)
  show "worklist r = worklist (rt S)" by (simp add: assms(2))
  have d: "deps (item r c) = deps (item (rt S) c)" for c using f by (simp add: assms(2) item_put)
  then show "distinct (deps (item (rt S) c)) \<Longrightarrow> distinct (deps (item r c))" for c by simp
  have h: "heap r c = None \<longleftrightarrow> heap (rt S) c = None" for c using steadyD(1) [OF k] .
  note i = order_simps(3) [OF assms(1), of w]
  show "ins_ok ps r w pc"
  proof (rule ins_okI [OF i k])
    show "pc \<noteq> Outside" "ins S w \<noteq> Outside" using assms(5,6) by auto
    fix c assume "heap r c \<noteq> None" "w \<in> set (deps (item r c))"
    then show "c \<in> behind ps w \<and> (c \<in> rest ps pc \<longrightarrow> (\<exists>l. pc = Flagging c l))"
      using ins_okD(8) [OF i] assms(10) h d by simp
  qed (use assms(5-9) in auto)
qed

lemma put_id: "heap s w \<noteq> None \<Longrightarrow> put w (\<lambda>x. x) s = s"
  by (auto simp: put_def fun_upd_idem)

lemma order_compare:
  assumes "order_ok ps S" "ins S w = Comparing p l" "compare_node w p l (rt S) = Some (pc, r)"
  shows "order_ok ps (at_ins w pc r S)"
proof -
  note e = engaged_node [OF assms(1), of w l p, unfolded assms(2), simplified]
  have l': "loop_ok ps r w (insert p (behind ps p)) (l\<lparr>n_args := n, argv := av\<rparr>)"
    if "steady {w} (rt S) r" "optFlags (item r w) = optFlags (item (rt S) w)" for n av
    by (rule loop_ok_steady [OF e(7) that(1)])
      (use e(7) in \<open>simp_all add: loop_ok_def escaped_def pending_def that(2)\<close>)
  have d: "\<exists>l. pc = Flagging c l"
    if "c \<in> insert p (behind ps p)" "heap (rt S) c \<noteq> None" "w \<in> set (deps (item (rt S) c))" for c
    using ins_okD(8) [OF order_simps(3) [OF assms(1), of w], of c] that assms(2) by auto
  from assms(3) show ?thesis
  proof (cases rule: compare_node_cases)
    case (found x n av)
    then have r: "r = put w (\<lambda>t. t\<lparr>ndependencies := ndependencies t + 1\<rparr>) (rt S)" by (simp add: upd_put)
    have k: "steady {w} (rt S) r" unfolding r by (rule steady_put) (use e in simp_all)
    show ?thesis
      by (rule order_self [OF assms(1) r]) (use e found l' [OF k] d assms(2) in \<open>auto simp: r item_put\<close>)
  next
    case (none x n av)
    show ?thesis
      by (rule order_self [OF assms(1), where f = "\<lambda>x. x"])
        (use e none l' d assms(2) put_id [OF e(4)] in auto)
  qed
qed

lemma order_flag:
  assumes "order_ok ps S" "ins S w = Flagging p l" "flag_fills w p l (rt S) = Some (pc, r)"
  shows "order_ok ps (at_ins w pc r S)"
proof -
  note e = engaged_node [OF assms(1), of w l p, unfolded assms(2), simplified]
  note d = order_simps(2) [OF assms(1)]
  have dp: "\<exists>l. pc = Flagging c l"
    if "c \<in> behind ps p" "heap (rt S) c \<noteq> None" "w \<in> set (deps (item (rt S) c))" for c
    using ins_okD(8) [OF order_simps(3) [OF assms(1), of w], of c] that assms(2) behind_irrefl [OF d] by auto
  from assms(3) show ?thesis
  proof (cases rule: flag_fills_cases)
    case (fill x l')
    then have r: "r = put w (\<lambda>t. t\<lparr>optFlags := optFlags t OR PendingFills\<rparr>) (rt S)" by (simp add: upd_put)
    note n = next_rest [OF assms(1) fill(1) e(2)]
    have "loop_ok ps r w (behind ps p) l'"
      by (rule loop_ok_next [OF e(7) d])
        (use e(7) fill(7) in \<open>auto simp: r item_put pending_def escaped_def loop_ok_def split: if_splits\<close>)
    then show ?thesis
      by (intro order_self [OF assms(1) r]) (use e fill dp assms(2) n in \<open>auto simp: r item_put\<close>)
  next
    case (none x l')
    note n = next_rest [OF assms(1) none(1) e(2)]
    have "loop_ok ps r w (behind ps p) l'"
      by (rule loop_ok_next [OF e(7) d]) (use e(7) none in \<open>auto simp: loop_ok_def\<close>)
    then show ?thesis
      by (intro order_self [OF assms(1), where f = "\<lambda>x. x"])
        (use e none dp assms(2) n put_id [OF e(4)] in auto)
  qed
qed

lemma order_link:
  assumes "order_ok ps S" "ins S w = Linking p l" "append_dep w p l (rt S) = Some (pc, r)"
  shows "order_ok ps (at_ins w pc r S)"
proof -
  note e = engaged_node [OF assms(1), of w l p, unfolded assms(2), simplified]
  note i = order_simps(3) [OF assms(1), of w]
  have r: "r = put p (\<lambda>x. x\<lparr>deps := deps x @ [w]\<rparr>) (rt S)" "heap (rt S) p \<noteq> None" "pc = Flagging p l"
    using assms(3) by (auto simp: append_dep_def bind_eq_Some_conv upd_put)
  have nw: "w \<notin> set (deps (item (rt S) c))" if "c \<in> insert p (behind ps p)" "heap (rt S) c \<noteq> None" for c
    using ins_okD(8) [OF i that(2)] that(1) assms(2) by auto
  show ?thesis
  proof (rule order_ins [OF assms(1)])
    show k: "steady {w} (rt S) r" unfolding r(1) by (rule steady_put) (use r(2) in auto)
    show "next_of r = next_of (rt S)" unfolding r(1) by (rule next_of_put) (use r(2) in simp_all)
    show "worklist r = worklist (rt S)" by (simp add: r(1))
    show "distinct (deps (item (rt S) c)) \<Longrightarrow> distinct (deps (item r c))" for c
      using nw [of p] r(2) by (cases "c = p") (simp_all add: r(1) item_put)
    show "ins_ok ps r w pc"
    proof (rule ins_okI [OF i k])
      fix l2 assume "locals_of pc = Some l2"
      then show "loop_ok ps r w (rest ps pc) l2"
        using loop_ok_steady [OF e(7) k] e(3,7) by (simp add: r item_put loop_ok_def)
    next
      fix c assume c: "heap r c \<noteq> None" "w \<in> set (deps (item r c))"
      show "c \<in> behind ps w \<and> (c \<in> rest ps pc \<longrightarrow> (\<exists>l. pc = Flagging c l))"
      proof (cases "c = p")
        case False
        then have "w \<in> set (deps (item (rt S) c))" "heap (rt S) c \<noteq> None" using c by (simp_all add: r(1) item_put)
        then show ?thesis using ins_okD(8) [OF i] nw [of c] r(3) False by auto
      qed (use e(1) r(3) in simp)
    qed (use e(5) assms(2) r(3) in simp_all)
  qed
qed

lemma escape_flags:
  assumes "loop_ok ps s w (insert p (behind ps p)) l" "ancestor l = Some p" "distinct ps" "p \<in> set ps"
    and "s' = put w (\<lambda>t. t\<lparr>optFlags := optFlags t OR FatherScape\<rparr>) s" "father (item s w) \<noteq> None"
  shows "flags_ok ps s' w"
proof -
  obtain f where f: "father (item s w) = Some f" using assms(6) by (auto simp: not_None_eq)
  have e: "escaped (item s' w)" "pending (item s' w) = pending (item s w)" "father (item s' w) = Some f"
    "status (item s' q) = status (item s q)" for q
    using f by (simp_all add: assms(5) item_put escaped_def pending_def)
  note l = assms(1) [unfolded loop_ok_def]
  have fb: "f \<in> behind ps w" "f = p \<or> f \<in> behind ps w - insert p (behind ps p)"
    using l f assms(2) by auto
  have np: "status (item s p) \<noteq> Filling" using l assms(2) by simp
  have "q \<in> behind ps f"
    if q: "q \<in> behind ps w" "status (item s q) = Filling" "\<not> pending (item s w)" for q
  proof -
    have "q \<in> insert p (behind ps p)" using l q by blast
    then have qp: "q \<in> behind ps p" using np q(2) by blast
    show ?thesis
    proof (cases "f = p")
      case False
      then have "f \<notin> behind ps p" "f \<in> set ps" using fb behind_set by blast+
      then have "p \<in> behind ps f" using behind_total [OF assms(4)] False by blast
      then show ?thesis using behind_trans [OF assms(3)] qp by blast
    qed (use qp in simp)
  qed
  then show ?thesis
    using fb(1) by (simp add: flags_ok_def e)
qed

lemma order_look:
  assumes "order_ok ps S" "ins S w = Visiting (Some p) l" "look_node w p l (rt S) = Some (pc, r)"
  shows "order_ok ps (at_ins w pc r S)"
proof -
  note e = engaged_node [OF assms(1), of w l p, unfolded assms(2), simplified]
  note d = order_simps(2) [OF assms(1)]
  note i = order_simps(3) [OF assms(1)]
  note lo = e(7) [unfolded loop_ok_def]
  have dp: "\<exists>l. pc = Flagging c l"
    if "c \<in> insert p (behind ps p)" "heap (rt S) c \<noteq> None" "w \<in> set (deps (item (rt S) c))" for c
    using ins_okD(8) [OF i, of c w] that assms(2) by auto
  have same: "order_ok ps (at_ins w pc (rt S) S)"
    if "entered pc" "\<And>l. locals_of pc = Some l \<Longrightarrow> loop_ok ps (rt S) w (rest ps pc) l"
      "\<not> past_loop pc" "rest ps pc \<subseteq> insert p (behind ps p)"
    by (rule order_self [OF assms(1), where f = "\<lambda>x. x"])
      (use that e(4) assms(2) put_id [OF e(4)] dp in auto)
  from assms(3) show ?thesis
  proof (cases rule: look_node_cases)
    case self
    then show ?thesis using e(3) by simp
  next
    case (escape x a)
    then have r: "r = put w (\<lambda>t. t\<lparr>optFlags := optFlags t OR FatherScape\<rparr>) (rt S)" by (simp add: upd_put)
    have "father (item (rt S) w) \<noteq> None"
    proof
      assume "father (item (rt S) w) = None"
      then show False using lo escape(2) by auto
    qed
    note f = escape_flags [OF e(7) escape(2) d e(2) r this]
    show ?thesis
      by (rule order_self [OF assms(1) r]) (use e f escape assms(2) in auto)
  next
    case (ancestor x)
    note n = next_rest [OF assms(1) ancestor(3) e(2)]
    have "heap (rt S) a \<noteq> None \<and> status (item (rt S) a) \<noteq> Filling" if "father x = Some a" for a
      using ins_okD(7) [OF i, of p a] ancestor(3) that by simp
    then have "loop_ok ps (rt S) w (behind ps p) (l\<lparr>ancestor := father x\<rparr>)"
      by (intro loop_ok_next [OF e(7) d]) (use lo ancestor(2) in auto)
    then show ?thesis using same n ancestor(4,5) by (simp add: subset_insertI)
  next
    case (active x)
    then show ?thesis using same e(7) by simp
  next
    case (gone x)
    note n = next_rest [OF assms(1) gone(3) e(2)]
    have "status (item (rt S) p) \<noteq> Filling" using gone(3,4) by (auto simp: less_status_t_def)
    then have "loop_ok ps (rt S) w (behind ps p) l"
      by (intro loop_ok_next [OF e(7) d]) (use lo gone(2) in auto)
    then show ?thesis using same n gone(5,6) by (simp add: subset_insertI)
  qed
qed

lemma order_last_seen:
  assumes "order_ok ps S" "ins S w = Visiting None l"
  shows "order_ok ps (at_ins w (Deciding l) (rt S) S)"
proof -
  note i = ins_okD [OF order_simps(3) [OF assms(1), of w], unfolded assms(2)]
  have "loop_ok ps (rt S) w {} l" using i(3) by simp
  then have "flags_ok ps (rt S) w" by (auto simp: loop_ok_def flags_ok_def)
  moreover have "heap (rt S) w \<noteq> None" using i(1) by simp
  ultimately show ?thesis
    by (intro order_self [OF assms(1), where f = "\<lambda>x. x"]) (use assms(2) put_id in auto)
qed

lemma order_past:
  assumes "order_ok ps S" "past_loop (ins S w)" "past_loop pc" "r = put w f (rt S)"
    and f: "\<And>x. father (f x) = father x \<and> deps (f x) = deps x \<and> nxt (f x) = nxt x \<and>
      optFlags (f x) = optFlags x \<and> (status (f x) = Filling \<longrightarrow> status x = Filling)"
    and "\<And>b. pc = Inside b \<Longrightarrow> status (item r w) \<noteq> Filling"
  shows "order_ok ps (at_ins w pc r S)"
proof -
  note i = ins_okD [OF order_simps(3) [OF assms(1), of w]]
  have h: "heap (rt S) w \<noteq> None" using i(1) assms(2) by auto
  have k: "steady {} (rt S) r" unfolding assms(4) by (rule steady_put) (use h f in simp_all)
  have "flags_ok ps r w"
    using i(4) [OF assms(2)] steadyD(4) [OF k] f
    by (auto simp: flags_ok_def assms(4) item_put escaped_def pending_def split: if_splits)
  moreover have "entered pc" "entered (ins S w)" "locals_of pc = None" "rest ps pc = {}"
    using assms(2,3) by (cases pc; cases "ins S w"; simp)+
  ultimately show ?thesis
    by (intro order_self [OF assms(1,4) h]) (use f assms(6) in auto)
qed

lemma order_queue:
  assumes "order_ok ps S" "rt S' = (rt S)\<lparr>tqueue := q\<rparr>" "ins S' = ins S"
  shows "order_ok ps S'"
proof -
  have "next_of (rt S') = next_of (rt S)" by (rule ext) (simp add: next_of_def assms(2))
  moreover have "ins_ok ps (rt S') v pc = ins_ok ps (rt S) v pc" for v pc
    by (simp add: ins_ok_def loop_ok_def flags_ok_def assms(2))
  ultimately show ?thesis using assms by (simp add: order_ok_def)
qed

lemma order_decided:
  assumes "order_ok ps S" "ins S w = Deciding l" "decide w l (rt S) = Some (pc, r)"
  shows "order_ok ps (at_ins w pc r S)"
proof -
  have "r = put w (\<lambda>x. x) (rt S)" "past_loop pc" "\<And>b. pc \<noteq> Inside b"
    using assms(3) put_id by (auto simp: decide_def bind_eq_Some_conv not_None_eq split: if_splits)
  then show ?thesis
    using order_past [OF assms(1), of w pc r "\<lambda>x. x"] assms(2) by auto
qed

lemma order_launch:
  assumes "order_ok ps S" "ins S w = Launching l" "post w (rt S) = Some r"
  shows "order_ok ps (at_ins w (Inside b) r S)"
proof -
  obtain t where r: "r = (put w (\<lambda>x. x\<lparr>status := Ready\<rparr>) (rt S))\<lparr>tqueue := tqueue (rt S) @ [t]\<rparr>"
    by (rule post_put [OF assms(3)])
  have "order_ok ps (at_ins w (Inside b) (put w (\<lambda>x. x\<lparr>status := Ready\<rparr>) (rt S)) S)"
    by (rule order_past [OF assms(1) _ _ refl]) (simp_all add: assms(2) item_put)
  then show ?thesis by (rule order_queue) (simp_all add: r at_ins_def)
qed

lemma order_park:
  assumes "order_ok ps S" "ins S w = Parking l" "upd w (\<lambda>t. t\<lparr>status := Waiting\<rparr>) (rt S) = Some r"
  shows "order_ok ps (at_ins w (Inside b) r S)"
  by (rule order_past [OF assms(1), where f = "\<lambda>t. t\<lparr>status := Waiting\<rparr>"])
    (use assms in \<open>simp_all add: upd_put item_put\<close>)

lemma order_ins_step:
  assumes "order_ok ps S" "ins_step w S = Some S'"
  shows "\<exists>ps'. order_ok ps' S'"
  using assms(2)
proof (cases rule: ins_step_cases)
  case (decided l pc r)
  show ?thesis unfolding decided(3) by (intro exI) (rule order_decided [OF assms(1) decided(1,2)])
next
  case (launch l r)
  show ?thesis unfolding launch(3) by (intro exI) (rule order_launch [OF assms(1) launch(1,2)])
next
  case (park l r)
  show ?thesis unfolding park(3) by (intro exI) (rule order_park [OF assms(1) park(1,2)])
next
  case (push t pc r)
  show ?thesis unfolding push(3) by (intro exI) (rule order_push [OF assms(1) push(1,2)])
next
  case (last_seen l)
  show ?thesis unfolding last_seen(2) by (intro exI) (rule order_last_seen [OF assms(1) last_seen(1)])
next
  case (look p l pc r)
  show ?thesis unfolding look(3) by (intro exI) (rule order_look [OF assms(1) look(1,2)])
next
  case (compare p l pc r)
  show ?thesis unfolding compare(3) by (intro exI) (rule order_compare [OF assms(1) compare(1,2)])
next
  case (link p l pc r)
  show ?thesis unfolding link(3) by (intro exI) (rule order_link [OF assms(1) link(1,2)])
next
  case (flag p l pc r)
  show ?thesis unfolding flag(3) by (intro exI) (rule order_flag [OF assms(1) flag(1,2)])
qed

section \<open>All the steps keep the order\<close>

lemma order_fin_step:
  assumes "order_ok ps S" "fin_step w S = Some S'"
  shows "order_ok ps S'"
proof -
  have put: "order_ok ps (at_fin w pc (put u f (rt S)) S)"
    if "heap (rt S) u \<noteq> None" "\<And>x. father (f x) = father x \<and> nxt (f x) = nxt x \<and> optFlags (f x) = optFlags x \<and>
      (deps (f x) = deps x \<or> deps (f x) = []) \<and> (status (f x) = Filling \<longrightarrow> status x = Filling)" for pc u f
  proof (rule order_fin [OF assms(1)])
    have "set (deps (f x)) \<subseteq> set (deps x)" for x using that(2) [of x] by auto
    then show "steady {} (rt S) (put u f (rt S))"
      by (intro steady_put) (use that in blast)+
    show "next_of (put u f (rt S)) = next_of (rt S)" by (rule next_of_put) (use that in simp_all)
    show "distinct (deps (item (rt S) c)) \<Longrightarrow> distinct (deps (item (put u f (rt S)) c))" for c
      using that(2) [of "item (rt S) c"] by (auto simp: item_put)
  qed (simp_all add: at_fin_def)
  have same: "order_ok ps (at_fin w pc (rt S) S)" for pc
    by (rule order_fin [OF assms(1) steady_refl]) (simp_all add: at_fin_def)
  from assms(2) show ?thesis
  proof (cases rule: fin_step_cases)
    case (mark c r)
    then show ?thesis using put [of c "\<lambda>x. x\<lparr>status := Done\<rparr>"] by (simp add: upd_put)
  next
    case (release c k pc r)
    from release(2) show ?thesis
    proof (cases rule: release_next_cases)
      case (dec x y)
      then show ?thesis
        using put [of "deps x ! k" "\<lambda>y. y\<lparr>ndependencies := ndependencies y - 1\<rparr>"] release(3) by (simp add: upd_put)
    qed (use same release(3) in simp)
  next
    case (post_dep c k pc r)
    then obtain d where d: "post d (rt S) = Some r" by (auto simp: post_next_def bind_eq_Some_conv)
    obtain t where t: "heap (rt S) d \<noteq> None"
      "r = (put d (\<lambda>x. x\<lparr>status := Ready\<rparr>) (rt S))\<lparr>tqueue := tqueue (rt S) @ [t]\<rparr>"
      by (rule post_put [OF d])
    have "order_ok ps (at_fin w pc (put d (\<lambda>x. x\<lparr>status := Ready\<rparr>) (rt S)) S)"
      by (rule put [OF t(1)]) simp
    then show ?thesis by (rule order_queue) (simp_all add: post_dep(3) t(2) at_fin_def)
  next
    case (free c r)
    then show ?thesis using put [of c "\<lambda>x. x\<lparr>deps := [], args := []\<rparr>"] by (simp add: upd_put)
  next
    case (retired c pc r)
    then show ?thesis using put [of c "\<lambda>x. x\<lparr>status := Deallocatable\<rparr>"]
      by (auto simp: retire_def bind_eq_Some_conv upd_put not_None_eq)
  next
    case (climb f pc r)
    then show ?thesis using put [of f "\<lambda>x. x\<lparr>nchildren := nchildren x - 1\<rparr>"]
      by (auto simp: count_child_def bind_eq_Some_conv upd_put not_None_eq)
  qed (use same in simp_all)
qed

text \<open>What the constructor writes.\<close>

definition built :: "arg_info list \<Rightarrow> int \<Rightarrow> wid option \<Rightarrow> workitem" where
  "built as n fa =
     \<lparr>status = Filling, optFlags = 0, guard = 0, nargs = word_of_int n, args = as, nxt = None, father = fa,
      ndependencies = 0, nchildren = 1, task = None, deps = []\<rparr>"

lemma new_workitem_items:
  assumes "new_workitem w as n fa s = Some r" "\<And>a. fa = Some a \<Longrightarrow> heap s a \<noteq> None \<and> a \<noteq> w"
  shows "item r v = (if v = w then built as n fa
      else if fa = Some v then (item s v)\<lparr>nchildren := nchildren (item s v) + 1\<rparr> else item s v)"
    "heap r v = None \<longleftrightarrow> v \<noteq> w \<and> heap s v = None" "worklist r = worklist s" "tqueue r = tqueue s"
proof -
  let ?s1 = "s\<lparr>heap := (heap s)(w \<mapsto> built as n fa)\<rparr>"
  have "(\<forall>v. item r v = (if v = w then built as n fa
      else if fa = Some v then (item s v)\<lparr>nchildren := nchildren (item s v) + 1\<rparr> else item s v)) \<and>
    (\<forall>v. heap r v = None \<longleftrightarrow> v \<noteq> w \<and> heap s v = None) \<and> worklist r = worklist s \<and> tqueue r = tqueue s"
  proof (cases fa)
    case None
    then have "r = ?s1" using assms(1) by (simp add: new_workitem_def built_def)
    then show ?thesis using None by simp
  next
    case (Some a)
    then have "r = put a (\<lambda>x. x\<lparr>nchildren := nchildren x + 1\<rparr>) ?s1"
      using assms(1) by (simp add: new_workitem_def upd_put Let_def built_def)
    then show ?thesis using Some assms(2) [OF Some] by (auto simp: item_put)
  qed
  then show "item r v = (if v = w then built as n fa
      else if fa = Some v then (item s v)\<lparr>nchildren := nchildren (item s v) + 1\<rparr> else item s v)"
    "heap r v = None \<longleftrightarrow> v \<noteq> w \<and> heap s v = None" "worklist r = worklist s" "tqueue r = tqueue s"
    by blast+
qed

lemma in_functionD:
  assumes "in_function a S"
  shows "heap (rt S) a \<noteq> None" "status (item (rt S) a) = Running" "fin S a = Active"
  using assms by (auto simp: in_function_def split: option.splits)

lemma order_spawn:
  assumes "order_ok ps S" "heap (rt S) w = None" "\<And>a. fa = Some a \<Longrightarrow> in_function a S"
    and "new_workitem w as n fa (rt S) = Some r"
  shows "order_ok ps (at_ins w (Entering t) r S)"
proof -
  let ?s = "rt S"
  note o = order_simps [OF assms(1)]
  have w: "ins S w = Outside" "w \<notin> set ps" using ins_okD(1,2) [OF o(3) [of w]] assms(2) by auto
  have fa: "heap ?s a \<noteq> None \<and> status (item ?s a) \<noteq> Filling \<and> a \<noteq> w" if "fa = Some a" for a
    using assms(2) in_functionD [OF assms(3) [OF that]] by auto
  have "heap ?s a \<noteq> None \<and> a \<noteq> w" if "fa = Some a" for a using fa [OF that] by blast
  note r = new_workitem_items [OF assms(4) this] built_def
  have nx: "next_of r v = next_of ?s v" if "v \<noteq> w" for v
  proof (cases "heap ?s v")
    case None
    then have "heap r v = None" using r(2) [of v] that by simp
    then show ?thesis using None by (simp add: next_of_def)
  next
    case (Some x)
    then have "heap r v \<noteq> None" using r(2) [of v] by simp
    then obtain y where y: "heap r v = Some y" by (auto simp: not_None_eq)
    then have "nxt y = nxt x" using r(1) [of v] that Some by (auto split: if_splits)
    then show ?thesis using Some y by (simp add: next_of_def)
  qed
  have ch: "chain (next_of r) (worklist r) ps None"
    using o(1) nx w(2) r(3) chain_cong [of ps "next_of r" "next_of ?s"] by metis
  have others: "ins_ok ps r v (ins S v)" if v: "v \<noteq> w" for v
    by (rule ins_ok_frame [OF o(3)]) (use r v w(2) assms(2) in \<open>auto split: if_splits\<close>)
  have self: "ins_ok ps r w (Entering t)"
  proof -
    have "w \<notin> set (deps (item r c))" if "heap r c \<noteq> None" for c
    proof
      assume a: "w \<in> set (deps (item r c))"
      then have "heap ?s c \<noteq> None \<and> w \<in> set (deps (item ?s c))" using r that by (auto split: if_splits)
      then show False using ins_okD(8) [OF o(3) [of w]] behind_outside [OF w(2)] by auto
    qed
    moreover have "heap r f \<noteq> None \<and> status (item r f) \<noteq> Filling" if "fa = Some f" for f
      using fa [OF that] r by auto
    ultimately show ?thesis using r w by (simp add: ins_ok_def)
  qed
  have "distinct (deps (item r c))" if "heap r c \<noteq> None" for c
    using assms(1) that r by (auto simp: order_ok_def)
  then show ?thesis
    using ch others self by (simp add: order_ok_def at_ins_def)
qed

lemma order_start:
  assumes "order_ok ps S" "tqueue (rt S) = t # ts" "run_begin t (rt S\<lparr>tqueue := ts\<rparr>) = Some r"
  shows "order_ok ps (S\<lparr>rt := r\<rparr>)"
proof -
  let ?r = "rt S\<lparr>tqueue := ts\<rparr>"
  have q: "order_ok ps (S\<lparr>rt := ?r\<rparr>)" by (rule order_queue [OF assms(1)]) simp_all
  show ?thesis
  proof (cases "ctx t")
    case None
    then show ?thesis using assms(3) q by (auto simp: run_begin_def)
  next
    case (Some c)
    then have r: "heap ?r c \<noteq> None" "r = put c (\<lambda>x. x\<lparr>status := Running\<rparr>) ?r"
      using assms(3) by (simp_all add: run_begin_def upd_put)
    have "steady {} ?r r" unfolding r(2) by (rule steady_put) (use r(1) in simp_all)
    moreover have "next_of r = next_of ?r" unfolding r(2) by (rule next_of_put) (use r(1) in simp_all)
    ultimately show ?thesis
      by (intro order_fin [OF q]) (auto simp: r(2) item_put)
  qed
qed

lemma order_finish:
  assumes "order_ok ps S" "count_child w (rt S) = Some (pc, r)"
  shows "order_ok ps (at_fin w pc r S)"
proof -
  have r: "heap (rt S) w \<noteq> None" "r = put w (\<lambda>x. x\<lparr>nchildren := nchildren x - 1\<rparr>) (rt S)"
    using assms(2) by (auto simp: count_child_def bind_eq_Some_conv upd_put)
  have "steady {} (rt S) r" unfolding r(2) by (rule steady_put) (use r(1) in simp_all)
  moreover have "next_of r = next_of (rt S)" unfolding r(2) by (rule next_of_put) (use r(1) in simp_all)
  ultimately show ?thesis
    by (intro order_fin [OF assms(1)]) (auto simp: r(2) item_put at_fin_def)
qed

lemma order_step:
  assumes "order_ok ps S" "hs_step U climb S S'"
  shows "\<exists>ps'. order_ok ps' S'"
  using assms(2)
proof (cases rule: hs_step.cases)
  case (spawn as w fa r f)
  then show ?thesis using order_spawn [OF assms(1)] by blast
next
  case (insert w)
  then show ?thesis using order_ins_step [OF assms(1)] by blast
next
  case (start t ts r)
  then show ?thesis using order_start [OF assms(1)] by blast
next
  case (finish w pc r)
  then show ?thesis using order_finish [OF assms(1)] by blast
next
  case (complete w)
  then show ?thesis using order_fin_step [OF assms(1)] by blast
qed

lemma order_reachable:
  assumes "hs_reachable U climb S"
  obtains ps where "order_ok ps S"
proof -
  have "\<exists>ps. order_ok ps S"
    using assms
  proof (induction rule: hs_reachable.induct)
    case (init S)
    then have "order_ok [] S"
      by (simp add: hs_initial_def order_ok_def ins_ok_def)
    then show ?case ..
  next
    case (step S S')
    then show ?case using order_step by blast
  qed
  then show thesis using that by blast
qed

declare not_None_eq [simp]

end
