(* ===== verification/HandshakeSafe.thy ===== *)
theory HandshakeSafe
  imports HandshakeOrder
begin

text \<open>
  The hand-shake is safe as long as no subtask finishes its father: a task that releases its dependents
  is linked to no task that is still being filled in, the counters are exact, and the queue holds
  the ready tasks.
\<close>

declare not_None_eq [simp del]

lemma at_ins_sel [simp]:
  "rt (at_ins w pc r S) = r" "fin (at_ins w pc r S) = fin S" "ins (at_ins w pc r S) v = (if v = w then pc else ins S v)"
  by (simp_all add: at_ins_def)

lemma at_fin_sel [simp]:
  "rt (at_fin w fc r S) = r" "ins (at_fin w fc r S) = ins S" "fin (at_fin w fc r S) v = (if v = w then fc else fin S v)"
  by (simp_all add: at_fin_def)

section \<open>Who is linked to whom\<close>

fun engaged :: "ins_pc \<Rightarrow> wid option" where
  "engaged (Comparing p _) = Some p"
| "engaged (Linking p _) = Some p"
| "engaged (Flagging p _) = Some p"
| "engaged _ = None"

fun inserting :: "ins_pc \<Rightarrow> bool" where
  "inserting Outside = False"
| "inserting (Inside _) = False"
| "inserting _ = True"

fun linking :: "ins_pc \<Rightarrow> bool" where
  "linking (Linking _ _) = True"
| "linking _ = False"

text \<open>A task on its way in that reads \<open>c\<close> or is among its dependents.\<close>

definition tied :: "hs \<Rightarrow> wid \<Rightarrow> wid \<Rightarrow> bool" where
  "tied S u c \<longleftrightarrow>
     inserting (ins S u) \<and> (engaged (ins S u) = Some c \<or> u \<in> set (deps (item (rt S) c)))"

definition free_of_ties :: "hs \<Rightarrow> wid \<Rightarrow> bool" where
  "free_of_ties S c \<longleftrightarrow> (\<forall>u. \<not> tied S u c)"

text \<open>The dependents that a task has still to release.\<close>

definition open_deps :: "hs \<Rightarrow> wid \<Rightarrow> wid list" where
  "open_deps S c =
     (let ds = deps (item (rt S) c) in
      case fin S c of
        Releasing _ k \<Rightarrow> drop k ds
      | Posting _ k \<Rightarrow> drop (Suc k) ds
      | Freeing _ \<Rightarrow> []
      | _ \<Rightarrow> ds)"

definition open_preds :: "hs \<Rightarrow> wid \<Rightarrow> wid set" where
  "open_preds S v = {c. heap (rt S) c \<noteq> None \<and> v \<in> set (open_deps S c)}"

text \<open>A task whose last dependency was counted off and that is about to be posted.\<close>

definition due :: "hs \<Rightarrow> wid \<Rightarrow> bool" where
  "due S v \<longleftrightarrow> (\<exists>c k. fin S c = Posting c k \<and> deps (item (rt S) c) ! k = v)"

section \<open>The invariant\<close>

text \<open>A thread that completes the task \<open>v\<close>, by what it has done.\<close>

fun fin_ok :: "wid list \<Rightarrow> hs \<Rightarrow> wid \<Rightarrow> fin_pc \<Rightarrow> status_t \<Rightarrow> bool" where
  "fin_ok ps S v Active st \<longleftrightarrow> st < Done"
| "fin_ok ps S v (Marking c) st \<longleftrightarrow> c = v \<and> st = Running"
| "fin_ok ps S v (Loading c) st \<longleftrightarrow> c = v \<and> st = Done"
| "fin_ok ps S v (Walking c p) st \<longleftrightarrow>
     c = v \<and> st = Done \<and> from_ptr ps p \<subseteq> set ps \<and> (\<forall>u. tied S u v \<longrightarrow> u \<in> from_ptr ps p)"
| "fin_ok ps S v (Releasing c k) st \<longleftrightarrow> c = v \<and> st = Done \<and> free_of_ties S v"
| "fin_ok ps S v (Posting c k) st \<longleftrightarrow>
     c = v \<and> st = Done \<and> free_of_ties S v \<and> k < length (deps (item (rt S) v))"
| "fin_ok ps S v (Freeing c) st \<longleftrightarrow> c = v \<and> st = Done \<and> free_of_ties S v"
| "fin_ok ps S v (Retiring c) st \<longleftrightarrow> c = v \<and> st = Done \<and> free_of_ties S v \<and> deps (item (rt S) v) = []"
| "fin_ok ps S v (Climbing f) st \<longleftrightarrow>
     st = Deallocatable \<and> free_of_ties S v \<and> deps (item (rt S) v) = []"
| "fin_ok ps S v Returned st \<longleftrightarrow>
     st = Running \<or> st = Deallocatable \<and> free_of_ties S v \<and> deps (item (rt S) v) = []"

definition count_ok :: "hs \<Rightarrow> wid \<Rightarrow> bool" where
  "count_ok S v \<longleftrightarrow>
     ndependencies (item (rt S) v) = int (card (open_preds S v)) + (if linking (ins S v) then 1 else 0)"

definition wait_ok :: "hs \<Rightarrow> wid \<Rightarrow> bool" where
  "wait_ok S v \<longleftrightarrow>
     (\<forall>b. ins S v = Inside b \<longrightarrow> (status (item (rt S) v) = Waiting \<longleftrightarrow> open_preds S v \<noteq> {} \<or> due S v)) \<and>
     (\<forall>l. ins S v = Parking l \<longrightarrow> open_preds S v \<noteq> {}) \<and>
     (\<forall>l. ins S v = Launching l \<longrightarrow> open_preds S v = {}) \<and>
     (due S v \<longrightarrow> open_preds S v = {})"

definition task_ok :: "hs \<Rightarrow> wid \<Rightarrow> bool" where
  "task_ok S v \<longleftrightarrow>
     (\<forall>t. ins S v = Entering t \<longrightarrow> ctx t = Some v) \<and>
     (entered (ins S v) \<longrightarrow> (\<exists>t. task (item (rt S) v) = Some t \<and> ctx t = Some v))"

definition node_ok :: "wid list \<Rightarrow> hs \<Rightarrow> wid \<Rightarrow> bool" where
  "node_ok ps S v \<longleftrightarrow>
     (heap (rt S) v = None \<longrightarrow> fin S v = Active) \<and>
     (heap (rt S) v \<noteq> None \<longrightarrow>
        (inserting (ins S v) \<longrightarrow> status (item (rt S) v) = Filling) \<and>
        fin_ok ps S v (fin S v) (status (item (rt S) v)) \<and> count_ok S v \<and> wait_ok S v \<and> task_ok S v)"

definition due_once :: "hs \<Rightarrow> bool" where
  "due_once S \<longleftrightarrow>
     (\<forall>c c' k k'. fin S c = Posting c k \<longrightarrow> fin S c' = Posting c' k' \<longrightarrow>
        deps (item (rt S) c) ! k = deps (item (rt S) c') ! k' \<longrightarrow> c = c')"

definition queue_ok :: "runtime \<Rightarrow> bool" where
  "queue_ok s \<longleftrightarrow>
     distinct (map ctx (tqueue s)) \<and>
     ctx ` set (tqueue s) = Some ` {v. heap s v \<noteq> None \<and> status (item s v) = Ready}"

definition safe :: "wid list \<Rightarrow> hs \<Rightarrow> bool" where
  "safe ps S \<longleftrightarrow> order_ok ps S \<and> (\<forall>v. node_ok ps S v) \<and> due_once S \<and> queue_ok (rt S)"

section \<open>Reading the invariant\<close>

lemma node_okD:
  assumes "node_ok ps S v"
  shows "heap (rt S) v = None \<Longrightarrow> fin S v = Active"
    "heap (rt S) v \<noteq> None \<Longrightarrow> inserting (ins S v) \<Longrightarrow> status (item (rt S) v) = Filling"
    "heap (rt S) v \<noteq> None \<Longrightarrow> fin_ok ps S v (fin S v) (status (item (rt S) v))"
    "heap (rt S) v \<noteq> None \<Longrightarrow> count_ok S v" "heap (rt S) v \<noteq> None \<Longrightarrow> wait_ok S v"
    "heap (rt S) v \<noteq> None \<Longrightarrow> task_ok S v"
  using assms by (simp_all add: node_ok_def)

lemma safeD:
  assumes "safe ps S"
  shows "order_ok ps S" "node_ok ps S v" "due_once S" "queue_ok (rt S)"
    "ins_ok ps (rt S) v (ins S v)" "distinct ps" "heap (rt S) c \<noteq> None \<Longrightarrow> distinct (deps (item (rt S) c))"
proof -
  show o: "order_ok ps S" using assms by (simp add: safe_def)
  show "node_ok ps S v" "due_once S" "queue_ok (rt S)" using assms by (simp_all add: safe_def)
  show "ins_ok ps (rt S) v (ins S v)" "distinct ps" using order_simps [OF o] by blast+
  show "heap (rt S) c \<noteq> None \<Longrightarrow> distinct (deps (item (rt S) c))" using o by (simp add: order_ok_def)
qed

lemma allocated_inside:
  assumes "safe ps S" "heap (rt S) v \<noteq> None" "\<not> inserting (ins S v)"
  obtains b where "ins S v = Inside b"
  using ins_okD(1) [OF safeD(5) [OF assms(1), of v]] assms(2,3) by (cases "ins S v") auto

lemma dependent_inside:
  assumes "safe ps S" "heap (rt S) c \<noteq> None" "v \<in> set (deps (item (rt S) c))" "free_of_ties S c"
  shows "\<exists>b. ins S v = Inside b" "heap (rt S) v \<noteq> None" "v \<noteq> c"
proof -
  note i = ins_okD [OF safeD(5) [OF assms(1), of v]]
  have cv: "c \<in> behind ps v" using i(8) assms(2,3) by blast
  then have "v \<in> set ps" using behind_outside by blast
  then have e: "entered (ins S v)" using i(2) by simp
  moreover have "\<not> inserting (ins S v)" using assms(3,4) by (auto simp: free_of_ties_def tied_def)
  ultimately show "\<exists>b. ins S v = Inside b" by (cases "ins S v") simp_all
  show "heap (rt S) v \<noteq> None" using i(1) e by (cases "ins S v") auto
  show "v \<noteq> c" using cv behind_irrefl [OF safeD(6) [OF assms(1)]] by blast
qed

lemma tied_behind:
  assumes "safe ps S" "heap (rt S) c \<noteq> None" "tied S u c"
  shows "c \<in> behind ps u" "u \<in> set ps" "status (item (rt S) u) = Filling" "heap (rt S) u \<noteq> None"
proof -
  note i = ins_okD [OF safeD(5) [OF assms(1), of u]]
  have c: "inserting (ins S u)" "engaged (ins S u) = Some c \<or> u \<in> set (deps (item (rt S) c))"
    using assms(3) by (auto simp: tied_def)
  show h: "heap (rt S) u \<noteq> None" using i(1) c(1) by auto
  show "status (item (rt S) u) = Filling" using node_okD(2) [OF safeD(2) [OF assms(1)] h c(1)] .
  show "c \<in> behind ps u"
    using c(2)
  proof
    assume "engaged (ins S u) = Some c"
    then have "\<exists>l. locals_of (ins S u) = Some l" "rest ps (ins S u) = insert c (behind ps c)"
      by (cases "ins S u"; simp)+
    then show ?thesis using i(3) by (auto simp: loop_ok_def)
  next
    assume "u \<in> set (deps (item (rt S) c))"
    then show ?thesis using i(8) assms(2) by blast
  qed
  then show "u \<in> set ps" using behind_outside by blast
qed

lemma open_subset: "set (open_deps S c) \<subseteq> set (deps (item (rt S) c))"
  using set_drop_subset by (fastforce simp: open_deps_def Let_def split: fin_pc.splits)

lemma preds_behind:
  assumes "safe ps S"
  shows "open_preds S v \<subseteq> behind ps v" "finite (open_preds S v)"
proof -
  show s: "open_preds S v \<subseteq> behind ps v"
    using ins_okD(8) [OF safeD(5) [OF assms, of v]] open_subset by (fastforce simp: open_preds_def)
  show "finite (open_preds S v)"
    using finite_subset [OF s finite_subset [OF behind_set]] by simp
qed

lemma due_inside:
  assumes "safe ps S" "due S v"
  obtains c k where "fin S c = Posting c k" "heap (rt S) c \<noteq> None" "k < length (deps (item (rt S) c))"
    "deps (item (rt S) c) ! k = v" "free_of_ties S c" "\<exists>b. ins S v = Inside b" "heap (rt S) v \<noteq> None"
proof -
  obtain c c' k where f: "fin S c = Posting c' k" "deps (item (rt S) c) ! k = v"
    using assms(2) by (auto simp: due_def)
  note n = node_okD [OF safeD(2) [OF assms(1), of c]]
  have h: "heap (rt S) c \<noteq> None" using n(1) f(1) by auto
  then have c: "c' = c" "k < length (deps (item (rt S) c))" "free_of_ties S c" using n(3) f(1) by auto
  have "v \<in> set (deps (item (rt S) c))" using c(2) f(2) by auto
  note d = dependent_inside [OF assms(1) h this c(3)]
  show thesis by (rule that [OF f(1) [unfolded c(1)] h c(2) f(2) c(3) d(1,2)])
qed

lemma inserting_node:
  assumes "safe ps S" "heap (rt S) w \<noteq> None" "inserting (ins S w)"
  shows "status (item (rt S) w) = Filling" "fin S w = Active" "\<not> due S w"
proof -
  note n = node_okD [OF safeD(2) [OF assms(1), of w]]
  show st: "status (item (rt S) w) = Filling" by (rule n(2) [OF assms(2,3)])
  show "fin S w = Active"
    using n(3) [OF assms(2)] by (cases "fin S w") (simp_all add: st)
  show "\<not> due S w"
  proof
    assume "due S w"
    then have "\<exists>b. ins S w = Inside b" using due_inside [OF assms(1)] by metis
    then show False using assms(3) by auto
  qed
qed

section \<open>Tasks that a step does not touch\<close>

lemma node_ok_frame:
  assumes "node_ok ps S v" "heap (rt S') v = None \<longleftrightarrow> heap (rt S) v = None" "fin S' v = fin S v" "ins S' v = ins S v"
    and same: "heap (rt S) v \<noteq> None \<Longrightarrow> status (item (rt S') v) = status (item (rt S) v) \<and>
      ndependencies (item (rt S') v) = ndependencies (item (rt S) v) \<and> task (item (rt S') v) = task (item (rt S) v)"
    and "heap (rt S) v \<noteq> None \<Longrightarrow> deps (item (rt S') v) = deps (item (rt S) v) \<or> \<not> free_of_ties S v"
    and "heap (rt S) v \<noteq> None \<Longrightarrow> open_preds S' v = open_preds S v" "heap (rt S) v \<noteq> None \<Longrightarrow> due S' v = due S v"
    and ties: "\<And>u. heap (rt S) v \<noteq> None \<Longrightarrow> \<not> status (item (rt S) v) < Done \<Longrightarrow> tied S' u v \<Longrightarrow> tied S u v"
    and ptr: "\<And>p. from_ptr ps p \<subseteq> set ps \<Longrightarrow> from_ptr ps' p = from_ptr ps p" "set ps \<subseteq> set ps'"
  shows "node_ok ps' S' v"
proof (cases "heap (rt S) v = None")
  case True
  then show ?thesis using assms(1-3) by (simp add: node_ok_def)
next
  case False
  note n = node_okD [OF assms(1)]
  note sm = same [OF False]
  have ft: "free_of_ties S' v" if "free_of_ties S v" "\<not> status (item (rt S) v) < Done"
    using that ties [OF False] by (auto simp: free_of_ties_def)
  have wk: "\<forall>u. tied S' u v \<longrightarrow> u \<in> from_ptr ps' p" "from_ptr ps' p \<subseteq> set ps'"
    if "\<forall>u. tied S u v \<longrightarrow> u \<in> from_ptr ps p" "from_ptr ps p \<subseteq> set ps" "\<not> status (item (rt S) v) < Done" for p
    using that ties [OF False] ptr by auto
  have d: "\<not> Done < Done" "\<not> Deallocatable < Done" by (simp_all add: less_status_t_def)
  have "fin_ok ps' S' v (fin S v) (status (item (rt S) v))"
    using n(3) [OF False] assms(6) [OF False] ft wk d by (cases "fin S v") auto
  then show ?thesis
    using n(2,4-6) False assms(2-4) sm assms(7,8) [OF False]
    by (simp add: node_ok_def count_ok_def wait_ok_def task_ok_def)
qed

text \<open>An access of an inserting thread that changes only its own node, but not its status.\<close>

lemma safe_self:
  assumes "safe ps S" "order_ok ps' (at_ins w pc r S)" "ps' = ps \<or> ps' = w # ps \<and> w \<notin> set ps"
    and r: "heap (rt S) w \<noteq> None" "\<And>v. item r v = (if v = w then f (item (rt S) w) else item (rt S) v)"
      "\<And>v. heap r v = None \<longleftrightarrow> heap (rt S) v = None" "tqueue r = tqueue (rt S)"
    and f: "\<And>x. status (f x) = status x \<and> deps (f x) = deps x"
    and pc: "inserting (ins S w)" "inserting pc"
    and ties: "\<And>v. engaged pc = Some v \<Longrightarrow> engaged (ins S w) = Some v \<or> status (item (rt S) v) < Done"
    and count: "ndependencies (f (item (rt S) w)) + (if linking (ins S w) then 1 else 0) =
        ndependencies (item (rt S) w) + (if linking pc then 1 else 0)"
    and park: "\<And>l. pc = Parking l \<Longrightarrow> open_preds S w \<noteq> {}" "\<And>l. pc = Launching l \<Longrightarrow> open_preds S w = {}"
    and task: "\<And>t. pc = Entering t \<Longrightarrow> ctx t = Some w"
      "entered pc \<Longrightarrow> \<exists>t. task (f (item (rt S) w)) = Some t \<and> ctx t = Some w"
  shows "safe ps' (at_ins w pc r S)"
proof -
  let ?S = "at_ins w pc r S"
  note it = r(2)
  have dp: "deps (item r c) = deps (item (rt S) c)" and st: "status (item r c) = status (item (rt S) c)" for c
    using f by (simp_all add: it)
  have op: "open_deps ?S = open_deps S" by (simp add: fun_eq_iff open_deps_def dp)
  have pr: "open_preds ?S = open_preds S" by (simp add: fun_eq_iff open_preds_def op r(3))
  have du: "due ?S = due S" by (simp add: fun_eq_iff due_def dp)
  have ti: "tied S u v" if "tied ?S u v" "\<not> status (item (rt S) v) < Done" for u v
    using that ties [of v] pc by (auto simp: tied_def dp split: if_splits)
  have ptr: "from_ptr ps' p = from_ptr ps p" if "from_ptr ps p \<subseteq> set ps" for p
    using assms(3) rest_push [of w ps "Visiting p l" for l] that by auto
  have nw: "node_ok ps' ?S w"
  proof -
    note n = inserting_node [OF assms(1) r(1) pc(1)]
    have p: "rt ?S = r" "ins ?S w = pc" "fin ?S w = Active" using n(2) by (simp_all add:)
    have c: "ndependencies (item r w) = int (card (open_preds S w)) + (if linking pc then 1 else 0)"
      using node_okD(4) [OF safeD(2) [OF assms(1), of w] r(1)] count it [of w] by (simp add: count_ok_def)
    have s: "status (item r w) = Filling" using n(1) st by simp
    have "(Filling :: status_t) < Done" by (simp add: less_status_t_def)
    moreover have "pc \<noteq> Inside b" for b using pc(2) by auto
    moreover have "entered pc \<Longrightarrow> \<exists>t. task (item r w) = Some t \<and> ctx t = Some w" using task(2) it [of w] by simp
    ultimately show ?thesis
      unfolding node_ok_def count_ok_def wait_ok_def task_ok_def p pr du s
      using c park task(1) n(3) r(1,3) by simp
  qed
  have "node_ok ps' ?S v" for v
  proof (cases "v = w")
    case False
    show ?thesis
      by (rule node_ok_frame [OF safeD(2) [OF assms(1)]])
        (use False r(3) ptr assms(3) ti in \<open>auto simp:it pr du\<close>)
  qed (simp add: nw)
  moreover have "due_once ?S"
    using safeD(3) [OF assms(1)] by (simp add: due_once_def dp)
  moreover have "queue_ok (rt ?S)"
    using safeD(4) [OF assms(1)] by (simp add: queue_ok_def st r(3,4))
  ultimately show ?thesis using assms(2) by (simp add: safe_def)
qed

section \<open>Insertion is safe\<close>

text \<open>The accesses that only read, and those that change the own node.\<close>

lemma safe_read:
  assumes "safe ps S" "order_ok ps (at_ins w pc (rt S) S)" "inserting (ins S w)" "inserting pc" "entered (ins S w)"
    and "\<And>v. engaged pc = Some v \<Longrightarrow> engaged (ins S w) = Some v \<or> status (item (rt S) v) < Done"
    and "linking pc = linking (ins S w)" "entered pc"
    and "\<And>l. pc = Parking l \<Longrightarrow> open_preds S w \<noteq> {}" "\<And>l. pc = Launching l \<Longrightarrow> open_preds S w = {}"
  shows "safe ps (at_ins w pc (rt S) S)"
proof -
  note i = ins_okD(1) [OF safeD(5) [OF assms(1), of w]]
  have h: "heap (rt S) w \<noteq> None" using i assms(3) by auto
  have t: "\<exists>t. task (item (rt S) w) = Some t \<and> ctx t = Some w"
    using node_okD(6) [OF safeD(2) [OF assms(1), of w] h] assms(5) by (simp add: task_ok_def)
  have "pc \<noteq> Entering t" for t using assms(8) by auto
  then show ?thesis
    by (intro safe_self [OF assms(1,2), where f = "\<lambda>x. x"]) (use assms h t in auto)
qed

lemma safe_put:
  assumes "safe ps S" "order_ok ps (at_ins w pc r S)" "r = put w f (rt S)" "inserting (ins S w)" "inserting pc"
    and "entered (ins S w)" "entered pc"
    and "\<And>v. engaged pc = Some v \<Longrightarrow> engaged (ins S w) = Some v \<or> status (item (rt S) v) < Done"
    and f: "\<And>x. status (f x) = status x \<and> deps (f x) = deps x \<and> task (f x) = task x"
    and "ndependencies (f (item (rt S) w)) + (if linking (ins S w) then 1 else 0) =
        ndependencies (item (rt S) w) + (if linking pc then 1 else 0)"
    and "\<And>l. pc \<noteq> Parking l" "\<And>l. pc \<noteq> Launching l"
  shows "safe ps (at_ins w pc r S)"
proof -
  note i = ins_okD(1) [OF safeD(5) [OF assms(1), of w]]
  have h: "heap (rt S) w \<noteq> None" using i assms(4) by auto
  have t: "\<exists>t. task (item (rt S) w) = Some t \<and> ctx t = Some w"
    using node_okD(6) [OF safeD(2) [OF assms(1), of w] h] assms(6) by (simp add: task_ok_def)
  have e: "pc \<noteq> Entering t" for t using assms(7) by auto
  show ?thesis
  proof (rule safe_self [OF assms(1,2) _ h, where f = f])
    show "item r v = (if v = w then f (item (rt S) w) else item (rt S) v)" for v by (simp add: assms(3) item_put)
    show "heap r v = None \<longleftrightarrow> heap (rt S) v = None" for v using h by (simp add: assms(3))
    show "\<exists>t. task (f (item (rt S) w)) = Some t \<and> ctx t = Some w" using t f by simp
    show "ps = ps \<or> ps = w # ps \<and> w \<notin> set ps" by simp
    show "tqueue r = tqueue (rt S)" by (simp add: assms(3))
  qed (use assms f e in auto)
qed

lemma safe_push:
  assumes "safe ps S" "ins S w = Entering t" "push_node w t (rt S) = Some (pc, r)"
  shows "safe (w # ps) (at_ins w pc r S)"
proof -
  note i = ins_okD(1,2) [OF safeD(5) [OF assms(1), of w]]
  have h: "heap (rt S) w \<noteq> None" "w \<notin> set ps" using i assms(2) by auto
  obtain l where r: "r = (put w (\<lambda>y. y\<lparr>task := Some t, nxt := worklist (rt S)\<rparr>) (rt S))\<lparr>worklist := Some w\<rparr>"
    "pc = Visiting (worklist (rt S)) l"
    using assms(3) by (auto simp: push_node_def Let_def bind_eq_Some_conv upd_put split: if_splits)
  have t: "ctx t = Some w"
    using node_okD(6) [OF safeD(2) [OF assms(1), of w] h(1)] assms(2) by (simp add: task_ok_def)
  show ?thesis
  proof (rule safe_self [OF assms(1) order_push [OF safeD(1) [OF assms(1)] assms(2,3)] _ h(1),
        where f = "\<lambda>y. y\<lparr>task := Some t, nxt := worklist (rt S)\<rparr>"])
    show "item r v = (if v = w then (item (rt S) w)\<lparr>task := Some t, nxt := worklist (rt S)\<rparr> else item (rt S) v)" for v
      by (simp add: r(1) item_put)
    show "heap r v = None \<longleftrightarrow> heap (rt S) v = None" for v using h by (simp add: r(1))
    show "tqueue r = tqueue (rt S)" by (simp add: r(1))
  qed (use assms(2) h t r(2) in auto)
qed

lemma safe_look:
  assumes "safe ps S" "ins S w = Visiting (Some p) l" "look_node w p l (rt S) = Some (pc, r)"
  shows "safe ps (at_ins w pc r S)"
proof -
  note o = order_look [OF safeD(1) [OF assms(1)] assms(2,3)]
  from assms(3) show ?thesis
  proof (cases rule: look_node_cases)
    case (escape x a)
    show ?thesis
      by (rule safe_put [OF assms(1) o, where f = "\<lambda>t. t\<lparr>optFlags := optFlags t OR FatherScape\<rparr>"]) (use escape assms(2) in \<open>simp_all add: upd_put\<close>)
  qed (use o assms(1,2) in \<open>auto intro!: safe_read\<close>)
qed

lemma safe_compare:
  assumes "safe ps S" "ins S w = Comparing p l" "compare_node w p l (rt S) = Some (pc, r)"
  shows "safe ps (at_ins w pc r S)"
proof -
  note o = order_compare [OF safeD(1) [OF assms(1)] assms(2,3)]
  from assms(3) show ?thesis
  proof (cases rule: compare_node_cases)
    case (found x n av)
    show ?thesis
      by (rule safe_put [OF assms(1) o, where f = "\<lambda>t. t\<lparr>ndependencies := ndependencies t + 1\<rparr>"]) (use found assms(2) in \<open>simp_all add: upd_put\<close>)
  next
    case (none x n av)
    show ?thesis
      unfolding none(4) by (rule safe_read [OF assms(1) o [unfolded none(4)]]) (use none assms(2) in simp_all)
  qed
qed

lemma safe_flag:
  assumes "safe ps S" "ins S w = Flagging p l" "flag_fills w p l (rt S) = Some (pc, r)"
  shows "safe ps (at_ins w pc r S)"
proof -
  note o = order_flag [OF safeD(1) [OF assms(1)] assms(2,3)]
  from assms(3) show ?thesis
  proof (cases rule: flag_fills_cases)
    case (fill x l')
    show ?thesis
      by (rule safe_put [OF assms(1) o, where f = "\<lambda>t. t\<lparr>optFlags := optFlags t OR PendingFills\<rparr>"]) (use fill assms(2) in \<open>simp_all add: upd_put\<close>)
  next
    case (none x l')
    show ?thesis
      unfolding none(3) by (rule safe_read [OF assms(1) o [unfolded none(3)]]) (use none assms(2) in simp_all)
  qed
qed

lemma safe_decide:
  assumes "safe ps S" "ins S w = Deciding l" "decide w l (rt S) = Some (pc, r)" "order_ok ps (at_ins w pc r S)"
  shows "safe ps (at_ins w pc r S)"
proof -
  have h: "heap (rt S) w \<noteq> None" "r = rt S"
    "pc = (if ndependencies (item (rt S) w) = 0 then Launching l else Parking l)"
    using assms(3) by (auto simp: decide_def bind_eq_Some_conv not_None_eq)
  have "ndependencies (item (rt S) w) = int (card (open_preds S w))"
    using node_okD(4) [OF safeD(2) [OF assms(1), of w] h(1)] by (simp add: count_ok_def assms(2))
  then have "ndependencies (item (rt S) w) = 0 \<longleftrightarrow> open_preds S w = {}"
    using preds_behind(2) [OF assms(1), of w] by simp
  then show ?thesis
    unfolding h(2)
    by (intro safe_read [OF assms(1) assms(4) [unfolded h(2)]])
      (use assms(2) h(3) in \<open>auto split: if_splits\<close>)
qed

text \<open>The dependency is linked.\<close>

lemma safe_link:
  assumes "safe ps S" "ins S w = Linking p l" "append_dep w p l (rt S) = Some (pc, r)"
  shows "safe ps (at_ins w pc r S)"
proof -
  let ?S = "at_ins w pc r S"
  note o = order_link [OF safeD(1) [OF assms(1)] assms(2,3)]
  have r: "r = put p (\<lambda>x. x\<lparr>deps := deps x @ [w]\<rparr>) (rt S)" "heap (rt S) p \<noteq> None" "pc = Flagging p l"
    using assms(3) by (auto simp: append_dep_def bind_eq_Some_conv upd_put)
  have tp: "tied S w p" by (simp add: tied_def assms(2))
  note tb = tied_behind [OF assms(1) r(2) tp]
  have pw: "p \<noteq> w" using tb(1) behind_irrefl [OF safeD(6) [OF assms(1)]] by blast
  have it: "item r v = (if v = p then (item (rt S) p)\<lparr>deps := deps (item (rt S) p) @ [w]\<rparr> else item (rt S) v)" for v
    by (simp add: r(1) item_put)
  have h: "heap r v = None \<longleftrightarrow> heap (rt S) v = None" for v using r(2) by (simp add: r(1))
  have fp: "open_deps S p = deps (item (rt S) p)" "\<And>c k. fin S p \<noteq> Posting c k"
    "open_deps ?S p = deps (item (rt S) p) @ [w]"
    using node_okD(3) [OF safeD(2) [OF assms(1), of p] r(2)] tp
    by (cases "fin S p"; auto simp: open_deps_def free_of_ties_def it)+
  have op: "open_deps ?S c = open_deps S c" if "c \<noteq> p" for c using that by (simp add: open_deps_def it)
  have nw: "w \<notin> set (deps (item (rt S) p))"
    using ins_okD(8) [OF safeD(5) [OF assms(1), of w] r(2)] assms(2) by auto
  have pr: "open_preds ?S v = (if v = w then insert p (open_preds S w) else open_preds S v)" for v
  proof -
    have "c \<in> open_preds ?S v \<longleftrightarrow> c \<in> (if v = w then insert p (open_preds S w) else open_preds S v)" for c
      using op [of c] fp r(2) h [of c] by (cases "c = p") (auto simp: open_preds_def)
    then show ?thesis by blast
  qed
  have du: "due ?S v = due S v" for v
  proof -
    have "fin S c = Posting c k \<and> deps (item r c) ! k = v \<longleftrightarrow>
        fin S c = Posting c k \<and> deps (item (rt S) c) ! k = v" for c k
      using fp(2) by (cases "c = p") (simp_all add: it)
    then show ?thesis by (simp add: due_def)
  qed
  have st: "status (item r v) = status (item (rt S) v)" "ndependencies (item r v) = ndependencies (item (rt S) v)"
    "task (item r v) = task (item (rt S) v)" for v
    by (simp_all add: it)
  have "p \<notin> open_preds S w" using fp(1) nw by (simp add: open_preds_def)
  then have card: "card (open_preds ?S w) = Suc (card (open_preds S w))"
    using preds_behind(2) [OF assms(1), of w] by (simp add: pr)
  have ti: "tied ?S u v = tied S u v" for u v
    using assms(2) nw by (auto simp: tied_def it r(3) split: if_splits)
  have node: "node_ok ps ?S v" if "v \<noteq> w" for v
    by (rule node_ok_frame [OF safeD(2) [OF assms(1)]])
      (use that fp tp in \<open>auto simp: pr du ti h st it free_of_ties_def\<close>)
  have nodew: "node_ok ps ?S w"
  proof -
    note n = inserting_node [OF assms(1) tb(4), unfolded assms(2), simplified]
    have p: "rt ?S = r" "ins ?S w = Flagging p l" "fin ?S w = Active"
      using n(2) r(3) by (simp_all add:)
    have "count_ok S w" "task_ok S w" using node_okD(4,6) [OF safeD(2) [OF assms(1), of w] tb(4)] .
    moreover have "(Filling :: status_t) < Done" by (simp add: less_status_t_def)
    ultimately show ?thesis
      unfolding node_ok_def count_ok_def wait_ok_def task_ok_def p du st card
      using n tb(4) h by (simp add: assms(2))
  qed
  have "due_once ?S"
    using safeD(3) [OF assms(1)] fp(2) unfolding due_once_def by (simp add:it)
  moreover have "queue_ok (rt ?S)"
    using safeD(4) [OF assms(1)] by (simp add: queue_ok_def st h) (simp add: r(1))
  ultimately show ?thesis
    using o node nodew by (metis safe_def)
qed

text \<open>The insertion ends: the task is posted or has to wait.\<close>

lemma safe_settle:
  assumes "safe ps S" "order_ok ps S'" "inserting (ins S w)" "entered (ins S w)" "\<not> linking (ins S w)"
    and S': "ins S' = (ins S)(w := Inside b)" "fin S' = fin S" "heap (rt S) w \<noteq> None"
      "\<And>v. item (rt S') v = (if v = w then (item (rt S) w)\<lparr>status := st\<rparr> else item (rt S) v)"
      "\<And>v. heap (rt S') v = None \<longleftrightarrow> heap (rt S) v = None"
    and st: "st = Waiting \<and> open_preds S w \<noteq> {} \<or> st = Ready \<and> open_preds S w = {}"
    and q: "queue_ok (rt S')"
  shows "safe ps S'"
proof -
  have dp: "deps (item (rt S') c) = deps (item (rt S) c)" for c by (simp add: S'(4))
  have op: "open_deps S' = open_deps S" by (simp add: fun_eq_iff open_deps_def dp S'(2))
  have pr: "open_preds S' = open_preds S" by (simp add: fun_eq_iff open_preds_def op S'(5))
  have du: "due S' = due S" by (simp add: fun_eq_iff due_def dp S'(2))
  have ti: "tied S u v" if "tied S' u v" for u v
    using that by (auto simp: tied_def dp S'(1) split: if_splits)
  note n = inserting_node [OF assms(1) S'(3) assms(3)]
  have "node_ok ps S' w"
  proof -
    have c: "count_ok S w" "task_ok S w" using node_okD(4,6) [OF safeD(2) [OF assms(1), of w] S'(3)] .
    have s: "item (rt S') w = (item (rt S) w)\<lparr>status := st\<rparr>" "ins S' w = Inside b" "fin S' w = Active"
      using S' n(2) by simp_all
    have "st < Done" using st by (auto simp: less_status_t_def)
    then show ?thesis
      unfolding node_ok_def count_ok_def wait_ok_def task_ok_def pr du s
      using c n(3) st S'(3,5) assms(4,5) by (auto simp: count_ok_def task_ok_def)
  qed
  moreover have "node_ok ps S' v" if "v \<noteq> w" for v
    by (rule node_ok_frame [OF safeD(2) [OF assms(1)]]) (use that ti in \<open>auto simp: pr du S'\<close>)
  moreover have "due_once S'"
    using safeD(3) [OF assms(1)] by (simp add: due_once_def dp S'(2))
  ultimately show ?thesis using assms(2) q by (metis safe_def)
qed

lemma queue_other:
  assumes "queue_ok s" "tqueue s' = tqueue s" "\<And>v. heap s' v = None \<longleftrightarrow> heap s v = None"
    and "\<And>v. heap s v \<noteq> None \<Longrightarrow> status (item s' v) = Ready \<longleftrightarrow> status (item s v) = Ready"
  shows "queue_ok s'"
proof -
  have "{v. heap s' v \<noteq> None \<and> status (item s' v) = Ready} = {v. heap s v \<noteq> None \<and> status (item s v) = Ready}"
    by (intro Collect_cong conj_cong) (simp_all add: assms(3,4))
  then show ?thesis using assms(1,2) by (simp add: queue_ok_def)
qed

lemma queue_post:
  assumes "queue_ok s" "heap s w \<noteq> None" "task (item s w) = Some t" "ctx t = Some w" "status (item s w) \<noteq> Ready"
    and "s' = (put w (\<lambda>x. x\<lparr>status := Ready\<rparr>) s)\<lparr>tqueue := tqueue s @ [t]\<rparr>"
  shows "queue_ok s'"
proof -
  have r: "{v. heap s' v \<noteq> None \<and> status (item s' v) = Ready} =
      insert w {v. heap s v \<noteq> None \<and> status (item s v) = Ready}"
    using assms(2) by (auto simp: assms(6) item_put)
  have "Some w \<notin> ctx ` set (tqueue s)"
    using assms(1,5) by (auto simp: queue_ok_def)
  then have "distinct (map ctx (tqueue s'))"
    using assms(1,4) by (simp add: queue_ok_def assms(6))
  moreover have "ctx ` set (tqueue s') = Some ` {v. heap s' v \<noteq> None \<and> status (item s' v) = Ready}"
    unfolding r using assms(1,4) by (simp add: queue_ok_def assms(6))
  ultimately show ?thesis by (simp add: queue_ok_def)
qed

lemma safe_launch:
  assumes "safe ps S" "ins S w = Launching l" "post w (rt S) = Some r"
    and "order_ok ps (at_ins w (Inside b) r S)"
  shows "safe ps (at_ins w (Inside b) r S)"
proof -
  obtain t where t: "heap (rt S) w \<noteq> None" "task (item (rt S) w) = Some t"
    "r = (put w (\<lambda>x. x\<lparr>status := Ready\<rparr>) (rt S))\<lparr>tqueue := tqueue (rt S) @ [t]\<rparr>"
    by (rule post_put [OF assms(3)])
  note n = node_okD [OF safeD(2) [OF assms(1), of w]]
  have "ctx t = Some w" using n(6) [OF t(1)] t(2) by (simp add: task_ok_def assms(2))
  moreover have "status (item (rt S) w) \<noteq> Ready" using n(2) [OF t(1)] by (simp add: assms(2))
  ultimately have q: "queue_ok r" using queue_post [OF safeD(4) [OF assms(1)] t(1,2)] t(3) by blast
  have "open_preds S w = {}" using n(5) [OF t(1)] by (simp add: wait_ok_def assms(2))
  then show ?thesis
    by (intro safe_settle [OF assms(1,4), where w = w and st = Ready])
      (use assms(2) t q in \<open>simp_all add: at_ins_def item_put\<close>)
qed

lemma safe_park:
  assumes "safe ps S" "ins S w = Parking l" "upd w (\<lambda>t. t\<lparr>status := Waiting\<rparr>) (rt S) = Some r"
    and "order_ok ps (at_ins w (Inside b) r S)"
  shows "safe ps (at_ins w (Inside b) r S)"
proof -
  have t: "heap (rt S) w \<noteq> None" "r = put w (\<lambda>x. x\<lparr>status := Waiting\<rparr>) (rt S)"
    using assms(3) by (simp_all add: upd_put)
  note n = node_okD [OF safeD(2) [OF assms(1), of w]]
  have "status (item (rt S) w) = Filling" using n(2) [OF t(1)] by (simp add: assms(2))
  then have q: "queue_ok r"
    by (intro queue_other [OF safeD(4) [OF assms(1)]]) (use t in \<open>simp_all add: item_put\<close>)
  have "open_preds S w \<noteq> {}" using n(5) [OF t(1)] by (simp add: wait_ok_def assms(2))
  then show ?thesis
    by (intro safe_settle [OF assms(1,4), where w = w and st = Waiting])
      (use assms(2) t q in \<open>simp_all add: at_ins_def item_put\<close>)
qed

lemma safe_ins_step:
  assumes "safe ps S" "ins_step w S = Some S'"
  shows "\<exists>ps'. safe ps' S'"
  using assms(2)
proof (cases rule: ins_step_cases)
  case (push t pc r)
  show ?thesis unfolding push(3) by (intro exI) (rule safe_push [OF assms(1) push(1,2)])
next
  case (last_seen l)
  show ?thesis unfolding last_seen(2)
    by (intro exI, rule safe_read [OF assms(1) order_last_seen [OF safeD(1) [OF assms(1)] last_seen(1)]])
      (simp_all add: last_seen(1))
next
  case (look p l pc r)
  show ?thesis unfolding look(3) by (intro exI) (rule safe_look [OF assms(1) look(1,2)])
next
  case (compare p l pc r)
  show ?thesis unfolding compare(3) by (intro exI) (rule safe_compare [OF assms(1) compare(1,2)])
next
  case (link p l pc r)
  show ?thesis unfolding link(3) by (intro exI) (rule safe_link [OF assms(1) link(1,2)])
next
  case (flag p l pc r)
  show ?thesis unfolding flag(3) by (intro exI) (rule safe_flag [OF assms(1) flag(1,2)])
next
  case (decided l pc r)
  show ?thesis unfolding decided(3)
    by (intro exI, rule safe_decide [OF assms(1) decided(1,2) order_decided [OF safeD(1) [OF assms(1)] decided(1,2)]])
next
  case (launch l r)
  show ?thesis unfolding launch(3)
    by (intro exI, rule safe_launch [OF assms(1) launch(1,2) order_launch [OF safeD(1) [OF assms(1)] launch(1,2)]])
next
  case (park l r)
  show ?thesis unfolding park(3)
    by (intro exI, rule safe_park [OF assms(1) park(1,2) order_park [OF safeD(1) [OF assms(1)] park(1,2)]])
qed

section \<open>Completion is safe\<close>

text \<open>An access of a completing thread that releases nobody.\<close>

lemma safe_own:
  assumes "safe ps S" "order_ok ps S'" "heap (rt S) w \<noteq> None" "ins S' = ins S" "\<And>v. v \<noteq> w \<Longrightarrow> fin S' v = fin S v"
    and dom: "\<And>v. heap (rt S') v = None \<longleftrightarrow> heap (rt S) v = None" and tq: "tqueue (rt S') = tqueue (rt S)"
    and same: "\<And>v. ndependencies (item (rt S') v) = ndependencies (item (rt S) v) \<and> task (item (rt S') v) = task (item (rt S) v)"
    and other: "\<And>v. v \<noteq> w \<Longrightarrow> status (item (rt S') v) = status (item (rt S) v) \<and> deps (item (rt S') v) = deps (item (rt S) v)"
    and st: "status (item (rt S') w) = status (item (rt S) w) \<or>
      status (item (rt S) w) \<notin> {Filling, Waiting, Ready} \<and> status (item (rt S') w) \<notin> {Filling, Waiting, Ready}"
    and ds: "deps (item (rt S') w) = deps (item (rt S) w) \<or> deps (item (rt S') w) = []"
    and op: "open_deps S' w = open_deps S w" "\<And>c k. fin S w \<noteq> Posting c k" "\<And>c k. fin S' w \<noteq> Posting c k"
    and fo: "fin_ok ps S' w (fin S' w) (status (item (rt S') w))"
  shows "safe ps S'"
proof -
  have ops: "open_deps S' c = open_deps S c" for c
    using op(1) assms(5) [of c] other [of c] by (cases "c = w") (simp_all add: open_deps_def)
  have pr: "open_preds S' = open_preds S" by (simp add: fun_eq_iff open_preds_def ops dom)
  have du: "due S' = due S"
  proof (rule ext)
    fix v
    have "fin S' c = Posting c k \<and> deps (item (rt S') c) ! k = v \<longleftrightarrow>
        fin S c = Posting c k \<and> deps (item (rt S) c) ! k = v" for c k
      using op(2,3) assms(5) [of c] other [of c] by (cases "c = w") simp_all
    then show "due S' v = due S v" by (simp add: due_def)
  qed
  have ti: "tied S u v" if "tied S' u v" for u v
    using that ds other [of v] assms(4) by (cases "v = w") (auto simp: tied_def)
  have "node_ok ps S' w"
  proof -
    note n = node_okD [OF safeD(2) [OF assms(1), of w]]
    have "inserting (ins S w) \<longrightarrow> status (item (rt S') w) = Filling" using n(2) [OF assms(3)] st by auto
    moreover have "status (item (rt S') w) = Waiting \<longleftrightarrow> status (item (rt S) w) = Waiting" using st by auto
    ultimately show ?thesis
      using n(4-6) [OF assms(3)] fo assms(3) same [of w]
      unfolding node_ok_def count_ok_def wait_ok_def task_ok_def pr du assms(4) dom by simp
  qed
  moreover have "node_ok ps S' v" if "v \<noteq> w" for v
    by (rule node_ok_frame [OF safeD(2) [OF assms(1)]])
      (use that ti assms(4,5) dom same other in \<open>auto simp: pr du\<close>)
  moreover have "due_once S'"
    unfolding due_once_def
  proof (intro allI impI)
    fix c c' k k' assume a: "fin S' c = Posting c k" "fin S' c' = Posting c' k'"
      "deps (item (rt S') c) ! k = deps (item (rt S') c') ! k'"
    then have "c \<noteq> w" "c' \<noteq> w" using op(3) by auto
    then show "c = c'" using a assms(5) other safeD(3) [OF assms(1)] unfolding due_once_def by metis
  qed
  moreover have "queue_ok (rt S')"
    by (rule queue_other [OF safeD(4) [OF assms(1)] tq dom]) (use st other in \<open>metis insertCI\<close>)
  ultimately show ?thesis using assms(2) by (metis safe_def)
qed

text \<open>What the walk has established when it moves on, or ends.\<close>

lemma not_filling_untied:
  assumes "safe ps S" "heap (rt S) c \<noteq> None" "tied S u c" "status (item (rt S) q) \<noteq> Filling"
  shows "u \<noteq> q"
  using tied_behind(3) [OF assms(1-3)] assms(4) by auto

lemma walk_covers:
  assumes "safe ps S" "fin S w = Walking c p" "walk_on w c p (rt S) = Some pc"
  shows "pc = Releasing w 0 \<and> free_of_ties S w \<or>
    (\<exists>p'. pc = Walking w p' \<and> from_ptr ps p' \<subseteq> set ps \<and> (\<forall>u. tied S u w \<longrightarrow> u \<in> from_ptr ps p'))"
proof -
  note n = node_okD [OF safeD(2) [OF assms(1), of w]]
  have h: "heap (rt S) w \<noteq> None" using n(1) assms(2) by auto
  have f: "c = w" "from_ptr ps p \<subseteq> set ps" "\<And>u. tied S u w \<Longrightarrow> u \<in> from_ptr ps p"
    using n(3) [OF h] assms(2) by simp_all
  note d = safeD(6) [OF assms(1)]
  note nf = not_filling_untied [OF assms(1) h]
  show ?thesis
  proof (cases p)
    case None
    then show ?thesis using assms(3) f by (auto simp: walk_on_def free_of_ties_def)
  next
    case (Some q)
    then have q: "q \<in> set ps" and tq: "\<And>u. tied S u w \<Longrightarrow> u = q \<or> u \<in> behind ps q" using f by auto
    show ?thesis
    proof (cases "q = w")
      case True
      have "\<not> tied S u w" for u
      proof
        assume t: "tied S u w"
        then have "w \<in> behind ps u" by (rule tied_behind(1) [OF assms(1) h])
        then show False using tq [OF t] True behind_irrefl [OF d] behind_asym [OF d] by blast
      qed
      then show ?thesis using assms(3) f(1) True Some by (simp add: walk_on_def free_of_ties_def)
    next
      case False
      then obtain x where x: "heap (rt S) q = Some x" "status x \<noteq> Filling"
        using assms(3) Some by (auto simp: walk_on_def bind_eq_Some_conv split: if_splits)
      note b = assms(3) [unfolded walk_on_def Some option.case x(1) Option.bind.simps if_not_P [OF False]
          if_not_P [OF x(2)] f(1)]
      have i: "\<exists>b. ins S q = Inside b"
      proof (rule allocated_inside [OF assms(1), of q])
        show "heap (rt S) q \<noteq> None" using x(1) by simp
        show "\<not> inserting (ins S q)" using node_okD(2) [OF safeD(2) [OF assms(1), of q]] x by auto
      qed blast
      have fl: "flags_ok ps (rt S) q" using ins_okD(4) [OF safeD(5) [OF assms(1), of q]] i by auto
      have tb: "u \<in> behind ps q" if "tied S u w" for u using tq [OF that] nf [OF that, of q] x by auto
      have nxt: "from_ptr ps (nxt x) = behind ps q" by (rule next_rest [OF safeD(1) [OF assms(1)] x(1) q])
      have on: ?thesis if "pc = Walking w (nxt x)" using that tb nxt behind_set by auto
      consider (pend) "pending x" | (plain) "\<not> pending x" "\<not> escaped x"
        | (over) "\<not> pending x" "escaped x" "\<not> status x < Done" | (jump) "\<not> pending x" "escaped x" "status x < Done"
        by blast
      then show ?thesis
      proof cases
        case pend
        then show ?thesis using b on by (simp add: pending_def)
      next
        case plain
        have "\<not> tied S u w" for u
        proof
          assume t: "tied S u w"
          then show False
            using fl tb [OF t] tied_behind(3) [OF assms(1) h t] plain x(1) by (auto simp: flags_ok_def)
        qed
        then show ?thesis using b plain by (simp add: pending_def escaped_def free_of_ties_def)
      next
        case over
        then show ?thesis using b on by (simp add: pending_def escaped_def)
      next
        case jump
        then obtain f y where f: "father x = Some f" "heap (rt S) f = Some y" "pc = Walking w (nxt y)"
          using b by (auto simp: pending_def escaped_def bind_eq_Some_conv)
        have "f \<in> behind ps q" using fl f(1) jump(2) x(1) by (simp add: flags_ok_def)
        then have "f \<in> set ps" using behind_set by blast
        then have nf: "from_ptr ps (nxt y) = behind ps f" by (rule next_rest [OF safeD(1) [OF assms(1)] f(2)])
        have "u \<in> behind ps f" if t: "tied S u w" for u
          using fl tb [OF t] tied_behind(3) [OF assms(1) h t] jump(1) f(1) x(1) by (simp add: flags_ok_def)
        then show ?thesis using f(3) nf behind_set by auto
      qed
    qed
  qed
qed

lemma safe_release:
  assumes "safe ps S" "fin S w = Releasing c k" "heap (rt S) c = Some x" "k < length (deps x)"
    and "upd (deps x ! k) (\<lambda>y. y\<lparr>ndependencies := ndependencies y - 1\<rparr>) (rt S) = Some r"
    and "pc = (if ndependencies (item (rt S) (deps x ! k)) = 1 then Posting c k else Releasing c (Suc k))"
    and "order_ok ps (at_fin w pc r S)"
  shows "safe ps (at_fin w pc r S)"
proof -
  let ?S = "at_fin w pc r S" and ?v = "deps x ! k"
  note n = node_okD [OF safeD(2) [OF assms(1), of w]]
  have h: "heap (rt S) w \<noteq> None" using n(1) assms(2) by auto
  have w: "c = w" "status (item (rt S) w) = Done" "free_of_ties S w" using n(3) [OF h] assms(2) by simp_all
  have x: "item (rt S) w = x" using assms(3) w(1) by simp
  have vin: "?v \<in> set (deps (item (rt S) w))" using assms(4) x by simp
  note dv = dependent_inside [OF assms(1) h vin w(3)]
  have r: "heap (rt S) ?v \<noteq> None" "r = put ?v (\<lambda>y. y\<lparr>ndependencies := ndependencies y - 1\<rparr>) (rt S)"
    using assms(5) by (simp_all add: upd_put)
  have it: "item r u = (if u = ?v then (item (rt S) u)\<lparr>ndependencies := ndependencies (item (rt S) u) - 1\<rparr> else item (rt S) u)" for u
    by (simp add: r(2) item_put)
  have dom: "heap r u = None \<longleftrightarrow> heap (rt S) u = None" for u using r(1) by (simp add: r(2))
  have dp: "deps (item r u) = deps (item (rt S) u)" and st: "status (item r u) = status (item (rt S) u)"
    and tk: "task (item r u) = task (item (rt S) u)" for u by (simp_all add: it)
  have dr: "drop k (deps x) = ?v # drop (Suc k) (deps x)" using assms(4) by (simp add: Cons_nth_drop_Suc)
  have dis: "distinct (deps x)" using safeD(7) [OF assms(1) h] x by simp
  then have "distinct (drop k (deps x))" by simp
  then have nv: "?v \<notin> set (drop (Suc k) (deps x))" unfolding dr by simp
  have opw: "open_deps S w = ?v # drop (Suc k) (deps x)" "open_deps ?S w = drop (Suc k) (deps x)"
    using assms(2,6) x by (simp_all add: open_deps_def Let_def dp dr w(1))
  have op: "open_deps ?S u = open_deps S u" if "u \<noteq> w" for u using that by (simp add: open_deps_def dp)
  have pr: "open_preds ?S u = (if u = ?v then open_preds S ?v - {w} else open_preds S u)" for u
  proof -
    have "a \<in> open_preds ?S u \<longleftrightarrow> a \<in> (if u = ?v then open_preds S ?v - {w} else open_preds S u)" for a
      using op [of a] opw nv by (cases "a = w") (simp_all add: open_preds_def dom)
    then show ?thesis by blast
  qed
  have wp: "w \<in> open_preds S ?v" using opw(1) h by (simp add: open_preds_def)
  note nvok = node_okD [OF safeD(2) [OF assms(1), of ?v]]
  have nd: "\<not> due S ?v" using nvok(5) [OF r(1)] wp by (auto simp: wait_ok_def)
  have wait: "status (item (rt S) ?v) = Waiting" using nvok(5) [OF r(1)] wp dv(1) by (auto simp: wait_ok_def)
  have nl: "\<not> linking (ins S ?v)" using dv(1) by auto
  have card: "ndependencies (item (rt S) ?v) = int (card (open_preds S ?v))"
    using nvok(4) [OF r(1)] nl by (simp add: count_ok_def)
  have card': "card (open_preds S ?v) = Suc (card (open_preds S ?v - {w}))"
    using card_Suc_Diff1 [OF preds_behind(2) [OF assms(1)] wp] by simp
  have one: "ndependencies (item (rt S) ?v) = 1 \<longleftrightarrow> open_preds S ?v - {w} = {}"
    using card card' preds_behind(2) [OF assms(1), of ?v] by simp
  let ?last = "ndependencies (item (rt S) ?v) = 1"
  have fin: "fin ?S u = Posting b j \<longleftrightarrow> (if u = w then ?last \<and> b = w \<and> j = k else fin S u = Posting b j)" for u b j
    using assms(6) w(1) by auto
  have du: "due ?S u \<longleftrightarrow> due S u \<or> ?last \<and> u = ?v" for u
  proof -
    have "fin ?S a = Posting a j \<and> deps (item (rt ?S) a) ! j = u \<longleftrightarrow>
        (if a = w then ?last \<and> j = k \<and> ?v = u else fin S a = Posting a j \<and> deps (item (rt S) a) ! j = u)" for a j
      unfolding fin using x by (auto simp: dp)
    moreover have "fin S w \<noteq> Posting a j" for a j using assms(2) by simp
    ultimately show ?thesis unfolding due_def by (metis (no_types, lifting))
  qed
  have ti: "tied ?S u a = tied S u a" for u a by (simp add: tied_def dp)
  have "node_ok ps ?S u" for u
  proof -
    consider "u = w" | "u = ?v" | "u \<noteq> w" "u \<noteq> ?v" by blast
    then show ?thesis
    proof cases
      case 1
      have "free_of_ties (at_fin w q r S) w" for q using w(3) by (simp add: free_of_ties_def tied_def dp)
      then have "fin_ok ps ?S w (fin ?S w) (status (item (rt ?S) w))"
        using assms(4,6) w(1,2) x by (simp add: st dp)
      moreover have "item r w = item (rt S) w" "\<not> inserting (ins S w)" using dv(3) n(2) [OF h] w(2) by (auto simp: it)
      ultimately show ?thesis
        using n(4-6) [OF h] h dv(3) 1
        unfolding node_ok_def count_ok_def wait_ok_def task_ok_def pr du by (simp add: dom)
    next
      case 2
      have ne: "?v \<noteq> w" by (rule dv(3))
      have f: "fin_ok ps ?S ?v (fin S ?v) (status (item r ?v))"
        using nvok(3) [OF r(1)] wait by (cases "fin S ?v") (simp_all add: st)
      have i: "\<not> inserting (ins S ?v)" using dv(1) by auto
      have c: "count_ok ?S ?v"
        unfolding count_ok_def pr using card card' nl it [of ?v] by simp
      have wt: "wait_ok ?S ?v"
        unfolding wait_ok_def pr du using dv(1) nd wait one st [of ?v] by auto
      have t: "task_ok ?S ?v" using nvok(6) [OF r(1)] by (simp add: task_ok_def tk)
      show ?thesis
        unfolding 2 node_ok_def using f i c wt t ne r(1) by (simp add: dom)
    next
      case 3
      show ?thesis
        by (rule node_ok_frame [OF safeD(2) [OF assms(1)]])
          (use 3 ti in \<open>auto simp: pr du dom st dp tk it\<close>)
    qed
  qed
  moreover have "due_once ?S"
    unfolding due_once_def
  proof (intro allI impI)
    fix a a' j j' assume a: "fin ?S a = Posting a j" "fin ?S a' = Posting a' j'"
      "deps (item (rt ?S) a) ! j = deps (item (rt ?S) a') ! j'"
    have no: False if "fin S b = Posting b i" "deps (item (rt S) b) ! i = ?v" for b i
      using nd that by (auto simp: due_def)
    show "a = a'"
    proof (cases "a = w"; cases "a' = w")
      assume "a \<noteq> w" "a' \<noteq> w"
      then have "fin S a = Posting a j" "fin S a' = Posting a' j'"
        "deps (item (rt S) a) ! j = deps (item (rt S) a') ! j'"
        using a unfolding fin by (simp_all add: dp)
      then show ?thesis by (rule safeD(3) [OF assms(1), unfolded due_once_def, rule_format])
    next
      assume "a = w" "a' \<noteq> w"
      then show ?thesis using a no [of a' j'] x unfolding fin by (simp add: dp)
    next
      assume "a \<noteq> w" "a' = w"
      then show ?thesis using a no [of a j] x unfolding fin by (simp add: dp)
    qed simp
  qed
  moreover have "queue_ok (rt ?S)"
    by (rule queue_other [OF safeD(4) [OF assms(1)]]) (simp_all add: dom st, simp add: r(2))
  ultimately show ?thesis using assms(7) by (metis safe_def)
qed

lemma safe_post:
  assumes "safe ps S" "fin S w = Posting c k" "post_next c k (rt S) = Some (pc, r)" "order_ok ps (at_fin w pc r S)"
  shows "safe ps (at_fin w pc r S)"
proof -
  let ?S = "at_fin w pc r S" and ?v = "deps (item (rt S) w) ! k"
  note n = node_okD [OF safeD(2) [OF assms(1), of w]]
  have h: "heap (rt S) w \<noteq> None" using n(1) assms(2) by auto
  have w: "c = w" "status (item (rt S) w) = Done" "free_of_ties S w" "k < length (deps (item (rt S) w))"
    using n(3) [OF h] assms(2) by simp_all
  have p: "post ?v (rt S) = Some r" "pc = Releasing w (Suc k)"
    using assms(3) w(1) by (auto simp: post_next_def bind_eq_Some_conv)
  obtain t where t: "heap (rt S) ?v \<noteq> None" "task (item (rt S) ?v) = Some t"
    "r = (put ?v (\<lambda>x. x\<lparr>status := Ready\<rparr>) (rt S))\<lparr>tqueue := tqueue (rt S) @ [t]\<rparr>"
    by (rule post_put [OF p(1)])
  note dv = dependent_inside [OF assms(1) h nth_mem [OF w(4)] w(3)]
  have it: "item r u = (if u = ?v then (item (rt S) u)\<lparr>status := Ready\<rparr> else item (rt S) u)" for u
    by (simp add: t(3) item_put)
  have dom: "heap r u = None \<longleftrightarrow> heap (rt S) u = None" for u using t(1) by (simp add: t(3))
  have dp: "deps (item r u) = deps (item (rt S) u)" and nd: "ndependencies (item r u) = ndependencies (item (rt S) u)"
    and tk: "task (item r u) = task (item (rt S) u)" for u by (simp_all add: it)
  have op: "open_deps ?S u = open_deps S u" for u
    using assms(2) p(2) by (cases "u = w") (simp_all add: open_deps_def dp)
  have pr: "open_preds ?S u = open_preds S u" for u by (simp add: open_preds_def op dom)
  have dv': "due S ?v" using assms(2) w(1) by (auto simp: due_def)
  have du: "due ?S u \<longleftrightarrow> due S u \<and> u \<noteq> ?v" for u
  proof -
    have "fin ?S a = Posting a j \<and> deps (item (rt ?S) a) ! j = u \<longleftrightarrow>
        fin S a = Posting a j \<and> deps (item (rt S) a) ! j = u \<and> u \<noteq> ?v" for a j
    proof (cases "a = w")
      case True
      then show ?thesis using assms(2) p(2) w(1) by auto
    next
      case False
      have "\<not> (fin S a = Posting a j \<and> deps (item (rt S) a) ! j = ?v)"
        using safeD(3) [OF assms(1)] assms(2) w(1) False unfolding due_once_def by blast
      then show ?thesis using False by (auto simp: dp)
    qed
    then show ?thesis unfolding due_def by blast
  qed
  have ti: "tied ?S u a = tied S u a" for u a by (simp add: tied_def dp)
  note nvok = node_okD [OF safeD(2) [OF assms(1), of ?v]]
  have wait: "status (item (rt S) ?v) = Waiting" "open_preds S ?v = {}"
    using nvok(5) [OF t(1)] dv' dv(1) by (auto simp: wait_ok_def)
  have "node_ok ps ?S u" for u
  proof -
    consider "u = w" | "u = ?v" | "u \<noteq> w" "u \<noteq> ?v" by blast
    then show ?thesis
    proof cases
      case 1
      have "free_of_ties ?S w" "\<not> inserting (ins S w)"
        using w(2,3) n(2) [OF h] by (auto simp: free_of_ties_def ti)
      moreover have "item r w = item (rt S) w" using dv(3) by (simp add: it)
      ultimately show ?thesis
        using n(2,4-6) [OF h] h dv(3) 1 w(2) p(2)
        unfolding node_ok_def count_ok_def wait_ok_def task_ok_def pr du by (simp add: dom)
    next
      case 2
      have ne: "?v \<noteq> w" by (rule dv(3))
      have f: "fin_ok ps ?S ?v (fin S ?v) Ready"
        using nvok(3) [OF t(1)] wait by (cases "fin S ?v") (simp_all add: less_status_t_def)
      have s: "status (item r ?v) = Ready" by (simp add: it)
      have i: "\<not> inserting (ins S ?v)" using dv(1) by auto
      have wt: "wait_ok ?S ?v" unfolding wait_ok_def pr du using dv(1) wait(2) s by auto
      have c: "count_ok ?S ?v" "task_ok ?S ?v"
        using nvok(4,6) [OF t(1)] by (simp_all add: count_ok_def task_ok_def pr nd tk)
      show ?thesis
        unfolding 2 node_ok_def using f s i c wt ne t(1) by (simp add: dom)
    next
      case 3
      show ?thesis
        by (rule node_ok_frame [OF safeD(2) [OF assms(1)]])
          (use 3 ti in \<open>auto simp: pr du dom nd dp tk it\<close>)
    qed
  qed
  moreover have "due_once ?S"
    using safeD(3) [OF assms(1)] p(2) unfolding due_once_def by (simp add: dp)
  moreover have "queue_ok (rt ?S)"
  proof -
    have "ctx t = Some ?v" using nvok(6) [OF t(1)] dv(1) t(2) by (auto simp: task_ok_def)
    then show ?thesis
      using queue_post [OF safeD(4) [OF assms(1)] t(1,2)] wait(1) t(3) by simp
  qed
  ultimately show ?thesis using assms(4) by (metis safe_def)
qed

lemma safe_fin_step:
  assumes "safe ps S" "fin_step w S = Some S'" "\<not> climbs w S"
  shows "safe ps S'"
proof -
  note o = order_fin_step [OF safeD(1) [OF assms(1)] assms(2)]
  note n = node_okD [OF safeD(2) [OF assms(1), of w]]
  have act: "fin S w \<noteq> Active" using assms(2) by (auto simp: fin_step_def)
  then have h: "heap (rt S) w \<noteq> None" using n(1) by auto
  note fo = n(3) [OF h]
  have d: "\<not> Done < Done" by (simp add: less_status_t_def)
  from assms(2) show ?thesis
  proof (cases rule: fin_step_cases)
    case (mark c r)
    then have c: "c = w" "status (item (rt S) w) = Running" "r = put w (\<lambda>x. x\<lparr>status := Done\<rparr>) (rt S)"
      using fo by (simp_all add: upd_put)
    show ?thesis
      by (rule safe_own [OF assms(1) o h]) (use mark c h in \<open>auto simp: item_put open_deps_def\<close>)
  next
    case (load c)
    then have c: "c = w" "status (item (rt S) w) = Done" using fo by simp_all
    have f: "from_ptr ps (worklist (rt S)) = set ps" by (rule from_ptr_head [OF order_simps(1) [OF safeD(1) [OF assms(1)]]])
    have "u \<in> set ps" if "tied S' u w" for u
    proof -
      have "tied S u w" using that load(2) by (simp add: tied_def)
      then show ?thesis by (rule tied_behind(2) [OF assms(1) h])
    qed
    then show ?thesis
      by (intro safe_own [OF assms(1) o h]) (use load c f in \<open>auto simp: open_deps_def\<close>)
  next
    case (walk c p pc)
    then have c: "status (item (rt S) w) = Done" using fo by simp
    have ti: "tied S' u v = tied S u v" for u v using walk(3) by (simp add: tied_def)
    have ft: "free_of_ties S' w = free_of_ties S w" by (simp add: free_of_ties_def ti)
    show ?thesis
      by (rule safe_own [OF assms(1) o h])
        (use walk c walk_covers [OF assms(1) walk(1,2)] ti ft in \<open>auto simp: open_deps_def\<close>)
  next
    case (release c k pc r)
    from release(2) show ?thesis
    proof (cases rule: release_next_cases)
      case (dec x y)
      then show ?thesis
        unfolding release(3)
        by (intro safe_release [OF assms(1) release(1) dec(1,2,4)]) (use o release(3) in simp_all)
    next
      case (finished x)
      then have c: "c = w" "status (item (rt S) w) = Done" "free_of_ties S w" "item (rt S) w = x"
        using fo release(1) by simp_all
      have "free_of_ties S' w" using c(3) release(3) finished(4) by (simp add: free_of_ties_def tied_def)
      then show ?thesis
        by (intro safe_own [OF assms(1) o h]) (use release finished c in \<open>auto simp: open_deps_def Let_def\<close>)
    qed
  next
    case (post_dep c k pc r)
    show ?thesis unfolding post_dep(3)
      by (rule safe_post [OF assms(1) post_dep(1,2) o [unfolded post_dep(3)]])
  next
    case (free c r)
    then have c: "c = w" "status (item (rt S) w) = Done" "free_of_ties S w" "r = put w (\<lambda>x. x\<lparr>deps := [], args := []\<rparr>) (rt S)"
      using fo by (simp_all add: upd_put)
    have "free_of_ties S' w" using c free by (simp add: free_of_ties_def tied_def item_put)
    then show ?thesis
      by (intro safe_own [OF assms(1) o h]) (use free c h in \<open>auto simp: item_put open_deps_def Let_def\<close>)
  next
    case (retired c pc r)
    then have c: "c = w" "status (item (rt S) w) = Done" "free_of_ties S w" "deps (item (rt S) w) = []"
      "r = put w (\<lambda>x. x\<lparr>status := Deallocatable\<rparr>) (rt S)" "pc = Returned \<or> (\<exists>f. pc = Climbing f)"
      using fo by (auto simp: retire_def bind_eq_Some_conv upd_put split: option.splits)
    have "free_of_ties S' w" using c retired by (simp add: free_of_ties_def tied_def item_put)
    then show ?thesis
      by (intro safe_own [OF assms(1) o h]) (use retired c h in \<open>auto simp: item_put open_deps_def Let_def\<close>)
  next
    case (climb f pc r)
    then have c: "status (item (rt S) w) = Deallocatable" "free_of_ties S w" "deps (item (rt S) w) = []"
      "heap (rt S) f \<noteq> None" "r = put f (\<lambda>x. x\<lparr>nchildren := nchildren x - 1\<rparr>) (rt S)" "pc = Returned"
      using fo assms(3) by (auto simp: count_child_def climbs_def bind_eq_Some_conv upd_put split: if_splits)
    have "free_of_ties S' w" using c climb by (cases "f = w") (simp_all add: free_of_ties_def tied_def item_put)
    then show ?thesis
      by (intro safe_own [OF assms(1) o h]) (use climb c h in \<open>auto simp: item_put open_deps_def Let_def\<close>)
  qed
qed

section \<open>All the steps are safe\<close>

lemma safe_finish:
  assumes "safe ps S" "in_function w S" "count_child w (rt S) = Some (pc, r)" "order_ok ps (at_fin w pc r S)"
  shows "safe ps (at_fin w pc r S)"
proof -
  note f = in_functionD [OF assms(2)]
  have r: "r = put w (\<lambda>x. x\<lparr>nchildren := nchildren x - 1\<rparr>) (rt S)" "pc = Marking w \<or> pc = Returned"
    using assms(3) by (auto simp: count_child_def bind_eq_Some_conv upd_put split: if_splits)
  show ?thesis
    by (rule safe_own [OF assms(1,4) f(1)]) (use f r in \<open>auto simp: item_put open_deps_def Let_def\<close>)
qed

lemma safe_start:
  assumes "safe ps S" "tqueue (rt S) = t # ts" "run_begin t (rt S\<lparr>tqueue := ts\<rparr>) = Some r"
    and "S' = S\<lparr>rt := r\<rparr>" "order_ok ps S'"
  shows "safe ps S'"
proof -
  let ?R = "\<lambda>s. {v. heap s v \<noteq> None \<and> status (item s v) = Ready}"
  note q = safeD(4) [OF assms(1), unfolded queue_ok_def assms(2)]
  obtain c where c: "ctx t = Some c" "heap (rt S) c \<noteq> None" "status (item (rt S) c) = Ready"
  proof -
    have "ctx t \<in> Some ` ?R (rt S)" using q by (metis image_eqI list.set_intros(1))
    then show thesis using that by auto
  qed
  have r: "r = (put c (\<lambda>x. x\<lparr>status := Running\<rparr>) (rt S\<lparr>tqueue := ts\<rparr>))"
    using assms(3) c(1) by (simp add: run_begin_def upd_put)
  have it: "item r v = (if v = c then (item (rt S) c)\<lparr>status := Running\<rparr> else item (rt S) v)" for v
    by (simp add: r item_put)
  have dom: "heap r v = None \<longleftrightarrow> heap (rt S) v = None" for v using c(2) by (simp add: r)
  have dp: "deps (item r v) = deps (item (rt S) v)" for v by (simp add: it)
  have S: "ins S' = ins S" "fin S' = fin S" "rt S' = r" using assms(4) by simp_all
  have op: "open_deps S' = open_deps S" by (simp add: fun_eq_iff open_deps_def dp S)
  have pr: "open_preds S' = open_preds S" by (simp add: fun_eq_iff open_preds_def op dom S)
  have du: "due S' = due S" by (simp add: fun_eq_iff due_def dp S)
  have ti: "tied S' u v = tied S u v" for u v by (simp add: tied_def dp S)
  note n = node_okD [OF safeD(2) [OF assms(1), of c]]
  have "node_ok ps S' c"
  proof -
    have "\<not> inserting (ins S c)" using n(2) [OF c(2)] c(3) by auto
    moreover have "fin_ok ps S' c (fin S c) Running"
      using n(3) [OF c(2)] c(3) by (cases "fin S c") (simp_all add: less_status_t_def)
    ultimately show ?thesis
      using n(4-6) [OF c(2)] c(2,3) it [of c]
      unfolding node_ok_def count_ok_def wait_ok_def task_ok_def pr du S by (simp add: dom)
  qed
  moreover have "node_ok ps S' v" if "v \<noteq> c" for v
    by (rule node_ok_frame [OF safeD(2) [OF assms(1)]]) (use that ti in \<open>auto simp: pr du S dom it\<close>)
  moreover have "due_once S'"
    using safeD(3) [OF assms(1)] by (simp add: due_once_def dp S)
  moreover have "queue_ok (rt S')"
  proof -
    have R: "?R r = ?R (rt S) - {c}"
      using c(2) by (auto simp: dom it)
    have "Some c \<notin> ctx ` set ts" "insert (Some c) (ctx ` set ts) = Some ` ?R (rt S)"
      using q c(1) by (simp_all flip: set_map)
    then have "ctx ` set ts = Some ` ?R (rt S) - {Some c}" by (metis Diff_insert_absorb)
    also have "\<dots> = Some ` (?R (rt S) - {c})" by auto
    finally show ?thesis
      using q unfolding queue_ok_def S R by (simp add: r)
  qed
  ultimately show ?thesis using assms(5) by (metis safe_def)
qed

lemma safe_spawn:
  assumes "safe ps S" "heap (rt S) w = None" "\<And>a. fa = Some a \<Longrightarrow> in_function a S"
    and "new_workitem w as n fa (rt S) = Some r" "ctx t = Some w"
  shows "safe ps (at_ins w (Entering t) r S)"
proof -
  let ?S = "at_ins w (Entering t) r S"
  note o = order_spawn [OF safeD(1) [OF assms(1)] assms(2-4)]
  have fa: "heap (rt S) a \<noteq> None \<and> a \<noteq> w" if "fa = Some a" for a
    using assms(2) in_functionD(1) [OF assms(3) [OF that]] by auto
  note it = new_workitem_items(1) [OF assms(4) fa] and dom = new_workitem_items(2) [OF assms(4) fa]
    and tq = new_workitem_items(4) [OF assms(4) fa]
  have same: "status (item r v) = status (item (rt S) v)" "deps (item r v) = deps (item (rt S) v)"
    "ndependencies (item r v) = ndependencies (item (rt S) v)" "task (item r v) = task (item (rt S) v)" if "v \<noteq> w" for v
    using that by (simp_all add: it)
  have new: "item r w = built as n fa" by (simp add: it)
  note iw = ins_okD [OF safeD(5) [OF assms(1), of w]]
  have out: "ins S w = Outside" "w \<notin> set ps" using iw(1,2) assms(2) by auto
  have nd: "w \<notin> set (deps (item (rt S) c))" if "heap (rt S) c \<noteq> None" for c
    using iw(8) [OF that] behind_outside [OF out(2)] by auto
  have fw: "fin S w = Active" by (rule node_okD(1) [OF safeD(2) [OF assms(1)] assms(2)])
  have op: "open_deps ?S c = (if c = w then [] else open_deps S c)" for c
    using same(2) [of c] fw by (simp add: open_deps_def new built_def)
  have pr: "open_preds ?S = open_preds S" by (auto simp: fun_eq_iff open_preds_def op dom assms(2))
  have du: "due ?S = due S"
  proof (rule ext)
    fix v
    have "fin S c = Posting c k \<and> deps (item r c) ! k = v \<longleftrightarrow> fin S c = Posting c k \<and> deps (item (rt S) c) ! k = v" for c k
      using same(2) [of c] fw by (cases "c = w") auto
    then show "due ?S v = due S v" by (simp add: due_def)
  qed
  have ti: "tied S u v" if "tied ?S u v" "heap (rt S) v \<noteq> None" for u v
  proof -
    have v: "v \<noteq> w" using that(2) assms(2) by auto
    show ?thesis
      using that(1) nd [OF that(2)] same(2) [OF v] by (auto simp: tied_def split: if_splits)
  qed
  have "node_ok ps ?S w"
  proof -
    have "open_preds S w = {}" using nd open_subset by (fastforce simp: open_preds_def)
    moreover have "\<not> due S w"
    proof
      assume "due S w"
      then show False by (rule due_inside [OF assms(1)]) (use assms(2) in simp)
    qed
    ultimately show ?thesis
      unfolding node_ok_def count_ok_def wait_ok_def task_ok_def pr du
      by (simp add: fw new built_def assms(5) less_status_t_def)
  qed
  moreover have "node_ok ps ?S v" if "v \<noteq> w" for v
    by (rule node_ok_frame [OF safeD(2) [OF assms(1)]]) (use that ti same in \<open>auto simp: pr du dom\<close>)
  moreover have "due_once ?S"
    unfolding due_once_def
  proof (intro allI impI)
    fix a a' j j' assume a: "fin ?S a = Posting a j" "fin ?S a' = Posting a' j'"
      "deps (item (rt ?S) a) ! j = deps (item (rt ?S) a') ! j'"
    then have "a \<noteq> w" "a' \<noteq> w" using fw by auto
    then have "fin S a = Posting a j" "fin S a' = Posting a' j'"
      "deps (item (rt S) a) ! j = deps (item (rt S) a') ! j'"
      using a same(2) [of a] same(2) [of a'] by simp_all
    then show "a = a'" by (rule safeD(3) [OF assms(1), unfolded due_once_def, rule_format])
  qed
  moreover have "queue_ok (rt ?S)"
  proof -
    have "{v. heap r v \<noteq> None \<and> status (item r v) = Ready} = {v. heap (rt S) v \<noteq> None \<and> status (item (rt S) v) = Ready}"
    proof (rule Collect_cong)
      fix v
      show "heap r v \<noteq> None \<and> status (item r v) = Ready \<longleftrightarrow> heap (rt S) v \<noteq> None \<and> status (item (rt S) v) = Ready"
        using same(1) [of v] assms(2) dom [of v] new by (cases "v = w") (simp_all add: built_def)
    qed
    then show ?thesis using safeD(4) [OF assms(1)] by (simp add: queue_ok_def tq)
  qed
  ultimately show ?thesis using o by (metis safe_def)
qed

lemma safe_step:
  assumes "safe ps S" "hs_step U False S S'"
  shows "\<exists>ps'. safe ps' S'"
  using assms(2)
proof (cases rule: hs_step.cases)
  case (spawn as w fa r f)
  have "safe ps S'"
    unfolding spawn(1) by (rule safe_spawn [OF assms(1) spawn(3) _ spawn(5)]) (use spawn(4) in auto)
  then show ?thesis ..
next
  case (insert w)
  then show ?thesis using safe_ins_step [OF assms(1)] by blast
next
  case (start t ts r)
  note o = order_start [OF safeD(1) [OF assms(1)] start(2,3)]
  have "safe ps S'" by (rule safe_start [OF assms(1) start(2,3,1)]) (simp add: start(1) o)
  then show ?thesis ..
next
  case (finish w pc r)
  note o = order_finish [OF safeD(1) [OF assms(1)] finish(4)]
  have "safe ps S'" unfolding finish(1) by (rule safe_finish [OF assms(1) finish(2,4) o])
  then show ?thesis ..
next
  case (complete w)
  then show ?thesis using safe_fin_step [OF assms(1)] by blast
qed

lemma safe_reachable:
  assumes "hs_reachable U False S"
  obtains ps where "safe ps S"
proof -
  have "\<exists>ps. safe ps S"
    using assms
  proof (induction rule: hs_reachable.induct)
    case (init S)
    then have "order_ok [] S" by (simp add: hs_initial_def order_ok_def ins_ok_def)
    then have "safe [] S"
      using init by (simp add: safe_def hs_initial_def node_ok_def due_once_def queue_ok_def)
    then show ?case ..
  next
    case (step S S')
    then show ?case using safe_step by blast
  qed
  then show thesis using that by blast
qed

section \<open>Properties\<close>

definition releasing :: "fin_pc \<Rightarrow> bool" where
  "releasing pc = (case pc of Releasing _ _ \<Rightarrow> True | Posting _ _ \<Rightarrow> True | Freeing _ \<Rightarrow> True | Retiring _ \<Rightarrow> True | _ \<Rightarrow> False)"

text \<open>
  C7: The hand-shake keeps its promise when no subtask finishes its father: once a thread that completes
  a task starts to release its dependents, no task on its way in reads the arguments of the completed
  task, is about to be linked to it or is among its dependents; so no dependency is lost, no task
  is released before it is inserted, and nobody reads arguments that are freed.
\<close>

theorem released_tasks_are_untied:
  assumes "hs_reachable U False S" "heap (rt S) c = Some x" "releasing (fin S c) \<or> status x = Deallocatable"
    and "inserting (ins S v)"
  shows "engaged (ins S v) \<noteq> Some c \<and> v \<notin> set (deps x)"
proof -
  obtain ps where ps: "safe ps S" by (rule safe_reachable [OF assms(1)])
  have "fin_ok ps S c (fin S c) (status x)" using node_okD(3) [OF safeD(2) [OF ps], of c] assms(2) by simp
  then have "free_of_ties S c"
    using assms(3) by (cases "fin S c") (auto simp: releasing_def less_status_t_def)
  then show ?thesis using assms(2,4) by (simp add: free_of_ties_def tied_def)
qed

lemma released_tasks_are_untied_witness:
  "\<exists>S x. happens False 2 late_run idle_hs = Some S \<and> heap (rt S) 0 = Some x \<and> fin S 0 = Releasing 0 0 \<and>
     inserting (ins S 1) \<and> engaged (ins S 1) \<noteq> Some 0 \<and> 1 \<notin> set (deps x)"
proof -
  have "map_option (\<lambda>S. (heap (rt S) 0 = None, fin S 0, inserting (ins S 1))) (happens False 2 late_run idle_hs) =
      Some (False, Releasing 0 0, True)"
    by code_simp
  then obtain S x where S: "happens False 2 late_run idle_hs = Some S" "heap (rt S) 0 = Some x" "fin S 0 = Releasing 0 0"
    "inserting (ins S 1)"
    by (auto simp: not_None_eq)
  note r = sample_hs(1) [OF S(1)]
  have "releasing (fin S 0)" by (simp add: S(3) releasing_def)
  then show ?thesis using released_tasks_are_untied [OF r S(2) _ S(4)] S by simp
qed



declare not_None_eq [simp]

end
