(* ===== verification/HandshakeLive.thy ===== *)
theory HandshakeLive
  imports HandshakeSafe
begin

text \<open>
  What the hand-shake gives to tasks without fathers: the functions of conflicting tasks never run
  at the same time, and the threads come to rest only when all tasks are finished.
\<close>

declare not_None_eq [simp del]

section \<open>The invariant\<close>

definition no_fathers :: "runtime \<Rightarrow> bool" where
  "no_fathers s \<longleftrightarrow> (\<forall>v. heap s v \<noteq> None \<longrightarrow> father (item s v) = None)"

text \<open>The older tasks that a thread has still to compare with its own.\<close>

fun todo :: "wid list \<Rightarrow> ins_pc \<Rightarrow> wid set" where
  "todo ps (Visiting p _) = from_ptr ps p"
| "todo ps (Comparing p _) = from_ptr ps (Some p)"
| "todo ps (Linking p _) = behind ps p"
| "todo ps (Flagging p _) = behind ps p"
| "todo ps _ = {}"

definition clash :: "hs \<Rightarrow> wid \<Rightarrow> wid \<Rightarrow> bool" where
  "clash S q v \<longleftrightarrow>
     status (item (rt S) q) < Done \<and> conflicts (args (item (rt S) q)) (args (item (rt S) v))"

definition bound :: "hs \<Rightarrow> wid \<Rightarrow> wid \<Rightarrow> bool" where
  "bound S v r \<longleftrightarrow> v \<in> set (open_deps S r) \<or> (\<exists>l. ins S v = Linking r l)"

text \<open>The task \<open>v\<close> waits for \<open>q\<close>, or for a task between them that conflicts with \<open>q\<close>.\<close>

definition covered :: "wid list \<Rightarrow> hs \<Rightarrow> wid \<Rightarrow> wid \<Rightarrow> bool" where
  "covered ps S v q \<longleftrightarrow>
     (\<exists>r \<in> behind ps v. bound S v r \<and>
        (r = q \<or> q \<in> behind ps r \<and> conflicts (args (item (rt S) q)) (args (item (rt S) r))))"

text \<open>The vector of the arguments that are still to be compared.\<close>

definition argv_ok :: "wid list \<Rightarrow> hs \<Rightarrow> wid \<Rightarrow> locals \<Rightarrow> bool" where
  "argv_ok ps S v l \<longleftrightarrow>
     (\<exists>ws. subseq ws (args (item (rt S) v)) \<and> vec_holds (n_args l, argv l) ws \<and>
        (\<forall>q \<in> behind ps v \<inter> todo ps (ins S v). clash S q v \<longrightarrow>
           conflicts (args (item (rt S) q)) ws \<or> covered ps S v q))"

definition live_ok :: "arg_info list set \<Rightarrow> wid list \<Rightarrow> hs \<Rightarrow> wid \<Rightarrow> bool" where
  "live_ok U ps S v \<longleftrightarrow>
     (status (item (rt S) v) \<noteq> Deallocatable \<longrightarrow> (\<forall>c. fin S v \<noteq> Retiring c) \<longrightarrow> args (item (rt S) v) \<in> U) \<and>
     (\<forall>t. ins S v = Entering t \<longrightarrow> nargs (item (rt S) v) = word_of_nat (length (args (item (rt S) v)))) \<and>
     (\<forall>l. locals_of (ins S v) = Some l \<longrightarrow> argv_ok ps S v l) \<and>
     (\<forall>q \<in> behind ps v - todo ps (ins S v). clash S q v \<longrightarrow> covered ps S v q) \<and>
     (\<forall>f. fin S v \<noteq> Climbing f) \<and>
     (fin S v = Active \<longrightarrow> nchildren (item (rt S) v) = 1) \<and>
     (fin S v = Returned \<longrightarrow> status (item (rt S) v) = Deallocatable)"

definition lively :: "arg_info list set \<Rightarrow> wid list \<Rightarrow> hs \<Rightarrow> bool" where
  "lively U ps S \<longleftrightarrow> (\<forall>v. heap (rt S) v \<noteq> None \<longrightarrow> live_ok U ps S v)"

lemma live_okD:
  assumes "live_ok U ps S v"
  shows "status (item (rt S) v) \<noteq> Deallocatable \<Longrightarrow> (\<And>c. fin S v \<noteq> Retiring c) \<Longrightarrow> args (item (rt S) v) \<in> U"
    "ins S v = Entering t \<Longrightarrow> nargs (item (rt S) v) = word_of_nat (length (args (item (rt S) v)))"
    "locals_of (ins S v) = Some l \<Longrightarrow> argv_ok ps S v l"
    "q \<in> behind ps v \<Longrightarrow> q \<notin> todo ps (ins S v) \<Longrightarrow> clash S q v \<Longrightarrow> covered ps S v q"
    "fin S v \<noteq> Climbing f" "fin S v = Active \<Longrightarrow> nchildren (item (rt S) v) = 1"
    "fin S v = Returned \<Longrightarrow> status (item (rt S) v) = Deallocatable"
  using assms by (simp_all add: live_ok_def)

lemma listed_allocated:
  assumes "safe ps S" "v \<in> set ps"
  shows "heap (rt S) v \<noteq> None"
proof -
  note i = ins_okD(1,2) [OF safeD(5) [OF assms(1), of v]]
  then show ?thesis using assms(2) by (cases "ins S v") auto
qed

lemma behind_allocated: "safe ps S \<Longrightarrow> q \<in> behind ps v \<Longrightarrow> heap (rt S) q \<noteq> None"
  using listed_allocated behind_set by blast

section \<open>Steps that leave a task alone\<close>

definition alike :: "workitem \<Rightarrow> workitem \<Rightarrow> bool" where
  "alike x y \<longleftrightarrow>
     args y = args x \<and> nargs y = nargs x \<and> nchildren y = nchildren x \<and>
     (status y = Deallocatable \<longleftrightarrow> status x = Deallocatable)"

text \<open>What a step keeps of the conflicts of a task and of what covers them.\<close>

definition keeps :: "wid list \<Rightarrow> hs \<Rightarrow> wid list \<Rightarrow> hs \<Rightarrow> wid \<Rightarrow> bool" where
  "keeps ps S ps' S' v \<longleftrightarrow>
     (\<forall>q \<in> behind ps v. clash S' q v \<longrightarrow>
        clash S q v \<and> args (item (rt S') q) = args (item (rt S) q) \<and>
        (covered ps S v q \<longrightarrow> covered ps' S' v q))"

lemma argv_ok_frame:
  assumes "argv_ok ps S v l" "args (item (rt S') v) = args (item (rt S) v)" "keeps ps S ps' S' v"
    and "behind ps' v = behind ps v" "behind ps v \<inter> todo ps' (ins S' v) \<subseteq> todo ps (ins S v)"
    and "n_args l' = n_args l" "argv l' = argv l"
  shows "argv_ok ps' S' v l'"
proof -
  obtain ws where ws: "subseq ws (args (item (rt S) v))" "vec_holds (n_args l, argv l) ws"
    "\<And>q. q \<in> behind ps v \<Longrightarrow> q \<in> todo ps (ins S v) \<Longrightarrow> clash S q v \<Longrightarrow>
       conflicts (args (item (rt S) q)) ws \<or> covered ps S v q"
    using assms(1) unfolding argv_ok_def by blast
  have "conflicts (args (item (rt S') q)) ws \<or> covered ps' S' v q"
    if "q \<in> behind ps v" "q \<in> todo ps' (ins S' v)" "clash S' q v" for q
    using ws(3) [of q] that assms(3,5) unfolding keeps_def by (metis IntI subsetD)
  then show ?thesis
    unfolding argv_ok_def assms(2,4,6,7) using ws(1,2) by blast
qed

lemma todo_push:
  assumes "w \<notin> set ps" "ins_ok ps s v pc"
  shows "todo (w # ps) pc = todo ps pc"
proof (cases "locals_of pc")
  case None
  then show ?thesis by (cases pc) simp_all
next
  case (Some l)
  then have "rest ps pc \<subseteq> set ps"
    using ins_okD(3) [OF assms(2) Some] behind_set by (fastforce simp: loop_ok_def)
  then have "rest (w # ps) pc = rest ps pc" "w \<notin> rest ps pc" using rest_push [OF assms(1)] assms(1) by auto
  then show ?thesis
    using Some by (cases pc) (auto simp: behind_push [OF assms(1)])
qed

text \<open>A step at the task \<open>w\<close>.\<close>

lemma lively_step:
  assumes "safe ps S" "lively U ps S" "ps' = ps \<or> ps' = w # ps \<and> w \<notin> set ps"
    and other: "\<And>v. heap (rt S') v \<noteq> None \<Longrightarrow> v \<noteq> w \<Longrightarrow>
      heap (rt S) v \<noteq> None \<and> ins S' v = ins S v \<and> fin S' v = fin S v \<and> alike (item (rt S) v) (item (rt S') v)"
    and kp: "\<And>v. heap (rt S) v \<noteq> None \<Longrightarrow> v \<noteq> w \<Longrightarrow> keeps ps S ps' S' v"
    and self: "heap (rt S') w \<noteq> None \<Longrightarrow> live_ok U ps' S' w"
  shows "lively U ps' S'"
  unfolding lively_def
proof (intro allI impI)
  fix v assume h: "heap (rt S') v \<noteq> None"
  show "live_ok U ps' S' v"
  proof (cases "v = w")
    case False
    note o = other [OF h False]
    have o1: "heap (rt S) v \<noteq> None" "ins S' v = ins S v" "fin S' v = fin S v"
      "args (item (rt S') v) = args (item (rt S) v)" "nargs (item (rt S') v) = nargs (item (rt S) v)"
      "nchildren (item (rt S') v) = nchildren (item (rt S) v)"
      "status (item (rt S') v) = Deallocatable \<longleftrightarrow> status (item (rt S) v) = Deallocatable"
      using o by (simp_all add: alike_def)
    have l: "live_ok U ps S v" using assms(2) o1(1) by (simp add: lively_def)
    note d = live_okD [OF l]
    have b: "behind ps' v = behind ps v" using assms(3) False by (auto simp: behind_push)
    have t: "todo ps' (ins S v) = todo ps (ins S v)"
      using assms(3) todo_push [OF _ safeD(5) [OF assms(1), of v]] by auto
    note k = kp [OF o1(1) False]
    have a: "argv_ok ps' S' v l" if "locals_of (ins S v) = Some l" for l
      by (rule argv_ok_frame [OF d(3) [OF that] o1(4) k b]) (simp_all add: t o1(2))
    have m: "covered ps' S' v q" if "q \<in> behind ps v" "q \<notin> todo ps (ins S v)" "clash S' q v" for q
      using k that d(4) [OF that(1,2)] by (simp add: keeps_def)
    show ?thesis
      unfolding live_ok_def o1 b t using d(1,2,5-7) a m by blast
  qed (use self h in simp)
qed

text \<open>Steps in which no task is released.\<close>

definition calm :: "hs \<Rightarrow> hs \<Rightarrow> bool" where
  "calm S S' \<longleftrightarrow>
     (\<forall>v. heap (rt S) v \<noteq> None \<longrightarrow>
        (status (item (rt S') v) < Done \<longrightarrow> status (item (rt S) v) < Done \<and> args (item (rt S') v) = args (item (rt S) v)) \<and>
        (args (item (rt S') v) = args (item (rt S) v) \<or>
           args (item (rt S') v) = [] \<and> open_deps S v = [] \<and> free_of_ties S v))"

lemma clash_calm:
  assumes "calm S S'" "clash S' q v" "heap (rt S) q \<noteq> None" "heap (rt S) v \<noteq> None"
  shows "clash S q v" "args (item (rt S') q) = args (item (rt S) q)"
proof -
  have c: "status (item (rt S') q) < Done" "conflicts (args (item (rt S') q)) (args (item (rt S') v))"
    using assms(2) by (simp_all add: clash_def)
  then have "args (item (rt S') v) \<noteq> []" by (auto simp: conflicts_def)
  then have "args (item (rt S') v) = args (item (rt S) v)" using assms(1,4) unfolding calm_def by blast
  moreover show "args (item (rt S') q) = args (item (rt S) q)"
    using assms(1,3) c(1) unfolding calm_def by blast
  ultimately show "clash S q v" using c assms(1,3) unfolding clash_def calm_def by metis
qed

lemma keeps_calm:
  assumes "safe ps S" "calm S S'" "heap (rt S) v \<noteq> None" "ps' = ps \<or> ps' = w # ps"
    and bd: "\<And>r. r \<in> behind ps v \<Longrightarrow> bound S v r \<Longrightarrow> bound S' v r"
  shows "keeps ps S ps' S' v"
  unfolding keeps_def
proof (intro ballI impI conjI)
  fix q assume q: "q \<in> behind ps v" "clash S' q v"
  note c = clash_calm [OF assms(2) q(2) behind_allocated [OF assms(1) q(1)] assms(3)]
  show "clash S q v" "args (item (rt S') q) = args (item (rt S) q)" by (rule c)+
  assume "covered ps S v q"
  then obtain r where r: "r \<in> behind ps v" "bound S v r"
    "r = q \<or> q \<in> behind ps r \<and> conflicts (args (item (rt S) q)) (args (item (rt S) r))"
    unfolding covered_def by blast
  have "\<not> (open_deps S r = [] \<and> free_of_ties S r)"
    using r(2) by (auto simp: bound_def free_of_ties_def tied_def intro!: exI [of _ v])
  then have "args (item (rt S') r) = args (item (rt S) r)"
    using assms(2) behind_allocated [OF assms(1) r(1)] unfolding calm_def by blast
  moreover have "behind ps x \<subseteq> behind ps' x" for x using assms(4) behind_push_mono by auto
  ultimately show "covered ps' S' v q"
    unfolding covered_def using r bd [OF r(1,2)] c(2) by (metis subsetD)
qed

section \<open>Insertion\<close>

text \<open>An access of a thread that does not compare.\<close>

lemma lively_ins:
  assumes "safe ps S" "lively U ps S" "calm S (at_ins w pc r S)" "heap (rt S) w \<noteq> None"
    and dom: "\<And>v. heap r v = None \<longleftrightarrow> heap (rt S) v = None"
    and al: "\<And>v. heap (rt S) v \<noteq> None \<Longrightarrow> alike (item (rt S) v) (item r v)"
    and op: "\<And>c. set (open_deps S c) \<subseteq> set (open_deps (at_ins w pc r S) c)"
    and lk: "\<And>p l. ins S w = Linking p l \<Longrightarrow> w \<in> set (open_deps (at_ins w pc r S) p)"
    and pc: "\<And>t. pc \<noteq> Entering t"
    and lo: "\<And>l. locals_of pc = Some l \<Longrightarrow> \<exists>l0. locals_of (ins S w) = Some l0 \<and> n_args l = n_args l0 \<and> argv l = argv l0"
    and td: "behind ps w \<inter> todo ps pc \<subseteq> todo ps (ins S w)"
    and pass: "\<And>q. q \<in> behind ps w \<Longrightarrow> q \<in> todo ps (ins S w) \<Longrightarrow> q \<notin> todo ps pc \<Longrightarrow> \<not> status (item (rt S) q) < Done"
  shows "lively U ps (at_ins w pc r S)"
proof -
  let ?S = "at_ins w pc r S"
  have bd: "bound ?S v c" if "bound S v c" for v c
    using that op lk by (cases "v = w") (auto simp: bound_def)
  have kp: "keeps ps S ps ?S v" if "heap (rt S) v \<noteq> None" for v
    by (rule keeps_calm [OF assms(1,3) that]) (use bd in auto)
  have l: "live_ok U ps S w" using assms(2,4) by (simp add: lively_def)
  note d = live_okD [OF l]
  note k = kp [OF assms(4)]
  have a: "argv_ok ps ?S w l" if lc: "locals_of pc = Some l" for l
  proof -
    obtain l0 where l0: "locals_of (ins S w) = Some l0" "n_args l = n_args l0" "argv l = argv l0" using lo [OF lc] by blast
    show ?thesis
      by (rule argv_ok_frame [OF d(3) [OF l0(1)] _ k])
        (use al [OF assms(4)] td l0 in \<open>simp_all add: alike_def\<close>)
  qed
  have m: "covered ps ?S w q" if q: "q \<in> behind ps w" "q \<notin> todo ps pc" "clash ?S q w" for q
  proof -
    have c: "clash S q w" using k q by (simp add: keeps_def)
    then have "q \<notin> todo ps (ins S w)" using pass [OF q(1) _ q(2)] by (auto simp: clash_def)
    then have "covered ps S w q" by (rule d(4) [OF q(1) _ c])
    then show ?thesis using k q by (simp add: keeps_def)
  qed
  have "live_ok U ps ?S w"
    unfolding live_ok_def
    using al [OF assms(4)] d(1,5-7) pc a m by (simp add: alike_def)
  then show ?thesis
    by (intro lively_step [OF assms(1,2), where w = w]) (use dom al kp in auto)
qed

lemma calm_args:
  assumes "\<And>v. heap (rt S) v \<noteq> None \<Longrightarrow> args (item (rt S') v) = args (item (rt S) v)"
    and "\<And>v. heap (rt S) v \<noteq> None \<Longrightarrow> status (item (rt S') v) < Done \<Longrightarrow> status (item (rt S) v) < Done"
  shows "calm S S'"
  using assms by (simp add: calm_def)

text \<open>Accesses that change neither arguments nor dependents.\<close>

lemma lively_put:
  assumes "safe ps S" "lively U ps S" "heap (rt S) w \<noteq> None"
    and r: "r = (put w f (rt S))\<lparr>tqueue := tq\<rparr>"
    and f: "alike (item (rt S) w) (f (item (rt S) w))" "deps (f (item (rt S) w)) = deps (item (rt S) w)"
      "status (f (item (rt S) w)) < Done \<Longrightarrow> status (item (rt S) w) < Done"
    and pc: "\<And>t. pc \<noteq> Entering t" "\<And>p l. ins S w \<noteq> Linking p l"
    and "\<And>l. locals_of pc = Some l \<Longrightarrow> \<exists>l0. locals_of (ins S w) = Some l0 \<and> n_args l = n_args l0 \<and> argv l = argv l0"
    and "behind ps w \<inter> todo ps pc \<subseteq> todo ps (ins S w)"
    and "\<And>q. q \<in> behind ps w \<Longrightarrow> q \<in> todo ps (ins S w) \<Longrightarrow> q \<notin> todo ps pc \<Longrightarrow> \<not> status (item (rt S) q) < Done"
  shows "lively U ps (at_ins w pc r S)"
proof -
  have it: "item r v = (if v = w then f (item (rt S) w) else item (rt S) v)" for v by (simp add: r item_put)
  have al: "alike (item (rt S) v) (item r v)" for v using f(1) by (simp add: it) (simp add: alike_def)
  have op: "open_deps (at_ins w pc r S) = open_deps S"
    using f(2) by (simp add: fun_eq_iff open_deps_def it)
  have c: "calm S (at_ins w pc r S)"
    by (rule calm_args) (use al f(3) in \<open>auto simp: alike_def it split: if_splits\<close>)
  have dom: "heap r v = None \<longleftrightarrow> heap (rt S) v = None" for v using assms(3) by (simp add: r)
  show ?thesis
    by (rule lively_ins [OF assms(1,2) c assms(3) dom al _ _ pc(1) assms(10-12)]) (simp_all add: op pc(2))
qed

lemma fatherless_ancestor:
  assumes "safe ps S" "no_fathers (rt S)" "locals_of (ins S w) = Some l" "heap (rt S) w \<noteq> None"
  shows "ancestor l = None"
  using ins_okD(3) [OF safeD(5) [OF assms(1), of w] assms(3)] assms(2,4) by (simp add: loop_ok_def no_fathers_def)

lemma rt_put_id: "heap s w \<noteq> None \<Longrightarrow> s = (put w (\<lambda>x. x) s)\<lparr>tqueue := tqueue s\<rparr>"
  by (simp add: put_id)

lemma lively_look:
  assumes "safe ps S" "lively U ps S" "no_fathers (rt S)"
    and "ins S w = Visiting (Some p) l" "look_node w p l (rt S) = Some (pc, r)"
  shows "lively U ps (at_ins w pc r S)"
proof -
  note e = engaged_node [OF safeD(1) [OF assms(1)], of w l p, unfolded assms(4), simplified]
  have an: "ancestor l = None" by (rule fatherless_ancestor [OF assms(1,3) _ e(4)]) (simp add: assms(4))
  note nr = next_rest [OF safeD(1) [OF assms(1)] _ e(2)]
  from assms(5) show ?thesis
  proof (cases rule: look_node_cases)
    case (active x)
    show ?thesis unfolding active(6)
      by (rule lively_put [OF assms(1,2) e(4) rt_put_id [OF e(4)]]) (use active assms(4) in \<open>auto simp: alike_def\<close>)
  next
    case (gone x)
    show ?thesis unfolding gone(6)
      by (rule lively_put [OF assms(1,2) e(4) rt_put_id [OF e(4)]])
        (use gone assms(4) nr [OF gone(3)] in \<open>auto simp: alike_def\<close>)
  qed (use e(3) an in simp_all)
qed

lemma lively_flag:
  assumes "safe ps S" "lively U ps S" "ins S w = Flagging p l" "flag_fills w p l (rt S) = Some (pc, r)"
  shows "lively U ps (at_ins w pc r S)"
proof -
  note e = engaged_node [OF safeD(1) [OF assms(1)], of w l p, unfolded assms(3), simplified]
  note nr = next_rest [OF safeD(1) [OF assms(1)] _ e(2)]
  from assms(4) show ?thesis
  proof (cases rule: flag_fills_cases)
    case (fill x l')
    then have r: "r = (put w (\<lambda>t. t\<lparr>optFlags := optFlags t OR PendingFills\<rparr>) (rt S))\<lparr>tqueue := tqueue (rt S)\<rparr>"
      by (simp add: upd_put)
    show ?thesis
      by (rule lively_put [OF assms(1,2) e(4) r]) (use fill assms(3) nr [OF fill(1)] in \<open>auto simp: alike_def\<close>)
  next
    case (none x l')
    show ?thesis unfolding none(3)
      by (rule lively_put [OF assms(1,2) e(4) rt_put_id [OF e(4)]])
        (use none assms(3) nr [OF none(1)] in \<open>auto simp: alike_def\<close>)
  qed
qed

lemma lively_link:
  assumes "safe ps S" "lively U ps S" "ins S w = Linking p l" "append_dep w p l (rt S) = Some (pc, r)"
  shows "lively U ps (at_ins w pc r S)"
proof -
  note e = engaged_node [OF safeD(1) [OF assms(1)], of w l p, unfolded assms(3), simplified]
  have r: "r = put p (\<lambda>x. x\<lparr>deps := deps x @ [w]\<rparr>) (rt S)" "heap (rt S) p \<noteq> None" "pc = Flagging p l"
    using assms(4) by (auto simp: append_dep_def bind_eq_Some_conv upd_put)
  have it: "item r v = (if v = p then (item (rt S) p)\<lparr>deps := deps (item (rt S) p) @ [w]\<rparr> else item (rt S) v)" for v
    by (simp add: r(1) item_put)
  have "tied S w p" by (simp add: tied_def assms(3))
  then have op: "open_deps S p = deps (item (rt S) p)" "open_deps (at_ins w pc r S) p = deps (item (rt S) p) @ [w]"
    using node_okD(3) [OF safeD(2) [OF assms(1), of p] r(2)]
    by (cases "fin S p"; auto simp: open_deps_def free_of_ties_def it)+
  have op': "set (open_deps S c) \<subseteq> set (open_deps (at_ins w pc r S) c)" for c
    using op by (cases "c = p") (auto simp: open_deps_def it)
  show ?thesis
  proof (rule lively_ins [OF assms(1,2) _ e(4)])
    show "calm S (at_ins w pc r S)" by (rule calm_args) (simp_all add: it split: if_splits)
    show "set (open_deps S c) \<subseteq> set (open_deps (at_ins w pc r S) c)" for c by (rule op')
    show "ins S w = Linking p' l' \<Longrightarrow> w \<in> set (open_deps (at_ins w pc r S) p')" for p' l'
      using op assms(3) by auto
    show "heap r v = None \<longleftrightarrow> heap (rt S) v = None" for v using r(2) by (simp add: r(1))
    show "alike (item (rt S) v) (item r v)" for v by (simp add: it alike_def)
  qed (use r(3) assms(3) in auto)
qed

lemma lively_push:
  assumes "safe ps S" "lively U ps S" "universe U" "ins S w = Entering t" "push_node w t (rt S) = Some (pc, r)"
  shows "lively U (w # ps) (at_ins w pc r S)"
proof -
  let ?S = "at_ins w pc r S"
  note i = ins_okD(1,2) [OF safeD(5) [OF assms(1), of w]]
  have h: "heap (rt S) w \<noteq> None" "w \<notin> set ps" using i assms(4) by auto
  let ?as = "args (item (rt S) w)" and ?n = "nat (sint (nargs (item (rt S) w)))"
  have r: "r = (put w (\<lambda>y. y\<lparr>task := Some t, nxt := worklist (rt S)\<rparr>) (rt S))\<lparr>worklist := Some w\<rparr>"
    "pc = Visiting (worklist (rt S)) \<lparr>n_args = ?n, argv = build_argv ?n ?as,
       ancestor = father (item (rt S) w), nready = 0, nfillwait = 0\<rparr>"
    using assms(5) by (auto simp: push_node_def Let_def bind_eq_Some_conv upd_put split: if_splits)
  have it: "item r v = (if v = w then (item (rt S) w)\<lparr>task := Some t, nxt := worklist (rt S)\<rparr> else item (rt S) v)" for v
    by (simp add: r(1) item_put)
  have dom: "heap r v = None \<longleftrightarrow> heap (rt S) v = None" for v using h(1) by (simp add: r(1))
  have op: "open_deps ?S = open_deps S" by (simp add: fun_eq_iff open_deps_def it)
  have c: "calm S ?S" by (rule calm_args) (simp_all add: it split: if_splits)
  have bd: "bound ?S v q" if "bound S v q" for v q
    using that assms(4) by (auto simp: bound_def op)
  have kp: "keeps ps S (w # ps) ?S v" if "heap (rt S) v \<noteq> None" for v
    by (rule keeps_calm [OF assms(1) c that]) (use bd in auto)
  have l: "live_ok U ps S w" using assms(2) h(1) by (simp add: lively_def)
  note d = live_okD [OF l]
  note n = inserting_node [OF assms(1) h(1), unfolded assms(4), simplified]
  have u: "?as \<in> U" by (rule d(1)) (use n in simp_all)
  have len: "?n = length ?as"
    using d(2) [OF assms(4)] sint_nargs [of "length ?as"] u assms(3) by (simp add: universe_def)
  have b: "behind (w # ps) w = set ps" by (simp add: behind_push [OF h(2)])
  have td: "todo (w # ps) pc = set ps"
    using from_ptr_head [OF order_simps(1) [OF safeD(1) [OF assms(1)]]] rest_push [OF h(2), of pc]
    by (simp add: r(2))
  have "argv_ok (w # ps) ?S w l" if "locals_of pc = Some l" for l
    unfolding argv_ok_def
  proof (intro exI conjI ballI impI)
    show "subseq ?as (args (item (rt ?S) w))" by (simp add: it)
    show "vec_holds (n_args l, argv l) ?as"
      using that build_argv_holds [OF len [symmetric]] by (auto simp: r(2) vec_holds_def)
    fix q assume "clash ?S q w"
    then show "conflicts (args (item (rt ?S) q)) ?as \<or> covered (w # ps) ?S w q" by (simp add: clash_def it)
  qed
  moreover have "pc \<noteq> Entering t" for t by (simp add: r(2))
  ultimately have "live_ok U (w # ps) ?S w"
    unfolding live_ok_def using d(5-7) u n b td by (simp add: it)
  then show ?thesis
    by (intro lively_step [OF assms(1,2), where w = w]) (use h dom kp in \<open>auto simp: it alike_def\<close>)
qed

lemma compared_args:
  assumes "safe ps S" "lively U ps S" "ins S w = Comparing p l"
  shows "args (item (rt S) p) \<in> U"
proof -
  note e = engaged_node [OF safeD(1) [OF assms(1)], of w l p, unfolded assms(3), simplified]
  have hp: "heap (rt S) p \<noteq> None" by (rule behind_allocated [OF assms(1) e(1)])
  have lp: "live_ok U ps S p" using assms(2) hp by (simp add: lively_def)
  have "tied S w p" by (simp add: tied_def assms(3))
  then have "fin S p \<noteq> Retiring c \<and> status (item (rt S) p) \<noteq> Deallocatable" for c
    using node_okD(3) [OF safeD(2) [OF assms(1), of p] hp]
    by (cases "fin S p") (auto simp: free_of_ties_def less_status_t_def)
  then show ?thesis using live_okD(1) [OF lp] by blast
qed

lemma lively_compare:
  assumes "safe ps S" "lively U ps S" "universe U" "ins S w = Comparing p l" "compare_node w p l (rt S) = Some (pc, r)"
  shows "lively U ps (at_ins w pc r S)"
proof -
  let ?S = "at_ins w pc r S"
  note e = engaged_node [OF safeD(1) [OF assms(1)], of w l p, unfolded assms(4), simplified]
  have lw: "live_ok U ps S w" using assms(2) e(4) by (simp add: lively_def)
  note d = live_okD [OF lw]
  note n = inserting_node [OF assms(1) e(4), unfolded assms(4), simplified]
  have uw: "args (item (rt S) w) \<in> U" by (rule d(1)) (use n in simp_all)
  have up: "args (item (rt S) p) \<in> U" by (rule compared_args [OF assms(1,2,4)])
  obtain ws where ws: "subseq ws (args (item (rt S) w))" "vec_holds (n_args l, argv l) ws"
    "\<And>q. q \<in> behind ps w \<Longrightarrow> q = p \<or> q \<in> behind ps p \<Longrightarrow> clash S q w \<Longrightarrow>
       conflicts (args (item (rt S) q)) ws \<or> covered ps S w q"
    using d(3) [of l] unfolding argv_ok_def assms(4) by auto
  have "comparison_ok (args (item (rt S) p)) ws"
    using args.admissible_subseq [OF _ ws(1)] assms(3) up uw by (simp add: universe_def)
  then obtain c n' av' ws' where c: "compare_args (args (item (rt S) p)) (n_args l) (argv l) = Some (c, n', av')"
    "vec_holds (n', av') ws'" "subseq ws' ws" "c \<longleftrightarrow> conflicts (args (item (rt S) p)) ws"
    "\<And>os. conflicts os ws \<Longrightarrow> conflicts os ws' \<or> c \<and> conflicts os (args (item (rt S) p))"
    using args.compare_step [OF _ ws(2)] by (force simp: compare_vec_def)
  obtain f where r: "r = put w f (rt S)" "\<And>x. alike x (f x) \<and> deps (f x) = deps x \<and> status (f x) = status x"
    and pc: "pc = (if c then Linking p (l\<lparr>n_args := n', argv := av'\<rparr>) else Flagging p (l\<lparr>n_args := n', argv := av'\<rparr>))"
    using assms(5)
  proof (cases rule: compare_node_cases)
    case (found x n av)
    then show ?thesis
      using that [of "\<lambda>t. t\<lparr>ndependencies := ndependencies t + 1\<rparr>"] c(1) by (simp add: upd_put alike_def)
  next
    case (none x n av)
    then show ?thesis
      using that [of "\<lambda>x. x"] c(1) put_id [OF e(4)] by (simp add: alike_def)
  qed
  have it: "item r v = (if v = w then f (item (rt S) w) else item (rt S) v)" for v by (simp add: r item_put)
  have al: "alike (item (rt S) v) (item r v)" for v using r(2) by (simp add: it) (simp add: alike_def)
  have ar: "args (item r v) = args (item (rt S) v)" for v using al by (simp add: alike_def)
  have dom: "heap r v = None \<longleftrightarrow> heap (rt S) v = None" for v using e(4) by (simp add: r)
  have op: "open_deps ?S = open_deps S" using r(2) by (simp add: fun_eq_iff open_deps_def it)
  have cl: "clash ?S q v = clash S q v" for q v using r(2) by (simp add: clash_def ar) (simp add: it)
  have bd: "bound ?S v q" if "bound S v q" for v q
    using that assms(4) by (auto simp: bound_def op)
  have "status (item r v) = status (item (rt S) v)" for v using r(2) by (simp add: it)
  then have "calm S ?S" by (intro calm_args) (simp_all add: ar)
  then have kp: "keeps ps S ps ?S v" if "heap (rt S) v \<noteq> None" for v
    by (rule keeps_calm [OF assms(1) _ that]) (use bd in auto)
  have cov: "covered ps ?S w q" if "covered ps S w q" "q \<in> behind ps w" "clash S q w" for q
    using kp [OF e(4)] that by (simp add: keeps_def cl)
  have td: "todo ps pc = behind ps p" using pc by simp
  have found: "covered ps ?S w q" if "c" "q = p \<or> q \<in> behind ps p \<and> conflicts (args (item (rt S) q)) (args (item (rt S) p))" for q
  proof -
    have "bound ?S w p" using that(1) pc by (simp add: bound_def)
    then show ?thesis unfolding covered_def using e(1) that(2) by (auto simp: ar)
  qed
  have "argv_ok ps ?S w l'" if "locals_of pc = Some l'" for l'
    unfolding argv_ok_def
  proof (intro exI conjI ballI impI)
    show "subseq ws' (args (item (rt ?S) w))" using c(3) ws(1) by (simp add: ar subseq_order.trans)
    show "vec_holds (n_args l', argv l') ws'" using that pc c(2) by (auto split: if_splits)
    fix q assume q: "q \<in> behind ps w \<inter> todo ps (ins ?S w)" "clash ?S q w"
    then have q': "q \<in> behind ps w" "q \<in> behind ps p" "clash S q w" by (simp_all add: td cl)
    then have "conflicts (args (item (rt S) q)) ws \<or> covered ps S w q" using ws(3) by blast
    then show "conflicts (args (item (rt ?S) q)) ws' \<or> covered ps ?S w q"
    proof
      assume "conflicts (args (item (rt S) q)) ws"
      from c(5) [OF this] show ?thesis using found q'(2) by (auto simp: ar)
    next
      assume "covered ps S w q"
      then show ?thesis using cov q' by blast
    qed
  qed
  moreover have "covered ps ?S w q" if q: "q \<in> behind ps w" "q \<notin> behind ps p" "clash S q w" for q
  proof (cases "q = p")
    case True
    then have "conflicts (args (item (rt S) p)) ws \<or> covered ps S w p" using ws(3) q by blast
    then show ?thesis using found c(4) cov q True by blast
  next
    case False
    then have "covered ps S w q" using d(4) [OF q(1) _ q(3)] q(2) by (simp add: assms(4))
    then show ?thesis using cov q by blast
  qed
  moreover have "pc \<noteq> Entering t" for t by (simp add: pc)
  ultimately have "live_ok U ps ?S w"
    unfolding live_ok_def using d(5-7) uw n al [of w] td by (simp add: alike_def cl)
  then show ?thesis
    by (intro lively_step [OF assms(1,2), where w = w]) (use e(4) dom kp al in \<open>auto\<close>)
qed

lemma lively_ins_step:
  assumes "safe ps S" "lively U ps S" "universe U" "no_fathers (rt S)" "ins_step w S = Some S'"
  shows "\<exists>ps'. order_ok ps' S' \<and> lively U ps' S'"
proof -
  note o = safeD(1) [OF assms(1)]
  have h: "heap (rt S) w \<noteq> None"
    using ins_step_frame(2) [OF assms(5)] ins_okD(1) [OF safeD(5) [OF assms(1), of w]] by simp
  from assms(5) show ?thesis
  proof (cases rule: ins_step_cases)
    case (push t pc r)
    then show ?thesis using lively_push [OF assms(1-3)] order_push [OF o] by blast
  next
    case (last_seen l)
    then show ?thesis
      using lively_put [OF assms(1,2) h rt_put_id [OF h], of "Deciding l"] order_last_seen [OF o last_seen(1)] by (auto simp: alike_def)
  next
    case (look p l pc r)
    then show ?thesis using lively_look [OF assms(1,2,4)] order_look [OF o] by blast
  next
    case (compare p l pc r)
    then show ?thesis using lively_compare [OF assms(1-3)] order_compare [OF o] by blast
  next
    case (link p l pc r)
    then show ?thesis using lively_link [OF assms(1,2)] order_link [OF o] by blast
  next
    case (flag p l pc r)
    then show ?thesis using lively_flag [OF assms(1,2)] order_flag [OF o] by blast
  next
    case (decided l pc r)
    then have "r = rt S" "pc = Launching l \<or> pc = Parking l"
      by (auto simp: decide_def bind_eq_Some_conv split: if_splits)
    then show ?thesis
      using lively_put [OF assms(1,2) h rt_put_id [OF h], of pc] order_decided [OF o decided(1,2)] decided by (auto simp: alike_def)
  next
    case (launch l r)
    obtain t where r: "r = (put w (\<lambda>x. x\<lparr>status := Ready\<rparr>) (rt S))\<lparr>tqueue := tqueue (rt S) @ [t]\<rparr>"
      by (rule post_put [OF launch(2)])
    show ?thesis
      using lively_put [OF assms(1,2) h r, of "Inside (fast_start l (rt S))"] launch
        inserting_node(1) [OF assms(1) h] order_launch [OF o launch(1,2)] by (auto simp: alike_def less_status_t_def)
  next
    case (park l r)
    then have r: "r = (put w (\<lambda>x. x\<lparr>status := Waiting\<rparr>) (rt S))\<lparr>tqueue := tqueue (rt S)\<rparr>" by (simp add: upd_put)
    have "lively U ps S'"
      unfolding park(3)
      by (rule lively_put [OF assms(1,2) h r])
        (use park(1) inserting_node(1) [OF assms(1) h] in \<open>simp_all add: alike_def less_status_t_def\<close>)
    then show ?thesis using order_park [OF o park(1,2)] park(3) by blast
  qed
qed

section \<open>Completion\<close>

text \<open>A task that is in the list and does not wait has no unfinished older task in conflict with it.\<close>

lemma nothing_clashes:
  assumes "safe ps S" "lively U ps S" "heap (rt S) v \<noteq> None" "ins S v = Inside b" "status (item (rt S) v) \<noteq> Waiting"
    and "q \<in> behind ps v"
  shows "\<not> clash S q v"
proof
  assume c: "clash S q v"
  have l: "live_ok U ps S v" using assms(2,3) by (simp add: lively_def)
  have "covered ps S v q" by (rule live_okD(4) [OF l assms(6) _ c]) (simp add: assms(4))
  then obtain r where r: "r \<in> behind ps v" "v \<in> set (open_deps S r)"
    by (auto simp: covered_def bound_def assms(4))
  then have "r \<in> open_preds S v" using behind_allocated [OF assms(1)] by (simp add: open_preds_def)
  moreover have "wait_ok S v" by (rule node_okD(5) [OF safeD(2) [OF assms(1)] assms(3)])
  ultimately show False using assms(4,5) by (auto simp: wait_ok_def)
qed

lemma lively_fin:
  assumes "safe ps S" "lively U ps S" "heap (rt S) w \<noteq> None" "ins S' = ins S" "\<not> inserting (ins S w)"
    and other: "\<And>v. v \<noteq> w \<Longrightarrow> fin S' v = fin S v \<and> alike (item (rt S) v) (item (rt S') v)"
    and dom: "\<And>v. heap (rt S') v = None \<longleftrightarrow> heap (rt S) v = None"
    and kp: "\<And>v. heap (rt S) v \<noteq> None \<Longrightarrow> keeps ps S ps S' v"
    and fin: "\<And>f. fin S' w \<noteq> Climbing f" "fin S' w \<noteq> Active"
      "fin S' w = Returned \<Longrightarrow> status (item (rt S') w) = Deallocatable"
    and args: "args (item (rt S') w) = args (item (rt S) w) \<and> status (item (rt S) w) \<noteq> Deallocatable \<and> (\<forall>c. fin S w \<noteq> Retiring c) \<or>
      (\<exists>c. fin S' w = Retiring c) \<or> status (item (rt S') w) = Deallocatable"
  shows "lively U ps S'"
proof -
  obtain b where i: "ins S w = Inside b" using allocated_inside [OF assms(1,3,5)] by blast
  have l: "live_ok U ps S w" using assms(2,3) by (simp add: lively_def)
  note d = live_okD [OF l]
  have m: "covered ps S' w q" if q: "q \<in> behind ps w" "clash S' q w" for q
    using d(4) [OF q(1)] kp [OF assms(3)] q by (simp add: keeps_def i)
  have "live_ok U ps S' w"
    unfolding live_ok_def using m fin args d(1) by (auto simp: assms(4) i)
  then show ?thesis
    by (intro lively_step [OF assms(1,2), where w = w]) (use dom other kp assms(4) in auto)
qed

text \<open>An access of a completing thread that releases nobody.\<close>

lemma lively_fin_calm:
  assumes "safe ps S" "lively U ps S" "heap (rt S) w \<noteq> None" "ins S' = ins S" "\<not> inserting (ins S w)"
    and "\<And>v. v \<noteq> w \<Longrightarrow> fin S' v = fin S v \<and> alike (item (rt S) v) (item (rt S') v)"
    and "\<And>v. heap (rt S') v = None \<longleftrightarrow> heap (rt S) v = None"
    and "calm S S'" "\<And>c. set (open_deps S c) \<subseteq> set (open_deps S' c)"
    and "\<And>f. fin S' w \<noteq> Climbing f" "fin S' w \<noteq> Active"
      "fin S' w = Returned \<Longrightarrow> status (item (rt S') w) = Deallocatable"
    and "args (item (rt S') w) = args (item (rt S) w) \<and> status (item (rt S) w) \<noteq> Deallocatable \<and> (\<forall>c. fin S w \<noteq> Retiring c) \<or>
      (\<exists>c. fin S' w = Retiring c) \<or> status (item (rt S') w) = Deallocatable"
  shows "lively U ps S'"
proof (rule lively_fin [OF assms(1-7) _ assms(10-13)])
  fix v assume v: "heap (rt S) v \<noteq> None"
  show "keeps ps S ps S' v"
    by (rule keeps_calm [OF assms(1,8) v]) (use assms(4,9) in \<open>auto simp: bound_def\<close>)
qed

lemma lively_release:
  assumes "safe ps S" "lively U ps S" "fin S w = Releasing c k" "heap (rt S) c = Some x" "k < length (deps x)"
    and "upd (deps x ! k) (\<lambda>y. y\<lparr>ndependencies := ndependencies y - 1\<rparr>) (rt S) = Some r"
    and "pc = Posting c k \<or> pc = Releasing c (Suc k)"
  shows "lively U ps (at_fin w pc r S)"
proof -
  let ?S = "at_fin w pc r S"
  note n = node_okD [OF safeD(2) [OF assms(1), of w]]
  have h: "heap (rt S) w \<noteq> None" using n(1) assms(3) by auto
  have w: "c = w" "status (item (rt S) w) = Done" using n(3) [OF h] assms(3) by simp_all
  have ni: "\<not> inserting (ins S w)" using n(2) [OF h] w(2) by auto
  obtain b where i: "ins S w = Inside b" using allocated_inside [OF assms(1) h ni] by blast
  have r: "heap (rt S) (deps x ! k) \<noteq> None" "r = put (deps x ! k) (\<lambda>y. y\<lparr>ndependencies := ndependencies y - 1\<rparr>) (rt S)"
    using assms(6) by (simp_all add: upd_put)
  have it: "args (item r v) = args (item (rt S) v)" "status (item r v) = status (item (rt S) v)"
    "deps (item r v) = deps (item (rt S) v)" "alike (item (rt S) v) (item r v)" for v
    by (simp_all add: r(2) item_put alike_def)
  have op: "open_deps ?S v = open_deps S v" if "v \<noteq> w" for v using that by (simp add: open_deps_def it)
  have cl: "clash ?S q v = clash S q v" for q v by (simp add: clash_def it)
  have d: "\<not> Done < Done" by (simp add: less_status_t_def)
  have kp: "keeps ps S ps ?S v" for v
    unfolding keeps_def
  proof (intro ballI impI conjI)
    fix q assume q: "q \<in> behind ps v" "clash ?S q v"
    show "clash S q v" "args (item (rt ?S) q) = args (item (rt S) q)" using q(2) by (simp_all add: cl it)
    assume "covered ps S v q"
    then obtain p where p: "p \<in> behind ps v" "bound S v p"
      "p = q \<or> q \<in> behind ps p \<and> conflicts (args (item (rt S) q)) (args (item (rt S) p))"
      unfolding covered_def by blast
    have "p \<noteq> w"
    proof
      assume "p = w"
      moreover have "status (item (rt S) q) < Done" using q(2) by (simp add: it clash_def)
      ultimately have "q \<in> behind ps w" "clash S q w" using p(3) w(2) d by (auto simp: clash_def)
      then show False using nothing_clashes [OF assms(1,2) h i] w(2) by simp
    qed
    then have "bound ?S v p" using p(2) op by (simp add: bound_def)
    then show "covered ps ?S v q" unfolding covered_def using p by (auto simp: it)
  qed
  show ?thesis
    by (rule lively_fin [OF assms(1,2) h _ ni]) (use kp assms(3,7) w r it in auto)
qed

lemma lively_post:
  assumes "safe ps S" "lively U ps S" "fin S w = Posting c k" "post_next c k (rt S) = Some (pc, r)"
  shows "lively U ps (at_fin w pc r S)"
proof -
  let ?S = "at_fin w pc r S" and ?v = "deps (item (rt S) w) ! k"
  note n = node_okD [OF safeD(2) [OF assms(1), of w]]
  have h: "heap (rt S) w \<noteq> None" using n(1) assms(3) by auto
  have w: "c = w" "status (item (rt S) w) = Done" using n(3) [OF h] assms(3) by simp_all
  have ni: "\<not> inserting (ins S w)" using n(2) [OF h] w(2) by auto
  have p: "post ?v (rt S) = Some r" "pc = Releasing w (Suc k)"
    using assms(4) w(1) by (auto simp: post_next_def bind_eq_Some_conv)
  obtain t where t: "heap (rt S) ?v \<noteq> None"
    "r = (put ?v (\<lambda>x. x\<lparr>status := Ready\<rparr>) (rt S))\<lparr>tqueue := tqueue (rt S) @ [t]\<rparr>"
    by (rule post_put [OF p(1)])
  have du: "due S ?v" using assms(3) w(1) by (auto simp: due_def)
  obtain b where "ins S ?v = Inside b" by (rule due_inside [OF assms(1) du]) blast
  then have wt: "status (item (rt S) ?v) = Waiting"
    using du node_okD(5) [OF safeD(2) [OF assms(1)] t(1)] by (auto simp: wait_ok_def)
  have it: "args (item r v) = args (item (rt S) v)" "deps (item r v) = deps (item (rt S) v)"
    "alike (item (rt S) v) (item r v)" "status (item r v) < Done \<Longrightarrow> status (item (rt S) v) < Done" for v
    using wt by (auto simp: t(2) item_put alike_def less_status_t_def split: if_splits)
  have op: "open_deps ?S v = open_deps S v" for v
    using assms(3) p(2) by (cases "v = w") (simp_all add: open_deps_def it)
  have "calm S ?S" by (rule calm_args) (use it in simp_all)
  then show ?thesis
    by (intro lively_fin_calm [OF assms(1,2) h _ ni]) (use it op w p t assms(3) in auto)
qed

lemma lively_fin_step:
  assumes "safe ps S" "lively U ps S" "no_fathers (rt S)" "fin_step w S = Some S'"
  shows "lively U ps S'"
proof -
  note n = node_okD [OF safeD(2) [OF assms(1), of w]]
  have h: "heap (rt S) w \<noteq> None" using n(1) fin_step_frame(2) [OF assms(4)] by auto
  note fo = n(3) [OF h]
  have l: "live_ok U ps S w" using assms(2) h by (simp add: lively_def)
  have ni: "\<not> inserting (ins S w)"
    using inserting_node(2) [OF assms(1) h] fin_step_frame(2) [OF assms(4)] by blast
  from assms(4) show ?thesis
  proof (cases rule: fin_step_cases)
    case (mark c r)
    then have c: "c = w" "status (item (rt S) w) = Running" "r = put w (\<lambda>x. x\<lparr>status := Done\<rparr>) (rt S)"
      using fo by (simp_all add: upd_put)
    have "calm S S'" by (rule calm_args) (auto simp: mark(3) c item_put less_status_t_def split: if_splits)
    then show ?thesis
      by (intro lively_fin_calm [OF assms(1,2) h _ ni]) (use mark c h in \<open>auto simp: item_put open_deps_def alike_def\<close>)
  next
    case (load c)
    then have c: "c = w" "status (item (rt S) w) = Done" using fo by simp_all
    have "calm S S'" by (rule calm_args) (simp_all add: load(2))
    then show ?thesis
      by (intro lively_fin_calm [OF assms(1,2) h _ ni]) (use load c in \<open>auto simp: open_deps_def alike_def\<close>)
  next
    case (walk c p pc)
    then have c: "status (item (rt S) w) = Done" using fo by simp
    have "calm S S'" by (rule calm_args) (simp_all add: walk(3))
    then show ?thesis
      by (intro lively_fin_calm [OF assms(1,2) h _ ni])
        (use walk c walk_covers [OF assms(1) walk(1,2)] in \<open>auto simp: open_deps_def alike_def\<close>)
  next
    case (release c k pc r)
    from release(2) show ?thesis
    proof (cases rule: release_next_cases)
      case (dec x y)
      show ?thesis
        unfolding release(3) by (rule lively_release [OF assms(1,2) release(1) dec(1,2,4)]) (simp add: dec(5))
    next
      case (finished x)
      then have c: "c = w" "status (item (rt S) w) = Done" "item (rt S) w = x" using fo release(1) by simp_all
      have "calm S S'" by (rule calm_args) (simp_all add: release(3) finished(4))
      then show ?thesis
        by (intro lively_fin_calm [OF assms(1,2) h _ ni]) (use release finished c in \<open>auto simp: open_deps_def Let_def alike_def\<close>)
    qed
  next
    case (post_dep c k pc r)
    show ?thesis unfolding post_dep(3) by (rule lively_post [OF assms(1,2) post_dep(1,2)])
  next
    case (free c r)
    then have c: "c = w" "status (item (rt S) w) = Done" "free_of_ties S w" "open_deps S w = []"
      "r = put w (\<lambda>x. x\<lparr>deps := [], args := []\<rparr>) (rt S)"
      using fo by (simp_all add: upd_put open_deps_def)
    have "calm S S'"
      using c by (auto simp: calm_def free(3) item_put)
    then show ?thesis
      by (intro lively_fin_calm [OF assms(1,2) h _ ni]) (use free c h in \<open>auto simp: item_put open_deps_def alike_def\<close>)
  next
    case (retired c pc r)
    then have c: "c = w" "deps (item (rt S) w) = []" "r = put w (\<lambda>x. x\<lparr>status := Deallocatable\<rparr>) (rt S)" "pc = Returned"
      using fo assms(3) h by (auto simp: retire_def bind_eq_Some_conv upd_put no_fathers_def split: option.splits)
    have "calm S S'" by (rule calm_args) (auto simp: retired(3) c item_put less_status_t_def split: if_splits)
    then show ?thesis
      by (intro lively_fin_calm [OF assms(1,2) h _ ni]) (use retired c h in \<open>auto simp: item_put open_deps_def alike_def\<close>)
  next
    case (climb f pc r)
    then show ?thesis using live_okD(5) [OF l] by simp
  qed
qed

section \<open>All the steps\<close>

lemma lively_spawn:
  assumes "safe ps S" "lively U ps S" "heap (rt S) w = None" "as \<in> U"
    and "new_workitem w as (int (length as)) None (rt S) = Some r"
  shows "lively U ps (at_ins w (Entering t) r S)"
proof -
  let ?S = "at_ins w (Entering t) r S"
  note nw = new_workitem_items(1,2) [OF assms(5), simplified]
  have w: "w \<notin> set ps" using listed_allocated [OF assms(1)] assms(3) by auto
  have nb: "behind ps w = {}" by (rule behind_outside [OF w])
  have f: "fin S w = Active" by (rule node_okD(1) [OF safeD(2) [OF assms(1)] assms(3)])
  have op: "open_deps ?S c = open_deps S c" if "c \<noteq> w" for c using that by (simp add: open_deps_def nw)
  have ne: "x \<noteq> w" if "x \<in> behind ps v" for x v using that behind_set w by blast
  have kp: "keeps ps S ps ?S v" if "heap (rt S) v \<noteq> None" "v \<noteq> w" for v
  proof (rule keeps_calm [OF assms(1) _ that(1)])
    show "calm S ?S" by (rule calm_args) (use assms(3) in \<open>auto simp: nw split: if_splits\<close>)
    show "bound ?S v q" if "q \<in> behind ps v" "bound S v q" for q
      using that \<open>v \<noteq> w\<close> op [OF ne] by (simp add: bound_def)
  qed simp
  have "live_ok U ps ?S w"
    by (simp add: live_ok_def nw built_def f nb assms(4))
  then show ?thesis
    by (intro lively_step [OF assms(1,2), where w = w]) (use kp in \<open>auto simp: nw alike_def\<close>)
qed

lemma lively_start:
  assumes "safe ps S" "lively U ps S" "tqueue (rt S) = t # ts" "run_begin t (rt S\<lparr>tqueue := ts\<rparr>) = Some r"
  shows "lively U ps (S\<lparr>rt := r\<rparr>)"
proof -
  let ?S = "S\<lparr>rt := r\<rparr>"
  note q = safeD(4) [OF assms(1), unfolded queue_ok_def assms(3)]
  obtain c where c: "ctx t = Some c" "heap (rt S) c \<noteq> None" "status (item (rt S) c) = Ready"
  proof -
    have "ctx t \<in> Some ` {v. heap (rt S) v \<noteq> None \<and> status (item (rt S) v) = Ready}"
      using q by (metis image_eqI list.set_intros(1))
    then show thesis using that by auto
  qed
  have r: "r = (put c (\<lambda>x. x\<lparr>status := Running\<rparr>) (rt S\<lparr>tqueue := ts\<rparr>))"
    using assms(4) c(1) by (simp add: run_begin_def upd_put)
  have it: "item r v = (if v = c then (item (rt S) c)\<lparr>status := Running\<rparr> else item (rt S) v)" for v
    by (simp add: r item_put)
  have al: "alike (item (rt S) v) (item r v)" for v using c(3) by (simp add: it alike_def)
  have dom: "heap r v = None \<longleftrightarrow> heap (rt S) v = None" for v using c(2) by (simp add: r)
  have ca: "calm S ?S" by (rule calm_args) (use c(3) in \<open>auto simp: it less_status_t_def split: if_splits\<close>)
  have bd: "bound ?S v p" if "bound S v p" for v p
    using that by (auto simp: bound_def open_deps_def it)
  have kp: "keeps ps S ps ?S v" if "heap (rt S) v \<noteq> None" for v
    by (rule keeps_calm [OF assms(1) ca that]) (use bd in auto)
  have l: "live_ok U ps S c" using assms(2) c(2) by (simp add: lively_def)
  note d = live_okD [OF l]
  have ni: "\<not> inserting (ins S c)" using inserting_node(1) [OF assms(1) c(2)] c(3) by auto
  obtain b where i: "ins S c = Inside b" using allocated_inside [OF assms(1) c(2) ni] by blast
  have m: "covered ps ?S c q" if "q \<in> behind ps c" "clash ?S q c" for q
    using d(4) [OF that(1)] kp [OF c(2)] that by (simp add: keeps_def i)
  have "fin S c \<noteq> Returned" using d(7) c(3) by auto
  then have "live_ok U ps ?S c"
    unfolding live_ok_def using m d(1,5,6) c(3) by (simp add: i it)
  then show ?thesis
    by (intro lively_step [OF assms(1,2), where w = c]) (use kp al dom in auto)
qed

lemma lively_finish:
  assumes "safe ps S" "lively U ps S" "in_function w S" "count_child w (rt S) = Some (pc, r)"
  shows "lively U ps (at_fin w pc r S)"
proof -
  note f = in_functionD [OF assms(3)]
  have l: "live_ok U ps S w" using assms(2) f(1) by (simp add: lively_def)
  have r: "r = put w (\<lambda>x. x\<lparr>nchildren := nchildren x - 1\<rparr>) (rt S)" "pc = Marking w"
    using assms(4) live_okD(6) [OF l f(3)] f(1)
    by (auto simp: count_child_def bind_eq_Some_conv upd_put split: if_splits)
  have ni: "\<not> inserting (ins S w)" using inserting_node(1) [OF assms(1) f(1)] f(2) by auto
  have "calm S (at_fin w pc r S)" by (rule calm_args) (auto simp: r item_put split: if_splits)
  then show ?thesis
    by (intro lively_fin_calm [OF assms(1,2) f(1) _ ni])
      (use f r in \<open>auto simp: item_put open_deps_def alike_def\<close>)
qed

text \<open>No step changes a father.\<close>

lemma father_ins_step:
  assumes "ins_step w S = Some S'" "heap (rt S) v \<noteq> None"
  shows "heap (rt S') v \<noteq> None \<and> father (item (rt S') v) = father (item (rt S) v)"
  using assms(1)
proof (cases rule: ins_step_cases)
  case (push t pc r)
  then show ?thesis
    using assms(2) by (auto simp: push_node_def Let_def bind_eq_Some_conv upd_put split: if_splits)
next
  case (look p l pc r)
  from look(2) show ?thesis by (cases rule: look_node_cases) (use look(3) assms(2) in \<open>auto simp: upd_put\<close>)
next
  case (compare p l pc r)
  from compare(2) show ?thesis by (cases rule: compare_node_cases) (use compare(3) assms(2) in \<open>auto simp: upd_put\<close>)
next
  case (link p l pc r)
  then show ?thesis using assms(2) by (auto simp: append_dep_def bind_eq_Some_conv upd_put)
next
  case (flag p l pc r)
  from flag(2) show ?thesis by (cases rule: flag_fills_cases) (use flag(3) assms(2) in \<open>auto simp: upd_put\<close>)
next
  case (launch l r)
  then show ?thesis using assms(2) by (auto elim!: post_put)
qed (use assms(2) in \<open>auto simp: decide_def bind_eq_Some_conv upd_put\<close>)

lemma father_fin_step:
  assumes "fin_step w S = Some S'" "heap (rt S) v \<noteq> None"
  shows "heap (rt S') v \<noteq> None \<and> father (item (rt S') v) = father (item (rt S) v)"
  using assms(1)
proof (cases rule: fin_step_cases)
  case (release c k pc r)
  from release(2) show ?thesis by (cases rule: release_next_cases) (use release(3) assms(2) in \<open>auto simp: upd_put\<close>)
next
  case (post_dep c k pc r)
  then show ?thesis using assms(2) by (auto simp: post_next_def bind_eq_Some_conv elim!: post_put)
qed (use assms(2) in \<open>auto simp: retire_def count_child_def bind_eq_Some_conv upd_put\<close>)

lemma father_step:
  assumes "hs_step U climb S S'" "heap (rt S) v \<noteq> None"
  shows "heap (rt S') v \<noteq> None \<and> father (item (rt S') v) = father (item (rt S) v)"
  using assms(1)
proof (cases rule: hs_step.cases)
  case (spawn as w fa r f)
  have "heap (rt S) a \<noteq> None \<and> a \<noteq> w" if "fa = Some a" for a
    using spawn(3,4) that in_functionD(1) by blast
  note nw = new_workitem_items(1,2) [OF spawn(5) this]
  show ?thesis using spawn(1,3) assms(2) by (auto simp: nw)
next
  case (start t ts r)
  then show ?thesis using assms(2) by (auto simp: run_begin_def upd_put split: option.splits)
next
  case (finish w pc r)
  then show ?thesis using assms(2) by (auto simp: count_child_def bind_eq_Some_conv upd_put)
qed (use assms(2) father_ins_step father_fin_step in blast)+

lemma fatherless_back: "hs_step U climb S S' \<Longrightarrow> no_fathers (rt S') \<Longrightarrow> no_fathers (rt S)"
  using father_step unfolding no_fathers_def by metis

lemma lively_hs_step:
  assumes "safe ps S" "lively U ps S" "universe U" "no_fathers (rt S')" "hs_step U climb S S'"
  shows "\<exists>ps'. safe ps' S' \<and> lively U ps' S'"
proof -
  note o = safeD(1) [OF assms(1)]
  have fl: "no_fathers (rt S)" by (rule fatherless_back [OF assms(5,4)])
  have "hs_step U False S S' \<and> (\<exists>ps'. order_ok ps' S' \<and> lively U ps' S')"
    using assms(5)
  proof (cases rule: hs_step.cases)
    case (spawn as w fa r f)
    have "heap (rt S) a \<noteq> None \<and> a \<noteq> w" if "fa = Some a" for a
      using spawn(3,4) that in_functionD(1) by blast
    note nw = new_workitem_items(1,2) [OF spawn(5) this]
    have "heap (rt S') w \<noteq> None" "father (item (rt S') w) = fa" by (simp_all add: spawn(1) nw built_def)
    then have "fa = None" using assms(4) by (simp add: no_fathers_def)
    then have "lively U ps S'" using lively_spawn [OF assms(1,2) spawn(3,2)] spawn(1,5) by simp
    moreover have "order_ok ps S'"
      unfolding spawn(1) by (rule order_spawn [OF o spawn(3) _ spawn(5)]) (use spawn(4) in blast)
    ultimately show ?thesis using hs_step.spawn [OF spawn(2-5)] spawn(1) by blast
  next
    case (insert w)
    then show ?thesis using lively_ins_step [OF assms(1-3) fl] hs_step.insert by blast
  next
    case (start t ts r)
    then show ?thesis using lively_start [OF assms(1,2)] order_start [OF o] hs_step.start by blast
  next
    case (finish w pc r)
    then show ?thesis using lively_finish [OF assms(1,2)] order_finish [OF o] hs_step.finish by blast
  next
    case (complete w)
    have "heap (rt S) w \<noteq> None"
      using node_okD(1) [OF safeD(2) [OF assms(1), of w]] fin_step_frame(2) [OF complete(1)] by blast
    then have "live_ok U ps S w" using assms(2) by (simp add: lively_def)
    then have "\<not> climbs w S" using live_okD(5) by (auto simp: climbs_def split: fin_pc.splits)
    then show ?thesis
      using lively_fin_step [OF assms(1,2) fl complete(1)] order_fin_step [OF o complete(1)]
        hs_step.complete [OF complete(1)] by blast
  qed
  then obtain ps' where ps': "hs_step U False S S'" "order_ok ps' S'" "lively U ps' S'" by blast
  obtain qs where qs: "safe qs S'" using safe_step [OF assms(1) ps'(1)] by blast
  have "qs = ps'"
    by (rule chain_null_unique [OF order_simps(1) [OF safeD(1) [OF qs]] order_simps(1) [OF ps'(2)]])
  then show ?thesis using qs ps'(3) by blast
qed

lemma lively_reachable:
  assumes "hs_reachable U climb S" "universe U" "no_fathers (rt S)"
  obtains ps where "safe ps S" "lively U ps S"
proof -
  have "\<exists>ps. safe ps S \<and> lively U ps S"
    using assms(1,3)
  proof (induction rule: hs_reachable.induct)
    case (init S)
    obtain ps where "safe ps S" by (rule safe_reachable [OF hs_reachable.init [OF init(1)]])
    moreover have "lively U ps S" using init(1) by (simp add: lively_def hs_initial_def)
    ultimately show ?case by blast
  next
    case (step S S')
    then obtain ps where "safe ps S" "lively U ps S" using fatherless_back by blast
    then show ?case using lively_hs_step [OF _ _ assms(2) step(4,2)] by blast
  qed
  then show thesis using that by blast
qed

section \<open>Progress\<close>

text \<open>A thread that inserts a task can always go on.\<close>

lemma insertion_goes_on:
  assumes "safe ps S" "lively U ps S" "universe U" "no_fathers (rt S)" "inserting (ins S w)"
  shows "ins_step w S \<noteq> None"
proof -
  have h: "heap (rt S) w \<noteq> None"
    using ins_okD(1) [OF safeD(5) [OF assms(1), of w]] assms(5) by auto
  have lw: "live_ok U ps S w" using assms(2) h by (simp add: lively_def)
  note d = live_okD [OF lw]
  note n = inserting_node [OF assms(1) h assms(5)]
  have uw: "args (item (rt S) w) \<in> U" by (rule d(1)) (use n in simp_all)
  obtain x where x: "heap (rt S) w = Some x" using h by (auto simp: not_None_eq)
  have eng: "\<exists>y. heap (rt S) p = Some y" if "locals_of (ins S w) = Some l" "rest ps (ins S w) = insert p (behind ps p)" for p l
    using behind_allocated [OF assms(1) engaged_node(1) [OF safeD(1) [OF assms(1)] that]] by (auto simp: not_None_eq)
  show ?thesis
  proof (cases "ins S w")
    case (Entering t)
    have "sint (nargs x) = int (length (args x))"
      using d(2) [OF Entering] sint_nargs [of "length (args x)"] uw assms(3) x by (simp add: universe_def)
    then show ?thesis using Entering x by (simp add: ins_step_def push_node_def upd_def Let_def)
  next
    case (Visiting p l)
    show ?thesis
    proof (cases p)
      case (Some q)
      obtain y where "heap (rt S) q = Some y" using eng [of l q] Visiting Some by auto
      moreover have "ancestor l = None" by (rule fatherless_ancestor [OF assms(1,4) _ h]) (simp add: Visiting)
      ultimately show ?thesis using Visiting Some by (simp add: ins_step_def look_node_def)
    qed (use Visiting in \<open>simp add: ins_step_def\<close>)
  next
    case (Comparing p l)
    then obtain y where y: "heap (rt S) p = Some y" using eng [of l p] by auto
    note e = engaged_node [OF safeD(1) [OF assms(1)], of w l p, unfolded Comparing, simplified]
    obtain ws where ws: "subseq ws (args (item (rt S) w))" "vec_holds (n_args l, argv l) ws"
      using d(3) [of l] unfolding argv_ok_def Comparing by auto
    have "comparison_ok (args y) ws"
      using args.admissible_subseq [OF _ ws(1)] assms(3) compared_args [OF assms(1,2) Comparing] uw y
      by (simp add: universe_def)
    then obtain c v where "compare_args (args y) (n_args l) (argv l) = Some (c, v)"
      using args.compare_step [OF _ ws(2)] by (force simp: compare_vec_def)
    then show ?thesis using Comparing y x by (cases v) (simp add: ins_step_def compare_node_def upd_def Let_def)
  next
    case (Linking p l)
    then obtain y where "heap (rt S) p = Some y" using eng [of l p] by auto
    then show ?thesis using Linking by (simp add: ins_step_def append_dep_def upd_def)
  next
    case (Flagging p l)
    then obtain y where "heap (rt S) p = Some y" using eng [of l p] by auto
    then show ?thesis using Flagging x by (simp add: ins_step_def flag_fills_def upd_def)
  next
    case (Launching l)
    then have "\<exists>t. task x = Some t" using node_okD(6) [OF safeD(2) [OF assms(1)] h] x by (auto simp: task_ok_def)
    then show ?thesis using Launching x by (auto simp: ins_step_def post_def upd_def)
  qed (use x assms(5) in \<open>simp_all add: ins_step_def decide_def upd_def\<close>)
qed

text \<open>When nobody inserts, a thread that completes a task can go on.\<close>

lemma completion_goes_on:
  assumes "safe ps S" "lively U ps S" "no_fathers (rt S)" "\<And>v. \<not> inserting (ins S v)"
    and "fin S w \<noteq> Active" "fin S w \<noteq> Returned"
  shows "fin_step w S \<noteq> None"
proof -
  note n = node_okD [OF safeD(2) [OF assms(1), of w]]
  have h: "heap (rt S) w \<noteq> None" using n(1) assms(5) by auto
  obtain x where x: "heap (rt S) w = Some x" using h by (auto simp: not_None_eq)
  have lw: "live_ok U ps S w" using assms(2) h by (simp add: lively_def)
  have ft: "free_of_ties S c" for c using assms(4) by (simp add: free_of_ties_def tied_def)
  have dep: "\<exists>y. heap (rt S) (deps x ! k) = Some y" if "k < length (deps x)" for k
  proof -
    have "heap (rt S) (deps x ! k) \<noteq> None"
      by (rule dependent_inside(2) [OF assms(1) h _ ft]) (use that x in simp)
    then show ?thesis by (simp add: not_None_eq)
  qed
  show ?thesis
  proof (cases "fin S w")
    case (Marking c)
    then show ?thesis using n(3) [OF h] x by (simp add: fin_step_def upd_def)
  next
    case (Loading c)
    then show ?thesis by (simp add: fin_step_def)
  next
    case (Walking c p)
    show ?thesis
    proof (cases p)
      case (Some q)
      then have q: "q \<in> set ps" using n(3) [OF h] Walking by simp
      then obtain y where y: "heap (rt S) q = Some y" using listed_allocated [OF assms(1)] by (auto simp: not_None_eq)
      obtain b where i: "ins S q = Inside b"
        using allocated_inside [OF assms(1) _ assms(4), of q] y by (auto simp: not_None_eq)
      note iq = ins_okD(4,6) [OF safeD(5) [OF assms(1), of q]]
      have "status y \<noteq> Filling" using iq(2) [OF i] y by simp
      moreover have "\<not> escaped y"
        using iq(1) assms(3) i y by (auto simp: flags_ok_def no_fathers_def not_None_eq)
      ultimately show ?thesis
        using Walking Some y by (simp add: fin_step_def walk_on_def escaped_def)
    qed (use Walking in \<open>simp add: fin_step_def walk_on_def\<close>)
  next
    case (Releasing c k)
    then have c: "c = w" using n(3) [OF h] by simp
    show ?thesis
    proof (cases "k < length (deps x)")
      case True
      then obtain y where "heap (rt S) (deps x ! k) = Some y" using dep by blast
      then show ?thesis using Releasing c x True by (simp add: fin_step_def release_next_def upd_def)
    qed (use Releasing c x in \<open>simp add: fin_step_def release_next_def\<close>)
  next
    case (Posting c k)
    then have c: "c = w" "k < length (deps x)" using n(3) [OF h] x by simp_all
    then obtain y where y: "heap (rt S) (deps x ! k) = Some y" using dep by blast
    obtain b where "ins S (deps x ! k) = Inside b"
      using allocated_inside [OF assms(1) _ assms(4), of "deps x ! k"] y by (auto simp: not_None_eq)
    then obtain t where "task y = Some t"
      using node_okD(6) [OF safeD(2) [OF assms(1)], of "deps x ! k"] y by (auto simp: task_ok_def not_None_eq)
    then show ?thesis using Posting c x y by (simp add: fin_step_def post_next_def post_def upd_def)
  next
    case (Freeing c)
    then show ?thesis using n(3) [OF h] x by (simp add: fin_step_def upd_def)
  next
    case (Retiring c)
    then show ?thesis using n(3) [OF h] x by (simp add: fin_step_def retire_def upd_def)
  next
    case (Climbing f)
    then show ?thesis using live_okD(5) [OF lw] by simp
  qed (use assms(5,6) in simp_all)
qed

text \<open>At rest a task that is not finished waits for an older one that is not finished either.\<close>

lemma rest_waits:
  assumes "safe ps S" "lively U ps S" "universe U" "no_fathers (rt S)" "at_rest S"
    and "heap (rt S) v \<noteq> None" "status (item (rt S) v) \<noteq> Deallocatable"
  obtains c where "c \<in> behind ps v" "status (item (rt S) c) \<noteq> Deallocatable"
proof -
  have r: "tqueue (rt S) = []" "\<And>w. \<not> in_function w S" "\<And>w. ins_step w S = None" "\<And>w. fin_step w S = None"
    using assms(5) by (simp_all add: at_rest_def)
  have ni: "\<not> inserting (ins S w)" for w using insertion_goes_on [OF assms(1-4)] r(3) by blast
  have fr: "fin S w = Active \<or> fin S w = Returned" for w
    using completion_goes_on [OF assms(1,2,4) ni] r(4) by blast
  obtain b where i: "ins S v = Inside b" by (rule allocated_inside [OF assms(1,6) ni])
  note n = node_okD [OF safeD(2) [OF assms(1), of v]]
  have l: "live_ok U ps S v" using assms(2,6) by (simp add: lively_def)
  have a: "fin S v = Active" using fr live_okD(7) [OF l] assms(7) by blast
  have "status (item (rt S) v) \<noteq> Filling" using ins_okD(6) [OF safeD(5) [OF assms(1)] i] .
  moreover have "status (item (rt S) v) \<noteq> Ready"
    using safeD(4) [OF assms(1)] assms(6) by (simp add: queue_ok_def r(1)) metis
  moreover have "status (item (rt S) v) \<noteq> Running"
    using r(2) [of v] assms(6) a by (auto simp: in_function_def not_None_eq)
  moreover have "status (item (rt S) v) < Done" using n(3) [OF assms(6)] a by simp
  ultimately have "status (item (rt S) v) = Waiting"
    using assms(7) by (cases "status (item (rt S) v)") (simp_all add: less_status_t_def)
  moreover have "\<not> due S v"
  proof
    assume "due S v"
    then obtain c k where "fin S c = Posting c k" using due_inside [OF assms(1)] by metis
    then show False using fr [of c] by simp
  qed
  ultimately obtain c where c: "c \<in> open_preds S v" using n(5) [OF assms(6)] i by (auto simp: wait_ok_def)
  have hc: "heap (rt S) c \<noteq> None" "v \<in> set (open_deps S c)" using c by (simp_all add: open_preds_def)
  have "status (item (rt S) c) \<noteq> Deallocatable"
  proof
    assume "status (item (rt S) c) = Deallocatable"
    moreover have "deps (item (rt S) c) \<noteq> []" using hc(2) open_subset [of S c] by auto
    ultimately show False
      using node_okD(3) [OF safeD(2) [OF assms(1)] hc(1)] fr [of c] by (auto simp: less_status_t_def)
  qed
  then show thesis using that preds_behind(1) [OF assms(1)] c by blast
qed

lemma rest_finished:
  assumes "safe ps S" "lively U ps S" "universe U" "no_fathers (rt S)" "at_rest S" "heap (rt S) v \<noteq> None"
  shows "status (item (rt S) v) = Deallocatable"
  using assms(6)
proof (induction "card (behind ps v)" arbitrary: v rule: less_induct)
  case less
  show ?case
  proof (rule ccontr)
    assume "status (item (rt S) v) \<noteq> Deallocatable"
    then obtain c where c: "c \<in> behind ps v" "status (item (rt S) c) \<noteq> Deallocatable"
      using rest_waits [OF assms(1-5) less.prems] by metis
    have "behind ps c \<subset> behind ps v"
      using behind_trans [OF safeD(6) [OF assms(1)] c(1)] behind_irrefl [OF safeD(6) [OF assms(1)], of c] c(1) by blast
    then have "card (behind ps c) < card (behind ps v)"
      by (intro psubset_card_mono) (use finite_subset [OF behind_set] in auto)
    then show False using less.hyps [OF _ behind_allocated [OF assms(1) c(1)]] c(2) by blast
  qed
qed

section \<open>Properties\<close>

lemma fatherless_below:
  assumes "below 2 S" "\<And>x. heap (rt S) 0 = Some x \<Longrightarrow> father x = None" "\<And>x. heap (rt S) 1 = Some x \<Longrightarrow> father x = None"
  shows "no_fathers (rt S)"
proof -
  have "v = 0 \<or> v = 1" if "heap (rt S) v = Some x" for v x
    using assms(1) that by (force simp: below_def allocated_def)
  then show ?thesis using assms(2,3) unfolding no_fathers_def by (metis not_None_eq option.sel)
qed





declare not_None_eq [simp]

end
