(* ===== verification/HandshakeErase.thy ===== *)
theory HandshakeErase
  imports HandshakeRuns
begin

text \<open>
  \<open>Workitem::Clean_worklist\<close> of \<open>src/src/workitem.cpp\<close>, access by access, while other threads insert and
  complete tasks: the thread that becomes the eraser, its scan of the list, the sublists it cuts out,
  its waits for the threads that may still stand in them, and the return of the nodes to the pool.

  A node that was returned is not in the heap any more, and is not handed out again: a thread that
  would read it is stuck, whatever the pool does with it.
\<close>

section \<open>The eraser\<close>

text \<open>The positions of the eraser; \<open>worklist_wait_hint\<close> goes along until it is used.\<close>

datatype er_pc =
    Resting                                \<comment> \<open>\<open>eraser_assigned\<close> is false\<close>
  | Chosen wid "wid option"                \<comment> \<open>this thread has \<open>erase\<close> set\<close>
  | Scanning "wid option" clean "wid option"
  | Cutting clean "wid option"             \<comment> \<open>the scan has ended\<close>
  | Heading clean "wid option"             \<comment> \<open>about to load \<open>worklist\<close> again\<close>
  | Newer "wid option" clean "wid option"  \<comment> \<open>waits for newer tasks\<close>
  | Draining "wid list" "(wid option \<times> wid option) list"  \<comment> \<open>waits for \<open>Dones\<close>\<close>
  | Freeing_lists "(wid option \<times> wid option) list"

text \<open>The addresses in \<open>used\<close> were handed out by the pool.\<close>

record es =
  base :: hs
  er :: er_pc
  used :: "wid set"

definition at_er :: "er_pc \<Rightarrow> runtime \<Rightarrow> es \<Rightarrow> es" where
  "at_er pc r S = S\<lparr>base := (base S)\<lparr>rt := r\<rparr>, er := pc\<rparr>"

text \<open>
  The compare-and-swap on \<open>eraser_assigned\<close>, between the fence and the load of \<open>worklist\<close>; it may fail
  for no reason, so no thread has to take it.
\<close>

definition take_role :: "wid \<Rightarrow> es \<Rightarrow> es option" where
  "take_role w S =
     (case fin (base S) w of
        Loading c \<Rightarrow>
          (case try_eraser c False (rt (base S)) of
             (True, r) \<Rightarrow> Some (at_er (Chosen w None) r S)
           | (False, _) \<Rightarrow> None)
      | _ \<Rightarrow> None)"

text \<open>A step of \<open>finish_execution\<close>; the load of \<open>worklist\<close> is the hint of the eraser.\<close>

definition note_hint :: "wid \<Rightarrow> es \<Rightarrow> er_pc" where
  "note_hint w S =
     (case (fin (base S) w, er S) of
        (Loading _, Chosen v _) \<Rightarrow> if v = w then Chosen w (worklist (rt (base S))) else er S
      | _ \<Rightarrow> er S)"

text \<open>The call of \<open>Clean_worklist\<close> when the loop of \<open>finish_execution\<close> has ended.\<close>

definition begin_erase :: "es \<Rightarrow> es option" where
  "begin_erase S =
     (case er S of
        Chosen w hint \<Rightarrow>
          if fin (base S) w = Returned
          then do {
            h \<leftarrow> worklist (rt (base S));
            x \<leftarrow> heap (rt (base S)) h;
            Some (at_er
              (Scanning (nxt x)
                \<lparr>lastkeep = h, last_workitem = None, deletable_workitems = 0, Dones = [], Deletable_Sublists = []\<rparr>
                hint)
              (rt (base S)) S)
          }
          else None
      | _ \<Rightarrow> None)"

definition scan_node :: "wid \<Rightarrow> clean \<Rightarrow> wid option \<Rightarrow> runtime \<Rightarrow> (er_pc \<times> runtime) option" where
  "scan_node q c hint s =
     do {
       x \<leftarrow> heap s q;
       if status x \<noteq> Deallocatable
       then do { (c1, s1) \<leftarrow> keep_node q x c s; Some (Scanning (nxt x) c1 hint, s1) }
       else Some (Scanning (nxt x)
              (c\<lparr>deletable_workitems := deletable_workitems c + 1, last_workitem := Some q\<rparr>) hint, s)
     }"

definition newer_node :: "wid option \<Rightarrow> clean \<Rightarrow> wid option \<Rightarrow> runtime \<Rightarrow> er_pc option" where
  "newer_node p c hint s =
     (if p = hint then Some (Draining (Dones c) (Deletable_Sublists c))
      else
        do {
          q \<leftarrow> p;
          x \<leftarrow> heap s q;
          if status x = Filling then None
          else if optFlags x AND (PendingFills OR FatherScape) = 0
          then Some (Draining (Dones c) (Deletable_Sublists c))
          else Some (Newer (nxt x) c hint)
        })"

definition erase_step :: "es \<Rightarrow> es option" where
  "erase_step S =
     do {
       (let s = rt (base S) in
        do {
          (pc, r) \<leftarrow>
            (case er S of
               Scanning None c hint \<Rightarrow> Some (Cutting c hint, s)
             | Scanning (Some q) c hint \<Rightarrow> scan_node q c hint s
             | Cutting c hint \<Rightarrow> do { (c1, s1) \<leftarrow> clean_tail c s; Some (Heading c1 hint, s1) }
             | Heading c hint \<Rightarrow> Some (Newer (worklist s) c hint, s)
             | Newer p c hint \<Rightarrow> do { pc \<leftarrow> newer_node p c hint s; Some (pc, s) }
             | Draining [] ls \<Rightarrow> Some (Freeing_lists ls, s)
             | Draining (w # ws) ls \<Rightarrow>
                 do { x \<leftarrow> heap s w; if status x = Done then None else Some (Draining ws ls, s) }
             | Freeing_lists [] \<Rightarrow> Some (Resting, s\<lparr>eraser_assigned := False\<rparr>)
             | Freeing_lists ((b, e) # ls) \<Rightarrow> do { s1 \<leftarrow> free_sublist b e s; Some (Freeing_lists ls, s1) }
             | _ \<Rightarrow> None);
          Some (at_er pc r S)
        })
     }"

section \<open>All the threads\<close>

text \<open>All the tasks that exist are inserted.\<close>

definition nobody_inserts :: "hs \<Rightarrow> bool" where
  "nobody_inserts S \<longleftrightarrow> (\<forall>v. ins S v = Outside \<or> (\<exists>b. ins S v = Inside b))"

text \<open>With \<open>single\<close> the main thread spawns all the tasks, one after the other.\<close>

inductive er_step :: "arg_info list set \<Rightarrow> bool \<Rightarrow> es \<Rightarrow> es \<Rightarrow> bool" for U single where
  spawn: "as \<in> U \<Longrightarrow> w \<notin> used S \<Longrightarrow> heap (rt (base S)) w = None \<Longrightarrow>
    \<forall>a. fa = Some a \<longrightarrow> in_function a (base S) \<and> between_spawns a (base S) \<Longrightarrow>
    single \<longrightarrow> fa = None \<and> nobody_inserts (base S) \<Longrightarrow>
    new_workitem w as (int (length as)) fa (rt (base S)) = Some r \<Longrightarrow>
    er_step U single S
      (S\<lparr>base := at_ins w (Entering \<lparr>func = f, ctx = Some w\<rparr>) r (base S), used := insert w (used S)\<rparr>)"
| insert: "ins_step w (base S) = Some B \<Longrightarrow> er_step U single S (S\<lparr>base := B\<rparr>)"
| start: "tqueue (rt (base S)) = t # ts \<Longrightarrow> run_begin t (rt (base S)\<lparr>tqueue := ts\<rparr>) = Some r \<Longrightarrow>
    er_step U single S (S\<lparr>base := (base S)\<lparr>rt := r\<rparr>\<rparr>)"
| finish: "in_function w (base S) \<Longrightarrow> between_spawns w (base S) \<Longrightarrow> count_child w (rt (base S)) = Some (pc, r) \<Longrightarrow>
    er_step U single S (S\<lparr>base := at_fin w pc r (base S)\<rparr>)"
| complete: "fin_step w (base S) = Some B \<Longrightarrow> er_step U single S (S\<lparr>base := B, er := note_hint w S\<rparr>)"
| take_role: "take_role w S = Some S' \<Longrightarrow> er_step U single S S'"
| begin_role: "begin_erase S = Some S' \<Longrightarrow> er_step U single S S'"
| erase_node: "erase_step S = Some S' \<Longrightarrow> er_step U single S S'"

definition er_initial :: "es \<Rightarrow> bool" where
  "er_initial S \<longleftrightarrow>
     hs_initial (base S) \<and> er S = Resting \<and> used S = {} \<and> \<not> eraser_assigned (rt (base S))"

inductive er_reachable :: "arg_info list set \<Rightarrow> bool \<Rightarrow> es \<Rightarrow> bool" for U single where
  init: "er_initial S \<Longrightarrow> er_reachable U single S"
| step: "er_reachable U single S \<Longrightarrow> er_step U single S S' \<Longrightarrow> er_reachable U single S'"

section \<open>Schedules\<close>

datatype er_event = Thread hs_event | Choose wid | Begin_erase | Erase

fun er_happen :: "nat \<Rightarrow> er_event \<Rightarrow> es \<Rightarrow> es option" where
  "er_happen n (Thread (Spawn w as fa)) S =
     (if w \<notin> used S
      then do { B \<leftarrow> happen True n (Spawn w as fa) (base S); Some (S\<lparr>base := B, used := insert w (used S)\<rparr>) }
      else None)"
| "er_happen n (Thread (Complete w)) S =
     do { B \<leftarrow> happen True n (Complete w) (base S); Some (S\<lparr>base := B, er := note_hint w S\<rparr>) }"
| "er_happen n (Thread e) S = do { B \<leftarrow> happen True n e (base S); Some (S\<lparr>base := B\<rparr>) }"
| "er_happen n (Choose w) S = take_role w S"
| "er_happen n Begin_erase S = begin_erase S"
| "er_happen n Erase S = erase_step S"

fun er_happens :: "nat \<Rightarrow> er_event list \<Rightarrow> es \<Rightarrow> es option" where
  "er_happens n [] S = Some S"
| "er_happens n (e # es) S = do { S1 \<leftarrow> er_happen n e S; er_happens n es S1 }"

definition idle_es :: es where
  "idle_es = \<lparr>base = idle_hs\<lparr>rt := (rt idle_hs)\<lparr>ObserversAtWork := 0\<rparr>\<rparr>, er = Resting, used = {}\<rparr>"

text \<open>
  Task 0 is finished; tasks 1 and 2 run and spawn a subtask each. The subtask 3 of task 1 has passed all
  tasks but task 0 when the subtask 4 of task 2 is inserted, run and finished, and its thread
  cleans the list. The thread does not wait for task 3, which stands behind task 4 in the list.
\<close>

definition visited_run :: "er_event list" where
  "visited_run =
     map Thread
       ([Spawn 0 [region 1000 4 True] None] @ replicate 4 (Insert 0) @ [Start, End 0] @ replicate 6 (Complete 0) @
        [Spawn 1 [region 1000 4 True] None] @ replicate 5 (Insert 1) @ [Start] @
        [Spawn 2 [region 1004 4 True] None] @ replicate 8 (Insert 2) @ [Start] @
        [Spawn 3 [region 1000 4 True] (Some 1)] @ replicate 5 (Insert 3) @
        [Spawn 4 [region 1004 4 True] (Some 2)] @ replicate 12 (Insert 4) @ [Start, End 4, Complete 4]) @
     [Choose 4] @ replicate 6 (Thread (Complete 4)) @ [Begin_erase] @ replicate 10 Erase"

lemma base_upd [simp]: "base (at_er pc r S) = (base S)\<lparr>rt := r\<rparr>" "er (at_er pc r S) = pc" "used (at_er pc r S) = used S"
  by (simp_all add: at_er_def)

text \<open>The eraser takes nodes out of the heap and adds none.\<close>

lemma allocated_upd_sub: "upd w f s = Some s' \<Longrightarrow> allocated s' \<subseteq> allocated s"
  by (simp add: allocated_upd)

lemma allocated_keep_node: "keep_node q x c s = Some (c', s') \<Longrightarrow> allocated s' \<subseteq> allocated s"
  by (auto simp: keep_node_def Let_def bind_eq_Some_conv dest: allocated_upd split: if_splits)

lemma allocated_clean_tail: "clean_tail c s = Some (c', s') \<Longrightarrow> allocated s' \<subseteq> allocated s"
  by (auto simp: clean_tail_def bind_eq_Some_conv dest: allocated_upd split: if_splits)

lemma allocated_free_sublist:
  assumes "free_sublist p e s = Some s'"
  shows "allocated s' \<subseteq> allocated s"
proof (rule free_sublist.raw_induct [where P = "\<lambda>p e s s'. allocated s' \<subseteq> allocated s", OF _ assms])
  fix R p e s y
  assume IH: "\<And>p e s y. R p e s = Some y \<Longrightarrow> allocated y \<subseteq> allocated s"
    and b: "do {
       q \<leftarrow> p;
       x \<leftarrow> heap s q;
       (let s1 = s\<lparr>heap := (heap s)(q := None)\<rparr>
        in if p = e then Some s1 else R (nxt x) e s1)
     } = Some y"
  then obtain q x where q: "p = Some q" "heap s q = Some x"
    "(if p = e then Some (s\<lparr>heap := (heap s)(q := None)\<rparr>) else R (nxt x) e (s\<lparr>heap := (heap s)(q := None)\<rparr>)) = Some y"
    by (auto simp: bind_eq_Some_conv Let_def)
  have sub: "allocated (s\<lparr>heap := (heap s)(q := None)\<rparr>) \<subseteq> allocated s" by (auto simp: allocated_def)
  show "allocated y \<subseteq> allocated s"
  proof (cases "p = e")
    case False
    then have "R (nxt x) e (s\<lparr>heap := (heap s)(q := None)\<rparr>) = Some y" using q(3) by simp
    from IH [OF this] show ?thesis using sub by blast
  qed (use q(3) sub in simp)
qed

lemma below_runtime:
  assumes "below n S" "allocated r \<subseteq> allocated (rt S)"
  shows "below n (S\<lparr>rt := r\<rparr>)"
  using assms by (auto simp: below_def)

lemma erase_step_cases:
  assumes "erase_step S = Some S'"
  obtains (scanned) c hint where "er S = Scanning None c hint" "S' = at_er (Cutting c hint) (rt (base S)) S"
  | (scan) q c hint pc r where "er S = Scanning (Some q) c hint" "scan_node q c hint (rt (base S)) = Some (pc, r)"
      "S' = at_er pc r S"
  | (cut) c hint c1 r where "er S = Cutting c hint" "clean_tail c (rt (base S)) = Some (c1, r)"
      "S' = at_er (Heading c1 hint) r S"
  | (head) c hint where "er S = Heading c hint" "S' = at_er (Newer (worklist (rt (base S))) c hint) (rt (base S)) S"
  | (newer) p c hint pc where "er S = Newer p c hint" "newer_node p c hint (rt (base S)) = Some pc"
      "S' = at_er pc (rt (base S)) S"
  | (drained) ls where "er S = Draining [] ls" "S' = at_er (Freeing_lists ls) (rt (base S)) S"
  | (drain) w ws ls x where "er S = Draining (w # ws) ls" "heap (rt (base S)) w = Some x" "status x \<noteq> Done"
      "S' = at_er (Draining ws ls) (rt (base S)) S"
  | (over) "er S = Freeing_lists []" "S' = at_er Resting ((rt (base S))\<lparr>eraser_assigned := False\<rparr>) S"
  | (free) b e ls r where "er S = Freeing_lists ((b, e) # ls)" "free_sublist b e (rt (base S)) = Some r"
      "S' = at_er (Freeing_lists ls) r S"
proof (cases "er S")
  case (Scanning p c hint)
  then show ?thesis using assms scanned scan by (cases p) (auto simp: erase_step_def bind_eq_Some_conv Let_def)
next
  case (Draining ws ls)
  then show ?thesis
    using assms drained drain by (cases ws) (auto simp: erase_step_def bind_eq_Some_conv Let_def split: if_splits)
next
  case (Freeing_lists ls)
  show ?thesis
  proof (cases ls)
    case (Cons be ls')
    then show ?thesis using assms free Freeing_lists by (cases be) (auto simp: erase_step_def bind_eq_Some_conv Let_def)
  qed (use assms over Freeing_lists in \<open>auto simp: erase_step_def Let_def\<close>)
qed (use assms cut head newer in \<open>auto simp: erase_step_def bind_eq_Some_conv Let_def\<close>)

lemma erase_step_below:
  assumes "erase_step S = Some S'" "below n (base S)"
  shows "below n (base S')"
proof -
  have "\<exists>pc r. S' = at_er pc r S \<and> allocated r \<subseteq> allocated (rt (base S))"
    using assms(1)
  proof (cases rule: erase_step_cases)
    case (scan q c hint pc r)
    then show ?thesis by (auto simp: scan_node_def bind_eq_Some_conv split: if_splits dest!: allocated_keep_node)
  next
    case (cut c hint c1 r)
    then show ?thesis using allocated_clean_tail by blast
  next
    case over
    then show ?thesis
      by (intro exI [of _ Resting] exI [of _ "(rt (base S))\<lparr>eraser_assigned := False\<rparr>"]) (simp add: allocated_def)
  next
    case (free b e ls r)
    then show ?thesis using allocated_free_sublist by blast
  qed blast+
  then obtain pc r where r: "S' = at_er pc r S" "allocated r \<subseteq> allocated (rt (base S))" by blast
  show ?thesis unfolding r(1) base_upd by (rule below_runtime [OF assms(2) r(2)])
qed

lemma thread_step:
  assumes "below n (base S)" "happen True n e (base S) = Some B" "\<And>w as fa. e = Spawn w as fa \<Longrightarrow> as \<in> U \<and> w \<notin> used S"
  shows "er_step U False S
    (S\<lparr>base := B, er := (case e of Complete w \<Rightarrow> note_hint w S | _ \<Rightarrow> er S),
       used := (case e of Spawn w _ _ \<Rightarrow> insert w (used S) | _ \<Rightarrow> used S)\<rparr>)"
proof -
  note b = below_between [OF assms(1)]
  show ?thesis
  proof (cases e)
    case (Spawn w as fa)
    then obtain r where r: "heap (rt (base S)) w = None"
      "new_workitem w as (int (length as)) fa (rt (base S)) = Some r"
      "\<forall>a. fa = Some a \<longrightarrow> in_function a (base S) \<and> subtasks_inside n a (base S)"
      "B = at_ins w (Entering \<lparr>func = w, ctx = Some w\<rparr>) r (base S)"
      using assms(2) by (auto simp: bind_eq_Some_conv split: if_splits option.splits)
    have "er_step U False S
        (S\<lparr>base := at_ins w (Entering \<lparr>func = w, ctx = Some w\<rparr>) r (base S), used := insert w (used S)\<rparr>)"
      by (rule er_step.spawn) (use assms(3) Spawn r b in auto)
    then show ?thesis by (simp add: Spawn r(4))
  next
    case (Insert w)
    have "er_step U False S (S\<lparr>base := B\<rparr>)" by (rule er_step.insert) (use assms(2) Insert in simp)
    then show ?thesis by (simp add: Insert)
  next
    case Start
    then obtain t ts r where r: "tqueue (rt (base S)) = t # ts" "run_begin t (rt (base S)\<lparr>tqueue := ts\<rparr>) = Some r"
      "B = (base S)\<lparr>rt := r\<rparr>"
      using assms(2) by (auto simp: bind_eq_Some_conv split: list.splits)
    have "er_step U False S (S\<lparr>base := (base S)\<lparr>rt := r\<rparr>\<rparr>)" by (rule er_step.start [OF r(1,2)])
    then show ?thesis by (simp add: Start r(3))
  next
    case (End w)
    then obtain pc r where r: "in_function w (base S)" "subtasks_inside n w (base S)"
      "count_child w (rt (base S)) = Some (pc, r)" "B = at_fin w pc r (base S)"
      using assms(2) by (auto simp: bind_eq_Some_conv split: if_splits)
    have "er_step U False S (S\<lparr>base := at_fin w pc r (base S)\<rparr>)" by (rule er_step.finish [OF r(1) b [OF r(2)] r(3)])
    then show ?thesis by (simp add: End r(4))
  next
    case (Complete w)
    have "er_step U False S (S\<lparr>base := B, er := note_hint w S\<rparr>)"
      by (rule er_step.complete) (use assms(2) Complete in \<open>simp split: if_splits\<close>)
    then show ?thesis by (simp add: Complete)
  qed
qed

lemma er_happen_step:
  assumes "below n (base S)" "er_happen n e S = Some S'" "\<And>w as fa. e = Thread (Spawn w as fa) \<Longrightarrow> as \<in> U"
  shows "er_step U False S S' \<and> below n (base S')"
proof (cases e)
  case (Thread h)
  obtain B where B: "happen True n h (base S) = Some B" "\<And>w as fa. h = Spawn w as fa \<Longrightarrow> w \<notin> used S"
    and S': "S' = S\<lparr>base := B, er := (case h of Complete w \<Rightarrow> note_hint w S | _ \<Rightarrow> er S),
       used := (case h of Spawn w _ _ \<Rightarrow> insert w (used S) | _ \<Rightarrow> used S)\<rparr>"
    using assms(2) Thread by (cases h) (auto simp del: happen.simps simp: bind_eq_Some_conv split: if_splits)
  have "er_step U False S S'"
    unfolding S' by (rule thread_step [OF assms(1) B(1)]) (use assms(3) B(2) Thread in blast)
  moreover have "below n B"
    using happen_step [OF assms(1) B(1), where U = UNIV] by simp
  ultimately show ?thesis by (simp add: S')
next
  case (Choose w)
  then have c: "take_role w S = Some S'" using assms(2) by simp
  then have "allocated (rt (base S')) = allocated (rt (base S)) \<and> ins (base S') = ins (base S) \<and> fin (base S') = fin (base S)"
    by (auto simp: take_role_def try_eraser_def allocated_def split: fin_pc.splits if_splits)
  then show ?thesis using assms(1) er_step.take_role [OF c] by (simp add: below_def)
next
  case Begin_erase
  then have c: "begin_erase S = Some S'" using assms(2) by simp
  then have "base S' = base S"
    by (auto simp: begin_erase_def bind_eq_Some_conv split: er_pc.splits if_splits)
  then show ?thesis using assms(1) er_step.begin_role [OF c] by simp
next
  case Erase
  then have c: "erase_step S = Some S'" using assms(2) by simp
  then show ?thesis using erase_step_below [OF c assms(1)] er_step.erase_node by blast
qed

lemma er_happens_reachable:
  "er_reachable U False S \<Longrightarrow> below n (base S) \<Longrightarrow> er_happens n es S = Some S' \<Longrightarrow>
   \<forall>w as fa. Thread (Spawn w as fa) \<in> set es \<longrightarrow> as \<in> U \<Longrightarrow> er_reachable U False S'"
proof (induction es arbitrary: S)
  case (Cons e es)
  obtain S1 where S1: "er_happen n e S = Some S1" "er_happens n es S1 = Some S'"
    using Cons.prems(3) by (auto simp: bind_eq_Some_conv)
  have s: "er_step U False S S1 \<and> below n (base S1)"
    by (rule er_happen_step [OF Cons.prems(2) S1(1)]) (use Cons.prems(4) in auto)
  show ?case
    by (rule Cons.IH [of S1]) (use s S1 Cons.prems er_reachable.step in auto)
qed simp

lemma idle_er_reachable: "er_reachable U single idle_es" "below n (base idle_es)"
  by (auto simp: idle_es_def idle_hs_def er_initial_def hs_initial_def below_def allocated_def
      intro!: er_reachable.init)

section \<open>A freed node is visited\<close>

text \<open>
  C25: The thread that cleans the list does not wait for the tasks that are still being inserted behind the
  task it has finished: with subtasks of two tasks, one thread returns a node to the pool while
  another, which inserts a task, stands at that node and is about to read it.
\<close>

theorem erasing_races_with_insertion:
  "\<exists>S q l. er_reachable race_args False S \<and> ins (base S) 3 = Visiting (Some q) l \<and>
     q \<in> used S \<and> heap (rt (base S)) q = None"
proof -
  have "map_option (\<lambda>S. (case ins (base S) 3 of Visiting (Some q) _ \<Rightarrow> q = 0 | _ \<Rightarrow> False,
      0 \<in> used S, heap (rt (base S)) 0 = None)) (er_happens 5 visited_run idle_es) = Some (True, True, True)"
    by code_simp
  then obtain S where S: "er_happens 5 visited_run idle_es = Some S"
    "case ins (base S) 3 of Visiting (Some q) _ \<Rightarrow> q = 0 | _ \<Rightarrow> False" "0 \<in> used S" "heap (rt (base S)) 0 = None"
    by auto
  have "\<forall>w as fa. Thread (Spawn w as fa) \<in> set visited_run \<longrightarrow> as \<in> race_args"
    by (auto simp: visited_run_def race_args_def)
  then have "er_reachable race_args False S"
    by (rule er_happens_reachable [OF idle_er_reachable S(1)])
  moreover obtain l where "ins (base S) 3 = Visiting (Some 0) l"
    using S(2) by (auto split: ins_pc.splits option.splits)
  ultimately show ?thesis using S(3,4) by blast
qed

end
