(* ===== verification/Spec2Isabelle.thy ===== *)
theory Spec2Isabelle
  imports Prelude Pool Lockfree TaggedPtr TaskPool ThreadPool Config Range Steal Types
    MemBlock BlitzArray BlitzLayout BlitzViews
    Regions ArgInfo FillArgs DepScan Workitem Cleaning Dependence Insertion Completion
    Invariant Scheduler Ordering Dataflow Refinement Waiting Handshake HandshakeRuns HandshakeWhole
    HandshakeOrder HandshakeSafe HandshakeLive HandshakeErase
begin

text \<open>
  DepSpawn: data dependent spawn. A verification library of the C++ library in this repository:
  \<open>src/src\<close>, \<open>src/include/depspawn\<close>, the queue of \<open>src/include/boost/lockfree\<close> its thread pool
  uses, and the parts of \<open>src/depspawn-blitz-1.0.2/blitz\<close> it takes dependencies from.

  \<^bold>\<open>The program.\<close> \<open>spawn(f, args...)\<close> makes a task of a function call. The analysis of the
  arguments (\<open>fill_args\<close>) gives the regions of memory, and the parts of Blitz++ arrays, that the
  task reads and may write, as an ordered list of \<open>arg_info\<close>. \<open>insert_in_worklist\<close> puts the task
  at the head of a linked list of all tasks and compares its list with those of the older tasks,
  newest first; an older task that conflicts gets the new one as a dependent. A task that depends
  on none is posted to a thread pool. When its function and all its subtasks have ended,
  \<open>finish_execution\<close> releases its dependents, climbs to its father, and now and then cuts finished
  tasks out of the list (\<open>Clean_worklist\<close>). \<open>wait_for_all\<close>, \<open>wait_for\<close> and the class \<open>Observer\<close>
  wait for tasks.

  \<^bold>\<open>The theories\<close>, in the order of the code:

  \<^item> \<open>Prelude\<close>: machine words, options, linked lists read through a partial map.
  \<^item> \<open>Regions\<close>, \<open>ArgInfo\<close>: \<open>overlaps_intervals\<close> and \<open>contains_intervals\<close>, \<open>struct arg_info\<close>,
    \<open>insert_in_arglist\<close>, \<open>solve_overlap\<close> (\<open>depspawn.cpp\<close>). An argument covers a set of locations,
    its \<open>footprint\<close>; the insertion keeps the list ordered and covers the same locations.
  \<^item> \<open>Types\<close>, \<open>FillArgs\<close>: the type functions and \<open>fill_args\<close>, \<open>fill_in_array\<close> of \<open>depspawn.h\<close>: which
    arguments are tracked, as read or as written, and what the resulting list covers.
  \<^item> \<open>MemBlock\<close>, \<open>BlitzArray\<close>, \<open>BlitzLayout\<close>, \<open>BlitzViews\<close>: the memory blocks, storage formats, arrays
    and views of Blitz++ (\<open>memblock.h\<close>, \<open>array/storage.h\<close>, \<open>methods.cc\<close>, \<open>slicing.cc\<close>, \<open>resize.cc\<close>,
    \<open>array-impl.h\<close>). Reference counts are exact; the elements of an array have addresses of their own
    inside its block (a mixed radix argument over \<open>computeStrides\<close>); the extents that the repository
    adds to the storage, which \<open>fill_in_array\<close> reads, are exactly the elements of a view, for bases
    0 and explicit ranges of step 1, so that \<open>overlap_array\<close> decides whether two views conflict; and
    for the other views they can be wrong or uninitialised.
  \<^item> \<open>DepScan\<close>, \<open>Dependence\<close>: the merge of two argument lists in \<open>insert_in_worklist\<close>
    (\<open>workitem.cpp\<close>) with its vector \<open>argv\<close>, \<open>is_contained\<close>; and the row of comparisons of a new
    task, against the contract \<open>dependence_test\<close> of a single comparison.
  \<^item> \<open>Workitem\<close>, \<open>Cleaning\<close>: \<open>struct Workitem\<close>, the heap of tasks, \<open>insert_in_worklist\<close>, \<open>post\<close>,
    \<open>finish_execution\<close>, \<open>Clean_worklist\<close>, one definition for each loop and step of the code.
  \<^item> \<open>Insertion\<close>, \<open>Completion\<close>: what these operations do to the state, pointer loops as loops over
    the list of nodes.
  \<^item> \<open>Invariant\<close>: the invariant of the runtime between operations (\<open>coherent\<close>: the list, the
    dependency edges and their counters, families of tasks, the queue), kept by every operation.
  \<^item> \<open>Scheduler\<close>, \<open>Ordering\<close>: programs on the library as a step relation (\<open>perform\<close>,
    \<open>reachable\<close>), and the order between conflicting tasks.
  \<^item> \<open>Dataflow\<close>, \<open>Refinement\<close>: the contract of the library, an abstract machine of tasks that
    clash, and the simulation of each library step by a step of that machine.
  \<^item> \<open>Waiting\<close>: \<open>start_master\<close>, \<open>wait_for_all\<close>, \<open>wait_for\<close>, \<open>wait_for_subtasks\<close>, and the destructor
    of \<open>Observer\<close> interleaved with the program.
  \<^item> \<open>Handshake\<close>: \<open>insert_in_worklist\<close> and \<open>finish_execution\<close> again, one access to shared memory at a
    time, by any number of threads in any interleaving (\<open>hs_step\<close>, \<open>hs_reachable\<close>): the states
    \<open>Filling\<close> and \<open>Done\<close>, the flags \<open>PendingFills\<close> and \<open>FatherScape\<close> and the walk from the head of the
    list are a hand-shake between them. \<open>HandshakeRuns\<close>: schedules that can be evaluated, among them two
    that break it when a subtask finishes its father. \<open>HandshakeWhole\<close>: a thread that is not
    interrupted does what the operation of \<open>Workitem\<close> does. \<open>HandshakeOrder\<close>, \<open>HandshakeSafe\<close>: the
    invariant: the position of each thread in the list and what the flags of a task promise of older
    tasks (\<open>order_ok\<close>, for all runs), who may be linked to a task that is completed, exact counters and
    queue (\<open>safe\<close>, for runs in which no subtask finishes its father). \<open>HandshakeLive\<close>: for tasks
    without fathers, the order of conflicting tasks and progress (\<open>lively\<close>). \<open>HandshakeErase\<close>:
    \<open>Clean_worklist\<close> access by access among these threads (\<open>er_step\<close>), and a schedule with subtasks in
    which it frees a node that another thread is visiting.
  \<^item> \<open>Pool\<close>, \<open>Lockfree\<close>, \<open>TaggedPtr\<close>, \<open>TaskPool\<close>, \<open>ThreadPool\<close>: the memory pools, the lock-free queue
    and its free lists, the task pool and the thread pool under it.
  \<^item> \<open>Steal\<close>: the hand-shake of the backend on Intel TBB. \<open>Config\<close>: environment variables, number of
    threads, start, reports. \<open>Range\<close>: the class \<open>Range\<close> and the loops \<open>for_range\<close>.

  \<^bold>\<open>Interfaces.\<close> \<open>dependence_test\<close> (Dependence) is what the insertion needs of a comparison,
  interpreted on the merge of DepScan. \<open>independence\<close> (Dataflow) is what makes the outcome of a run
  sequential, interpreted on the tasks of the library. \<open>object_pool\<close> (Pool) is the contract of a
  memory pool, interpreted on both pools; \<open>bounded_queue\<close> (Lockfree) that of the task queue,
  interpreted on the lock-free queue; \<open>element_addresses\<close> (BlitzViews) that of array elements as
  storage, interpreted on Blitz++ arrays.

  \<^bold>\<open>Conventions.\<close> \<open>None\<close> is an access through a null or dangling pointer, a failed assertion, a read
  of something never written, or a spin loop that the state does not let the thread leave; that
  reachable states have no such result is proved (\<open>operations_succeed\<close>). Addresses are 64-bit
  words, the number of arguments of a task is an 8-bit word as the \<open>signed char\<close> of the code, the
  queue has its 16-bit indices and tags; the counters of subtasks and dependencies and the indices
  of arrays and ranges are unbounded integers. Loops over linked
  structures are \<open>partial_function (option)\<close>, with the theorems that they return; no definition
  takes fuel. An argument list has at most 127 arguments, because the code keeps their number in a
  \<open>signed char\<close>, and its regions do not wrap around the address space (\<open>universe\<close>).

  \<^bold>\<open>This theory\<close> holds the properties that span the components, for programs in the sense of
  \<open>Scheduler\<close>: safety and order (\<open>operations_succeed\<close>, \<open>conflicting_tasks_wait\<close>), the invariants,
  progress and termination (\<open>no_deadlock\<close>, \<open>programs_can_finish\<close>, \<open>each_task_runs_once\<close>), the
  refinement (\<open>library_implements_dataflow\<close>, \<open>parallel_run_is_sequential\<close>), the waits, and
  reachable states with subtasks in which order or progress is lost.

  \<^bold>\<open>What the properties assume.\<close> The ordering results are for programs whose main thread spawns all
  tasks, and in Handshake for tasks without fathers, which several threads may spawn at once; with
  subtasks the invariants and the absence of faults of the operations as wholes still hold, and there
  are counterexamples to order and progress. Interleaved, the hand-shake is safe with subtasks too,
  until one of them finishes its father (\<open>subtask_completion_races\<close>). The comparison of arguments is
  exact for the argument lists of \<open>universe\<close>, those on which the merge of two lists misses nothing;
  one that it misses is in DepScan.

  \<^bold>\<open>Not modelled.\<close> In Scheduler the operations of the runtime run one at a time, with
  \<open>Clean_worklist\<close>; Handshake interleaves insertion and completion by single accesses; its
  positive results are for runs in which nobody erases, as while an \<open>Observer\<close> exists. HandshakeErase
  adds the eraser; there a node that was freed is not handed out again. These steps take together the comparison of two
  argument lists (which nobody can free meanwhile: \<open>released_tasks_are_untied\<close>), the status and the
  queue in \<open>post\<close> and at the start of a task, the two reads of a status that steer the fast start, the
  reads and writes of the eraser at one node of its scan, and the return of one sublist. The memory
  fences and the C++ memory model are not there. The pools, the queue, the thread pool, the stealing and the observer are interleaved by
  single accesses too. The classes of TBB are used as documented. Of Blitz++, the operations that copy
  elements, expressions, stencils, iterators, printing and serialization are left out, since the
  library does not use them for dependencies, and so is the older copy of Blitz++ in the
  repository; so are Boost beyond the queue, the counters of the profiling build, the tests and the
  benchmarks.
\<close>

section \<open>Sample programs\<close>

text \<open>
  The tasks of the samples update one of two regions of four bytes, most of them the first. In
  the nested samples the first of two tasks of the main thread spawns a subtask.
\<close>

definition sample_args :: "arg_info list set" where
  "sample_args = {[region 1000 4 True], [region 2000 4 True]}"

definition sample_start :: sys where
  "sample_start = \<lparr>rts = empty_runtime, executing = {}\<rparr>"

definition sample_run :: "bool \<Rightarrow> event list \<Rightarrow> sys" where
  "sample_run nested evs = the (perform_all sample_args nested evs sample_start)"

abbreviation task_args :: "arg_info list" where
  "task_args \<equiv> [region 1000 4 True]"

definition two_tasks :: "event list" where
  "two_tasks = [Spawned 1 0 task_args None, Spawned 2 1 task_args None, Began 1]"

definition apart_tasks :: "event list" where
  "apart_tasks = [Spawned 1 0 task_args None, Spawned 2 1 [region 2000 4 True] None, Began 1]"

definition finished_tasks_run :: "event list" where
  "finished_tasks_run = two_tasks @ [Ended 1, Began 2, Ended 2]"

definition late_subtask :: "event list" where
  "late_subtask = [Spawned 1 0 task_args None, Spawned 2 1 task_args None, Began 1,
     Spawned 3 2 task_args (Some 1), Ended 1]"

definition early_subtask :: "event list" where
  "early_subtask = [Spawned 1 0 task_args None, Began 1, Spawned 2 1 task_args (Some 1),
     Spawned 3 2 task_args None, Began 2, Ended 2]"

lemma sample_universe: "universe sample_args"
  by (auto simp: universe_def sample_args_def comparison_defs)

lemma sample_initial: "initial sample_start"
  by (simp add: initial_def sample_start_def empty_runtime_def)

lemma sample_runs:
  "perform_all sample_args False [] sample_start = Some (sample_run False [])"
  "perform_all sample_args False apart_tasks sample_start = Some (sample_run False apart_tasks)"
  "perform_all sample_args False finished_tasks_run sample_start = Some (sample_run False finished_tasks_run)"
  "perform_all sample_args False two_tasks sample_start = Some (sample_run False two_tasks)"
  "perform_all sample_args True late_subtask sample_start = Some (sample_run True late_subtask)"
  "perform_all sample_args True early_subtask sample_start = Some (sample_run True early_subtask)"
proof -
  show "perform_all sample_args False [] sample_start = Some (sample_run False [])"
    by (simp add: sample_run_def)
  have "perform_all sample_args False apart_tasks sample_start \<noteq> None" by code_simp
  then show "perform_all sample_args False apart_tasks sample_start = Some (sample_run False apart_tasks)"
    by (auto simp: sample_run_def)
  have "perform_all sample_args False finished_tasks_run sample_start \<noteq> None" by code_simp
  then show "perform_all sample_args False finished_tasks_run sample_start =
      Some (sample_run False finished_tasks_run)"
    by (auto simp: sample_run_def)
  have "perform_all sample_args False two_tasks sample_start \<noteq> None" by code_simp
  then show "perform_all sample_args False two_tasks sample_start = Some (sample_run False two_tasks)"
    by (auto simp: sample_run_def)
  have "perform_all sample_args True late_subtask sample_start \<noteq> None" by code_simp
  then show "perform_all sample_args True late_subtask sample_start = Some (sample_run True late_subtask)"
    by (auto simp: sample_run_def)
  have "perform_all sample_args True early_subtask sample_start \<noteq> None" by code_simp
  then show "perform_all sample_args True early_subtask sample_start = Some (sample_run True early_subtask)"
    by (auto simp: sample_run_def)
qed

lemma sample_reachable:
  "reachable sample_args False (sample_run False two_tasks)"
  "reachable sample_args False (sample_run False apart_tasks)"
  "reachable sample_args True (sample_run True late_subtask)"
  "reachable sample_args True (sample_run True early_subtask)"
  using perform_all_reachable [OF reachable.init [OF sample_initial]] sample_runs by blast+

lemma sample_trace:
  "runs sample_args False two_tasks (sample_run False two_tasks)"
  "runs sample_args False finished_tasks_run (sample_run False finished_tasks_run)"
  using perform_all_runs [OF runs.start [OF sample_initial]] sample_runs by fastforce+

lemma sample_states:
  "live (rts (sample_run False two_tasks)) 1" "live (rts (sample_run False two_tasks)) 2"
  "tqueue (rts (sample_run True late_subtask)) = []" "executing (sample_run True late_subtask) = {}"
  "live (rts (sample_run True late_subtask)) 1" "live (rts (sample_run True late_subtask)) 3"
  by code_simp+

section \<open>The main guarantees\<close>





text \<open>
  C14: A task finishes only when its subtasks have: the father of every task that has not finished
  is itself unfinished, and running. The counter of a task is the number of its unfinished
  subtasks, and one more until its own function has returned.
\<close>

theorem fathers_outlive_subtasks:
  assumes "reachable U nested S" "universe U" "live (rts S) p"
  shows "(\<forall>a. father (item (rts S) p) = Some a \<longrightarrow> live (rts S) a \<and> status (item (rts S) a) = Running) \<and>
         nchildren (item (rts S) p) =
           int (card {c. live (rts S) c \<and> father (item (rts S) c) = Some p}) +
           (if status (item (rts S) p) = Running \<and> p \<notin> executing S then 0 else 1)"
  using sys_inv_member [OF reachable_inv [OF assms(1,2)] assms(3)] by (auto simp: kids_def)

lemma fathers_outlive_subtasks_witness:
  "live (rts (sample_run True late_subtask)) 1 \<and> status (item (rts (sample_run True late_subtask)) 1) = Running"
proof -
  have "father (item (rts (sample_run True late_subtask)) 3) = Some 1" by code_simp
  then show ?thesis
    using fathers_outlive_subtasks [OF sample_reachable(3) sample_universe sample_states(6)] by blast
qed

text \<open>
  A task waits exactly while some unfinished task still has it among its dependents, its
  counter is the number of those tasks, and each of them conflicts with it: no task waits for a
  task it has nothing to do with.
\<close>

theorem waits_for_conflicts_only:
  assumes "reachable U nested S" "universe U" "live (rts S) q"
  shows "ndependencies (item (rts S) q) = int (card (preds (rts S) q)) \<and>
         (status (item (rts S) q) = Waiting \<longleftrightarrow> preds (rts S) q \<noteq> {}) \<and>
         (\<forall>p \<in> preds (rts S) q. live (rts S) p \<and> conflicts (args (item (rts S) p)) (args (item (rts S) q)))"
  using sys_inv_preds [OF reachable_inv [OF assms(1,2)] assms(3)] by blast

lemma waits_for_conflicts_only_witness:
  "ndependencies (item (rts (sample_run False two_tasks)) 2) = int (card (preds (rts (sample_run False two_tasks)) 2)) \<and>
   (status (item (rts (sample_run False two_tasks)) 2) = Waiting) = (preds (rts (sample_run False two_tasks)) 2 \<noteq> {})"
  using waits_for_conflicts_only [OF sample_reachable(1) sample_universe sample_states(2)] by blast

section \<open>Programs whose main thread spawns all the tasks\<close>







text \<open>
  C1: Sequential consistency of a finished program: whatever the functions of the tasks compute,
  as long as they read only the locations of their arguments and write only those they may write,
  the memory after a parallel run, with the effect of each task taking place when it ends, is the
  memory after running the functions one after the other in the order of the calls of \<open>spawn\<close>.
\<close>

theorem parallel_run_is_sequential:
  assumes "runs U False evs S" "universe U" "\<forall>p. \<not> live (rts S) p"
  shows "parallel_memory (task_effect body) evs m = sequential_memory (task_effect body) evs m"
  using assms by (rule all_finished_memory)

lemma parallel_run_is_sequential_witness:
  "parallel_memory (task_effect (\<lambda>f r l. f + the (r l))) finished_tasks_run (\<lambda>_. 5) =
     sequential_memory (task_effect (\<lambda>f r l. f + the (r l))) finished_tasks_run (\<lambda>_. 5)"
proof (rule parallel_run_is_sequential [OF sample_trace(2) sample_universe])
  have "length finished_tasks_run = 3 * length (spawn_list finished_tasks_run)"
    by (simp add: finished_tasks_run_def two_tasks_def)
  then show "\<forall>p. \<not> live (rts (sample_run False finished_tasks_run)) p"
    using run_length(2) [OF sample_trace(2) sample_universe] by blast
qed





section \<open>Programs with subtasks\<close>

text \<open>
  C28: With subtasks a task can be ready although an older task in conflict with it has not finished. A task runs and spawns a subtask on its own
  argument; a third task of the main thread on the same argument is made to wait for the subtask
  only, because the comparison takes the argument off the vector there. When the subtask ends,
  the third task is ready although the first one is still running and conflicts with it.
\<close>

theorem subtasks_break_the_order:
  "\<exists>S. reachable sample_args True S \<and> 1 \<in> executing S \<and> older (rts S) 1 3 \<and>
     status (item (rts S) 3) = Ready \<and> conflicts (args (item (rts S) 1)) (args (item (rts S) 3))"
proof (intro exI conjI)
  let ?S = "sample_run True early_subtask"
  show "reachable sample_args True ?S" by (rule sample_reachable(4))
  show "1 \<in> executing ?S" by code_simp
  show "status (item (rts ?S) 3) = Ready" by code_simp
  have "worklist (rts ?S) = Some 3" "next_of (rts ?S) 3 = Some (Some 2)"
    "next_of (rts ?S) 2 = Some (Some 1)" "next_of (rts ?S) 1 = Some None" by code_simp+
  then show "older (rts ?S) 1 3"
    by (auto simp: older_def before_Cons intro!: exI [of _ "[3, 2, 1]"])
  have a: "args (item (rts ?S) 1) = task_args" "args (item (rts ?S) 3) = task_args" by code_simp+
  show "conflicts (args (item (rts ?S) 1)) (args (item (rts ?S) 3))"
    unfolding a by (simp add: conflicts_def meets_def footprint_scalar)
qed

text \<open>
  C27: With subtasks a program can come to a standstill. The main thread spawns two tasks on one
  argument; the first one spawns a subtask on it, which has to wait for the second task, which
  waits for the first, which is not finished before its subtask is.
\<close>

theorem subtasks_can_deadlock:
  "\<exists>S. reachable sample_args True S \<and> tqueue (rts S) = [] \<and> executing S = {} \<and>
     live (rts S) 1 \<and> live (rts S) 3"
  using sample_reachable(3) sample_states by blast

section \<open>Waiting for tasks\<close>

text \<open>
  C35: The destructor of an \<open>Observer\<close>, interleaved with the rest of the program in any way, never
  reads through a null or dangling pointer and never waits for an eraser that does not come to
  an end, if its limit is \<open>nullptr\<close> or still in the worklist. When it returns, every task that the
  observing task spawned after the limit has finished, with all the tasks these spawned: after
  \<open>wait_for_subtasks\<close> all the descendants of the task, for the main thread all the tasks.
\<close>

theorem observer_waits:
  assumes "reachable U nested S" "universe U" "0 \<le> ObserversAtWork (rts S)"
    and "\<forall>e. safe_end ob = Some e \<longrightarrow> heap (rts S) e \<noteq> None"
    and "observes U nested ob (enter_destructor S) (pc, S')"
  shows "moves ob pc (rts S') \<and> (pc = Over \<longrightarrow> targets ob (rts S') = {})"
  using observes_inv [OF assms(5) enter_inv [OF assms(1-3)] assms(2)] assms(4)
    destructor_moves destructor_over by blast

definition one_subtask :: "event list" where
  "one_subtask = [Spawned 1 0 task_args None, Began 1, Spawned 2 1 task_args (Some 1), Began 2]"

definition at_work :: "sys \<Rightarrow> int \<Rightarrow> sys" where
  "at_work S n = S\<lparr>rts := (rts S)\<lparr>ObserversAtWork := n\<rparr>\<rparr>"

definition subtask_ended :: sys where
  "subtask_ended = the (perform (Ended 2) (at_work (sample_run True one_subtask) 1))"

lemma one_subtask_run:
  "perform_all sample_args True one_subtask sample_start = Some (sample_run True one_subtask)"
  "perform (Ended 2) (at_work (sample_run True one_subtask) 1) = Some subtask_ended"
proof -
  have "perform_all sample_args True one_subtask sample_start \<noteq> None" by code_simp
  then show "perform_all sample_args True one_subtask sample_start = Some (sample_run True one_subtask)"
    by (auto simp: sample_run_def)
  have "perform (Ended 2) (at_work (sample_run True one_subtask) 1) \<noteq> None" by code_simp
  then show "perform (Ended 2) (at_work (sample_run True one_subtask) 1) = Some subtask_ended"
    by (auto simp: subtask_ended_def)
qed

definition seen_at :: "sys \<Rightarrow> wid \<Rightarrow> (wid option \<times> status_t \<times> wid option) option" where
  "seen_at S p = map_option (\<lambda>x. (father x, status x, nxt x)) (heap (rts S) p)"

lemma one_subtask_states:
  "worklist (rts (sample_run True one_subtask)) = Some 2" "ObserversAtWork (rts (sample_run True one_subtask)) = 0"
  "eraser_assigned (rts (sample_run True one_subtask)) = False" "2 \<in> executing (sample_run True one_subtask)"
  "seen_at (sample_run True one_subtask) 1 = Some (None, Running, None)"
  "seen_at (sample_run True one_subtask) 2 = Some (Some 1, Running, Some 1)"
  "worklist (rts subtask_ended) = Some 2" "ObserversAtWork (rts subtask_ended) = 1"
  "seen_at subtask_ended 2 = Some (Some 1, Deallocatable, Some 1)"
  by code_simp+

lemma observer_run:
  "observes sample_args True (task_observer True 1) (enter_destructor (sample_run True one_subtask))
     (Over, at_work subtask_ended 0)"
proof -
  let ?ob = "task_observer True 1" and ?S = "at_work (sample_run True one_subtask) 1"
  let ?T = subtask_ended
  let ?look = "\<lambda>fs p m h. Looking \<lparr>fathers = fs, at = p, must_reiterate = m, helped = h, priority = True\<rparr>"
  let ?busy = "Helping \<lparr>fathers = {Some 2, Some 1}, at = Some 2, must_reiterate = True, helped = False, priority = True\<rparr> True"
  note st = one_subtask_states [unfolded seen_at_def]
  note ob = task_observer_def safe_end_def look_at_def after_help_def end_pass_def new_pass_def at_work_def
  have "observes sample_args True ?ob (enter_destructor (sample_run True one_subtask)) (Spinning, ?S)"
    using observes.here [of sample_args True ?ob "(Spinning, ?S)"] st(2)
    by (simp add: enter_destructor_def at_work_def)
  then have "observes sample_args True ?ob (enter_destructor (sample_run True one_subtask))
      (new_pass True {cur_father ?ob} (rts ?S), ?S)"
    by (rule observes.more) (rule observe.spin, simp add: at_work_def st)
  then have "observes sample_args True ?ob (enter_destructor (sample_run True one_subtask)) (?busy, ?S)"
    unfolding new_pass_def
    by (rule observes.more) (rule observe.look, use st in \<open>auto simp: ob less_Done_iff Let_def\<close>)
  then have "observes sample_args True ?ob (enter_destructor (sample_run True one_subtask)) (?busy, ?T)"
  proof (rule observes.more)
    have "allowed sample_args True (Ended 2) ?S" using st(4) by (simp add: allowed_def at_work_def)
    then have "step sample_args True ?S (Ended 2) ?T" by (rule perform_step [OF _ one_subtask_run(2)])
    then show "observe sample_args True ?ob (?busy, ?S) (?busy, ?T)"
      by (rule observe.prog [rotated]) (simp_all add: concurrent_def task_observer_def)
  qed
  then have "observes sample_args True ?ob (enter_destructor (sample_run True one_subtask))
      (?look {Some 2, Some 1} (Some 1) True True, ?T)"
    by (rule observes.more) (rule observe.assist [where b = True], use st in \<open>auto simp: ob\<close>)
  then have "observes sample_args True ?ob (enter_destructor (sample_run True one_subtask))
      (?look {Some 2, Some 1} (Some 2) False False, ?T\<lparr>rts := rts ?T\<rparr>)"
    by (rule observes.more) (rule observe.pass, use st in \<open>auto simp: ob\<close>)
  then have "observes sample_args True ?ob (enter_destructor (sample_run True one_subtask))
      (?look {Some 2, Some 1} (Some 1) False False, ?T)"
    by (rule observes.more) (simp, rule observe.look, use st in \<open>auto simp: ob less_Done_iff Let_def\<close>)
  then show ?thesis
    by (rule observes.more) (simp add: at_work_def, rule observe.pass, use st in \<open>auto simp: ob\<close>)
qed

lemma observer_waits_witness:
  "moves (task_observer True 1) Over (rts (at_work subtask_ended 0)) \<and>
   targets (task_observer True 1) (rts (at_work subtask_ended 0)) = {}"
proof -
  have r: "reachable sample_args True (sample_run True one_subtask)"
    by (rule perform_all_reachable [OF reachable.init [OF sample_initial] one_subtask_run(1)])
  have h: "\<forall>e. safe_end (task_observer True 1) = Some e \<longrightarrow> heap (rts (sample_run True one_subtask)) e \<noteq> None"
    using one_subtask_states(5) by (auto simp: safe_end_def task_observer_def seen_at_def)
  show ?thesis
    using observer_waits [OF r sample_universe _ h observer_run] one_subtask_states(2) by simp
qed

definition crowd :: "event list" where
  "crowd = [Spawned 1 0 task_args None, Began 1,
     Spawned 2 2 [region 2000 4 True] None, Spawned 3 3 [region 2000 4 True] None,
     Spawned 4 4 [region 2000 4 True] None, Spawned 5 5 [region 2000 4 True] None,
     Spawned 6 6 [region 2000 4 True] None]"

definition crowd_finished :: "event list" where
  "crowd_finished = crowd @ [Spawned 7 1 task_args (Some 1),
     Began 2, Ended 2, Began 7, Began 3, Ended 3, Began 4, Ended 4,
     Began 5, Ended 5, Began 6, Ended 6]"

lemma crowd_runs:
  "perform_all sample_args True crowd sample_start = Some (sample_run True crowd)"
  "perform_all sample_args True crowd_finished sample_start = Some (sample_run True crowd_finished)"
proof -
  show "perform_all sample_args True crowd sample_start = Some (sample_run True crowd)"
  proof -
    have "perform_all sample_args True crowd sample_start \<noteq> None" by code_simp
    then show ?thesis by (auto simp: sample_run_def)
  qed
  have "perform_all sample_args True crowd_finished sample_start \<noteq> None" by code_simp
  then show "perform_all sample_args True crowd_finished sample_start = Some (sample_run True crowd_finished)"
    by (auto simp: sample_run_def)
qed

lemma crowd_states:
  "worklist (rts (sample_run True crowd)) = Some 6" "worklist (rts (sample_run True crowd_finished)) = Some 7"
  "eraser_assigned (rts (sample_run True crowd_finished)) = False"
  "seen_at (sample_run True crowd_finished) 7 = Some (Some 1, Running, Some 1)"
  "seen_at (sample_run True crowd_finished) 1 = Some (None, Running, None)"
  by code_simp+

text \<open>
  The limit of an \<open>Observer\<close> can be freed before its destructor runs. A task creates an
  \<open>Observer\<close> while the newest node of the worklist is a task that the main thread spawned; that
  task and four others finish and \<open>Clean_worklist\<close> cuts all five out, since they are newer than
  a node that stays. The destructor then does not meet its limit, runs over the end of the list
  and reads through a null pointer.
\<close>

theorem observer_limit_can_dangle:
  "\<exists>S1 S l S'. runs sample_args True crowd S1 \<and> runs sample_args True crowd_finished S \<and>
     observes sample_args True (new_observer True (Some 1) (rts S1)) (enter_destructor S) (Looking l, S') \<and>
     \<not> moves (new_observer True (Some 1) (rts S1)) (Looking l) (rts S')"
proof -
  let ?A = "sample_run True crowd" and ?B = "sample_run True crowd_finished"
  let ?S = "?B\<lparr>rts := (rts ?B)\<lparr>ObserversAtWork := ObserversAtWork (rts ?B) + 1\<rparr>\<rparr>"
  let ?ob = "new_observer True (Some 1) (rts ?A)"
  let ?l = "\<lambda>p h. \<lparr>fathers = {Some 7, Some 1}, at = p, must_reiterate = True, helped = h, priority = True\<rparr>"
  note st = crowd_states [unfolded seen_at_def]
  note ob = new_observer_def safe_end_def look_at_def after_help_def new_pass_def moves_def
  have o: "observes sample_args True ?ob (enter_destructor ?B) (Spinning, ?S)"
    unfolding enter_destructor_def by (rule observes.here)
  then have "observes sample_args True ?ob (enter_destructor ?B)
      (new_pass True {cur_father ?ob} (rts ?S), ?S)"
    by (rule observes.more) (rule observe.spin, simp add: st)
  then have "observes sample_args True ?ob (enter_destructor ?B) (Helping (?l (Some 7) False) True, ?S)"
    unfolding new_pass_def
    by (rule observes.more) (rule observe.look, use st in \<open>auto simp: ob less_Done_iff Let_def\<close>)
  then have "observes sample_args True ?ob (enter_destructor ?B) (Looking (?l (Some 1) True), ?S)"
    by (rule observes.more) (rule observe.assist [where b = True], use st in \<open>auto simp: ob\<close>)
  then have "observes sample_args True ?ob (enter_destructor ?B) (Looking (?l None True), ?S)"
    by (rule observes.more) (rule observe.look, use st in \<open>auto simp: ob less_Done_iff Let_def\<close>)
  moreover have "\<not> moves ?ob (Looking (?l None True)) (rts ?S)"
    using st by (simp add: ob)
  moreover have "runs sample_args True crowd ?A" "runs sample_args True crowd_finished ?B"
    using perform_all_runs [OF runs.start [OF sample_initial]] crowd_runs by fastforce+
  ultimately show ?thesis by blast
qed

text \<open>
  When the pool has nothing to do \<open>wait_for_all\<close> gives back every task of the worklist and
  leaves the library as it was before the first spawn, with the threads stopped; the
  \<open>start_master\<close> of the next spawn then starts them again in a state without tasks.
\<close>

theorem wait_for_all_starts_over:
  assumes "reachable U nested S" "universe U" "tqueue (rts S) = []" "executing S = {}"
    and "l = \<lparr>runtime_of = rts S, TP = Running_pool, thr_father = None\<rparr>"
  shows "\<exists>l'. wait_for_all (executing S) l = Some l' \<and> TP l' = Stopped_pool \<and>
           initial \<lparr>rts = runtime_of l', executing = {}\<rparr> \<and>
           (\<exists>l''. start_master l' = Some l'' \<and> TP l'' = Running_pool \<and>
                  initial \<lparr>rts = runtime_of l'', executing = {}\<rparr>)"
  unfolding assms(4) by (rule wait_for_all_initial [OF assms(1-3,5)])

lemma finished_state:
  "tqueue (rts (sample_run False finished_tasks_run)) = []" "executing (sample_run False finished_tasks_run) = {}"
  by code_simp+

lemma wait_for_all_starts_over_witness:
  "\<exists>l'. wait_for_all (executing (sample_run False finished_tasks_run))
          \<lparr>runtime_of = rts (sample_run False finished_tasks_run), TP = Running_pool, thr_father = None\<rparr> = Some l' \<and>
     TP l' = Stopped_pool \<and> initial \<lparr>rts = runtime_of l', executing = {}\<rparr> \<and>
     (\<exists>l''. start_master l' = Some l'' \<and> TP l'' = Running_pool \<and>
            initial \<lparr>rts = runtime_of l'', executing = {}\<rparr>)"
  by (rule wait_for_all_starts_over [OF runs_reachable [OF sample_trace(2)] sample_universe finished_state refl])

end
